(* ===== verification/HF_Prelude.thy ===== *)
theory HF_Prelude
  imports Main "HOL-Library.Word"
begin

text \<open>
  Shared material of the HeapForge development: the machine types of the C sources, the collections
  the component proofs feed to the simplifier, and the generic facts on words and lists that
  several components need.  \<^verbatim>\<open>size_t\<close>, \<^verbatim>\<open>uintptr_t\<close> and \<^verbatim>\<open>uint64_t\<close> are 64-bit words, so every
  \<open>+\<close>, \<open>-\<close> and \<open>*\<close> of a definition wraps exactly as the C expression does.
\<close>

unbundle bit_operations_syntax

type_synonym u8 = "8 word"
type_synonym u32 = "32 word"
type_synonym u64 = "64 word"

text \<open>An address; the null pointer is address 0.\<close>

type_synonym addr = u64

abbreviation NULL :: addr where
  "NULL \<equiv> 0"

text \<open>
  The 8-byte cells of memory, by the address of their first byte.  The allocators that keep
  headers and list nodes in the memory they manage read and write it in cells at multiples of 8.
\<close>

type_synonym cells = "addr \<Rightarrow> u64"

lemmas cell_upd = fun_upd_same fun_upd_other

text \<open>
  The ways a C function of this library stops without returning: a failed \<^verbatim>\<open>assert\<close>, an access
  through a null pointer, or an integer division by zero.
\<close>

datatype abort = Assert_failed | Null_deref | Div_by_zero

type_synonym 'a outcome = "abort + 'a"

text \<open>A computation that may also fail to end, which is \<open>None\<close>.\<close>

type_synonym 'a run = "'a outcome option"

definition run_bind :: "'a run \<Rightarrow> ('a \<Rightarrow> 'b run) \<Rightarrow> 'b run" where
  "run_bind m f = (case m of None \<Rightarrow> None | Some (Inl e) \<Rightarrow> Some (Inl e) | Some (Inr x) \<Rightarrow> f x)"

lemma run_bind_simps [simp]:
  "run_bind None f = None" "run_bind (Some (Inl e)) f = Some (Inl e)" "run_bind (Some (Inr x)) f = f x"
  by (simp_all add: run_bind_def)

named_theorems word_nat \<open>word operations read through \<open>unat\<close>\<close>
named_theorems inv_simps \<open>the parts of component invariants\<close>


subsection \<open>Words as natural numbers\<close>

lemma unat_u64_lt [simp]: "unat (x :: u64) < 18446744073709551616"
  using unsigned_less [of x, where ?'a = nat] by simp

lemma unat_pow2 [simp]: "k < LENGTH('a) \<Longrightarrow> unat (2 ^ k :: 'a::len word) = 2 ^ k"
  by (metis unat_of_nat of_nat_numeral of_nat_power mod_less power_strict_increasing_iff
      one_less_numeral_iff semiring_norm(76))

lemma unat_add_nowrap [word_nat]:
  "unat x + unat y < 2 ^ LENGTH('a) \<Longrightarrow> unat (x + y :: 'a::len word) = unat x + unat y"
  by (simp add: unat_word_ariths)

lemma unat_mult_nowrap [word_nat]:
  "unat x * unat y < 2 ^ LENGTH('a) \<Longrightarrow> unat (x * y :: 'a::len word) = unat x * unat y"
  by (simp add: unat_word_ariths)

lemma unat_sub_nowrap [word_nat]:
  "unat y \<le> unat x \<Longrightarrow> unat (x - y :: 'a::len word) = unat x - unat y"
  by (simp add: unat_sub_if')

lemma pow2_minus_1_mask: "(2 ^ k :: 'a::len word) - 1 = mask k"
  by (simp add: mask_eq_exp_minus_1)

lemma and_not_mask_eq: "(w :: 'a::len word) AND NOT (mask k) = push_bit k (drop_bit k w)"
  by (rule bit_word_eqI) (auto simp: bit_simps)

lemma unat_drop_bit_div: "unat (drop_bit k (w :: 'a::len word)) = unat w div 2 ^ k"
  unfolding unat_drop_bit_eq by (rule drop_bit_eq_div)

lemma unat_push_drop_bit: "unat (push_bit k (drop_bit k (w :: 'a::len word))) = unat w div 2 ^ k * 2 ^ k"
proof -
  have "unat (drop_bit k w) * 2 ^ k \<le> unat w"
    by (simp only: unat_drop_bit_div div_times_less_eq_dividend)
  also have "unat w < 2 ^ LENGTH('a)"
    by (rule unsigned_less)
  finally have "unat (drop_bit k w) * 2 ^ k mod 2 ^ LENGTH('a) = unat (drop_bit k w) * 2 ^ k"
    by simp
  moreover have "unat (push_bit k (drop_bit k w)) = unat (drop_bit k w) * 2 ^ k mod 2 ^ LENGTH('a)"
    unfolding unsigned_push_bit_eq by (simp only: take_bit_eq_mod push_bit_eq_mult)
  ultimately show ?thesis
    by (simp only: unat_drop_bit_div)
qed

lemma unat_and_not_mask:
  "unat ((w :: 'a::len word) AND NOT (mask k)) = unat w div 2 ^ k * 2 ^ k"
  by (simp only: and_not_mask_eq unat_push_drop_bit)

lemma unat_of_nat_small [word_nat]: "n < 2 ^ LENGTH('a) \<Longrightarrow> unat (of_nat n :: 'a::len word) = n"
  by (simp add: unat_of_nat)

lemma word_eq_unatI: "unat (x :: 'a::len word) = unat y \<Longrightarrow> x = y"
  by (simp add: word_unat_eq_iff)


subsection \<open>Arithmetic of multiples\<close>

lemma round_up_bounds:
  fixes n m :: nat
  assumes "0 < m"
  shows "n \<le> (n + m - 1) div m * m" and "(n + m - 1) div m * m < n + m"
proof -
  have eq: "(n + m - 1) div m * m + (n + m - 1) mod m = n + m - 1"
    by (rule div_mult_mod_eq)
  have lt: "(n + m - 1) mod m < m"
    using assms by simp
  show "n \<le> (n + m - 1) div m * m"
    using eq lt assms by linarith
  show "(n + m - 1) div m * m < n + m"
    using eq assms by linarith
qed

lemma round_up_id:
  fixes n m :: nat
  assumes "0 < m" and "m dvd n"
  shows "(n + m - 1) div m * m = n"
proof -
  from assms(2) obtain q where "n = m * q" ..
  then have "(n + m - 1) div m = q"
    using assms(1) by (intro div_nat_eqI) (auto simp: algebra_simps)
  then show ?thesis
    using \<open>n = m * q\<close> by simp
qed



subsection \<open>Packing disjoint ranges\<close>

lemma map_eqI:
  assumes "\<And>k v. f k = Some v \<longleftrightarrow> g k = Some v"
  shows "f = g"
proof (rule ext)
  fix k
  show "f k = g k"
  proof (cases "f k")
    case None
    then show ?thesis using assms [of k "the (g k)"] by (cases "g k") simp_all
  next
    case (Some v)
    then show ?thesis using assms [of k v] by simp
  qed
qed

lemma map_of_functional:
  assumes "\<And>v w. (k, v) \<in> set xs \<Longrightarrow> (k, w) \<in> set xs \<Longrightarrow> v = w"
  shows "map_of xs k = Some v \<longleftrightarrow> (k, v) \<in> set xs"
proof
  assume "(k, v) \<in> set xs"
  then obtain w where "map_of xs k = Some w" by (metis weak_map_of_SomeI)
  then show "map_of xs k = Some v" using assms \<open>(k, v) \<in> set xs\<close> map_of_SomeD by metis
qed (rule map_of_SomeD)

lemma packed_ranges:
  fixes S :: "nat set"
  assumes "finite S" and "\<forall>x \<in> S. x + d \<le> M" and "\<forall>x \<in> S. \<forall>y \<in> S. x < y \<longrightarrow> x + d \<le> y"
  shows "card S * d \<le> M"
  using assms
proof (induction S arbitrary: M rule: finite_linorder_max_induct)
  case (insert b A)
  have "card A * d \<le> b" using insert by (intro insert.IH) auto
  moreover have "b \<notin> A" using insert.hyps(2) by blast
  ultimately show ?case using insert.hyps(1) insert.prems(1) by (simp add: add_mult_distrib)
qed simp

end
