(* ===== verification/HF_Platform.thy ===== *)
theory HF_Platform
  imports HF_Prelude
begin

text \<open>
  The bit-twiddling helpers of \<^verbatim>\<open>hf_platform.h\<close>: rounding up to a power-of-two alignment, the
  power-of-two test, the next power of two by bit smearing, and the integer logarithm.  Each is
  written on 64-bit words, as the C code is; the lemmas give their meaning on natural numbers
  together with the range where the C expressions do not wrap.
\<close>

definition HF_DEFAULT_ALIGN :: u64 where
  "HF_DEFAULT_ALIGN = 16"

definition hf_align_up :: "u64 \<Rightarrow> u64 \<Rightarrow> u64" where
  "hf_align_up n align = (n + align - 1) AND NOT (align - 1)"

definition hf_is_pow2 :: "u64 \<Rightarrow> bool" where
  "hf_is_pow2 n \<longleftrightarrow> n \<noteq> 0 \<and> n AND (n - 1) = 0"

definition hf_next_pow2 :: "u64 \<Rightarrow> u64" where
  "hf_next_pow2 n =
     (if n \<le> 1 then 1
      else let n = n - 1;
               n = n OR drop_bit 1 n; n = n OR drop_bit 2 n; n = n OR drop_bit 4 n;
               n = n OR drop_bit 8 n; n = n OR drop_bit 16 n; n = n OR drop_bit 32 n
           in n + 1)"

text \<open>The loop \<^verbatim>\<open>while (n >>= 1) ++r\<close>: the shift comes before the test.\<close>

function log2_loop :: "u64 \<Rightarrow> nat \<Rightarrow> nat" where
  "log2_loop n r = (let n = drop_bit 1 n in if n \<noteq> 0 then log2_loop n (r + 1) else r)"
  by pat_completeness auto
termination
proof (relation "measure (\<lambda>(n, r). unat n)")
  fix n m :: u64 and r :: nat
  assume "m = drop_bit 1 n" and "m \<noteq> 0"
  then have "unat m = unat n div 2"
    using unat_drop_bit_div [of 1 n] by simp
  moreover from \<open>m \<noteq> 0\<close> have "0 < unat m"
    by (rule unat_gt_0 [THEN iffD2])
  ultimately have "unat m < unat n"
    by linarith
  then show "((m, r + 1), (n, r)) \<in> measure (\<lambda>(n, r). unat n)"
    by simp
qed simp

definition hf_log2_floor :: "u64 \<Rightarrow> nat" where
  "hf_log2_floor n = log2_loop n 0"

declare log2_loop.simps [simp del]


subsection \<open>Rounding up\<close>

lemma unat_hf_align_up:
  assumes "k < 64" and "unat n + 2 ^ k \<le> 2 ^ 64"
  shows "unat (hf_align_up n (2 ^ k)) = (unat n + 2 ^ k - 1) div 2 ^ k * 2 ^ k"
proof -
  have "unat (n + (2 ^ k - 1)) = unat n + (2 ^ k - 1)"
    using assms by (simp add: unat_add_nowrap unat_sub_nowrap)
  then have "unat (n + 2 ^ k - 1) = unat n + 2 ^ k - 1"
    by (simp add: algebra_simps)
  then show ?thesis
    by (simp add: hf_align_up_def pow2_minus_1_mask unat_and_not_mask)
qed

lemma hf_align_up_bounds:
  assumes "k < 64" and "unat n + 2 ^ k \<le> 2 ^ 64"
  shows "unat n \<le> unat (hf_align_up n (2 ^ k))"
    and "unat (hf_align_up n (2 ^ k)) < unat n + 2 ^ k"
    and "2 ^ k dvd unat (hf_align_up n (2 ^ k))"
  using round_up_bounds [of "2 ^ k" "unat n"] by (simp_all add: unat_hf_align_up [OF assms])

lemma hf_align_up_id:
  assumes "k < 64" and "unat n + 2 ^ k \<le> 2 ^ 64" and "2 ^ k dvd unat n"
  shows "hf_align_up n (2 ^ k) = n"
proof (rule word_eq_unatI)
  show "unat (hf_align_up n (2 ^ k)) = unat n"
    unfolding unat_hf_align_up [OF assms(1,2)] by (rule round_up_id) (use assms(3) in simp_all)
qed

lemma hf_align_up_dvd: "2 ^ k dvd unat (hf_align_up n (2 ^ k))"
  by (simp add: hf_align_up_def pow2_minus_1_mask unat_and_not_mask)

lemma hf_align_up_idem:
  assumes "k < 64"
  shows "hf_align_up (hf_align_up n (2 ^ k)) (2 ^ k) = hf_align_up n (2 ^ k)"
proof -
  let ?n = "hf_align_up n (2 ^ k)"
  obtain q where q: "unat ?n = 2 ^ k * q" using hf_align_up_dvd by (rule dvdE)
  have "(2::nat) ^ 64 = 2 ^ k * 2 ^ (64 - k)" using assms by (simp flip: power_add)
  moreover have "unat ?n < 2 ^ 64" by simp
  ultimately have "2 ^ k * q < 2 ^ k * 2 ^ (64 - k)" using q by argo
  then have "q + 1 \<le> 2 ^ (64 - k)" by simp
  then have "2 ^ k * (q + 1) \<le> 2 ^ k * 2 ^ (64 - k)" by (rule mult_le_mono2)
  then have "unat ?n + 2 ^ k \<le> 2 ^ 64" using q \<open>(2::nat) ^ 64 = _\<close> by (simp only: distrib_left mult_1_right)
  then show ?thesis using assms hf_align_up_dvd by (intro hf_align_up_id)
qed

lemma hf_align_up_16: "unat n + 16 \<le> 2 ^ 64 \<Longrightarrow> unat (hf_align_up n 16) = (unat n + 15) div 16 * 16"
  using unat_hf_align_up [of 4 n] by simp


subsection \<open>The power-of-two test\<close>

lemma top_bit_exists:
  fixes n :: u64
  assumes "n \<noteq> 0"
  obtains k where "k < 64" and "2 ^ k \<le> unat n" and "unat n < 2 ^ Suc k"
proof -
  have "\<exists>k. unat n < 2 ^ Suc k"
    by (rule exI [of _ 63]) simp
  then have ex: "\<exists>k. unat n < 2 ^ Suc k \<and> (\<forall>j<k. \<not> unat n < 2 ^ Suc j)"
    by (rule exists_least_iff [THEN iffD1])
  then obtain k where k: "unat n < 2 ^ Suc k" "\<forall>j<k. \<not> unat n < 2 ^ Suc j"
    by blast
  have "2 ^ k \<le> unat n"
  proof (cases k)
    case 0
    then show ?thesis using assms by (simp add: unat_gt_0 Suc_le_eq)
  next
    case (Suc j)
    then show ?thesis using k(2) by (simp add: not_less)
  qed
  moreover have "k < 64"
  proof (rule ccontr)
    assume "\<not> k < 64"
    then have "63 < k" by simp
    with k(2) have "\<not> unat n < 2 ^ Suc 63" by blast
    then show False by simp
  qed
  ultimately show ?thesis using k(1) that by blast
qed

lemma bit_top:
  fixes n :: u64
  assumes "2 ^ k \<le> unat n" and "unat n < 2 ^ Suc k"
  shows "bit n k"
proof -
  have "unat n div 2 ^ k = 1"
    using assms by (intro div_nat_eqI) simp_all
  then have "odd (unat n div 2 ^ k)" by simp
  then have "bit (unat n) k" by (simp add: bit_iff_odd)
  then show ?thesis by (simp add: bit_unsigned_iff)
qed

lemma hf_is_pow2_iff: "hf_is_pow2 n \<longleftrightarrow> (\<exists>k<64. n = 2 ^ k)"
proof
  assume pow: "hf_is_pow2 n"
  then have "n \<noteq> 0" by (simp add: hf_is_pow2_def)
  then obtain k where k: "k < 64" "2 ^ k \<le> unat n" "unat n < 2 ^ Suc k"
    by (rule top_bit_exists)
  have "unat n = 2 ^ k"
  proof (rule ccontr)
    assume "unat n \<noteq> 2 ^ k"
    then have "2 ^ k \<le> unat (n - 1)" and "unat (n - 1) < 2 ^ Suc k"
      using k \<open>n \<noteq> 0\<close> by (simp_all add: unat_minus_one)
    then have "bit (n - 1) k" by (rule bit_top)
    moreover have "bit n k" using k(2,3) by (rule bit_top)
    ultimately have "bit (n AND (n - 1)) k" by (simp add: bit_and_iff)
    then show False using pow by (simp add: hf_is_pow2_def)
  qed
  then have "n = 2 ^ k"
    using k(1) by (intro word_eq_unatI) simp
  with k(1) show "\<exists>k<64. n = 2 ^ k" by blast
next
  assume "\<exists>k<64. n = 2 ^ k"
  then obtain k where k: "k < 64" "n = 2 ^ k" by blast
  have "n AND (n - 1) = 0"
    by (rule bit_word_eqI) (auto simp: k(2) pow2_minus_1_mask bit_simps)
  moreover have "unat n = 2 ^ k"
    using k by simp
  then have "n \<noteq> 0"
    by (intro notI) simp
  ultimately show "hf_is_pow2 n"
    by (simp add: hf_is_pow2_def)
qed


subsection \<open>The next power of two\<close>

text \<open>
  Smearing: when the bits of \<open>x\<close> are the bits of \<open>n\<close> spread downwards over a window of \<open>s\<close>
  positions, one more step doubles the window.
\<close>

lemma smear_step:
  fixes n x :: u64
  assumes "\<And>i. bit x i \<longleftrightarrow> (\<exists>d < s. bit n (i + d))"
  shows "bit (x OR drop_bit s x) i \<longleftrightarrow> (\<exists>d < 2 * s. bit n (i + d))"
proof -
  have "(\<exists>d < 2 * s. bit n (i + d)) \<longleftrightarrow> (\<exists>d < s. bit n (i + d)) \<or> (\<exists>d < s. bit n (i + s + d))"
  proof
    assume "\<exists>d < 2 * s. bit n (i + d)"
    then obtain d where d: "d < 2 * s" "bit n (i + d)" by blast
    show "(\<exists>d < s. bit n (i + d)) \<or> (\<exists>d < s. bit n (i + s + d))"
    proof (cases "d < s")
      case False
      then have "d - s < s" and "bit n (i + s + (d - s))" using d by simp_all
      then show ?thesis by blast
    qed (use d in blast)
  next
    assume "(\<exists>d < s. bit n (i + d)) \<or> (\<exists>d < s. bit n (i + s + d))"
    then obtain d where "d < s" and "bit n (i + d) \<or> bit n (i + (s + d))"
      by (auto simp: add.assoc)
    then have "d < 2 * s" and "s + d < 2 * s" and "bit n (i + d) \<or> bit n (i + (s + d))"
      by simp_all
    then show "\<exists>d < 2 * s. bit n (i + d)"
      by blast
  qed
  then show ?thesis
    by (simp add: bit_or_iff bit_drop_bit_eq assms add.commute add.left_commute)
qed

lemma smear_full:
  fixes n :: u64
  assumes "2 ^ k \<le> unat n" and "unat n < 2 ^ Suc k" and "k < 64"
  shows "(\<exists>d<64. bit n (i + d)) \<longleftrightarrow> i \<le> k"
proof
  assume "\<exists>d<64. bit n (i + d)"
  then obtain d where "bit n (i + d)" by blast
  then have "bit (unat n) (i + d)" by (simp add: bit_unsigned_iff)
  then have "2 ^ (i + d) \<le> unat n"
    by (metis bit_iff_odd div_less even_zero not_less)
  then have "2 ^ (i + d) < (2::nat) ^ Suc k"
    using assms(2) by (rule le_less_trans)
  then have "i + d < Suc k"
    by (rule power_less_imp_less_exp [rotated]) simp
  then show "i \<le> k" by simp
next
  assume "i \<le> k"
  then have "k - i < 64" and "bit n (i + (k - i))"
    using assms bit_top by simp_all
  then show "\<exists>d<64. bit n (i + d)" by blast
qed

lemma smeared_is_mask:
  fixes n :: u64
  assumes "2 ^ k \<le> unat n" and "unat n < 2 ^ Suc k" and "k < 64"
  shows "(let n = n OR drop_bit 1 n; n = n OR drop_bit 2 n; n = n OR drop_bit 4 n;
              n = n OR drop_bit 8 n; n = n OR drop_bit 16 n; n = n OR drop_bit 32 n
          in n) = mask (Suc k)"
proof -
  define s0 where "s0 = n"
  define s1 where "s1 = s0 OR drop_bit 1 s0"
  define s2 where "s2 = s1 OR drop_bit 2 s1"
  define s3 where "s3 = s2 OR drop_bit 4 s2"
  define s4 where "s4 = s3 OR drop_bit 8 s3"
  define s5 where "s5 = s4 OR drop_bit 16 s4"
  define s6 where "s6 = s5 OR drop_bit 32 s5"
  have "bit s0 i \<longleftrightarrow> (\<exists>d<1. bit n (i + d))" for i by (simp add: s0_def)
  then have "bit s1 i \<longleftrightarrow> (\<exists>d<2. bit n (i + d))" for i
    unfolding s1_def by (subst smear_step) simp_all
  then have "bit s2 i \<longleftrightarrow> (\<exists>d<4. bit n (i + d))" for i
    unfolding s2_def by (subst smear_step) simp_all
  then have "bit s3 i \<longleftrightarrow> (\<exists>d<8. bit n (i + d))" for i
    unfolding s3_def by (subst smear_step) simp_all
  then have "bit s4 i \<longleftrightarrow> (\<exists>d<16. bit n (i + d))" for i
    unfolding s4_def by (subst smear_step) simp_all
  then have "bit s5 i \<longleftrightarrow> (\<exists>d<32. bit n (i + d))" for i
    unfolding s5_def by (subst smear_step) simp_all
  then have "bit s6 i \<longleftrightarrow> (\<exists>d<64. bit n (i + d))" for i
    unfolding s6_def by (subst smear_step) simp_all
  then have "bit s6 i \<longleftrightarrow> i \<le> k" for i
    by (simp add: smear_full [OF assms])
  then have "s6 = mask (Suc k)"
    by (intro bit_word_eqI) (auto simp: bit_mask_iff less_Suc_eq_le)
  then show ?thesis
    by (simp add: Let_def s0_def s1_def s2_def s3_def s4_def s5_def s6_def)
qed

lemma hf_next_pow2_eq:
  assumes "2 ^ k < unat n" and "unat n \<le> 2 ^ Suc k" and "k < 64"
  shows "hf_next_pow2 n = 2 ^ Suc k"
proof -
  have "1 < unat n"
    using assms(1) by (metis le_less_trans one_le_numeral one_le_power)
  then have n: "\<not> n \<le> 1" "n \<noteq> 0"
    by (auto simp: word_le_nat_alt)
  have "2 ^ k \<le> unat (n - 1)" and "unat (n - 1) < 2 ^ Suc k"
    using assms \<open>1 < unat n\<close> by (simp_all add: unat_minus_one [OF n(2)])
  from smeared_is_mask [OF this assms(3)] show ?thesis
    using n(1) by (simp add: hf_next_pow2_def Let_def mask_eq_exp_minus_1)
qed

lemma hf_next_pow2_pow2:
  assumes "k < 64"
  shows "hf_next_pow2 (2 ^ k) = 2 ^ k"
proof (cases k)
  case 0
  then show ?thesis by (simp add: hf_next_pow2_def)
next
  case (Suc j)
  have "unat (2 ^ k :: u64) = 2 ^ k" using assms by simp
  then show ?thesis
    using hf_next_pow2_eq [of j "2 ^ k"] assms Suc by simp
qed


subsection \<open>The integer logarithm\<close>

lemma log2_loop_spec:
  "n \<noteq> 0 \<Longrightarrow> \<exists>k. log2_loop n r = r + k \<and> 2 ^ k \<le> unat n \<and> unat n < 2 ^ Suc k"
proof (induction n r rule: log2_loop.induct)
  case (1 n r)
  let ?m = "drop_bit 1 n"
  have half: "unat ?m = unat n div 2"
    using unat_drop_bit_div [of 1 n] by simp
  show ?case
  proof (cases "?m = 0")
    case True
    then have "unat n div 2 = 0" using half by simp
    then have "unat n < 2" by simp
    moreover have "0 < unat n" using "1.prems" by (simp add: unat_gt_0)
    ultimately have "log2_loop n r = r + 0 \<and> 2 ^ 0 \<le> unat n \<and> unat n < 2 ^ Suc 0"
      using True by (simp add: log2_loop.simps [of n r])
    then show ?thesis by blast
  next
    case False
    with "1.IH" [OF refl] obtain k
      where k: "log2_loop ?m (r + 1) = r + 1 + k" "2 ^ k \<le> unat ?m" "unat ?m < 2 ^ Suc k"
      by auto
    from k(2,3) have "2 ^ Suc k \<le> unat n" and "unat n < 2 ^ Suc (Suc k)"
      unfolding half by simp_all
    moreover have "log2_loop n r = r + Suc k"
      using False k(1) by (simp add: log2_loop.simps [of n r])
    ultimately show ?thesis by blast
  qed
qed

lemma hf_log2_floor_bounds:
  assumes "n \<noteq> 0"
  shows "2 ^ hf_log2_floor n \<le> unat n" and "unat n < 2 ^ Suc (hf_log2_floor n)"
  using log2_loop_spec [OF assms, of 0] by (auto simp: hf_log2_floor_def)

lemma hf_log2_floor_unique:
  assumes "2 ^ k \<le> unat n" and "unat n < 2 ^ Suc k"
  shows "hf_log2_floor n = k"
proof -
  have "n \<noteq> 0" using assms(1) by (metis unat_0 not_one_le_zero one_le_numeral one_le_power order_trans)
  note b = hf_log2_floor_bounds [OF this]
  have "(2::nat) ^ hf_log2_floor n < 2 ^ Suc k" using b(1) assms(2) by (rule le_less_trans)
  then have "hf_log2_floor n < Suc k" by (rule power_less_imp_less_exp [rotated]) simp
  moreover have "(2::nat) ^ k < 2 ^ Suc (hf_log2_floor n)" using assms(1) b(2) by (rule le_less_trans)
  then have "k < Suc (hf_log2_floor n)" by (rule power_less_imp_less_exp [rotated]) simp
  ultimately show ?thesis by simp
qed

lemma hf_log2_floor_pow2 [simp]: "k < 64 \<Longrightarrow> hf_log2_floor (2 ^ k) = k"
  by (rule hf_log2_floor_unique) simp_all

lemma hf_log2_floor_lt: "hf_log2_floor n < 64"
proof (cases "n = 0")
  case True
  then show ?thesis by (simp add: hf_log2_floor_def log2_loop.simps)
next
  case False
  have "2 ^ hf_log2_floor n \<le> unat n"
    using False by (rule hf_log2_floor_bounds)
  also have "unat n < 2 ^ 64"
    by simp
  finally have "(2::nat) ^ hf_log2_floor n < 2 ^ 64" .
  then show ?thesis
    by (rule power_less_imp_less_exp [rotated]) simp
qed


lemma between_powers:
  fixes n :: u64
  assumes "1 < unat n"
  obtains k where "k < 64" and "2 ^ k < unat n" and "unat n \<le> 2 ^ Suc k"
proof -
  have n1: "unat (n - 1) = unat n - 1" using assms by (simp add: unat_sub_nowrap)
  then have "n - 1 \<noteq> 0" using assms by (intro notI) simp
  then obtain k where "k < 64" "2 ^ k \<le> unat (n - 1)" "unat (n - 1) < 2 ^ Suc k"
    by (rule top_bit_exists)
  then show ?thesis using n1 assms by (intro that [of k]) simp_all
qed

lemma hf_next_pow2_exponent:
  assumes "n \<noteq> 0" and "n \<le> 2 ^ 63"
  obtains j where "j < 64" and "hf_next_pow2 n = 2 ^ j" and "unat n \<le> 2 ^ j"
    and "j = 0 \<or> 2 ^ (j - 1) < unat n"
proof (cases "unat n = 1")
  case True
  then have "n = 1" by (simp add: word_eq_unatI)
  then show ?thesis by (intro that [of 0]) (simp_all add: hf_next_pow2_def)
next
  case False
  moreover have "0 < unat n" using assms(1) by (simp add: unat_gt_0)
  ultimately have "1 < unat n" by simp
  then obtain k where k: "k < 64" "2 ^ k < unat n" "unat n \<le> 2 ^ Suc k"
    by (rule between_powers)
  have "unat n \<le> 2 ^ 63" using assms(2) by (simp add: word_le_nat_alt)
  with k(2) have "(2::nat) ^ k < 2 ^ 63" by (rule less_le_trans)
  then have "k < 63" by (rule power_less_imp_less_exp [rotated]) simp
  then show ?thesis
    using k hf_next_pow2_eq [OF k(2,3,1)] by (intro that [of "Suc k"]) simp_all
qed

lemma hf_next_pow2_above:
  assumes "2 ^ 63 < n"
  shows "hf_next_pow2 n = 0"
proof -
  have n: "2 ^ 63 < unat n" using assms by (simp add: word_less_nat_alt)
  have "unat n \<le> 18446744073709551616" by (rule less_imp_le [OF unat_u64_lt])
  then have "unat n \<le> 2 ^ Suc 63" by simp
  from hf_next_pow2_eq [OF n this] show ?thesis by (simp add: word_eq_unatI)
qed


subsection \<open>Properties\<close>

text \<open>
  Whenever the C expression does not wrap, \<^verbatim>\<open>hf_align_up\<close> with a power-of-two alignment returns
  the least multiple of the alignment that is at least its argument.
\<close>

theorem hf_align_up_least:
  assumes "k < 64" and "unat n + 2 ^ k \<le> 2 ^ 64"
  shows "2 ^ k dvd unat (hf_align_up n (2 ^ k)) \<and> unat n \<le> unat (hf_align_up n (2 ^ k)) \<and>
    (\<forall>m. 2 ^ k dvd m \<longrightarrow> unat n \<le> m \<longrightarrow> unat (hf_align_up n (2 ^ k)) \<le> m)"
proof -
  note b = hf_align_up_bounds [OF assms]
  have "unat (hf_align_up n (2 ^ k)) \<le> m" if "2 ^ k dvd m" and "unat n \<le> m" for m
  proof (rule ccontr)
    assume "\<not> unat (hf_align_up n (2 ^ k)) \<le> m"
    then have lt: "m < unat (hf_align_up n (2 ^ k))" by simp
    moreover have "2 ^ k dvd unat (hf_align_up n (2 ^ k)) - m"
      using b(3) that(1) by (rule dvd_diff_nat)
    ultimately have "2 ^ k \<le> unat (hf_align_up n (2 ^ k)) - m"
      by (intro dvd_imp_le) simp_all
    then show False using b(2) that(2) lt by linarith
  qed
  then show ?thesis using b by blast
qed

theorem hf_align_up_least_witness:
  "(4::nat) < 64 \<and> unat (100::u64) + 2 ^ 4 \<le> 2 ^ 64 \<and> 2 ^ 4 dvd unat (hf_align_up 100 (2 ^ 4))"
  using hf_align_up_least [of 4 100] by simp

text \<open>
  For every argument from 1 to \<open>2 ^ 63\<close>, \<^verbatim>\<open>hf_next_pow2\<close> returns the least power of two that is
  at least its argument, and \<^verbatim>\<open>hf_log2_floor\<close> recovers the exponent of the result exactly.
\<close>

theorem hf_next_pow2_least:
  assumes "n \<noteq> 0" and "n \<le> 2 ^ 63"
  shows "\<exists>j < 64. hf_next_pow2 n = 2 ^ j \<and> hf_is_pow2 (hf_next_pow2 n) \<and>
    hf_log2_floor (hf_next_pow2 n) = j \<and> unat n \<le> 2 ^ j \<and> (\<forall>i. unat n \<le> 2 ^ i \<longrightarrow> j \<le> i)"
proof -
  obtain j where j: "j < 64" "hf_next_pow2 n = 2 ^ j" "unat n \<le> 2 ^ j" "j = 0 \<or> 2 ^ (j - 1) < unat n"
    using assms by (rule hf_next_pow2_exponent)
  have "j \<le> i" if "unat n \<le> 2 ^ i" for i
  proof (cases "j = 0")
    case False
    with j(4) have "2 ^ (j - 1) < unat n" by simp
    then have "(2::nat) ^ (j - 1) < 2 ^ i" using that by (rule less_le_trans)
    then have "j - 1 < i" by simp
    then show ?thesis by simp
  qed simp
  moreover have "hf_is_pow2 (2 ^ j)" using j(1) hf_is_pow2_iff by blast
  ultimately show ?thesis using j by auto
qed

theorem hf_next_pow2_least_witness:
  "(100::u64) \<noteq> 0 \<and> (100::u64) \<le> 2 ^ 63 \<and> hf_is_pow2 (hf_next_pow2 100)"
  using hf_next_pow2_least [of 100] by auto

text \<open>
  Above \<open>2 ^ 63\<close> the final increment of \<^verbatim>\<open>hf_next_pow2\<close> wraps, and the result is zero, which
  is smaller than the argument and not a power of two.
\<close>

theorem hf_next_pow2_wraps:
  assumes "2 ^ 63 < n"
  shows "hf_next_pow2 n = 0 \<and> \<not> hf_is_pow2 (hf_next_pow2 n)"
  using hf_next_pow2_above [OF assms] by (simp add: hf_is_pow2_def)

theorem hf_next_pow2_wraps_witness:
  "(2::u64) ^ 63 < 2 ^ 63 + 1 \<and> hf_next_pow2 (2 ^ 63 + 1) = 0"
  using hf_next_pow2_wraps [of "2 ^ 63 + 1"] by simp

end
