(* ===== verification/HF_Allocator.thy ===== *)
theory HF_Allocator
  imports HF_Platform
begin

text \<open>
  The common allocator interface of \<^verbatim>\<open>hf_allocator.h\<close>: statistics, layout entries, the virtual
  table and its generic dispatch; the operating-system services of \<^verbatim>\<open>hf_platform.h\<close> the allocators
  are built on; and the two contracts, stated as locales, that every allocation strategy is
  proved to satisfy and that the decorators and the analyzer rely on.
\<close>

record hf_block_info =
  bi_offset :: u64
  bi_size :: u64
  bi_is_free :: bool

record hf_stats =
  hs_capacity :: u64
  hs_used :: u64
  hs_peak_used :: u64
  hs_alloc_calls :: u64
  hs_free_calls :: u64
  hs_failed_allocs :: u64

definition stats_zero :: hf_stats where
  "stats_zero = \<lparr>hs_capacity = 0, hs_used = 0, hs_peak_used = 0, hs_alloc_calls = 0,
     hs_free_calls = 0, hs_failed_allocs = 0\<rparr>"

text \<open>The counter updates the C functions perform under their mutex.\<close>

definition count_alloc :: "hf_stats \<Rightarrow> hf_stats" where
  "count_alloc st = st\<lparr>hs_alloc_calls := hs_alloc_calls st + 1\<rparr>"

definition count_free :: "hf_stats \<Rightarrow> hf_stats" where
  "count_free st = st\<lparr>hs_free_calls := hs_free_calls st + 1\<rparr>"

definition count_failed :: "hf_stats \<Rightarrow> hf_stats" where
  "count_failed st = st\<lparr>hs_failed_allocs := hs_failed_allocs st + 1\<rparr>"

definition set_used :: "u64 \<Rightarrow> hf_stats \<Rightarrow> hf_stats" where
  "set_used u st = st\<lparr>hs_used := u\<rparr>"

definition raise_peak :: "hf_stats \<Rightarrow> hf_stats" where
  "raise_peak st =
     (if hs_used st > hs_peak_used st then st\<lparr>hs_peak_used := hs_used st\<rparr> else st)"

lemmas stats_defs = count_alloc_def count_free_def count_failed_def set_used_def raise_peak_def

lemma stats_used [simp]:
  "hs_used (count_alloc st) = hs_used st"
  "hs_used (count_free st) = hs_used st"
  "hs_used (count_failed st) = hs_used st"
  "hs_used (set_used u st) = u"
  "hs_used (raise_peak st) = hs_used st"
  by (simp_all add: stats_defs)

lemma stats_capacity [simp]:
  "hs_capacity (count_alloc st) = hs_capacity st"
  "hs_capacity (count_free st) = hs_capacity st"
  "hs_capacity (count_failed st) = hs_capacity st"
  "hs_capacity (set_used u st) = hs_capacity st"
  "hs_capacity (raise_peak st) = hs_capacity st"
  by (simp_all add: stats_defs)

lemma raise_peak_ge: "hs_used st \<le> hs_peak_used (raise_peak st)"
  by (simp add: raise_peak_def not_less)


subsection \<open>Operating-system services\<close>

text \<open>
  \<^verbatim>\<open>mmap\<close>, \<^verbatim>\<open>calloc\<close> and the page size are not part of the repository: they are fields of a record
  the constructors take as an argument.  \<open>os_mmap\<close> is the kernel's answer to the one mapping request
  a constructor makes (the length it is given is already a multiple of the page size), and
  \<open>os_calloc i\<close> says whether the constructor's \<open>i\<close>-th \<^verbatim>\<open>calloc\<close> succeeds.
\<close>

record os_services =
  os_page_size :: u64
  os_mmap :: "u64 \<Rightarrow> addr option"
  os_calloc :: "nat \<Rightarrow> bool"

text \<open>The mapping calls a function makes, in order.\<close>

datatype vm_call = Vm_reserve u64 "addr option" | Vm_release addr u64

definition hf_vm_reserve :: "os_services \<Rightarrow> u64 \<Rightarrow> vm_call list \<times> addr option" where
  "hf_vm_reserve os sz =
     (let sz = hf_align_up sz (os_page_size os) in ([Vm_reserve sz (os_mmap os sz)], os_mmap os sz))"

definition hf_vm_release :: "os_services \<Rightarrow> addr \<Rightarrow> u64 \<Rightarrow> vm_call list" where
  "hf_vm_release os ptr sz =
     (if ptr = NULL then [] else [Vm_release ptr (hf_align_up sz (os_page_size os))])"

text \<open>
  The regions, with their lengths, that a call sequence has reserved and not given back: a release
  returns a region only if it names its whole length.
\<close>

fun vm_held :: "vm_call list \<Rightarrow> (addr \<times> u64) set \<Rightarrow> (addr \<times> u64) set" where
  "vm_held [] R = R"
| "vm_held (Vm_reserve n r # cs) R =
     vm_held cs (case r of None \<Rightarrow> R | Some p \<Rightarrow> insert (p, n) R)"
| "vm_held (Vm_release p n # cs) R = vm_held cs (R - {(p, n)})"

lemma vm_held_append [simp]: "vm_held (cs @ ds) R = vm_held ds (vm_held cs R)"
  by (induction cs R rule: vm_held.induct) simp_all

text \<open>
  The documented behaviour of the services: the page size is a power of two of at least 4096, and
  a successful mapping is a page-aligned, non-null range that does not reach the end of the
  address space; mapping zero bytes fails.
\<close>

definition os_wf :: "os_services \<Rightarrow> bool" where
  "os_wf os \<longleftrightarrow>
     (\<exists>k. 12 \<le> k \<and> k < 32 \<and> os_page_size os = 2 ^ k) \<and>
     os_mmap os 0 = None \<and>
     (\<forall>n p. os_mmap os n = Some p \<longrightarrow>
        p \<noteq> 0 \<and> unat (os_page_size os) dvd unat p \<and> unat p + unat n < 2 ^ 63)"

lemma os_wfD:
  assumes "os_wf os"
  obtains k where "12 \<le> k" and "k < 32" and "os_page_size os = 2 ^ k"
    and "os_mmap os 0 = None"
    and "\<forall>n p. os_mmap os n = Some p \<longrightarrow> p \<noteq> 0 \<and> 2 ^ k dvd unat p \<and> unat p + unat n < 2 ^ 63"
proof -
  from assms obtain k where k: "12 \<le> k" "k < 32" "os_page_size os = 2 ^ k"
    by (auto simp: os_wf_def)
  then have ps: "unat (os_page_size os) = 2 ^ k" by simp
  show ?thesis
  proof (rule that [OF k])
    show "os_mmap os 0 = None" using assms by (simp add: os_wf_def)
    show "\<forall>n p. os_mmap os n = Some p \<longrightarrow> p \<noteq> 0 \<and> 2 ^ k dvd unat p \<and> unat p + unat n < 2 ^ 63"
      using assms unfolding os_wf_def ps by blast
  qed
qed


lemma os_page_align_idem:
  assumes "os_wf os"
  shows "hf_align_up (hf_align_up n (os_page_size os)) (os_page_size os) =
    hf_align_up n (os_page_size os)"
proof -
  obtain k where "k < 32" and k: "os_page_size os = 2 ^ k" using os_wfD [OF assms] by blast
  then show ?thesis unfolding k by (intro hf_align_up_idem) simp
qed

text \<open>A successful reservation of a page-rounded length, and the release that undoes it.\<close>

lemma hf_vm_reserve_Some:
  assumes os: "os_wf os" and n: "n = hf_align_up c (os_page_size os)"
    and ret: "hf_vm_reserve os n = (cs, Some p)"
  shows "p \<noteq> NULL" and "16 dvd unat p" and "unat p + unat n < 2 ^ 63"
    and "n \<noteq> 0" and "unat (os_page_size os) dvd unat p" and "cs = [Vm_reserve n (Some p)]"
    and "hf_vm_release os p n = [Vm_release p n]"
proof -
  obtain k where k: "12 \<le> k" "k < 32" "os_page_size os = 2 ^ k" "os_mmap os 0 = None"
    and mm: "\<forall>n p. os_mmap os n = Some p \<longrightarrow> p \<noteq> 0 \<and> 2 ^ k dvd unat p \<and> unat p + unat n < 2 ^ 63"
    using os_wfD [OF os] by blast
  have idem: "hf_align_up n (os_page_size os) = n"
    unfolding n by (rule os_page_align_idem [OF os])
  with ret have map: "os_mmap os n = Some p" and cs: "cs = [Vm_reserve n (Some p)]"
    by (auto simp: hf_vm_reserve_def)
  from mm [rule_format, OF map] show p: "p \<noteq> NULL" "unat p + unat n < 2 ^ 63" by simp_all
  from map k(4) show "n \<noteq> 0" by auto
  show "cs = [Vm_reserve n (Some p)]" by (rule cs)
  show "hf_vm_release os p n = [Vm_release p n]" using p(1) idem by (simp add: hf_vm_release_def)
  have "2 ^ k dvd unat p" using mm [rule_format, OF map] by simp
  moreover have "unat (os_page_size os) = 2 ^ k" using k(2,3) by simp
  ultimately show "unat (os_page_size os) dvd unat p" by simp
  have "(2::nat) ^ 4 dvd 2 ^ k" using k(1) by (intro le_imp_power_dvd) simp
  then have "(16::nat) dvd 2 ^ k" by simp
  then show "16 dvd unat p" using \<open>2 ^ k dvd unat p\<close> by (rule dvd_trans)
qed

text \<open>A concrete instance of the services, for the examples: 4 KiB pages, mappings below 1 TiB.\<close>

definition os_example :: os_services where
  "os_example = \<lparr>os_page_size = 4096,
     os_mmap = (\<lambda>n. if n = 0 \<or> n \<ge> 0x10000000000 then None else Some 0x100000),
     os_calloc = (\<lambda>_. True)\<rparr>"

lemma os_example_wf: "os_wf os_example"
proof -
  have "unat (0x100000::u64) + unat n < 2 ^ 63" if "n < (0x10000000000::u64)" for n
    using that by (simp add: word_less_nat_alt)
  moreover have "(4096::u64) = 2 ^ 12" by simp
  ultimately show ?thesis
    unfolding os_wf_def os_example_def
    by (auto simp: not_le split: if_splits intro!: exI [of _ 12])
qed


subsection \<open>The virtual table and its generic dispatch\<close>

text \<open>
  A vtable over a state type \<open>'s\<close>: the \<^verbatim>\<open>self\<close> pointer becomes the state, returned updated.  A
  null result of \<^verbatim>\<open>allocate\<close> is \<open>None\<close>.  \<^verbatim>\<open>walk\<close> returns the entries in the order in which
  the C code passes them to the callback, and \<^verbatim>\<open>destroy\<close> the mapping calls it makes.
\<close>

record 's hf_allocator_vtable =
  vt_allocate :: "'s \<Rightarrow> u64 \<Rightarrow> u64 \<Rightarrow> addr option \<times> 's"
  vt_deallocate :: "'s \<Rightarrow> addr \<Rightarrow> 's outcome"
  vt_name :: "'s \<Rightarrow> string"
  vt_get_stats :: "'s \<Rightarrow> hf_stats"
  vt_walk :: "'s \<Rightarrow> hf_block_info list"
  vt_destroy :: "os_services \<Rightarrow> 's \<Rightarrow> vm_call list"

definition hf_allocate :: "'s hf_allocator_vtable \<Rightarrow> 's \<Rightarrow> u64 \<Rightarrow> addr option \<times> 's" where
  "hf_allocate vt a sz = vt_allocate vt a sz HF_DEFAULT_ALIGN"

definition hf_allocate_aligned ::
    "'s hf_allocator_vtable \<Rightarrow> 's \<Rightarrow> u64 \<Rightarrow> u64 \<Rightarrow> addr option \<times> 's" where
  "hf_allocate_aligned vt a sz align = vt_allocate vt a sz align"

definition hf_deallocate :: "'s hf_allocator_vtable \<Rightarrow> 's \<Rightarrow> addr \<Rightarrow> 's outcome" where
  "hf_deallocate vt a ptr = vt_deallocate vt a ptr"

definition hf_name :: "'s hf_allocator_vtable \<Rightarrow> 's \<Rightarrow> string" where
  "hf_name vt a = vt_name vt a"

definition hf_get_stats :: "'s hf_allocator_vtable \<Rightarrow> 's \<Rightarrow> hf_stats" where
  "hf_get_stats vt a = vt_get_stats vt a"

definition hf_walk :: "'s hf_allocator_vtable \<Rightarrow> 's \<Rightarrow> hf_block_info list" where
  "hf_walk vt a = vt_walk vt a"

definition hf_destroy ::
    "'s hf_allocator_vtable \<Rightarrow> os_services \<Rightarrow> 's option \<Rightarrow> vm_call list" where
  "hf_destroy vt os a = (case a of None \<Rightarrow> [] | Some s \<Rightarrow> vt_destroy vt os s)"


subsection \<open>The allocator contract\<close>

text \<open>
  \<open>live s\<close> maps every block in the hands of a client to the number of bytes usable from its
  pointer.  \<open>fits\<close> are the requests whose size computation does not wrap; \<open>freeable\<close> the
  pointers a client may return in a state.  \<open>store\<close> is a write of the client into an 8-byte cell of
  one of its blocks: an allocator that keeps headers or list nodes in the same memory must not
  depend on such a cell.
\<close>

datatype client_op = Op_alloc u64 u64 | Op_free addr | Op_write addr addr u64

fun client_run ::
    "('s \<Rightarrow> u64 \<Rightarrow> u64 \<Rightarrow> addr option \<times> 's) \<Rightarrow> ('s \<Rightarrow> addr \<Rightarrow> 's outcome) \<Rightarrow>
     ('s \<Rightarrow> addr \<Rightarrow> u64 \<Rightarrow> 's) \<Rightarrow> 's \<Rightarrow> client_op list \<Rightarrow> 's outcome" where
  "client_run al fr wr s [] = Inr s"
| "client_run al fr wr s (Op_alloc n a # cs) = client_run al fr wr (snd (al s n a)) cs"
| "client_run al fr wr s (Op_free p # cs) =
     (case fr s p of Inl e \<Rightarrow> Inl e | Inr s' \<Rightarrow> client_run al fr wr s' cs)"
| "client_run al fr wr s (Op_write p x v # cs) = client_run al fr wr (wr s x v) cs"

definition in_block :: "(addr \<rightharpoonup> nat) \<Rightarrow> addr \<Rightarrow> addr \<Rightarrow> bool" where
  "in_block L p x \<longleftrightarrow>
     (case L p of None \<Rightarrow> False
      | Some m \<Rightarrow> 8 dvd unat x \<and> unat p \<le> unat x \<and> unat x < unat p + m)"

text \<open>A client that makes admissible requests, frees only what it may free, and writes only into
  blocks it holds.\<close>

fun well_behaved ::
    "('s \<Rightarrow> u64 \<Rightarrow> u64 \<Rightarrow> addr option \<times> 's) \<Rightarrow> ('s \<Rightarrow> addr \<Rightarrow> 's outcome) \<Rightarrow>
     ('s \<Rightarrow> addr \<Rightarrow> u64 \<Rightarrow> 's) \<Rightarrow> ('s \<Rightarrow> addr \<rightharpoonup> nat) \<Rightarrow>
     (u64 \<Rightarrow> u64 \<Rightarrow> bool) \<Rightarrow> ('s \<Rightarrow> addr \<Rightarrow> bool) \<Rightarrow> 's \<Rightarrow> client_op list \<Rightarrow> bool" where
  "well_behaved al fr wr lv ok may s [] = True"
| "well_behaved al fr wr lv ok may s (Op_alloc n a # cs) =
     (ok n a \<and> well_behaved al fr wr lv ok may (snd (al s n a)) cs)"
| "well_behaved al fr wr lv ok may s (Op_free p # cs) =
     (may s p \<and> (case fr s p of Inl e \<Rightarrow> True | Inr s' \<Rightarrow> well_behaved al fr wr lv ok may s' cs))"
| "well_behaved al fr wr lv ok may s (Op_write p x v # cs) =
     (in_block (lv s) p x \<and> well_behaved al fr wr lv ok may (wr s x v) cs)"

definition blocks_disjoint :: "(addr \<rightharpoonup> nat) \<Rightarrow> bool" where
  "blocks_disjoint L \<longleftrightarrow>
     (\<forall>p q m k. L p = Some m \<longrightarrow> L q = Some k \<longrightarrow> p \<noteq> q \<longrightarrow>
        unat p + m \<le> unat q \<or> unat q + k \<le> unat p)"

locale allocator_contract =
  fixes invar :: "'s \<Rightarrow> bool"
    and allocate :: "'s \<Rightarrow> u64 \<Rightarrow> u64 \<Rightarrow> addr option \<times> 's"
    and deallocate :: "'s \<Rightarrow> addr \<Rightarrow> 's outcome"
    and live :: "'s \<Rightarrow> addr \<rightharpoonup> nat"
    and fits :: "u64 \<Rightarrow> u64 \<Rightarrow> bool"
    and freeable :: "'s \<Rightarrow> addr \<Rightarrow> bool"
    and store :: "'s \<Rightarrow> addr \<Rightarrow> u64 \<Rightarrow> 's"
  assumes allocate_invar: "invar s \<Longrightarrow> fits n a \<Longrightarrow> invar (snd (allocate s n a))"
    and allocate_None: "invar s \<Longrightarrow> fits n a \<Longrightarrow> allocate s n a = (None, s') \<Longrightarrow> live s' = live s"
    and allocate_Some: "invar s \<Longrightarrow> fits n a \<Longrightarrow> allocate s n a = (Some p, s') \<Longrightarrow>
          p \<noteq> NULL \<and> live s p = None \<and> (\<exists>m. unat n \<le> m \<and> live s' = (live s)(p \<mapsto> m))"
    and live_disjoint: "invar s \<Longrightarrow> blocks_disjoint (live s)"
    and deallocate_ok: "invar s \<Longrightarrow> freeable s p \<Longrightarrow>
          live s p \<noteq> None \<and>
          (\<exists>s'. deallocate s p = Inr s' \<and> invar s' \<and> live s' = (live s)(p := None))"
    and store_ok: "invar s \<Longrightarrow> in_block (live s) p x \<Longrightarrow>
          invar (store s x v) \<and> live (store s x v) = live s"
begin

lemma new_block_disjoint:
  assumes "invar s" and "fits n a" and "allocate s n a = (Some p, s')" and "live s q = Some k"
  shows "unat p + unat n \<le> unat q \<or> unat q + k \<le> unat p"
proof -
  from allocate_Some [OF assms(1-3)] obtain m
    where m: "live s p = None" "unat n \<le> m" "live s' = (live s)(p \<mapsto> m)"
    by blast
  have "invar s'" using allocate_invar [OF assms(1,2)] assms(3) by simp
  then have "blocks_disjoint (live s')" by (rule live_disjoint)
  moreover have "p \<noteq> q" using m(1) assms(4) by auto
  ultimately have "unat p + m \<le> unat q \<or> unat q + k \<le> unat p"
    using m(3) assms(4) by (auto simp: blocks_disjoint_def)
  then show ?thesis using m(2) by linarith
qed

lemma run_invar:
  "invar s \<Longrightarrow> well_behaved allocate deallocate store live fits freeable s cs \<Longrightarrow>
   \<exists>s'. client_run allocate deallocate store s cs = Inr s' \<and> invar s'"
proof (induction cs arbitrary: s)
  case Nil
  then show ?case by simp
next
  case (Cons c cs)
  show ?case
  proof (cases c)
    case (Op_alloc n a)
    with Cons.prems have "fits n a"
      and "well_behaved allocate deallocate store live fits freeable (snd (allocate s n a)) cs"
      by simp_all
    then show ?thesis
      using Cons.IH [of "snd (allocate s n a)"] allocate_invar Cons.prems(1) Op_alloc by simp
  next
    case (Op_free p)
    with Cons.prems have "freeable s p" by simp
    with deallocate_ok [OF Cons.prems(1)] obtain s' where "deallocate s p = Inr s'" "invar s'"
      by blast
    then show ?thesis
      using Cons Op_free by simp
  next
    case (Op_write p x v)
    then show ?thesis
      using Cons.IH [of "store s x v"] store_ok [OF Cons.prems(1), of p x v] Cons.prems by simp
  qed
qed

lemma run_disjoint:
  assumes "invar s" and "well_behaved allocate deallocate store live fits freeable s cs"
    and "client_run allocate deallocate store s cs = Inr s'"
  shows "blocks_disjoint (live s')"
  using run_invar [OF assms(1,2)] assms(3) live_disjoint by auto

end

text \<open>
  Several threads of one process, each running its own instance of the operations on the shared
  state.  The mutex makes every operation atomic, so that an execution is an interleaving of
  operations, each tagged with the thread that performs it.
\<close>

fun threads_run ::
    "(nat \<Rightarrow> 's \<Rightarrow> u64 \<Rightarrow> u64 \<Rightarrow> addr option \<times> 's) \<Rightarrow> (nat \<Rightarrow> 's \<Rightarrow> addr \<Rightarrow> 's outcome) \<Rightarrow>
     ('s \<Rightarrow> addr \<Rightarrow> u64 \<Rightarrow> 's) \<Rightarrow> 's \<Rightarrow> (nat \<times> client_op) list \<Rightarrow> 's outcome" where
  "threads_run al fr wr s [] = Inr s"
| "threads_run al fr wr s ((t, c) # cs) =
     (case client_run (al t) (fr t) wr s [c] of
        Inl e \<Rightarrow> Inl e | Inr s' \<Rightarrow> threads_run al fr wr s' cs)"

fun threads_well_behaved ::
    "(nat \<Rightarrow> 's \<Rightarrow> u64 \<Rightarrow> u64 \<Rightarrow> addr option \<times> 's) \<Rightarrow> (nat \<Rightarrow> 's \<Rightarrow> addr \<Rightarrow> 's outcome) \<Rightarrow>
     ('s \<Rightarrow> addr \<Rightarrow> u64 \<Rightarrow> 's) \<Rightarrow> ('s \<Rightarrow> addr \<rightharpoonup> nat) \<Rightarrow> (u64 \<Rightarrow> u64 \<Rightarrow> bool) \<Rightarrow>
     ('s \<Rightarrow> addr \<Rightarrow> bool) \<Rightarrow> nat \<Rightarrow> 's \<Rightarrow> (nat \<times> client_op) list \<Rightarrow> bool" where
  "threads_well_behaved al fr wr lv ok may n s [] = True"
| "threads_well_behaved al fr wr lv ok may n s ((t, c) # cs) =
     (t < n \<and> well_behaved (al t) (fr t) wr lv ok may s [c] \<and>
      (case client_run (al t) (fr t) wr s [c] of
         Inl e \<Rightarrow> True | Inr s' \<Rightarrow> threads_well_behaved al fr wr lv ok may n s' cs))"

locale threaded_contract =
  fixes invar :: "nat \<Rightarrow> 's \<Rightarrow> bool"
    and allocate :: "nat \<Rightarrow> 's \<Rightarrow> u64 \<Rightarrow> u64 \<Rightarrow> addr option \<times> 's"
    and deallocate :: "nat \<Rightarrow> 's \<Rightarrow> addr \<Rightarrow> 's outcome"
    and live :: "'s \<Rightarrow> addr \<rightharpoonup> nat"
    and fits :: "u64 \<Rightarrow> u64 \<Rightarrow> bool"
    and freeable :: "'s \<Rightarrow> addr \<Rightarrow> bool"
    and store :: "'s \<Rightarrow> addr \<Rightarrow> u64 \<Rightarrow> 's"
  assumes each_thread: "t < n \<Longrightarrow>
    allocator_contract (invar n) (allocate t) (deallocate t) live fits freeable store"
begin

lemma threads_run_safe:
  "invar n s \<Longrightarrow> threads_well_behaved allocate deallocate store live fits freeable n s cs \<Longrightarrow>
   \<exists>s'. threads_run allocate deallocate store s cs = Inr s' \<and> invar n s' \<and>
     (cs \<noteq> [] \<longrightarrow> blocks_disjoint (live s'))"
proof (induction cs arbitrary: s)
  case (Cons tc cs)
  obtain t c where tc: "tc = (t, c)" by (cases tc)
  with Cons.prems(2) have "t < n" and wb: "well_behaved (allocate t) (deallocate t) store live fits freeable s [c]"
    by simp_all
  note contract = each_thread [OF \<open>t < n\<close>]
  obtain s' where s': "client_run (allocate t) (deallocate t) store s [c] = Inr s'" "invar n s'"
    using allocator_contract.run_invar [OF contract Cons.prems(1) wb] by blast
  from Cons.prems(2) tc s'(1)
  have "threads_well_behaved allocate deallocate store live fits freeable n s' cs" by simp
  from Cons.IH [OF s'(2) this] obtain u where
    u: "threads_run allocate deallocate store s' cs = Inr u" "invar n u" by blast
  with s'(1) tc show ?case
    using allocator_contract.live_disjoint [OF contract u(2)] by simp
qed simp

end


subsection \<open>The layout contract\<close>

text \<open>A layout tiles \<open>[a, b)\<close>: consecutive, non-empty entries from \<open>a\<close> to \<open>b\<close>.\<close>

fun tiles :: "nat \<Rightarrow> hf_block_info list \<Rightarrow> nat \<Rightarrow> bool" where
  "tiles a [] b \<longleftrightarrow> a = b"
| "tiles a (x # xs) b \<longleftrightarrow>
     unat (bi_offset x) = a \<and> 0 < unat (bi_size x) \<and> tiles (a + unat (bi_size x)) xs b"

definition used_bytes :: "hf_block_info list \<Rightarrow> nat" where
  "used_bytes bs = (\<Sum>b\<leftarrow>bs. if bi_is_free b then 0 else unat (bi_size b))"

definition free_bytes :: "hf_block_info list \<Rightarrow> nat" where
  "free_bytes bs = (\<Sum>b\<leftarrow>bs. if bi_is_free b then unat (bi_size b) else 0)"

lemma tiles_append [simp]: "tiles a (xs @ ys) b \<longleftrightarrow> (\<exists>m. tiles a xs m \<and> tiles m ys b)"
  by (induction xs arbitrary: a) auto

lemma tiles_bytes: "tiles a bs b \<Longrightarrow> a + used_bytes bs + free_bytes bs = b"
  by (induction bs arbitrary: a) (fastforce simp: used_bytes_def free_bytes_def)+

locale layout_contract =
  fixes invar :: "'s \<Rightarrow> bool"
    and walk :: "'s \<Rightarrow> hf_block_info list"
    and extent :: "'s \<Rightarrow> nat"
    and in_use :: "'s \<Rightarrow> nat"
  assumes walk_tiles: "invar s \<Longrightarrow> tiles 0 (walk s) (extent s)"
    and walk_used: "invar s \<Longrightarrow> used_bytes (walk s) = in_use s"
begin

lemma free_plus_used: "invar s \<Longrightarrow> free_bytes (walk s) + in_use s = extent s"
  using tiles_bytes [OF walk_tiles] walk_used by (simp add: add.commute)

lemma in_use_le_extent: "invar s \<Longrightarrow> in_use s \<le> extent s"
  using free_plus_used by (metis le_add2)

end

end
