(* ===== verification/HF_Block_Pool.thy ===== *)
theory HF_Block_Pool
  imports HF_Allocator
begin

text \<open>
  The bitmap-managed pool of fixed-size blocks, \<^verbatim>\<open>hf_block_pool.c\<close>: the word-wise search for a free
  bit starting at the hint, release with its three assertions, and the run-length layout walk.
  Loop counters that stay below a \<^verbatim>\<open>size_t\<close> bound are natural numbers.
\<close>

record bp_alloc =
  bp_mem :: addr
  bp_capacity :: u64
  bp_block_size :: u64
  bp_block_count :: u64
  bp_hint :: u64
  bp_bitmap :: "u64 list"
  bp_words :: u64
  bp_stats :: hf_stats

text \<open>One line of \<^verbatim>\<open>lowest_zero\<close>: \<^verbatim>\<open>if (!(inv & m)) { n += s; inv >>= s; }\<close>.\<close>

definition lz_step :: "nat \<Rightarrow> u64 \<Rightarrow> nat \<times> u64 \<Rightarrow> nat \<times> u64" where
  "lz_step s m x = (if snd x AND m = 0 then (fst x + s, drop_bit s (snd x)) else x)"

definition lowest_zero :: "u64 \<Rightarrow> nat" where
  "lowest_zero bits =
     (let x = (0, NOT bits);
          x = lz_step 32 0xFFFFFFFF x;
          x = lz_step 16 0xFFFF x;
          x = lz_step 8 0xFF x;
          x = lz_step 4 0xF x;
          x = lz_step 2 0x3 x
      in if snd x AND 0x1 = 0 then fst x + 1 else fst x)"

definition bp_mask :: "u64 \<Rightarrow> u64" where
  "bp_mask idx = push_bit (unat (idx mod 64)) 1"

definition bp_test :: "bp_alloc \<Rightarrow> u64 \<Rightarrow> bool" where
  "bp_test a idx \<longleftrightarrow> bp_bitmap a ! unat (idx div 64) AND bp_mask idx \<noteq> 0"

text \<open>The search loop of \<^verbatim>\<open>bp_allocate\<close>: the word index and the bit of the first usable block.\<close>

function bp_scan :: "bp_alloc \<Rightarrow> nat \<Rightarrow> (u64 \<times> nat) option" where
  "bp_scan a w =
     (if w < unat (bp_words a) then
        let wi = (bp_hint a + of_nat w) mod bp_words a;
            bits = bp_bitmap a ! unat wi
        in if bits = NOT 0 then bp_scan a (w + 1)
           else let bt = lowest_zero bits;
                    idx = wi * 64 + of_nat bt
                in if idx \<ge> bp_block_count a then bp_scan a (w + 1) else Some (wi, bt)
      else None)"
  by pat_completeness auto
termination
  by (relation "measure (\<lambda>(a, w). unat (bp_words a) - w)") auto

declare bp_scan.simps [simp del]

definition bp_allocate :: "bp_alloc \<Rightarrow> u64 \<Rightarrow> u64 \<Rightarrow> addr option \<times> bp_alloc" where
  "bp_allocate a sz alignment =
     (let a = a\<lparr>bp_stats := count_alloc (bp_stats a)\<rparr>
      in if sz > bp_block_size a then (None, a\<lparr>bp_stats := count_failed (bp_stats a)\<rparr>)
         else case bp_scan a 0 of
             None \<Rightarrow> (None, a\<lparr>bp_stats := count_failed (bp_stats a)\<rparr>)
           | Some (wi, bt) \<Rightarrow>
               (let idx = wi * 64 + of_nat bt in
                (Some (bp_mem a + idx * bp_block_size a),
                 a\<lparr>bp_bitmap := (bp_bitmap a)
                      [unat wi := bp_bitmap a ! unat wi OR push_bit bt 1],
                   bp_hint := wi,
                   bp_stats := raise_peak
                     (set_used (hs_used (bp_stats a) + bp_block_size a) (bp_stats a))\<rparr>)))"

definition bp_deallocate :: "bp_alloc \<Rightarrow> addr \<Rightarrow> bp_alloc outcome" where
  "bp_deallocate a ptr =
     (if ptr = NULL then Inr a
      else let a = a\<lparr>bp_stats := count_free (bp_stats a)\<rparr>;
               off = ptr - bp_mem a
           in if off mod bp_block_size a \<noteq> 0 then Inl Assert_failed
              else let idx = off div bp_block_size a
                   in if \<not> idx < bp_block_count a then Inl Assert_failed
                      else let mask = bp_mask idx; i = unat (idx div 64)
                           in if bp_bitmap a ! i AND mask = 0 then Inl Assert_failed
                              else Inr (a\<lparr>bp_bitmap := (bp_bitmap a)
                                            [i := bp_bitmap a ! i AND NOT mask],
                                          bp_hint := idx div 64,
                                          bp_stats := set_used
                                            (hs_used (bp_stats a) - bp_block_size a)
                                            (bp_stats a)\<rparr>))"

definition bp_name :: "bp_alloc \<Rightarrow> string" where
  "bp_name a = ''BlockPool''"

definition bp_get_stats :: "bp_alloc \<Rightarrow> hf_stats" where
  "bp_get_stats a = bp_stats a"

function bp_walk_loop :: "bp_alloc \<Rightarrow> nat \<Rightarrow> nat \<Rightarrow> bool \<Rightarrow> hf_block_info list" where
  "bp_walk_loop a i run_start run_used =
     (if i \<le> unat (bp_block_count a) then
        let used = (if i < unat (bp_block_count a) then bp_test a (of_nat i) else \<not> run_used)
        in if used \<noteq> run_used then
             \<lparr>bi_offset = of_nat run_start * bp_block_size a,
              bi_size = (of_nat i - of_nat run_start) * bp_block_size a,
              bi_is_free = (\<not> run_used)\<rparr> # bp_walk_loop a (i + 1) i used
           else bp_walk_loop a (i + 1) run_start run_used
      else [])"
  by pat_completeness auto
termination
  by (relation "measure (\<lambda>(a, i, _). Suc (unat (bp_block_count a)) - i)") auto

declare bp_walk_loop.simps [simp del]

definition bp_walk :: "bp_alloc \<Rightarrow> hf_block_info list" where
  "bp_walk a = bp_walk_loop a 1 0 (bp_test a 0)"

definition bp_destroy :: "os_services \<Rightarrow> bp_alloc \<Rightarrow> vm_call list" where
  "bp_destroy os a = hf_vm_release os (bp_mem a) (bp_capacity a)"

definition hf_block_pool_create ::
    "os_services \<Rightarrow> u64 \<Rightarrow> u64 \<Rightarrow> vm_call list \<times> bp_alloc option" where
  "hf_block_pool_create os block_size block_count =
     (if \<not> os_calloc os 0 then ([], None)
      else let bs = hf_align_up block_size HF_DEFAULT_ALIGN;
               bytes = hf_align_up (bs * block_count) (os_page_size os)
           in case hf_vm_reserve os bytes of
                (cs, None) \<Rightarrow> (cs, None)
              | (cs, Some mem) \<Rightarrow>
                  let words = (block_count + 63) div 64
                  in if \<not> os_calloc os 1
                     then (cs @ hf_vm_release os mem bytes, None)
                     else (cs,
                           Some \<lparr>bp_mem = mem, bp_capacity = bytes, bp_block_size = bs,
                                 bp_block_count = block_count, bp_hint = 0,
                                 bp_bitmap = replicate (unat words) 0, bp_words = words,
                                 bp_stats = stats_zero\<lparr>hs_capacity := bytes\<rparr>\<rparr>))"

definition BP_VT :: "bp_alloc hf_allocator_vtable" where
  "BP_VT = \<lparr>vt_allocate = bp_allocate, vt_deallocate = bp_deallocate, vt_name = bp_name,
            vt_get_stats = bp_get_stats, vt_walk = bp_walk, vt_destroy = bp_destroy\<rparr>"


subsection \<open>Abstract view and invariant\<close>

text \<open>The set of block numbers in use.\<close>

definition bp_used :: "bp_alloc \<Rightarrow> nat set" where
  "bp_used a = {i. i < unat (bp_block_count a) \<and> bit (bp_bitmap a ! (i div 64)) (i mod 64)}"

definition bp_inv :: "bp_alloc \<Rightarrow> bool" where
  "bp_inv a \<longleftrightarrow>
     0 < unat (bp_block_count a) \<and>
     unat (bp_words a) = (unat (bp_block_count a) + 63) div 64 \<and>
     length (bp_bitmap a) = unat (bp_words a) \<and>
     unat (bp_hint a) < unat (bp_words a) \<and>
     16 \<le> unat (bp_block_size a) \<and> 16 dvd unat (bp_block_size a) \<and>
     16 dvd unat (bp_mem a) \<and> 0 < unat (bp_mem a) \<and>
     unat (bp_mem a) + unat (bp_block_count a) * unat (bp_block_size a) < 2 ^ 63 \<and>
     unat (hs_used (bp_stats a)) = card (bp_used a) * unat (bp_block_size a)"

text \<open>The client's view: the blocks handed out, each with its usable size.\<close>

definition bp_live :: "bp_alloc \<Rightarrow> addr \<rightharpoonup> nat" where
  "bp_live a p =
     (let off = p - bp_mem a; idx = off div bp_block_size a in
      if off mod bp_block_size a = 0 \<and> idx < bp_block_count a \<and> bp_test a idx
      then Some (unat (bp_block_size a)) else None)"


subsection \<open>The lowest zero bit\<close>

text \<open>
  \<open>window iv0 s n iv\<close>: the lowest set bit of \<open>iv0\<close> lies in the \<open>s\<close> positions from \<open>n\<close> on, and
  \<open>iv\<close> shows those positions from bit 0.
\<close>

definition window :: "u64 \<Rightarrow> nat \<Rightarrow> nat \<Rightarrow> u64 \<Rightarrow> bool" where
  "window iv0 s n iv \<longleftrightarrow>
     (\<forall>i < s. bit iv i \<longleftrightarrow> bit iv0 (n + i)) \<and> (\<exists>i < s. bit iv i) \<and> (\<forall>j < n. \<not> bit iv0 j)"

lemma and_mask_zero: "(x :: u64) AND mask s = 0 \<longleftrightarrow> (\<forall>i < s. \<not> bit x i)"
proof
  assume *: "x AND mask s = 0"
  have "\<not> bit x i" if "i < s" for i
  proof -
    have "\<not> bit (x AND mask s) i" by (simp add: *)
    then show ?thesis
      using that bit_imp_le_length [of x i] by (auto simp: bit_simps)
  qed
  then show "\<forall>i < s. \<not> bit x i" by blast
next
  assume "\<forall>i < s. \<not> bit x i"
  then show "x AND mask s = 0"
    by (intro bit_word_eqI) (auto simp: bit_simps)
qed

lemma window_step:
  assumes "window iv0 (2 * s) (fst x) (snd x)"
  shows "window iv0 s (fst (lz_step s (mask s) x)) (snd (lz_step s (mask s) x))"
proof (cases "snd x AND mask s = 0")
  case True
  obtain n iv where x: "x = (n, iv)" by (cases x)
  from True have low: "\<not> bit iv i" if "i < s" for i using that by (simp add: and_mask_zero x)
  from assms have eq: "bit iv i \<longleftrightarrow> bit iv0 (n + i)" if "i < 2 * s" for i
    using that by (simp add: window_def x)
  from assms obtain i where i: "i < 2 * s" "bit iv i" by (auto simp: window_def x)
  with low have "s \<le> i" by (meson not_le)
  with i have ex: "i - s < s" "bit (drop_bit s iv) (i - s)"
    by (simp_all add: bit_drop_bit_eq)
  have below: "\<not> bit iv0 j" if "j < n + s" for j
  proof (cases "j < n")
    case True
    then show ?thesis using assms by (simp add: window_def x)
  next
    case False
    then have "j - n < s" and "j = n + (j - n)" using that by simp_all
    then show ?thesis using low [of "j - n"] eq [of "j - n"] by simp
  qed
  have "bit (drop_bit s iv) i \<longleftrightarrow> bit iv0 (n + s + i)" if "i < s" for i
    using eq [of "s + i"] that by (simp add: bit_drop_bit_eq add.assoc)
  with ex below show ?thesis
    using True by (auto simp: window_def lz_step_def x)
next
  case False
  then have "\<exists>i < s. bit (snd x) i" by (simp add: and_mask_zero)
  with assms False show ?thesis
    by (auto simp: window_def lz_step_def)
qed

lemma lowest_zero_steps:
  "lowest_zero bits =
     fst (lz_step 1 (mask 1) (lz_step 2 (mask 2) (lz_step 4 (mask 4) (lz_step 8 (mask 8)
       (lz_step 16 (mask 16) (lz_step 32 (mask 32) (0, NOT bits)))))))"
proof -
  have masks: "mask 32 = (0xFFFFFFFF :: u64)" "mask 16 = (0xFFFF :: u64)" "mask 8 = (0xFF :: u64)"
    "mask 4 = (0xF :: u64)" "mask 2 = (0x3 :: u64)" "mask 1 = (0x1 :: u64)"
    by (simp_all add: mask_eq_exp_minus_1)
  have last: "(if snd x AND 0x1 = 0 then fst x + 1 else fst x) = fst (lz_step 1 0x1 x)" for x
    by (simp add: lz_step_def)
  show ?thesis
    unfolding lowest_zero_def Let_def masks last ..
qed

lemma zero_bit_exists: "bits \<noteq> NOT 0 \<Longrightarrow> \<exists>i < 64. \<not> bit (bits :: u64) i"
proof (rule ccontr)
  assume "bits \<noteq> NOT 0" and "\<not> (\<exists>i < 64. \<not> bit bits i)"
  then have "bits = NOT 0"
    by (intro bit_word_eqI) (auto simp: bit_simps)
  with \<open>bits \<noteq> NOT 0\<close> show False ..
qed

lemma lowest_zero_spec:
  assumes "bits \<noteq> NOT 0"
  shows "lowest_zero bits < 64" and "\<not> bit bits (lowest_zero bits)"
    and "j < lowest_zero bits \<Longrightarrow> bit bits j"
proof -
  define r where "r = lz_step 1 (mask 1) (lz_step 2 (mask 2) (lz_step 4 (mask 4) (lz_step 8 (mask 8)
       (lz_step 16 (mask 16) (lz_step 32 (mask 32) (0, NOT bits))))))"
  have res: "lowest_zero bits = fst r"
    by (simp only: lowest_zero_steps r_def)
  have "window (NOT bits) (2 * 32) (fst (0::nat, NOT bits)) (snd (0::nat, NOT bits))"
    using zero_bit_exists [OF assms] by (auto simp: window_def bit_not_iff)
  note w32 = window_step [OF this]
  have "window (NOT bits) 1 (fst r) (snd r)"
    unfolding r_def
    by (rule window_step, simp only: mult_1_right, rule window_step [where s = 2, simplified],
        rule window_step [where s = 4, simplified], rule window_step [where s = 8, simplified],
        rule window_step [where s = 16, simplified], rule w32 [simplified])
  then have w: "bit (NOT bits) (fst r)" "\<forall>j < fst r. \<not> bit (NOT bits) j"
    by (auto simp: window_def)
  from w(1) show lt: "lowest_zero bits < 64"
    using bit_imp_le_length [of "NOT bits" "fst r"] by (simp add: res)
  from w(1) show "\<not> bit bits (lowest_zero bits)"
    by (simp add: res bit_not_iff)
  from w(2) lt show "j < lowest_zero bits \<Longrightarrow> bit bits j"
    by (auto simp: res bit_not_iff)
qed


subsection \<open>The search\<close>

lemma bp_test_iff: "bp_test a idx \<longleftrightarrow> bit (bp_bitmap a ! (unat idx div 64)) (unat idx mod 64)"
  by (simp add: bp_test_def bp_mask_def bit_iff_and_push_bit_not_eq_0 unat_div unat_mod)

lemma bp_invD:
  assumes "bp_inv a"
  shows bp_count_pos: "0 < unat (bp_block_count a)"
    and bp_words_eq: "unat (bp_words a) = (unat (bp_block_count a) + 63) div 64"
    and bp_bitmap_length: "length (bp_bitmap a) = unat (bp_words a)"
    and bp_hint_lt: "unat (bp_hint a) < unat (bp_words a)"
    and bp_size_ge: "16 \<le> unat (bp_block_size a)"
    and bp_mem_pos: "0 < unat (bp_mem a)"
    and bp_span: "unat (bp_mem a) + unat (bp_block_count a) * unat (bp_block_size a) < 2 ^ 63"
    and bp_used_stat: "unat (hs_used (bp_stats a)) = card (bp_used a) * unat (bp_block_size a)"
  using assms by (simp_all add: bp_inv_def)

lemma bp_count_bound:
  assumes "bp_inv a"
  shows "unat (bp_block_count a) < 2 ^ 59"
proof -
  have "unat (bp_block_count a) * 16 \<le> unat (bp_block_count a) * unat (bp_block_size a)"
    using bp_size_ge [OF assms] by (rule mult_le_mono2)
  also have "\<dots> < 2 ^ 63"
    using bp_span [OF assms] by simp
  finally show ?thesis by simp
qed

lemma bp_words_bound:
  assumes "bp_inv a"
  shows "unat (bp_words a) < 2 ^ 54"
  using bp_count_bound [OF assms] by (simp add: bp_words_eq [OF assms])

lemma bp_word_index:
  assumes "bp_inv a" and "w < unat (bp_words a)"
  shows "unat ((bp_hint a + of_nat w) mod bp_words a) = (unat (bp_hint a) + w) mod unat (bp_words a)"
proof -
  have "unat (of_nat w :: u64) = w"
    using assms bp_words_bound [OF assms(1)] by (simp add: unat_of_nat)
  moreover have "unat (bp_hint a) + w < 2 ^ 64"
    using assms(2) bp_hint_lt [OF assms(1)] bp_words_bound [OF assms(1)] by simp
  ultimately have "unat (bp_hint a + of_nat w) = unat (bp_hint a) + w"
    by (simp add: unat_add_nowrap)
  then show ?thesis by (simp add: unat_mod)
qed

lemma bp_block_index:
  assumes "bp_inv a" and "unat wi < unat (bp_words a)" and "bt < 64"
  shows "unat (wi * 64 + of_nat bt :: u64) = unat wi * 64 + bt"
proof -
  have "unat (of_nat bt :: u64) = bt" using assms(3) by (simp add: unat_of_nat)
  moreover have "unat wi * 64 < 2 ^ 60" using assms(2) bp_words_bound [OF assms(1)] by simp
  ultimately show ?thesis
    using assms(3) by (simp add: unat_add_nowrap unat_mult_nowrap)
qed

definition bp_word_full :: "bp_alloc \<Rightarrow> nat \<Rightarrow> bool" where
  "bp_word_full a k \<longleftrightarrow>
     (\<forall>b < 64. k * 64 + b < unat (bp_block_count a) \<longrightarrow> bit (bp_bitmap a ! k) b)"

lemma bp_scan_step:
  assumes "bp_inv a" and "w < unat (bp_words a)"
  defines "k \<equiv> (unat (bp_hint a) + w) mod unat (bp_words a)"
  shows "(bp_scan a w = bp_scan a (w + 1) \<and> bp_word_full a k) \<or>
    (\<exists>wi bt. bp_scan a w = Some (wi, bt) \<and> unat wi = k \<and> bt < 64 \<and>
       k * 64 + bt < unat (bp_block_count a) \<and> \<not> bit (bp_bitmap a ! k) bt)"
proof -
  let ?wi = "(bp_hint a + of_nat w) mod bp_words a"
  let ?bits = "bp_bitmap a ! k"
  have wi: "unat ?wi = k" using bp_word_index [OF assms(1,2)] by (simp add: k_def)
  have k: "k < unat (bp_words a)" using assms(2) by (simp add: k_def)
  show ?thesis
  proof (cases "?bits = NOT 0")
    case True
    then have "bp_word_full a k" by (simp add: bp_word_full_def)
    with True show ?thesis
      using assms(2) by (simp add: bp_scan.simps [of a w] wi Let_def)
  next
    case False
    note lz = lowest_zero_spec [OF False]
    have idx: "unat (?wi * 64 + of_nat (lowest_zero ?bits) :: u64) = k * 64 + lowest_zero ?bits"
      using bp_block_index [OF assms(1), of ?wi "lowest_zero ?bits"] lz(1) k wi by simp
    show ?thesis
    proof (cases "k * 64 + lowest_zero ?bits < unat (bp_block_count a)")
      case True
      then have "bp_scan a w = Some (?wi, lowest_zero ?bits)"
        using assms(2) False by (simp add: bp_scan.simps [of a w] wi Let_def word_le_nat_alt idx)
      then show ?thesis using True lz(1,2) wi by blast
    next
      case full: False
      then have "bp_word_full a k" using lz(3) by (auto simp: bp_word_full_def)
      moreover have "bp_scan a w = bp_scan a (w + 1)"
        using assms(2) False full by (simp add: bp_scan.simps [of a w] wi Let_def word_le_nat_alt idx)
      ultimately show ?thesis by blast
    qed
  qed
qed

lemma bp_scan_Some:
  assumes "bp_inv a"
  shows "bp_scan a w = Some (wi, bt) \<Longrightarrow>
    unat wi < unat (bp_words a) \<and> bt < 64 \<and> unat wi * 64 + bt < unat (bp_block_count a) \<and>
    \<not> bit (bp_bitmap a ! unat wi) bt"
proof (induction "unat (bp_words a) - w" arbitrary: w)
  case 0
  then show ?case by (simp add: bp_scan.simps)
next
  case (Suc n)
  then have w: "w < unat (bp_words a)" by simp
  from Suc.hyps(2) have n: "n = unat (bp_words a) - (w + 1)" by simp
  from bp_scan_step [OF assms w] show ?case
  proof (elim disjE conjE exE)
    assume "bp_scan a w = bp_scan a (w + 1)"
    then show ?thesis using Suc.hyps(1) [OF n] Suc.prems by simp
  qed (use Suc.prems w in auto)
qed

lemma bp_scan_None:
  assumes "bp_inv a"
  shows "bp_scan a w = None \<Longrightarrow> w \<le> v \<Longrightarrow> v < unat (bp_words a) \<Longrightarrow>
    bp_word_full a ((unat (bp_hint a) + v) mod unat (bp_words a))"
proof (induction "unat (bp_words a) - w" arbitrary: w)
  case 0
  then show ?case by simp
next
  case (Suc n)
  then have w: "w < unat (bp_words a)" by simp
  from bp_scan_step [OF assms w] Suc.prems(1)
  have eq: "bp_scan a (w + 1) = None"
    and full: "bp_word_full a ((unat (bp_hint a) + w) mod unat (bp_words a))"
    by auto
  show ?case
  proof (cases "v = w")
    case True
    then show ?thesis using full by simp
  next
    case False
    have "n = unat (bp_words a) - (w + 1)" using Suc.hyps(2) by simp
    then show ?thesis using Suc.hyps(1) [OF _ eq] Suc.prems(2,3) False by simp
  qed
qed

lemma rotation_covers:
  fixes h n k :: nat
  assumes "h < n" and "k < n"
  shows "\<exists>v < n. (h + v) mod n = k"
proof (cases "h \<le> k")
  case True
  then show ?thesis using assms by (intro exI [of _ "k - h"]) simp
next
  case False
  then show ?thesis using assms by (intro exI [of _ "n + k - h"]) (simp add: mod_if)
qed

lemma bp_scan_None_full:
  assumes "bp_inv a" and "bp_scan a 0 = None"
  shows "bp_used a = {..<unat (bp_block_count a)}"
proof -
  have "bit (bp_bitmap a ! (i div 64)) (i mod 64)" if "i < unat (bp_block_count a)" for i
  proof -
    have "i div 64 < unat (bp_words a)"
      using that by (simp add: bp_words_eq [OF assms(1)])
    with rotation_covers [OF bp_hint_lt [OF assms(1)]] obtain v
      where "v < unat (bp_words a)" "(unat (bp_hint a) + v) mod unat (bp_words a) = i div 64"
      by blast
    with bp_scan_None [OF assms, of v] have "bp_word_full a (i div 64)" by simp
    then show ?thesis using that by (simp add: bp_word_full_def)
  qed
  then show ?thesis by (auto simp: bp_used_def)
qed

lemma bp_scan_full_None:
  assumes "bp_inv a" and "bp_used a = {..<unat (bp_block_count a)}"
  shows "bp_scan a w = None"
proof (cases "bp_scan a w")
  case (Some x)
  obtain wi bt where x: "x = (wi, bt)" by (cases x)
  with bp_scan_Some [OF assms(1)] Some
  have "bt < 64" and lt: "unat wi * 64 + bt < unat (bp_block_count a)"
    and free: "\<not> bit (bp_bitmap a ! unat wi) bt"
    by auto
  then have "unat wi * 64 + bt \<notin> bp_used a"
    by (simp add: bp_used_def)
  with lt assms(2) show ?thesis by simp
qed simp


subsection \<open>Blocks and addresses\<close>

definition bp_addr :: "bp_alloc \<Rightarrow> nat \<Rightarrow> addr" where
  "bp_addr a i = bp_mem a + of_nat i * bp_block_size a"

lemma unat_of_nat_block:
  assumes "bp_inv a" and "i < unat (bp_block_count a)"
  shows "unat (of_nat i :: u64) = i"
  using assms bp_count_bound [OF assms(1)] by (simp add: unat_of_nat)

lemma bp_offset_nat:
  assumes "bp_inv a" and "i < unat (bp_block_count a)"
  shows "unat (of_nat i * bp_block_size a) = i * unat (bp_block_size a)"
    and "unat (bp_mem a) + i * unat (bp_block_size a) + unat (bp_block_size a) < 2 ^ 63"
proof -
  have "Suc i * unat (bp_block_size a) \<le> unat (bp_block_count a) * unat (bp_block_size a)"
    using assms(2) by (intro mult_le_mono1) simp
  then show b: "unat (bp_mem a) + i * unat (bp_block_size a) + unat (bp_block_size a) < 2 ^ 63"
    using bp_span [OF assms(1)] by simp
  show "unat (of_nat i * bp_block_size a) = i * unat (bp_block_size a)"
    using b unat_of_nat_block [OF assms] by (simp add: unat_mult_nowrap)
qed

lemma unat_bp_addr:
  assumes "bp_inv a" and "i < unat (bp_block_count a)"
  shows "unat (bp_addr a i) = unat (bp_mem a) + i * unat (bp_block_size a)"
  using bp_offset_nat [OF assms] by (simp add: bp_addr_def unat_add_nowrap)

lemma bp_addr_not_null:
  assumes "bp_inv a" and "i < unat (bp_block_count a)"
  shows "bp_addr a i \<noteq> NULL"
proof -
  have "0 < unat (bp_addr a i)"
    using bp_mem_pos [OF assms(1)] by (simp add: unat_bp_addr [OF assms])
  then show ?thesis by (intro notI) simp
qed

lemma bp_addr_div_mod:
  assumes "bp_inv a" and "i < unat (bp_block_count a)"
  shows "(bp_addr a i - bp_mem a) mod bp_block_size a = 0"
    and "(bp_addr a i - bp_mem a) div bp_block_size a = of_nat i"
proof -
  have "0 < unat (bp_block_size a)" using bp_size_ge [OF assms(1)] by simp
  then show "(bp_addr a i - bp_mem a) mod bp_block_size a = 0"
    and "(bp_addr a i - bp_mem a) div bp_block_size a = of_nat i"
    using bp_offset_nat(1) [OF assms] unat_of_nat_block [OF assms]
    by (auto simp: bp_addr_def word_unat_eq_iff unat_mod unat_div)
qed

lemma bp_addr_of_offset:
  assumes "(p - bp_mem a) mod bp_block_size a = 0"
  shows "p = bp_addr a (unat ((p - bp_mem a) div bp_block_size a))"
proof -
  have "(p - bp_mem a) div bp_block_size a * bp_block_size a = p - bp_mem a"
    using div_mult_mod_eq [of "p - bp_mem a" "bp_block_size a"] assms by simp
  then show ?thesis by (simp add: bp_addr_def)
qed

lemma bp_addr_inject:
  assumes "bp_inv a" and "i < unat (bp_block_count a)" and "j < unat (bp_block_count a)"
  shows "bp_addr a i = bp_addr a j \<longleftrightarrow> i = j"
  using bp_size_ge [OF assms(1)]
  by (simp add: word_unat_eq_iff unat_bp_addr [OF assms(1,2)] unat_bp_addr [OF assms(1,3)])

lemma bp_used_finite [simp]: "finite (bp_used a)"
  by (rule finite_subset [of _ "{..<unat (bp_block_count a)}"]) (auto simp: bp_used_def)

lemma bp_used_subset: "bp_used a \<subseteq> {..<unat (bp_block_count a)}"
  by (auto simp: bp_used_def)

lemma bp_used_card_bytes:
  assumes "bp_inv a"
  shows "card (bp_used a) * unat (bp_block_size a) < 2 ^ 63"
proof -
  have "card (bp_used a) \<le> unat (bp_block_count a)"
    using card_mono [OF _ bp_used_subset] by force
  then have "card (bp_used a) * unat (bp_block_size a) \<le> unat (bp_block_count a) * unat (bp_block_size a)"
    by (rule mult_le_mono1)
  then show ?thesis using bp_span [OF assms] by linarith
qed

lemma bp_live_iff:
  assumes "bp_inv a"
  shows "bp_live a p = Some m \<longleftrightarrow> (\<exists>i \<in> bp_used a. p = bp_addr a i) \<and> m = unat (bp_block_size a)"
proof
  assume live: "bp_live a p = Some m"
  define idx where "idx = (p - bp_mem a) div bp_block_size a"
  from live have "(p - bp_mem a) mod bp_block_size a = 0" "idx < bp_block_count a" "bp_test a idx"
    and m: "m = unat (bp_block_size a)"
    by (auto simp: bp_live_def Let_def idx_def split: if_splits)
  then have "p = bp_addr a (unat idx)" and "unat idx \<in> bp_used a"
    using bp_addr_of_offset [of p a]
    by (simp_all add: idx_def bp_used_def bp_test_iff word_less_nat_alt)
  with m show "(\<exists>i \<in> bp_used a. p = bp_addr a i) \<and> m = unat (bp_block_size a)" by blast
next
  assume "(\<exists>i \<in> bp_used a. p = bp_addr a i) \<and> m = unat (bp_block_size a)"
  then obtain i where i: "i \<in> bp_used a" "p = bp_addr a i" and m: "m = unat (bp_block_size a)"
    by blast
  then have lt: "i < unat (bp_block_count a)" by (simp add: bp_used_def)
  with i(1) show "bp_live a p = Some m"
    using bp_addr_div_mod [OF assms lt] unat_of_nat_block [OF assms lt]
    by (simp add: bp_live_def i(2) m bp_test_iff bp_used_def word_less_nat_alt Let_def)
qed

lemma bp_live_None_iff:
  assumes "bp_inv a"
  shows "bp_live a p = None \<longleftrightarrow> (\<forall>i \<in> bp_used a. p \<noteq> bp_addr a i)"
  using bp_live_iff [OF assms, of p "unat (bp_block_size a)"] bp_live_iff [OF assms, of p]
  by (cases "bp_live a p") auto


subsection \<open>Allocation and release\<close>

lemma bit_or_push_bit_one: "b < 64 \<Longrightarrow> bit (x OR 2 ^ b :: u64) j \<longleftrightarrow> bit x j \<or> j = b"
  by (auto simp: bit_simps)

lemma bit_and_not_push_bit_one: "bit (x AND NOT (2 ^ b) :: u64) j \<longleftrightarrow> bit x j \<and> j \<noteq> b"
  by (auto simp: bit_simps dest: bit_imp_le_length)

lemma bp_set_bit_used:
  assumes "k < length (bp_bitmap a)" and "b < 64" and "k * 64 + b < unat (bp_block_count a)"
    and "bp_bitmap a' = (bp_bitmap a)[k := bp_bitmap a ! k OR push_bit b 1]"
    and "bp_block_count a' = bp_block_count a"
  shows "bp_used a' = insert (k * 64 + b) (bp_used a)"
proof -
  have "bit (bp_bitmap a' ! (i div 64)) (i mod 64) \<longleftrightarrow>
      bit (bp_bitmap a ! (i div 64)) (i mod 64) \<or> i = k * 64 + b" for i
  proof (cases "i div 64 = k")
    case True
    moreover have "i mod 64 = b \<longleftrightarrow> i = k * 64 + b"
      using True assms(2) by (metis div_mult_mod_eq add_left_cancel)
    ultimately show ?thesis
      using assms(1,2,4) by (simp add: bit_or_push_bit_one)
  next
    case False
    then have "i \<noteq> k * 64 + b" using assms(2) by auto
    then show ?thesis using False assms(4) by simp
  qed
  then show ?thesis
    using assms(3,5) by (auto simp: bp_used_def)
qed

lemma bp_clear_bit_used:
  assumes "k < length (bp_bitmap a)" and "b < 64"
    and "bp_bitmap a' = (bp_bitmap a)[k := bp_bitmap a ! k AND NOT (push_bit b 1)]"
    and "bp_block_count a' = bp_block_count a"
  shows "bp_used a' = bp_used a - {k * 64 + b}"
proof -
  have "bit (bp_bitmap a' ! (i div 64)) (i mod 64) \<longleftrightarrow>
      bit (bp_bitmap a ! (i div 64)) (i mod 64) \<and> i \<noteq> k * 64 + b" for i
  proof (cases "i div 64 = k")
    case True
    moreover have "i mod 64 = b \<longleftrightarrow> i = k * 64 + b"
      using True assms(2) by (metis div_mult_mod_eq add_left_cancel)
    ultimately show ?thesis
      using assms(1,3) by (simp add: bit_and_not_push_bit_one)
  next
    case False
    then have "i \<noteq> k * 64 + b" using assms(2) by auto
    then show ?thesis using False assms(3) by simp
  qed
  then show ?thesis
    using assms(4) by (auto simp: bp_used_def)
qed

lemma bp_scan_stats [simp]: "bp_scan (a\<lparr>bp_stats := st\<rparr>) w = bp_scan a w"
proof (induction a w rule: bp_scan.induct)
  case (1 a w)
  then show ?case
    by (simp add: bp_scan.simps [of a w] bp_scan.simps [of "a\<lparr>bp_stats := st\<rparr>" w] Let_def)
qed

lemma bp_used_stats [simp]: "bp_used (a\<lparr>bp_stats := st\<rparr>) = bp_used a"
  by (simp add: bp_used_def)

lemma bp_inv_stats:
  "bp_inv a \<Longrightarrow> hs_used st = hs_used (bp_stats a) \<Longrightarrow> bp_inv (a\<lparr>bp_stats := st\<rparr>)"
  by (simp add: bp_inv_def)

lemma bp_allocate_refused:
  assumes "sz > bp_block_size a \<or> bp_scan a 0 = None"
  shows "bp_allocate a sz al = (None, a\<lparr>bp_stats := count_failed (count_alloc (bp_stats a))\<rparr>)"
  using assms by (auto simp: bp_allocate_def Let_def)

lemma bp_allocate_cases:
  assumes inv: "bp_inv a"
  obtains (refused) a' where "bp_allocate a sz al = (None, a')" and "bp_inv a'"
      and "bp_bitmap a' = bp_bitmap a" and "bp_mem a' = bp_mem a"
      and "bp_block_size a' = bp_block_size a" and "bp_block_count a' = bp_block_count a"
      and "sz > bp_block_size a \<or> bp_used a = {..<unat (bp_block_count a)}"
  | (granted) i a' where "bp_allocate a sz al = (Some (bp_addr a i), a')" and "bp_inv a'"
      and "sz \<le> bp_block_size a" and "i < unat (bp_block_count a)" and "i \<notin> bp_used a"
      and "bp_used a' = insert i (bp_used a)" and "bp_mem a' = bp_mem a"
      and "bp_block_size a' = bp_block_size a" and "bp_block_count a' = bp_block_count a"
proof (cases "sz > bp_block_size a \<or> bp_scan a 0 = None")
  case True
  let ?a' = "a\<lparr>bp_stats := count_failed (count_alloc (bp_stats a))\<rparr>"
  have "bp_inv ?a'" using inv by (rule bp_inv_stats) simp
  moreover have "sz > bp_block_size a \<or> bp_used a = {..<unat (bp_block_count a)}"
    using True bp_scan_None_full [OF inv] by blast
  ultimately show ?thesis
    using bp_allocate_refused [OF True] by (intro refused [of ?a']) simp_all
next
  case False
  then have small: "\<not> sz > bp_block_size a" by simp
  from False show ?thesis
  proof (cases "bp_scan a 0")
    case (Some x)
    obtain wi bt where x: "x = (wi, bt)" by (cases x)
    let ?i = "unat wi * 64 + bt"
    from bp_scan_Some [OF inv] Some x
    have wi: "unat wi < unat (bp_words a)" and bt: "bt < 64"
      and lt: "?i < unat (bp_block_count a)" and free: "\<not> bit (bp_bitmap a ! unat wi) bt"
      by auto
    have idx: "wi * 64 + of_nat bt = (of_nat ?i :: u64)"
      by simp
    define a' where "a' = snd (bp_allocate a sz al)"
    have res: "bp_allocate a sz al = (Some (bp_addr a ?i), a')"
      and bm: "bp_bitmap a' = (bp_bitmap a)[unat wi := bp_bitmap a ! unat wi OR push_bit bt 1]"
      and same: "bp_mem a' = bp_mem a" "bp_block_size a' = bp_block_size a"
        "bp_block_count a' = bp_block_count a" "bp_words a' = bp_words a" "bp_hint a' = wi"
        "hs_used (bp_stats a') = hs_used (bp_stats a) + bp_block_size a"
      using small Some x by (simp_all add: a'_def bp_allocate_def Let_def bp_addr_def)
    have new: "?i \<notin> bp_used a"
      using free bt by (simp add: bp_used_def)
    have used: "bp_used a' = insert ?i (bp_used a)"
      using bp_set_bit_used [OF _ bt lt bm same(3)] wi bp_bitmap_length [OF inv] by simp
    have grow: "Suc (card (bp_used a)) * unat (bp_block_size a) < 2 ^ 63"
    proof -
      have "card (insert ?i (bp_used a)) \<le> card {..<unat (bp_block_count a)}"
        using lt bp_used_subset by (intro card_mono) auto
      then have "Suc (card (bp_used a)) \<le> unat (bp_block_count a)" using new by simp
      then have "Suc (card (bp_used a)) * unat (bp_block_size a)
          \<le> unat (bp_block_count a) * unat (bp_block_size a)"
        by (rule mult_le_mono1)
      then show ?thesis using bp_span [OF inv] by linarith
    qed
    have "unat (hs_used (bp_stats a')) = card (bp_used a') * unat (bp_block_size a)"
      using grow new by (simp add: same used unat_add_nowrap bp_used_stat [OF inv])
    then have "bp_inv a'"
      using inv wi by (simp add: bp_inv_def same bm)
    then show ?thesis
      using res new used same lt small by (intro granted [of ?i a']) (simp_all add: not_less)
  qed simp
qed


lemma bp_deallocate_used:
  assumes inv: "bp_inv a" and used: "i \<in> bp_used a"
  shows "\<exists>a'. bp_deallocate a (bp_addr a i) = Inr a' \<and> bp_inv a' \<and>
    bp_used a' = bp_used a - {i} \<and> bp_mem a' = bp_mem a \<and>
    bp_block_size a' = bp_block_size a \<and> bp_block_count a' = bp_block_count a \<and>
    unat (bp_hint a') = i div 64"
proof -
  from used have lt: "i < unat (bp_block_count a)"
    and set: "bit (bp_bitmap a ! (i div 64)) (i mod 64)"
    by (simp_all add: bp_used_def)
  note i = unat_of_nat_block [OF inv lt]
  note dm = bp_addr_div_mod [OF inv lt]
  let ?m = "push_bit (i mod 64) 1 :: u64"
  have mask: "bp_mask (of_nat i) = ?m" and word: "unat ((of_nat i :: u64) div 64) = i div 64"
    by (simp_all add: bp_mask_def unat_mod unat_div i)
  have hit: "bp_bitmap a ! (i div 64) AND ?m \<noteq> 0"
    using set by (simp only: bit_iff_and_push_bit_not_eq_0 not_False_eq_True)
  define a' where "a' = a\<lparr>bp_bitmap := (bp_bitmap a)[i div 64 := bp_bitmap a ! (i div 64) AND NOT ?m],
      bp_hint := of_nat i div 64,
      bp_stats := set_used (hs_used (bp_stats a) - bp_block_size a) (count_free (bp_stats a))\<rparr>"
  have res: "bp_deallocate a (bp_addr a i) = Inr a'"
    using hit lt bp_addr_not_null [OF inv lt]
    by (simp add: bp_deallocate_def Let_def dm mask word a'_def word_less_nat_alt i
        del: push_bit_of_1)
  have words: "i div 64 < unat (bp_words a)"
    using lt by (simp add: bp_words_eq [OF inv])
  have used': "bp_used a' = bp_used a - {i}"
    using bp_clear_bit_used [of "i div 64" a "i mod 64" a'] words bp_bitmap_length [OF inv]
    by (simp add: a'_def)
  have card: "card (bp_used a) = Suc (card (bp_used a'))"
    using card_Suc_Diff1 [OF bp_used_finite used] by (simp add: used')
  have "unat (hs_used (bp_stats a')) = card (bp_used a') * unat (bp_block_size a)"
    by (simp add: a'_def unat_sub_nowrap bp_used_stat [OF inv] card [unfolded a'_def])
  then have "bp_inv a'"
    using inv words by (simp add: bp_inv_def a'_def word)
  then show ?thesis
    using res used' by (auto simp: a'_def word)
qed

lemma bp_deallocate_other:
  assumes inv: "bp_inv a" and "p \<noteq> NULL" and "\<forall>i \<in> bp_used a. p \<noteq> bp_addr a i"
  shows "bp_deallocate a p = Inl Assert_failed"
proof (cases "(p - bp_mem a) mod bp_block_size a = 0 \<and> (p - bp_mem a) div bp_block_size a < bp_block_count a")
  case True
  define idx where "idx = (p - bp_mem a) div bp_block_size a"
  from True have "p = bp_addr a (unat idx)" by (simp add: idx_def bp_addr_of_offset)
  with assms(3) have "unat idx \<notin> bp_used a" by blast
  with True have "\<not> bp_test a idx"
    by (simp add: bp_used_def bp_test_iff idx_def word_less_nat_alt)
  then have "bp_bitmap a ! unat (idx div 64) AND bp_mask idx = 0"
    by (simp add: bp_test_def)
  then show ?thesis
    using True assms(2) by (simp add: bp_deallocate_def Let_def idx_def)
next
  case False
  then show ?thesis
    using assms(2) by (auto simp: bp_deallocate_def Let_def)
qed


subsection \<open>The layout walk\<close>

definition bp_used_range :: "bp_alloc \<Rightarrow> nat \<Rightarrow> nat \<Rightarrow> nat" where
  "bp_used_range a i j = card {k \<in> bp_used a. i \<le> k \<and> k < j}"

lemma bp_used_range_split:
  assumes "i \<le> j" and "j \<le> k"
  shows "bp_used_range a i k = bp_used_range a i j + bp_used_range a j k"
proof -
  let ?A = "{x \<in> bp_used a. i \<le> x \<and> x < j}" and ?B = "{x \<in> bp_used a. j \<le> x \<and> x < k}"
  have "{x \<in> bp_used a. i \<le> x \<and> x < k} = ?A \<union> ?B"
    using assms by auto
  moreover have "card (?A \<union> ?B) = card ?A + card ?B"
    by (rule card_Un_disjoint) auto
  ultimately show ?thesis by (simp only: bp_used_range_def)
qed

lemma bp_used_range_run:
  assumes "\<And>k. i \<le> k \<Longrightarrow> k < j \<Longrightarrow> k \<in> bp_used a \<longleftrightarrow> u"
  shows "bp_used_range a i j = (if u then j - i else 0)"
proof -
  have "{k \<in> bp_used a. i \<le> k \<and> k < j} = (if u then {i..<j} else {})"
    using assms by auto
  then show ?thesis by (simp add: bp_used_range_def)
qed

lemma bp_test_used:
  assumes "bp_inv a" and "i < unat (bp_block_count a)"
  shows "bp_test a (of_nat i) \<longleftrightarrow> i \<in> bp_used a"
  using assms unat_of_nat_block [OF assms] by (simp add: bp_test_iff bp_used_def)

lemma bp_run_entry:
  assumes inv: "bp_inv a" and "r < i" and "i \<le> unat (bp_block_count a)"
  shows "unat (of_nat r * bp_block_size a) = r * unat (bp_block_size a)"
    and "unat ((of_nat i - of_nat r) * bp_block_size a) = (i - r) * unat (bp_block_size a)"
    and "0 < unat ((of_nat i - of_nat r) * bp_block_size a)"
proof -
  have "unat (of_nat i :: u64) = i" and r: "unat (of_nat r :: u64) = r"
    using assms(2,3) bp_count_bound [OF inv] by (simp_all add: unat_of_nat)
  then have d: "unat (of_nat i - of_nat r :: u64) = i - r"
    using assms(2) by (simp add: unat_sub_nowrap)
  have "i * unat (bp_block_size a) \<le> unat (bp_block_count a) * unat (bp_block_size a)"
    using assms(3) by (rule mult_le_mono1)
  also have "\<dots> < 2 ^ 64"
    using bp_span [OF inv] by simp
  finally have i: "i * unat (bp_block_size a) < 2 ^ 64" .
  have "r * unat (bp_block_size a) \<le> i * unat (bp_block_size a)"
    using assms(2) by (intro mult_le_mono1) simp
  with i have "r * unat (bp_block_size a) < 2 ^ 64" by linarith
  moreover have "(i - r) * unat (bp_block_size a) \<le> i * unat (bp_block_size a)"
    by (intro mult_le_mono1) simp
  with i have "(i - r) * unat (bp_block_size a) < 2 ^ 64" by linarith
  ultimately show "unat (of_nat r * bp_block_size a) = r * unat (bp_block_size a)"
    and e: "unat ((of_nat i - of_nat r) * bp_block_size a) = (i - r) * unat (bp_block_size a)"
    by (simp_all add: unat_mult_nowrap r d)
  show "0 < unat ((of_nat i - of_nat r) * bp_block_size a)"
    using assms(2) bp_size_ge [OF inv] by (simp add: e)
qed

lemma bp_walk_loop_spec:
  assumes inv: "bp_inv a"
  shows "r < i \<Longrightarrow> i \<le> unat (bp_block_count a) \<Longrightarrow>
    (\<And>k. r \<le> k \<Longrightarrow> k < i \<Longrightarrow> k \<in> bp_used a \<longleftrightarrow> u) \<Longrightarrow>
    tiles (r * unat (bp_block_size a)) (bp_walk_loop a i r u)
      (unat (bp_block_count a) * unat (bp_block_size a)) \<and>
    used_bytes (bp_walk_loop a i r u)
      = bp_used_range a r (unat (bp_block_count a)) * unat (bp_block_size a)"
proof (induction "unat (bp_block_count a) - i" arbitrary: i r u)
  case 0
  let ?n = "unat (bp_block_count a)" and ?s = "unat (bp_block_size a)"
  have i: "i = ?n" using 0 by simp
  have stop: "bp_walk_loop a (i + 1) i' u' = []" for i' u'
    by (simp add: bp_walk_loop.simps i)
  have "r * ?s + (?n - r) * ?s = ?n * ?s"
    using "0.prems"(1) i distrib_right [of r "?n - r" ?s] by simp
  then show ?case
    using bp_run_entry [OF inv "0.prems"(1,2)] bp_used_range_run [of r i a u] "0.prems"(3) stop
    by (simp add: bp_walk_loop.simps [of a ?n] i Let_def used_bytes_def)
next
  case (Suc n)
  let ?n = "unat (bp_block_count a)" and ?s = "unat (bp_block_size a)"
  have i: "i < ?n" and n: "n = ?n - (i + 1)" using Suc.hyps(2) by simp_all
  note test = bp_test_used [OF inv i]
  show ?case
  proof (cases "(i \<in> bp_used a) = u")
    case True
    then have "bp_walk_loop a i r u = bp_walk_loop a (i + 1) r u"
      using i test by (simp add: bp_walk_loop.simps [of a i] Let_def)
    moreover have "k \<in> bp_used a \<longleftrightarrow> u" if "r \<le> k" and "k < i + 1" for k
      using that Suc.prems(3) [of k] True by (cases "k = i") auto
    ultimately show ?thesis
      using Suc.hyps(1) [OF n, of r u] Suc.prems(1) i by simp
  next
    case False
    then have step: "bp_walk_loop a i r u =
      \<lparr>bi_offset = of_nat r * bp_block_size a, bi_size = (of_nat i - of_nat r) * bp_block_size a,
       bi_is_free = (\<not> u)\<rparr> # bp_walk_loop a (i + 1) i (\<not> u)"
      using i test by (auto simp: bp_walk_loop.simps [of a i] Let_def)
    have "k \<in> bp_used a \<longleftrightarrow> \<not> u" if "i \<le> k" and "k < i + 1" for k
      using that False by (cases "k = i") auto
    with Suc.hyps(1) [OF n, of i "\<not> u"] i
    have ih: "tiles (i * ?s) (bp_walk_loop a (i + 1) i (\<not> u)) (?n * ?s)"
      "used_bytes (bp_walk_loop a (i + 1) i (\<not> u)) = bp_used_range a i ?n * ?s"
      by simp_all
    note e = bp_run_entry [OF inv Suc.prems(1,2)]
    have "r * ?s + (i - r) * ?s = i * ?s"
      using Suc.prems(1) distrib_right [of r "i - r" ?s] by simp
    moreover have "bp_used_range a r ?n = (if u then i - r else 0) + bp_used_range a i ?n"
      using bp_used_range_split [of r i ?n a] bp_used_range_run [of r i a u] Suc.prems i
      by simp
    ultimately show ?thesis
      using ih e by (simp add: step used_bytes_def algebra_simps)
  qed
qed

lemma bp_walk_spec:
  assumes "bp_inv a"
  shows "tiles 0 (bp_walk a) (unat (bp_block_count a) * unat (bp_block_size a))"
    and "used_bytes (bp_walk a) = card (bp_used a) * unat (bp_block_size a)"
proof -
  have "0 \<in> bp_used a \<longleftrightarrow> bp_test a 0"
    using bp_test_used [OF assms bp_count_pos [OF assms]] by simp
  then have u: "k \<in> bp_used a \<longleftrightarrow> bp_test a 0" if "0 \<le> k" and "k < 1" for k
    using that by simp
  have "bp_used_range a 0 (unat (bp_block_count a)) = card (bp_used a)"
    unfolding bp_used_range_def using bp_used_subset [of a] by (intro arg_cong [of _ _ card]) auto
  then show "tiles 0 (bp_walk a) (unat (bp_block_count a) * unat (bp_block_size a))"
    and "used_bytes (bp_walk a) = card (bp_used a) * unat (bp_block_size a)"
    using bp_walk_loop_spec [OF assms _ _ u, of 0 1] bp_count_pos [OF assms]
    by (simp_all add: bp_walk_def)
qed


subsection \<open>The contracts\<close>

lemma bp_addr_cong:
  "bp_mem a' = bp_mem a \<Longrightarrow> bp_block_size a' = bp_block_size a \<Longrightarrow> bp_addr a' i = bp_addr a i"
  by (simp add: bp_addr_def)

lemma bp_live_insert:
  assumes "bp_inv a" and "bp_inv a'" and "i < unat (bp_block_count a)"
    and "bp_used a' = insert i (bp_used a)"
    and "bp_mem a' = bp_mem a" and "bp_block_size a' = bp_block_size a"
  shows "bp_live a' = (bp_live a)(bp_addr a i \<mapsto> unat (bp_block_size a))"
proof (rule ext)
  fix p
  show "bp_live a' p = ((bp_live a)(bp_addr a i \<mapsto> unat (bp_block_size a))) p"
  proof (cases "bp_live a' p")
    case None
    then have "p \<noteq> bp_addr a i" and "\<forall>j \<in> bp_used a. p \<noteq> bp_addr a j"
      using bp_live_None_iff [OF assms(2)] by (simp_all add: assms(4) bp_addr_cong [OF assms(5,6)])
    then have "bp_live a p = None" and "p \<noteq> bp_addr a i"
      using bp_live_None_iff [OF assms(1), of p] by blast+
    then show ?thesis using None by simp
  next
    case (Some m)
    then have m: "m = unat (bp_block_size a)" and "\<exists>j \<in> insert i (bp_used a). p = bp_addr a j"
      using bp_live_iff [OF assms(2)] by (simp_all add: assms(4,6) bp_addr_cong [OF assms(5,6)])
    then show ?thesis
      using Some bp_live_iff [OF assms(1), of p m] by (cases "p = bp_addr a i") auto
  qed
qed

lemma bp_live_remove:
  assumes "bp_inv a" and "bp_inv a'" and "i \<in> bp_used a" and "bp_used a' = bp_used a - {i}"
    and "bp_mem a' = bp_mem a" and "bp_block_size a' = bp_block_size a"
  shows "bp_live a' = (bp_live a)(bp_addr a i := None)"
proof (rule ext)
  fix p
  have lt: "j \<in> bp_used a \<Longrightarrow> j < unat (bp_block_count a)" for j
    by (simp add: bp_used_def)
  show "bp_live a' p = ((bp_live a)(bp_addr a i := None)) p"
  proof (cases "bp_live a' p")
    case None
    then have "\<forall>j \<in> bp_used a - {i}. p \<noteq> bp_addr a j"
      using bp_live_None_iff [OF assms(2)] by (simp add: assms(4) bp_addr_cong [OF assms(5,6)])
    then have "p \<noteq> bp_addr a i \<Longrightarrow> bp_live a p = None"
      using bp_live_None_iff [OF assms(1)] by auto
    then show ?thesis using None by simp
  next
    case (Some m)
    then obtain j where j: "j \<in> bp_used a" "j \<noteq> i" "p = bp_addr a j" and m: "m = unat (bp_block_size a)"
      using bp_live_iff [OF assms(2)] by (auto simp: assms(4,6) bp_addr_cong [OF assms(5,6)])
    then have "p \<noteq> bp_addr a i"
      using bp_addr_inject [OF assms(1) lt [OF j(1)] lt [OF assms(3)]] by simp
    moreover have "bp_live a p = Some m"
      using j m bp_live_iff [OF assms(1)] by blast
    ultimately show ?thesis using Some by simp
  qed
qed

lemma bp_blocks_disjoint:
  assumes "bp_inv a"
  shows "blocks_disjoint (bp_live a)"
  unfolding blocks_disjoint_def
proof (intro allI impI)
  fix p q m k
  assume "bp_live a p = Some m" and "bp_live a q = Some k" and "p \<noteq> q"
  then obtain i j where ij: "i \<in> bp_used a" "j \<in> bp_used a" "p = bp_addr a i" "q = bp_addr a j" "i \<noteq> j"
    and mk: "m = unat (bp_block_size a)" "k = unat (bp_block_size a)"
    using bp_live_iff [OF assms] by auto
  then have lt: "i < unat (bp_block_count a)" "j < unat (bp_block_count a)"
    by (simp_all add: bp_used_def)
  have "Suc i \<le> j \<or> Suc j \<le> i" using ij(5) by linarith
  then have "Suc i * unat (bp_block_size a) \<le> j * unat (bp_block_size a) \<or>
      Suc j * unat (bp_block_size a) \<le> i * unat (bp_block_size a)"
    using mult_le_mono1 by blast
  then show "unat p + m \<le> unat q \<or> unat q + k \<le> unat p"
    using unat_bp_addr [OF assms lt(1)] unat_bp_addr [OF assms lt(2)] by (auto simp: ij mk)
qed

text \<open>The pool keeps no data in its blocks: a store of the client leaves its state as it is.\<close>

definition bp_client_write :: "bp_alloc \<Rightarrow> addr \<Rightarrow> u64 \<Rightarrow> bp_alloc" where
  "bp_client_write a x v = a"

interpretation bp: allocator_contract bp_inv bp_allocate bp_deallocate bp_live
    "\<lambda>n al. True" "\<lambda>a p. bp_live a p \<noteq> None" bp_client_write
proof
  fix a :: bp_alloc and n al p a'
  assume inv: "bp_inv a"
  show "bp_inv (snd (bp_allocate a n al))"
    by (cases rule: bp_allocate_cases [OF inv, of n al]) simp_all
  show "bp_live a' = bp_live a" if "bp_allocate a n al = (None, a')"
    by (cases rule: bp_allocate_cases [OF inv, of n al])
      (use that in \<open>auto simp: bp_live_def bp_test_def Let_def fun_eq_iff\<close>)
  show "p \<noteq> NULL \<and> bp_live a p = None \<and> (\<exists>m\<ge>unat n. bp_live a' = (bp_live a)(p \<mapsto> m))"
    if ret: "bp_allocate a n al = (Some p, a')"
  proof -
    obtain i where i: "p = bp_addr a i" "bp_inv a'" "n \<le> bp_block_size a"
        "i < unat (bp_block_count a)" "i \<notin> bp_used a" "bp_used a' = insert i (bp_used a)"
        "bp_mem a' = bp_mem a" "bp_block_size a' = bp_block_size a"
      by (cases rule: bp_allocate_cases [OF inv, of n al]) (use ret in auto)
    have "\<forall>j \<in> bp_used a. p \<noteq> bp_addr a j"
      using i bp_addr_inject [OF inv i(4)] by (auto simp: bp_used_def)
    then have "bp_live a p = None" using bp_live_None_iff [OF inv] by simp
    moreover have "bp_live a' = (bp_live a)(p \<mapsto> unat (bp_block_size a))"
      unfolding i(1) by (rule bp_live_insert [OF inv i(2,4,6,7,8)])
    ultimately show ?thesis
      using i(1,3) bp_addr_not_null [OF inv i(4)] by (auto simp: word_le_nat_alt)
  qed
  show "blocks_disjoint (bp_live a)"
    using inv by (rule bp_blocks_disjoint)
  show "bp_live a p \<noteq> None \<and>
      (\<exists>a'. bp_deallocate a p = Inr a' \<and> bp_inv a' \<and> bp_live a' = (bp_live a)(p := None))"
    if live: "bp_live a p \<noteq> None"
  proof -
    from live obtain i where i: "i \<in> bp_used a" "p = bp_addr a i"
      unfolding bp_live_None_iff [OF inv] by blast
    from bp_deallocate_used [OF inv i(1)] obtain a' where a': "bp_deallocate a p = Inr a'" "bp_inv a'"
        "bp_used a' = bp_used a - {i}" "bp_mem a' = bp_mem a" "bp_block_size a' = bp_block_size a"
      unfolding i(2) by blast
    then have "bp_live a' = (bp_live a)(p := None)"
      unfolding i(2) by (intro bp_live_remove [OF inv _ i(1)])
    then show ?thesis using a'(1,2) live by simp
  qed
  show "bp_inv (bp_client_write a x v) \<and> bp_live (bp_client_write a x v) = bp_live a" for x v
    using inv by (simp add: bp_client_write_def)
qed

interpretation bp_layout: layout_contract bp_inv bp_walk
    "\<lambda>a. unat (bp_block_count a) * unat (bp_block_size a)" "\<lambda>a. unat (hs_used (bp_stats a))"
  by unfold_locales (simp_all add: bp_walk_spec bp_used_stat)


subsection \<open>Construction and destruction\<close>

lemma hf_block_pool_create_inv:
  assumes os: "os_wf os"
    and ret: "hf_block_pool_create os block_size block_count = (cs, Some a)"
    and nowrap: "(unat block_size + 16) * unat block_count < 2 ^ 62" "unat block_size < 2 ^ 62"
  shows "bp_inv a" and "bp_used a = {}" and "bp_block_count a = block_count"
    and "unat block_size \<le> unat (bp_block_size a)"
proof -
  obtain k where k: "12 \<le> k" "k < 32" "os_page_size os = 2 ^ k" "os_mmap os 0 = None"
    and mm: "\<forall>n p. os_mmap os n = Some p \<longrightarrow> p \<noteq> 0 \<and> 2 ^ k dvd unat p \<and> unat p + unat n < 2 ^ 63"
    using os_wfD [OF os] by blast
  define bs where "bs = hf_align_up block_size 16"
  define prod where "prod = bs * block_count"
  define bytes where "bytes = hf_align_up prod (2 ^ k)"
  have bs: "unat bs = (unat block_size + 15) div 16 * 16"
    unfolding bs_def using nowrap(2) by (intro hf_align_up_16) simp
  then have bs_le: "unat bs \<le> unat block_size + 15" and bs_ge: "unat block_size \<le> unat bs"
    and bs_dvd: "16 dvd unat bs"
    by simp_all
  have "unat bs * unat block_count \<le> (unat block_size + 16) * unat block_count"
    using bs_le by (intro mult_le_mono1) simp
  then have pb: "unat bs * unat block_count < 2 ^ 62"
    using nowrap(1) by (rule le_less_trans)
  then have prod: "unat prod = unat bs * unat block_count"
    by (simp add: prod_def unat_mult_nowrap)
  have p32: "(2::nat) ^ k < 2 ^ 32" using k(2) by (intro power_strict_increasing) simp_all
  note up = hf_align_up_bounds [of k prod, folded bytes_def]
  have room: "unat prod + 2 ^ k \<le> 2 ^ 64" and k64: "k < 64"
    using pb p32 k(2) by (simp_all add: prod)
  have "unat bytes < 2 ^ 63"
    using up(2) [OF k64 room] pb p32 by (simp add: prod)
  then have "unat bytes + 2 ^ k \<le> 2 ^ 64"
    using p32 by simp
  then have idem: "hf_align_up bytes (2 ^ k) = bytes"
    using up(3) [OF k64 room] k64 by (intro hf_align_up_id)
  from ret obtain mem where mem: "os_mmap os bytes = Some mem"
    and a: "a = \<lparr>bp_mem = mem, bp_capacity = bytes, bp_block_size = bs,
       bp_block_count = block_count, bp_hint = 0, bp_bitmap = replicate (unat ((block_count + 63) div 64)) 0,
       bp_words = (block_count + 63) div 64, bp_stats = stats_zero\<lparr>hs_capacity := bytes\<rparr>\<rparr>"
    by (auto simp: hf_block_pool_create_def hf_vm_reserve_def Let_def k(3) bs_def [symmetric]
        prod_def [symmetric] bytes_def [symmetric] idem HF_DEFAULT_ALIGN_def
        split: if_splits option.splits)
  from mem k(4) have "bytes \<noteq> 0" by auto
  then have "prod \<noteq> 0"
    using k64 p32 hf_align_up_id [of k 0] by (auto simp: bytes_def)
  then have "0 < unat prod" by (simp add: unat_gt_0)
  then have pos: "0 < unat bs" "0 < unat block_count" by (simp_all add: prod)
  have "16 \<le> unat bs" using bs_dvd pos(1) by (rule dvd_imp_le)
  moreover have "unat prod \<le> unat bytes" using up(1) [OF k64 room] .
  moreover have "(16::nat) dvd 2 ^ k"
    using k(1) le_imp_power_dvd [of 4 k "2::nat"] by simp
  then have "16 dvd unat mem" using mm [rule_format, OF mem] by (blast intro: dvd_trans)
  moreover have "0 < unat mem" using mm [rule_format, OF mem] by (simp add: unat_gt_0)
  moreover have "unat (block_count + 63) = unat block_count + 63"
  proof -
    have "1 * unat block_count \<le> (unat block_size + 16) * unat block_count"
      by (intro mult_le_mono1) simp
    then have "unat block_count < 2 ^ 62" using nowrap(1) by linarith
    then show ?thesis by (simp add: unat_add_nowrap)
  qed
  then have words: "unat ((block_count + 63) div 64) = (unat block_count + 63) div 64"
    by (simp add: unat_div)
  moreover show used: "bp_used a = {}"
  proof -
    have "i div 64 < (unat block_count + 63) div 64" if "i < unat block_count" for i
      using that by simp
    then show ?thesis by (auto simp: bp_used_def a words)
  qed
  ultimately show "bp_inv a"
    using bs_dvd pos mm [rule_format, OF mem]
    by (simp add: bp_inv_def a used [unfolded a] stats_zero_def prod algebra_simps)
  show "bp_block_count a = block_count" and "unat block_size \<le> unat (bp_block_size a)"
    using bs_ge by (simp_all add: a)
qed

lemma hf_block_pool_create_held:
  assumes os: "os_wf os"
  shows "case hf_block_pool_create os block_size block_count of
      (cs, None) \<Rightarrow> vm_held cs {} = {}
    | (cs, Some a) \<Rightarrow> bp_mem a \<noteq> NULL \<and>
        vm_held cs {} = {(bp_mem a, hf_align_up (bp_capacity a) (os_page_size os))}"
proof -
  have "p \<noteq> NULL" if "os_mmap os n = Some p" for n p
    using that os by (auto simp: os_wf_def)
  then show ?thesis
    by (auto simp: hf_block_pool_create_def Let_def hf_vm_reserve_def hf_vm_release_def
        split: option.splits)
qed


subsection \<open>Properties\<close>

definition bp_example :: bp_alloc where
  "bp_example = the (snd (hf_block_pool_create os_example 24 100))"

lemma bp_example_create: "\<exists>cs. hf_block_pool_create os_example 24 100 = (cs, Some bp_example)"
  by (simp add: bp_example_def hf_block_pool_create_def os_example_def hf_vm_reserve_def
      HF_DEFAULT_ALIGN_def hf_align_up_def Let_def)

lemma bp_example_fresh: "bp_inv bp_example" "bp_used bp_example = {}" "bp_block_count bp_example = 100"
  using bp_example_create hf_block_pool_create_inv [OF os_example_wf, of 24 100] by auto

lemma bp_example_size: "bp_block_size bp_example = 32"
  by (simp add: bp_example_def hf_block_pool_create_def os_example_def hf_vm_reserve_def
      HF_DEFAULT_ALIGN_def hf_align_up_def Let_def)

text \<open>
  The branch-free binary search \<^verbatim>\<open>lowest_zero\<close> returns the position of the lowest clear bit of
  every word that is not all ones.
\<close>

theorem lowest_zero_correct:
  assumes "bits \<noteq> NOT 0"
  shows "lowest_zero bits < 64 \<and> \<not> bit bits (lowest_zero bits) \<and>
    (\<forall>i < lowest_zero bits. bit bits i)"
  using lowest_zero_spec [OF assms] by blast

theorem lowest_zero_correct_witness:
  "(0xFF :: u64) \<noteq> NOT 0 \<and> \<not> bit (0xFF :: u64) (lowest_zero 0xFF) \<and> lowest_zero 0xFF = 8"
  using lowest_zero_correct [of "0xFF"] by (simp add: lowest_zero_def lz_step_def)

text \<open>
  C24: \<^verbatim>\<open>bp_allocate\<close> returns null exactly when the request exceeds the block size or every block
  is in use; otherwise it returns the address of a block that was free and marks exactly that block
  as used.  The pool invariant, which fixes the \<^verbatim>\<open>used\<close> statistic, is kept on every branch.
\<close>

theorem bp_allocate_correct:
  assumes "bp_inv a"
  shows "bp_inv (snd (bp_allocate a sz al)) \<and>
    (case fst (bp_allocate a sz al) of
       None \<Rightarrow> (sz > bp_block_size a \<or> bp_used a = {..<unat (bp_block_count a)}) \<and>
               bp_used (snd (bp_allocate a sz al)) = bp_used a
     | Some p \<Rightarrow> sz \<le> bp_block_size a \<and>
         (\<exists>i. i < unat (bp_block_count a) \<and> i \<notin> bp_used a \<and> p = bp_addr a i \<and>
              bp_used (snd (bp_allocate a sz al)) = insert i (bp_used a)))"
proof (rule bp_allocate_cases [OF assms, of sz al], goal_cases)
  case (1 a')
  then have "bp_used a' = bp_used a" by (simp add: bp_used_def)
  with 1 show ?thesis by simp
next
  case (2 i a')
  then show ?thesis by auto
qed

theorem bp_allocate_correct_witness:
  "bp_inv bp_example \<and> bp_inv (snd (bp_allocate bp_example 30 16))"
  using bp_allocate_correct [OF bp_example_fresh(1), of 30 16] bp_example_fresh(1) by simp

text \<open>
  C25: \<^verbatim>\<open>bp_deallocate\<close> accepts a non-null pointer exactly when it is the start of a block in use,
  and then makes only that block free and restarts the search there; every other pointer (misaligned,
  outside the pool, or already free) stops at one of the three assertions.
\<close>

theorem bp_deallocate_correct:
  assumes "bp_inv a" and "p \<noteq> NULL"
  shows "if \<exists>i \<in> bp_used a. p = bp_addr a i
    then \<exists>i a'. p = bp_addr a i \<and> i \<in> bp_used a \<and> bp_deallocate a p = Inr a' \<and> bp_inv a' \<and>
           bp_used a' = bp_used a - {i} \<and> unat (bp_hint a') = i div 64
    else bp_deallocate a p = Inl Assert_failed"
proof (cases "\<exists>i \<in> bp_used a. p = bp_addr a i")
  case True
  then obtain i where i: "i \<in> bp_used a" "p = bp_addr a i" by blast
  from bp_deallocate_used [OF assms(1) i(1)] obtain a' where
    "bp_deallocate a p = Inr a'" "bp_inv a'" "bp_used a' = bp_used a - {i}" "unat (bp_hint a') = i div 64"
    unfolding i(2) by blast
  with i True show ?thesis by auto
next
  case False
  then show ?thesis using bp_deallocate_other [OF assms] by simp
qed

theorem bp_deallocate_correct_witness:
  "bp_inv bp_example \<and> bp_deallocate bp_example 0x100020 = Inl Assert_failed"
  using bp_deallocate_correct [OF bp_example_fresh(1), of "0x100020"] bp_example_fresh by simp

text \<open>
  The layout walk of a pool reports consecutive non-empty runs that cover the pool's blocks
  from offset zero without gap or overlap, and the bytes it reports as used are exactly the
  \<^verbatim>\<open>used\<close> statistic.
\<close>

theorem bp_walk_correct:
  assumes "bp_inv a"
  shows "tiles 0 (bp_walk a) (unat (bp_block_count a) * unat (bp_block_size a)) \<and>
    used_bytes (bp_walk a) = unat (hs_used (bp_get_stats a)) \<and>
    free_bytes (bp_walk a) + unat (hs_used (bp_get_stats a)) =
      unat (bp_block_count a) * unat (bp_block_size a)"
  using bp_layout.walk_tiles [OF assms] bp_layout.walk_used [OF assms]
    bp_layout.free_plus_used [OF assms] by (simp add: bp_get_stats_def)

theorem bp_walk_correct_witness:
  "bp_inv bp_example \<and> tiles 0 (bp_walk bp_example) 3200"
  using bp_walk_correct [OF bp_example_fresh(1)] bp_example_fresh bp_example_size by simp



text \<open>
  \<^verbatim>\<open>hf_block_pool_create\<close> does not check the product of block size and count.  For two blocks
  of \<open>2 ^ 63 + 16\<close> bytes the product wraps to 32: one page is mapped, and the pool grants a request
  of a terabyte at the start of that page.
\<close>

theorem block_pool_create_wraps:
  "\<exists>a a'. hf_block_pool_create os_example (2 ^ 63 + 16) 2 =
       ([Vm_reserve 4096 (Some 0x100000)], Some a) \<and>
     bp_capacity a = 4096 \<and> bp_block_count a = 2 \<and>
     bp_allocate a (2 ^ 40) 16 = (Some 0x100000, a')"
  by (simp add: hf_block_pool_create_def os_example_def hf_vm_reserve_def HF_DEFAULT_ALIGN_def
      hf_align_up_def Let_def bp_allocate_def bp_scan.simps lowest_zero_def lz_step_def)

end
