(* ===== verification/HF_Stack.thy ===== *)
theory HF_Stack
  imports HF_Allocator
begin

text \<open>
  The bump-pointer allocator of \<^verbatim>\<open>hf_stack.c\<close>.  Each payload is preceded by a 16-byte header in the
  managed memory that saves the previous top and the previous payload offset; the headers form a
  chain that a LIFO release walks back and that a rewind cuts off.
\<close>

record st_alloc =
  st_mem :: addr
  st_capacity :: u64
  st_top :: u64
  st_last_payload :: u64
  st_cells :: cells
  st_stats :: hf_stats

definition ST_NONE :: u64 where
  "ST_NONE = - 1"

text \<open>The header of the block at payload offset \<open>p\<close>: \<^verbatim>\<open>prev_top\<close>, then \<^verbatim>\<open>prev_payload\<close>.\<close>

definition st_header :: "addr \<Rightarrow> u64 \<Rightarrow> addr" where
  "st_header m p = m + p - 16"

definition st_allocate :: "st_alloc \<Rightarrow> u64 \<Rightarrow> u64 \<Rightarrow> addr option \<times> st_alloc" where
  "st_allocate a sz alignment =
     (let a = a\<lparr>st_stats := count_alloc (st_stats a)\<rparr>;
          hdr_at = hf_align_up (st_top a) 8;
          payload = hf_align_up (hdr_at + 16) alignment;
          new_top = payload + sz
      in if new_top > st_capacity a then (None, a\<lparr>st_stats := count_failed (st_stats a)\<rparr>)
         else let h = st_header (st_mem a) payload
              in (Some (st_mem a + payload),
                  a\<lparr>st_cells := (st_cells a)(h := st_top a, h + 8 := st_last_payload a),
                    st_top := new_top, st_last_payload := payload,
                    st_stats := raise_peak (set_used new_top (st_stats a))\<rparr>))"

text \<open>The assertion comes before the early return on the same condition, which is never reached.\<close>

definition st_deallocate :: "st_alloc \<Rightarrow> addr \<Rightarrow> st_alloc outcome" where
  "st_deallocate a ptr =
     (if ptr = NULL then Inr a
      else let a = a\<lparr>st_stats := count_free (st_stats a)\<rparr>;
               payload = ptr - st_mem a
           in if payload \<noteq> st_last_payload a then Inl Assert_failed
              else let h = st_header (st_mem a) payload;
                       prev_top = st_cells a h
                   in Inr (a\<lparr>st_top := prev_top, st_stats := set_used prev_top (st_stats a),
                             st_last_payload := st_cells a (h + 8)\<rparr>))"

definition st_name :: "st_alloc \<Rightarrow> string" where
  "st_name a = ''Stack''"

definition st_get_stats :: "st_alloc \<Rightarrow> hf_stats" where
  "st_get_stats a = st_stats a"

definition st_walk :: "st_alloc \<Rightarrow> hf_block_info list" where
  "st_walk a =
     (if st_top a \<noteq> 0 then [\<lparr>bi_offset = 0, bi_size = st_top a, bi_is_free = False\<rparr>] else []) @
     (if st_top a < st_capacity a
      then [\<lparr>bi_offset = st_top a, bi_size = st_capacity a - st_top a, bi_is_free = True\<rparr>] else [])"

definition st_destroy :: "os_services \<Rightarrow> st_alloc \<Rightarrow> vm_call list" where
  "st_destroy os a = hf_vm_release os (st_mem a) (st_capacity a)"

definition ST_VT :: "st_alloc hf_allocator_vtable" where
  "ST_VT = \<lparr>vt_allocate = st_allocate, vt_deallocate = st_deallocate, vt_name = st_name,
     vt_get_stats = st_get_stats, vt_walk = st_walk, vt_destroy = st_destroy\<rparr>"

text \<open>Fresh anonymous memory is zero.\<close>

definition hf_stack_create :: "os_services \<Rightarrow> u64 \<Rightarrow> vm_call list \<times> st_alloc option" where
  "hf_stack_create os capacity =
     (let capacity = hf_align_up (if capacity \<noteq> 0 then capacity else os_page_size os)
                       (os_page_size os)
      in if \<not> os_calloc os 0 then ([], None)
         else case hf_vm_reserve os capacity of
             (cs, None) \<Rightarrow> (cs, None)
           | (cs, Some mem) \<Rightarrow>
               (cs, Some \<lparr>st_mem = mem, st_capacity = capacity, st_top = 0,
                          st_last_payload = ST_NONE, st_cells = (\<lambda>_. 0),
                          st_stats = stats_zero\<lparr>hs_capacity := capacity\<rparr>\<rparr>))"

definition hf_stack_mark :: "st_alloc \<Rightarrow> u64" where
  "hf_stack_mark a = st_top a"

definition hf_stack_rewind :: "st_alloc \<Rightarrow> u64 \<Rightarrow> st_alloc outcome" where
  "hf_stack_rewind a marker =
     (if \<not> marker \<le> st_top a then Inl Assert_failed
      else Inr (a\<lparr>st_top := marker, st_stats := set_used marker (st_stats a),
                  st_last_payload := ST_NONE\<rparr>))"

definition hf_stack_reset :: "st_alloc \<Rightarrow> st_alloc outcome" where
  "hf_stack_reset a = hf_stack_rewind a 0"


subsection \<open>The chain of headers\<close>

text \<open>
  \<open>st_chain m c l t fs\<close>: from last payload \<open>l\<close> and top \<open>t\<close>, the headers in \<open>c\<close> describe the frames
  \<open>fs\<close>, each a payload offset with the top at which it ends, newest first.
\<close>

fun st_chain :: "addr \<Rightarrow> cells \<Rightarrow> u64 \<Rightarrow> u64 \<Rightarrow> (u64 \<times> u64) list \<Rightarrow> bool" where
  "st_chain m c l t [] \<longleftrightarrow> l = ST_NONE"
| "st_chain m c l t ((p, u) # fs) \<longleftrightarrow>
     p = l \<and> u = t \<and> 8 dvd unat p \<and> unat p \<le> unat t \<and>
     unat (c (st_header m p)) + 16 \<le> unat p \<and>
     st_chain m c (c (st_header m p + 8)) (c (st_header m p)) fs"

text \<open>The frames, read off the memory.\<close>

function st_frames :: "addr \<Rightarrow> cells \<Rightarrow> u64 \<Rightarrow> u64 \<Rightarrow> (u64 \<times> u64) list" where
  "st_frames m c l t =
     (if l = ST_NONE then []
      else let pt = c (st_header m l); pp = c (st_header m l + 8)
           in (l, t) # (if pp = ST_NONE \<or> pp < l then st_frames m c pp pt else []))"
  by pat_completeness auto
termination
  by (relation "measure (\<lambda>(m, c, l, t). if l = ST_NONE then 0 else Suc (unat l))")
    (auto simp: word_less_nat_alt)

declare st_frames.simps [simp del]

abbreviation frames_of :: "st_alloc \<Rightarrow> (u64 \<times> u64) list" where
  "frames_of a \<equiv> st_frames (st_mem a) (st_cells a) (st_last_payload a) (st_top a)"

definition st_inv :: "st_alloc \<Rightarrow> bool" where
  "st_inv a \<longleftrightarrow>
     0 < unat (st_mem a) \<and> 8 dvd unat (st_mem a) \<and>
     unat (st_mem a) + unat (st_capacity a) < 2 ^ 63 \<and>
     unat (st_top a) \<le> unat (st_capacity a) \<and> hs_used (st_stats a) = st_top a \<and>
     st_chain (st_mem a) (st_cells a) (st_last_payload a) (st_top a) (frames_of a)"

definition st_live :: "st_alloc \<Rightarrow> addr \<rightharpoonup> nat" where
  "st_live a = map_of (map (\<lambda>(p, u). (st_mem a + p, unat u - unat p)) (frames_of a))"

text \<open>Requests with a power-of-two alignment up to 4 GiB and a size whose sum does not wrap.\<close>

definition st_fits :: "u64 \<Rightarrow> u64 \<Rightarrow> bool" where
  "st_fits n al \<longleftrightarrow> unat n < 2 ^ 62 \<and> (\<exists>k \<le> 32. al = 2 ^ k)"

definition st_freeable :: "st_alloc \<Rightarrow> addr \<Rightarrow> bool" where
  "st_freeable a p \<longleftrightarrow> st_last_payload a \<noteq> ST_NONE \<and> p = st_mem a + st_last_payload a"

definition st_client_write :: "st_alloc \<Rightarrow> addr \<Rightarrow> u64 \<Rightarrow> st_alloc" where
  "st_client_write a x v = a\<lparr>st_cells := (st_cells a)(x := v)\<rparr>"

lemma st_invD:
  assumes "st_inv a"
  shows "0 < unat (st_mem a)" and "8 dvd unat (st_mem a)"
    and "unat (st_mem a) + unat (st_capacity a) < 2 ^ 63"
    and "unat (st_top a) \<le> unat (st_capacity a)" and "hs_used (st_stats a) = st_top a"
    and "st_chain (st_mem a) (st_cells a) (st_last_payload a) (st_top a) (frames_of a)"
  using assms unfolding st_inv_def by blast+

lemma eight_dvd_not_none: "8 dvd unat p \<Longrightarrow> p \<noteq> ST_NONE"
proof
  assume dvd: "8 dvd unat p" and p: "p = ST_NONE"
  have "unat p = 0xFFFFFFFFFFFFFFFF"
    unfolding p ST_NONE_def by (simp add: unsigned_minus_1_eq_mask mask_eq_exp_minus_1)
  with dvd show False by simp
qed

lemma st_header_nat:
  assumes "16 \<le> unat p" and "unat m + unat p < 2 ^ 63"
  shows "unat (st_header m p) = unat m + unat p - 16"
    and "unat (st_header m p + 8) = unat m + unat p - 8"
proof -
  have mp: "unat (m + p) = unat m + unat p" using assms by (simp add: unat_add_nowrap)
  then show h: "unat (st_header m p) = unat m + unat p - 16"
    using assms by (simp add: st_header_def unat_sub_nowrap)
  show "unat (st_header m p + 8) = unat m + unat p - 8"
    using assms by (simp add: unat_add_nowrap h)
qed

lemma st_chain_bounds:
  "st_chain m c l t fs \<Longrightarrow> (p, u) \<in> set fs \<Longrightarrow>
   16 \<le> unat p \<and> unat p \<le> unat u \<and> unat u \<le> unat t \<and> 8 dvd unat p"
proof (induction m c l t fs rule: st_chain.induct)
  case (2 m c l t q w fs)
  then show ?case by fastforce
qed simp

lemma st_chain_disjoint:
  "st_chain m c l t fs \<Longrightarrow> (p, u) \<in> set fs \<Longrightarrow> (q, w) \<in> set fs \<Longrightarrow>
   (p, u) = (q, w) \<or> unat u + 16 \<le> unat q \<or> unat w + 16 \<le> unat p"
proof (induction m c l t fs rule: st_chain.induct)
  case (2 m c l t q' w' fs)
  then have "st_chain m c (c (st_header m q' + 8)) (c (st_header m q')) fs"
    and "unat (c (st_header m q')) + 16 \<le> unat q'" by auto
  with 2 st_chain_bounds show ?case by fastforce
qed simp

lemma st_chain_frames: "st_chain m c l t fs \<Longrightarrow> st_frames m c l t = fs"
proof (induction m c l t fs rule: st_chain.induct)
  case (1 m c l t)
  then show ?case by (simp add: st_frames.simps)
next
  case (2 m c l t p u fs)
  then have *: "st_chain m c (c (st_header m p + 8)) (c (st_header m p)) fs"
    and lt: "unat (c (st_header m p)) + 16 \<le> unat p" and "p \<noteq> ST_NONE"
    by (auto dest: eight_dvd_not_none)
  have "c (st_header m p + 8) = ST_NONE \<or> c (st_header m p + 8) < p"
  proof (cases fs)
    case (Cons f fs')
    then obtain q w where "f = (q, w)" by (cases f)
    then show ?thesis using * lt Cons by (auto simp: word_less_nat_alt)
  qed (use * in simp)
  moreover have "p = l" "u = t" using 2(2) by simp_all
  ultimately show ?case using 2(1) * \<open>p \<noteq> ST_NONE\<close> by (auto simp: st_frames.simps [of m c l])
qed

lemma st_invI:
  assumes "0 < unat (st_mem a)" and "8 dvd unat (st_mem a)"
    and "unat (st_mem a) + unat (st_capacity a) < 2 ^ 63"
    and "unat (st_top a) \<le> unat (st_capacity a)" and "hs_used (st_stats a) = st_top a"
    and "st_chain (st_mem a) (st_cells a) (st_last_payload a) (st_top a) fs"
  shows "st_inv a"
  unfolding st_inv_def st_chain_frames [OF assms(6)] using assms by blast

lemma st_chain_cong:
  "st_chain m c l t fs \<Longrightarrow> unat m + unat t < 2 ^ 63 \<Longrightarrow>
   (\<And>x. unat x < unat m + unat t \<Longrightarrow> c' x = c x) \<Longrightarrow> st_chain m c' l t fs"
proof (induction m c l t fs rule: st_chain.induct)
  case (2 m c l t p u fs)
  have p: "16 \<le> unat p" "unat p \<le> unat t" "unat (c (st_header m p)) + 16 \<le> unat p"
    using 2(2) by auto
  have "unat m + unat p < 2 ^ 63" using p(2) 2(3) by linarith
  note h = st_header_nat [OF p(1) this]
  have "c' (st_header m p) = c (st_header m p)" "c' (st_header m p + 8) = c (st_header m p + 8)"
    using p by (auto intro!: 2(4) simp: h)
  moreover have "st_chain m c' (c (st_header m p + 8)) (c (st_header m p)) fs"
    using 2(2,3) p by (intro 2(1) 2(4)) auto
  ultimately show ?case using 2(2) by auto
qed simp

lemma st_chain_store:
  "st_chain m c l t fs \<Longrightarrow> unat m + unat t < 2 ^ 63 \<Longrightarrow> (p, u) \<in> set fs \<Longrightarrow>
   unat m + unat p \<le> unat x \<Longrightarrow> unat x < unat m + unat u \<Longrightarrow> st_chain m (c(x := v)) l t fs"
proof (induction m c l t fs rule: st_chain.induct)
  case (2 m c l t q w fs)
  have q: "16 \<le> unat q" "unat q \<le> unat t" "unat (c (st_header m q)) + 16 \<le> unat q"
    and tl: "st_chain m c (c (st_header m q + 8)) (c (st_header m q)) fs"
    using 2(2) by auto
  have "unat m + unat q < 2 ^ 63" using q(2) 2(3) by linarith
  note h = st_header_nat [OF q(1) this]
  have up: "unat u \<le> unat (c (st_header m q))" if "(p, u) \<in> set fs"
    using st_chain_bounds [OF tl that] by simp
  have ne: "st_header m q \<noteq> x" "st_header m q + 8 \<noteq> x"
  proof -
    have "unat (st_header m q) \<noteq> unat x \<and> unat (st_header m q + 8) \<noteq> unat x"
      using 2(4-6) up q h by fastforce
    then show "st_header m q \<noteq> x" "st_header m q + 8 \<noteq> x" by auto
  qed
  have "st_chain m (c(x := v)) (c (st_header m q + 8)) (c (st_header m q)) fs"
  proof (cases "(p, u) \<in> set fs")
    case True
    then show ?thesis using 2 tl q by (intro 2(1)) auto
  next
    case False
    then have "p = q" using 2(4) by simp
    then show ?thesis using tl 2(3,5) q by (intro st_chain_cong [OF tl]) auto
  qed
  with ne 2(2) show ?case by (auto simp del: fun_upd_apply simp: fun_upd_other)
qed simp



subsection \<open>Allocation and release\<close>

text \<open>The offsets \<^verbatim>\<open>st_allocate\<close> computes.\<close>

lemma st_payload:
  assumes inv: "st_inv a" and k: "k \<le> 32"
  defines "payload \<equiv> hf_align_up (hf_align_up (st_top a) 8 + 16) (2 ^ k)"
  shows "unat (st_top a) + 16 \<le> unat payload" and "2 ^ k dvd unat payload"
    and "8 dvd unat payload" and "unat payload < unat (st_top a) + 24 + 2 ^ k"
proof -
  let ?h = "hf_align_up (st_top a) 8"
  have t: "unat (st_top a) < 2 ^ 63" using st_invD(3,4) [OF inv] by linarith
  have k32: "(2::nat) ^ k \<le> 2 ^ 32" using k by (intro power_increasing) simp_all
  have h: "unat (st_top a) \<le> unat ?h" "unat ?h < unat (st_top a) + 8" "8 dvd unat ?h"
    using hf_align_up_bounds [of 3 "st_top a"] t by simp_all
  have h16: "unat (?h + 16) = unat ?h + 16" using h(2) t by (simp add: unat_add_nowrap)
  have room: "unat (?h + 16) + 2 ^ k \<le> 2 ^ 64" using h16 h(2) t k32 by simp
  have "k < 64" using k by simp
  note b = hf_align_up_bounds [OF this room, folded payload_def]
  show "unat (st_top a) + 16 \<le> unat payload" using b(1) h(1) h16 by linarith
  show "2 ^ k dvd unat payload" by (rule b(3))
  show "unat payload < unat (st_top a) + 24 + 2 ^ k" using b(2) h(2) h16 by linarith
  show "8 dvd unat payload"
  proof (cases "3 \<le> k")
    case True
    then have "(2::nat) ^ 3 dvd 2 ^ k" by (rule le_imp_power_dvd)
    then show ?thesis using b(3) by (auto intro: dvd_trans)
  next
    case False
    then have "(2::nat) ^ k dvd 2 ^ 3" by (intro le_imp_power_dvd) simp
    then have "(2::nat) ^ k dvd 8" by simp
    moreover have 8: "8 dvd unat (?h + 16)" using h(3) by (simp add: h16)
    ultimately have "2 ^ k dvd unat (?h + 16)" by (rule dvd_trans)
    then have "payload = ?h + 16"
      unfolding payload_def using \<open>k < 64\<close> room by (intro hf_align_up_id)
    with 8 show ?thesis by simp
  qed
qed

lemma st_inv_stats:
  "st_inv a \<Longrightarrow> hs_used st = hs_used (st_stats a) \<Longrightarrow> st_inv (a\<lparr>st_stats := st\<rparr>)"
  by (simp add: st_inv_def)

lemma st_allocate_cases:
  assumes inv: "st_inv a" and fits: "st_fits sz al"
  obtains (refused) a' where "st_allocate a sz al = (None, a')" and "st_inv a'"
      and "frames_of a' = frames_of a" and "st_mem a' = st_mem a"
      and "unat (st_capacity a) < unat (st_top a) + 24 + unat al + unat sz"
  | (granted) p a' where "st_allocate a sz al = (Some (st_mem a + p), a')" and "st_inv a'"
      and "frames_of a' = (p, p + sz) # frames_of a" and "st_mem a' = st_mem a"
      and "unat (st_top a) + 16 \<le> unat p" and "unat al dvd unat p" and "8 dvd unat p"
      and "unat (p + sz) = unat p + unat sz" and "unat p + unat sz \<le> unat (st_capacity a)"
      and "st_top a' = p + sz" and "st_capacity a' = st_capacity a"
      and "st_last_payload a' = p"
      and "st_cells a' (st_header (st_mem a) p) = st_top a"
      and "st_cells a' (st_header (st_mem a) p + 8) = st_last_payload a"
proof -
  from fits obtain k where sz: "unat sz < 2 ^ 62" and k: "k \<le> 32" "al = 2 ^ k"
    by (auto simp: st_fits_def)
  define p where "p = hf_align_up (hf_align_up (st_top a) 8 + 16) al"
  note P = st_payload [OF inv k(1), folded k(2), folded p_def]
  have al: "unat al = 2 ^ k" using k by simp
  have k32: "(2::nat) ^ k \<le> 2 ^ 32" using k by (intro power_increasing) simp_all
  have top: "unat (st_top a) < 2 ^ 63" using st_invD(3,4) [OF inv] by linarith
  have psz: "unat (p + sz) = unat p + unat sz"
    using P(4) top k32 sz by (simp add: unat_add_nowrap)
  show ?thesis
  proof (cases "p + sz > st_capacity a")
    case True
    let ?a' = "a\<lparr>st_stats := count_failed (count_alloc (st_stats a))\<rparr>"
    have "st_allocate a sz al = (None, ?a')"
      using True by (simp add: st_allocate_def p_def [symmetric] Let_def)
    moreover have "st_inv ?a'" using inv by (rule st_inv_stats) simp
    moreover have "unat (st_capacity a) < unat (st_top a) + 24 + unat al + unat sz"
      using True P(4) by (simp add: word_less_nat_alt psz al)
    ultimately show ?thesis by (intro refused [of ?a']) simp_all
  next
    case False
    define h where "h = st_header (st_mem a) p"
    define a' where "a' = snd (st_allocate a sz al)"
    let ?c = "(st_cells a)(h := st_top a, h + 8 := st_last_payload a)"
    have res: "st_allocate a sz al = (Some (st_mem a + p), a')"
      and same: "st_mem a' = st_mem a" "st_capacity a' = st_capacity a" "st_top a' = p + sz"
        "st_last_payload a' = p" "st_cells a' = ?c" "hs_used (st_stats a') = p + sz"
      using False by (simp_all add: a'_def h_def st_allocate_def p_def [symmetric] Let_def)
    have cap: "unat p + unat sz \<le> unat (st_capacity a)"
      using False by (simp add: word_less_nat_alt psz)
    then have "unat (st_mem a) + unat p < 2 ^ 63" using st_invD(3) [OF inv] by linarith
    note hn = st_header_nat [of p "st_mem a", folded h_def, OF _ this]
    have p16: "16 \<le> unat p" using P(1) by simp
    have ne: "h + 8 \<noteq> h" by simp
    have "st_chain (st_mem a) ?c (st_last_payload a) (st_top a) (frames_of a)"
    proof (rule st_chain_cong [OF st_invD(6) [OF inv]])
      show "unat (st_mem a) + unat (st_top a) < 2 ^ 63" using st_invD(3,4) [OF inv] by linarith
      fix x :: addr
      assume "unat x < unat (st_mem a) + unat (st_top a)"
      then have "unat x \<noteq> unat h" and "unat x \<noteq> unat (h + 8)" using hn [OF p16] P(1) by simp_all
      then show "?c x = st_cells a x" by auto
    qed
    then have chain: "st_chain (st_mem a) ?c p (p + sz) ((p, p + sz) # frames_of a)"
      using P ne by (simp add: h_def [symmetric] psz)
    then have fr: "frames_of a' = (p, p + sz) # frames_of a"
      using st_chain_frames [OF chain] by (simp only: same)
    have "st_inv a'"
      using st_invD [OF inv] chain cap by (intro st_invI) (simp_all only: same psz)
    then show ?thesis
      using res fr P psz cap al ne by (intro granted [of p a']) (simp_all add: same h_def [symmetric])
  qed
qed


lemma st_freeable_frames:
  assumes inv: "st_inv a" and "st_freeable a ptr"
  obtains fs where "frames_of a = (st_last_payload a, st_top a) # fs"
    and "ptr = st_mem a + st_last_payload a" and "ptr \<noteq> NULL"
    and "16 \<le> unat (st_last_payload a)"
    and "unat (st_mem a) + unat (st_last_payload a) < 2 ^ 63"
proof -
  from assms(2) have last: "st_last_payload a \<noteq> ST_NONE" "ptr = st_mem a + st_last_payload a"
    by (simp_all add: st_freeable_def)
  then obtain fs where fs: "frames_of a = (st_last_payload a, st_top a) # fs"
    by (simp add: st_frames.simps Let_def)
  then have b: "16 \<le> unat (st_last_payload a)" "unat (st_last_payload a) \<le> unat (st_top a)"
    using st_chain_bounds [OF st_invD(6) [OF inv], of "st_last_payload a" "st_top a"] by simp_all
  then have lt: "unat (st_mem a) + unat (st_last_payload a) < 2 ^ 63"
    using st_invD(3,4) [OF inv] by linarith
  then have "unat ptr = unat (st_mem a) + unat (st_last_payload a)"
    by (simp add: last unat_add_nowrap)
  then have "ptr \<noteq> NULL" using b(1) by (intro notI) simp
  with that fs last(2) b(1) lt show ?thesis by blast
qed

lemma st_deallocate_last:
  assumes inv: "st_inv a" and free: "st_freeable a ptr"
  obtains a' where "st_deallocate a ptr = Inr a'" and "st_inv a'"
    and "frames_of a = (st_last_payload a, st_top a) # frames_of a'" and "st_mem a' = st_mem a"
    and "st_top a' = st_cells a (st_header (st_mem a) (st_last_payload a))"
    and "st_last_payload a' = st_cells a (st_header (st_mem a) (st_last_payload a) + 8)"
    and "st_capacity a' = st_capacity a" and "st_cells a' = st_cells a"
proof -
  obtain fs where fs: "frames_of a = (st_last_payload a, st_top a) # fs"
    and ptr: "ptr = st_mem a + st_last_payload a" "ptr \<noteq> NULL"
    using st_freeable_frames [OF inv free] by metis
  define h where "h = st_header (st_mem a) (st_last_payload a)"
  define a' where "a' = a\<lparr>st_stats := set_used (st_cells a h) (count_free (st_stats a)),
    st_top := st_cells a h, st_last_payload := st_cells a (h + 8)\<rparr>"
  have res: "st_deallocate a ptr = Inr a'"
    using ptr by (simp add: st_deallocate_def Let_def a'_def h_def)
  have same: "st_mem a' = st_mem a" "st_capacity a' = st_capacity a" "st_cells a' = st_cells a"
    "st_top a' = st_cells a h" "st_last_payload a' = st_cells a (h + 8)"
    "hs_used (st_stats a') = st_cells a h"
    by (simp_all add: a'_def)
  have chain: "st_chain (st_mem a) (st_cells a) (st_cells a (h + 8)) (st_cells a h) fs"
    and le: "unat (st_cells a h) \<le> unat (st_top a)"
    using st_invD(6) [OF inv] unfolding fs by (simp_all add: h_def)
  then have fr: "frames_of a' = fs" using st_chain_frames [OF chain] by (simp only: same)
  have "st_inv a'"
    using st_invD [OF inv] chain le by (intro st_invI [of a' fs]) (simp_all only: same order_trans)
  with that res fs fr same show ?thesis unfolding h_def by metis
qed

lemma st_deallocate_other:
  assumes "ptr \<noteq> NULL" and "ptr - st_mem a \<noteq> st_last_payload a"
  shows "st_deallocate a ptr = Inl Assert_failed"
  using assms by (simp add: st_deallocate_def Let_def)


subsection \<open>The contracts\<close>

lemma st_live_Some:
  assumes inv: "st_inv a" and live: "st_live a p = Some m"
  obtains q u where "(q, u) \<in> set (frames_of a)" and "p = st_mem a + q" and "m = unat u - unat q"
    and "unat p = unat (st_mem a) + unat q" and "unat u \<le> unat (st_top a)" and "unat q \<le> unat u"
proof -
  from live obtain q u where q: "(q, u) \<in> set (frames_of a)" "p = st_mem a + q" "m = unat u - unat q"
    by (auto simp: st_live_def dest!: map_of_SomeD)
  have b: "unat q \<le> unat u" "unat u \<le> unat (st_top a)"
    using st_chain_bounds [OF st_invD(6) [OF inv] q(1)] by simp_all
  then have "unat p = unat (st_mem a) + unat q"
    using st_invD(3,4) [OF inv] q(2) by (simp add: unat_add_nowrap)
  with that q b show ?thesis by blast
qed

lemma st_live_above:
  assumes inv: "st_inv a" and p: "unat p = unat (st_mem a) + q" "unat (st_top a) < q"
  shows "st_live a p = None"
proof (rule ccontr)
  assume "st_live a p \<noteq> None"
  then obtain m where "st_live a p = Some m" by blast
  with inv show False by (rule st_live_Some) (use p in linarith)
qed

text \<open>A write into a live block touches no header.\<close>

lemma st_store_block:
  assumes inv: "st_inv a" and blk: "in_block (st_live a) p x"
  shows "st_chain (st_mem a) ((st_cells a)(x := v)) (st_last_payload a) (st_top a) (frames_of a)"
    and "(q, u) \<in> set (frames_of a) \<Longrightarrow>
      st_header (st_mem a) q \<noteq> x \<and> st_header (st_mem a) q + 8 \<noteq> x"
proof -
  from blk obtain m where m: "st_live a p = Some m" "unat p \<le> unat x" "unat x < unat p + m"
    by (auto simp: in_block_def split: option.splits)
  from st_live_Some [OF inv m(1)] obtain r w where r: "(r, w) \<in> set (frames_of a)"
    "m = unat w - unat r" "unat p = unat (st_mem a) + unat r" "unat r \<le> unat w" by metis
  have x: "unat (st_mem a) + unat r \<le> unat x" "unat x < unat (st_mem a) + unat w"
    using m r by simp_all
  show "st_chain (st_mem a) ((st_cells a)(x := v)) (st_last_payload a) (st_top a) (frames_of a)"
    using st_invD(3,4) [OF inv] x
    by (intro st_chain_store [OF st_invD(6) [OF inv] _ r(1)]) simp_all
  show "st_header (st_mem a) q \<noteq> x \<and> st_header (st_mem a) q + 8 \<noteq> x"
    if q: "(q, u) \<in> set (frames_of a)"
  proof -
    note chain = st_invD(6) [OF inv]
    have b: "16 \<le> unat q" "unat q \<le> unat u" "unat u \<le> unat (st_top a)"
      using st_chain_bounds [OF chain q] by simp_all
    then have "unat (st_mem a) + unat q < 2 ^ 63" using st_invD(3,4) [OF inv] by linarith
    note h = st_header_nat [OF b(1) this]
    have "unat (st_header (st_mem a) q) \<noteq> unat x \<and> unat (st_header (st_mem a) q + 8) \<noteq> unat x"
      using st_chain_disjoint [OF chain q r(1)] x b h by auto
    then show ?thesis by auto
  qed
qed

interpretation st: allocator_contract st_inv st_allocate st_deallocate st_live st_fits st_freeable
    st_client_write
proof
  fix a a' :: st_alloc and n al p x v
  assume inv: "st_inv a"
  show "st_inv (snd (st_allocate a n al))" if fits: "st_fits n al"
    by (rule st_allocate_cases [OF inv fits]) simp_all
  show "st_live a' = st_live a" if fits: "st_fits n al" and ret: "st_allocate a n al = (None, a')"
    by (rule st_allocate_cases [OF inv fits]) (use ret in \<open>simp_all add: st_live_def\<close>)
  show "p \<noteq> NULL \<and> st_live a p = None \<and> (\<exists>m\<ge>unat n. st_live a' = (st_live a)(p \<mapsto> m))"
    if fits: "st_fits n al" and ret: "st_allocate a n al = (Some p, a')"
  proof (rule st_allocate_cases [OF inv fits], goal_cases)
    case (2 q b)
    then have eq: "p = st_mem a + q" "b = a'" using ret by simp_all
    have "unat p = unat (st_mem a) + unat q"
      using 2 eq st_invD(3) [OF inv] by (simp add: unat_add_nowrap)
    moreover from this have "p \<noteq> NULL" using 2 by (intro notI) simp
    ultimately have "p \<noteq> NULL \<and> st_live a p = None"
      using st_live_above [OF inv, of p "unat q"] 2 by simp
    moreover have "st_live a' = (st_live a)(p \<mapsto> unat n)"
      using 2 by (simp add: st_live_def eq)
    ultimately show ?case by blast
  qed (use ret in simp)
  show "blocks_disjoint (st_live a)"
    unfolding blocks_disjoint_def
  proof (intro allI impI)
    fix p q m k
    assume p: "st_live a p = Some m" and q: "st_live a q = Some k" and "p \<noteq> q"
    from st_live_Some [OF inv p] obtain p' u where P: "(p', u) \<in> set (frames_of a)"
      "m = unat u - unat p'" "unat p = unat (st_mem a) + unat p'" "p = st_mem a + p'" "unat p' \<le> unat u"
      by metis
    from st_live_Some [OF inv q] obtain q' w where Q: "(q', w) \<in> set (frames_of a)"
      "k = unat w - unat q'" "unat q = unat (st_mem a) + unat q'" "q = st_mem a + q'" "unat q' \<le> unat w"
      by metis
    from st_chain_disjoint [OF st_invD(6) [OF inv] P(1) Q(1)] \<open>p \<noteq> q\<close> P Q
    show "unat p + m \<le> unat q \<or> unat q + k \<le> unat p" by auto
  qed
  show "st_live a p \<noteq> None \<and>
      (\<exists>a'. st_deallocate a p = Inr a' \<and> st_inv a' \<and> st_live a' = (st_live a)(p := None))"
    if free: "st_freeable a p"
  proof (rule st_deallocate_last [OF inv free])
    fix b
    assume b: "st_deallocate a p = Inr b" "st_inv b" "st_mem b = st_mem a"
      and fr: "frames_of a = (st_last_payload a, st_top a) # frames_of b"
      and top: "st_top b = st_cells a (st_header (st_mem a) (st_last_payload a))"
    obtain lt: "unat (st_mem a) + unat (st_last_payload a) < 2 ^ 63"
      and p: "p = st_mem a + st_last_payload a"
      using st_freeable_frames [OF inv free] by metis
    have "unat (st_top b) + 16 \<le> unat (st_last_payload a)"
      using st_invD(6) [OF inv] unfolding fr top by simp
    then have "st_live b p = None"
      using lt b(3) by (intro st_live_above [OF b(2), of p "unat (st_last_payload a)"])
        (simp_all add: p unat_add_nowrap)
    moreover have "st_live a = (st_live b)(p \<mapsto> unat (st_top a) - unat (st_last_payload a))"
      unfolding st_live_def fr by (simp add: p b(3))
    ultimately show ?thesis using b by auto
  qed
  show "st_inv (st_client_write a x v) \<and> st_live (st_client_write a x v) = st_live a"
    if "in_block (st_live a) p x"
  proof -
    note chain = st_store_block(1) [OF inv that, of v]
    from st_chain_frames [OF this]
    have "frames_of (st_client_write a x v) = frames_of a" by (simp add: st_client_write_def)
    then show ?thesis
      using inv chain by (simp add: st_inv_def st_live_def st_client_write_def)
  qed
qed

lemma st_walk_spec:
  assumes "st_inv a"
  shows "tiles 0 (st_walk a) (unat (st_capacity a))" and "used_bytes (st_walk a) = unat (st_top a)"
proof -
  have "unat (st_capacity a - st_top a) = unat (st_capacity a) - unat (st_top a)"
    using st_invD(4) [OF assms] by (rule unat_sub_nowrap)
  moreover have "st_top a \<noteq> 0 \<longleftrightarrow> 0 < unat (st_top a)" by (simp add: unat_gt_0)
  ultimately show "tiles 0 (st_walk a) (unat (st_capacity a))"
    using st_invD(4) [OF assms] unfolding st_walk_def word_less_nat_alt by auto
  show "used_bytes (st_walk a) = unat (st_top a)"
    by (simp add: st_walk_def used_bytes_def)
qed

interpretation st_layout: layout_contract st_inv st_walk
    "\<lambda>a. unat (st_capacity a)" "\<lambda>a. unat (hs_used (st_stats a))"
  by unfold_locales (simp_all add: st_walk_spec st_invD(5))



subsection \<open>Construction, marks and rewinding\<close>

lemma hf_stack_create_inv:
  assumes os: "os_wf os" and ret: "hf_stack_create os capacity = (cs, Some a)"
  shows "st_inv a" and "frames_of a = []" and "st_top a = 0" and "st_last_payload a = ST_NONE"
    and "vm_held (cs @ st_destroy os a) {} = {}"
proof -
  define n where "n = hf_align_up (if capacity \<noteq> 0 then capacity else os_page_size os) (os_page_size os)"
  from ret obtain mem where res: "hf_vm_reserve os n = (cs, Some mem)"
    and a: "a = \<lparr>st_mem = mem, st_capacity = n, st_top = 0, st_last_payload = ST_NONE,
      st_cells = (\<lambda>_. 0), st_stats = stats_zero\<lparr>hs_capacity := n\<rparr>\<rparr>"
    unfolding hf_stack_create_def n_def [symmetric] Let_def
    by (auto split: if_splits option.splits prod.splits)
  note r = hf_vm_reserve_Some [OF os n_def res]
  have "8 dvd unat mem" using r(2) by (rule dvd_trans [rotated]) simp
  moreover have "0 < unat mem" using r(1) by (simp add: unat_gt_0)
  ultimately show "st_inv a"
    using r(3) by (intro st_invI [of a "[]"]) (simp_all add: a stats_zero_def)
  show "frames_of a = []" "st_top a = 0" "st_last_payload a = ST_NONE"
    by (simp_all add: a st_frames.simps)
  show "vm_held (cs @ st_destroy os a) {} = {}"
    by (simp add: st_destroy_def a r(6,7))
qed

lemma hf_stack_rewind_inv:
  assumes inv: "st_inv a" and le: "unat m \<le> unat (st_top a)"
  obtains a' where "hf_stack_rewind a m = Inr a'" and "st_inv a'" and "st_top a' = m"
    and "frames_of a' = []" and "st_mem a' = st_mem a" and "st_capacity a' = st_capacity a"
    and "st_last_payload a' = ST_NONE"
proof -
  let ?a' = "a\<lparr>st_top := m, st_stats := set_used m (st_stats a), st_last_payload := ST_NONE\<rparr>"
  have "hf_stack_rewind a m = Inr ?a'" using le by (simp add: hf_stack_rewind_def word_le_nat_alt)
  moreover have "st_inv ?a'"
    using st_invD [OF inv] le by (intro st_invI [of ?a' "[]"]) simp_all
  ultimately show ?thesis by (intro that [of ?a']) (simp_all add: st_frames.simps)
qed

text \<open>The pointer \<^verbatim>\<open>st_allocate\<close> returns depends only on the base, the capacity and the top.\<close>

lemma st_allocate_pointer:
  assumes "st_mem a' = st_mem a" and "st_capacity a' = st_capacity a" and "st_top a' = st_top a"
  shows "fst (st_allocate a' n al) = fst (st_allocate a n al)"
  using assms by (simp add: st_allocate_def Let_def)

definition st_allocate_all :: "(u64 \<times> u64) list \<Rightarrow> st_alloc \<Rightarrow> st_alloc" where
  "st_allocate_all reqs a = fold (\<lambda>(n, al) a. snd (st_allocate a n al)) reqs a"

lemma st_allocate_all_grows:
  "st_inv a \<Longrightarrow> \<forall>(n, al) \<in> set reqs. st_fits n al \<Longrightarrow>
   st_inv (st_allocate_all reqs a) \<and> unat (st_top a) \<le> unat (st_top (st_allocate_all reqs a)) \<and>
   st_mem (st_allocate_all reqs a) = st_mem a \<and>
   st_capacity (st_allocate_all reqs a) = st_capacity a"
proof (induction reqs arbitrary: a)
  case (Cons r reqs)
  obtain n al where r: "r = (n, al)" by (cases r)
  let ?a = "snd (st_allocate a n al)"
  from Cons.prems r have fits: "st_fits n al" by simp
  have "st_inv ?a \<and> unat (st_top a) \<le> unat (st_top ?a) \<and> st_mem ?a = st_mem a \<and>
      st_capacity ?a = st_capacity a"
    by (rule st_allocate_cases [OF Cons.prems(1) fits])
      (auto simp: st_allocate_def Let_def split: if_splits)
  moreover have "st_allocate_all (r # reqs) a = st_allocate_all reqs ?a"
    by (simp add: st_allocate_all_def r)
  ultimately show ?case using Cons.IH [of ?a] Cons.prems(2) by auto
qed (simp add: st_allocate_all_def)


subsection \<open>Properties\<close>

definition st_example :: st_alloc where
  "st_example = the (snd (hf_stack_create os_example 4096))"

lemma st_example_create: "hf_stack_create os_example 4096 = ([Vm_reserve 4096 (Some 0x100000)], Some st_example)"
  by (simp add: st_example_def hf_stack_create_def os_example_def hf_vm_reserve_def hf_align_up_def Let_def)

lemma st_example_inv: "st_inv st_example"
  using os_example_wf st_example_create by (rule hf_stack_create_inv)

lemma st_example_eq:
  "st_example = \<lparr>st_mem = 0x100000, st_capacity = 4096, st_top = 0, st_last_payload = ST_NONE,
     st_cells = (\<lambda>_. 0), st_stats = stats_zero\<lparr>hs_capacity := 4096\<rparr>\<rparr>"
  by (simp add: st_example_def hf_stack_create_def os_example_def hf_vm_reserve_def hf_align_up_def
      Let_def)

text \<open>The stack after one allocation of 100 bytes.\<close>

definition st_example1 :: st_alloc where
  "st_example1 = snd (st_allocate st_example 100 16)"

lemma st_example1_eq:
  "st_allocate st_example 100 16 = (Some 0x100010, st_example1)" "st_mem st_example1 = 0x100000"
  "st_top st_example1 = 116" "st_last_payload st_example1 = 16" "st_cells st_example1 0x100008 = ST_NONE"
  by (simp_all add: st_example1_def st_example_eq st_allocate_def hf_align_up_def st_header_def Let_def)

lemma st_example1_live: "in_block (st_live st_example1) 0x100010 0x100010"
  by (simp add: in_block_def st_live_def st_example1_eq st_header_def
      st_frames.simps [of "0x100000" _ 16] ST_NONE_def)

lemma st_fits_16: "unat n < 2 ^ 62 \<Longrightarrow> st_fits n 16"
  unfolding st_fits_def by (auto intro!: exI [of _ 4])

text \<open>
  For a power-of-two alignment and a size that does not wrap, \<^verbatim>\<open>st_allocate\<close> keeps the invariant
  and either refuses, because the padded request would not fit, or returns an address whose offset
  is a multiple of the alignment, which lies above everything allocated before and ends, after
  exactly the requested size, at the new top within the capacity.
\<close>

theorem st_allocate_correct:
  assumes "st_inv a" and "st_fits sz al"
  shows "case st_allocate a sz al of
      (None, a') \<Rightarrow> st_inv a' \<and> st_top a' = st_top a \<and>
        unat (st_capacity a) < unat (st_top a) + 24 + unat al + unat sz
    | (Some ptr, a') \<Rightarrow> st_inv a' \<and>
        (\<exists>p. ptr = st_mem a + p \<and> unat al dvd unat p \<and> unat (st_top a) + 16 \<le> unat p \<and>
             unat (st_top a') = unat p + unat sz \<and> unat p + unat sz \<le> unat (st_capacity a))"
proof (rule st_allocate_cases [OF assms], goal_cases)
  case (1 a')
  then show ?case by (auto simp: st_allocate_def Let_def split: if_splits)
next
  case (2 p a')
  then show ?case by auto
qed

theorem st_allocate_correct_witness:
  "st_inv st_example \<and> st_fits 100 16 \<and> st_inv (snd (st_allocate st_example 100 16))"
  using st_allocate_correct [OF st_example_inv st_fits_16, of 100] st_example_inv
  by (auto simp: st_fits_16 split: prod.splits option.splits)

text \<open>
  Releasing the block just allocated undoes the allocation: top, last payload and the
  \<^verbatim>\<open>used\<close> statistic are what they were, even after the client has written into its blocks; and a
  release of any other pointer stops at the assertion.
\<close>

theorem st_lifo_roundtrip:
  assumes "st_inv a" and "st_fits sz al" and "st_allocate a sz al = (Some ptr, a')"
    and "in_block (st_live a') q x"
  shows "\<exists>a''. st_deallocate (st_client_write a' x v) ptr = Inr a'' \<and> st_inv a'' \<and>
      st_top a'' = st_top a \<and> st_last_payload a'' = st_last_payload a \<and>
      hs_used (st_get_stats a'') = hs_used (st_get_stats a) \<and>
      (\<forall>r. r \<noteq> NULL \<longrightarrow> r \<noteq> ptr \<longrightarrow> st_deallocate a' r = Inl Assert_failed)"
proof (rule st_allocate_cases [OF assms(1,2)], goal_cases)
  case (2 p b)
  then have b: "b = a'" and ptr: "ptr = st_mem a + p" using assms(3) by simp_all
  let ?w = "st_client_write a' x v"
  have inv: "st_inv ?w" and "st_live ?w = st_live a'"
    using st.store_ok [OF _ assms(4)] 2(2) b by simp_all
  have same: "st_mem ?w = st_mem a" "st_last_payload ?w = p" "st_top ?w = p + sz"
    using 2 b by (simp_all add: st_client_write_def)
  have "p \<noteq> ST_NONE" using 2(7) by (rule eight_dvd_not_none)
  then have free: "st_freeable ?w ptr" by (simp add: st_freeable_def same ptr)
  have other: "st_deallocate a' r = Inl Assert_failed" if "r \<noteq> NULL" "r \<noteq> ptr" for r
    using that 2 b ptr by (intro st_deallocate_other) (auto simp: algebra_simps)
  have inv': "st_inv a'" using 2(2) b by simp
  from st_deallocate_last [OF inv free] obtain c where c: "st_deallocate ?w ptr = Inr c" "st_inv c"
    "st_top c = st_cells ?w (st_header (st_mem ?w) (st_last_payload ?w))"
    "st_last_payload c = st_cells ?w (st_header (st_mem ?w) (st_last_payload ?w) + 8)"
    by metis
  have "st_header (st_mem a) p \<noteq> x \<and> st_header (st_mem a) p + 8 \<noteq> x"
    using st_store_block(2) [OF inv' assms(4), of p "p + sz"] 2 b by simp
  then have "st_cells ?w (st_header (st_mem a) p) = st_top a \<and>
      st_cells ?w (st_header (st_mem a) p + 8) = st_last_payload a"
    using 2 b by (auto simp: st_client_write_def)
  then have "st_top c = st_top a \<and> st_last_payload c = st_last_payload a"
    using c(3,4) by (simp add: same)
  then show ?case
    using c(1,2) other st_invD(5) [OF c(2)] st_invD(5) [OF assms(1)] by (auto simp: st_get_stats_def)
qed (use assms(3) in simp)


theorem st_lifo_roundtrip_witness:
  "\<exists>a''. st_deallocate (st_client_write st_example1 0x100010 7) 0x100010 = Inr a'' \<and> st_top a'' = 0"
  using st_lifo_roundtrip [OF st_example_inv st_fits_16 st_example1_eq(1) st_example1_live, of 7]
  by (auto simp: st_example_eq)



text \<open>
  After any sequence of allocations, rewinding to a mark taken before it succeeds, restores the
  \<^verbatim>\<open>used\<close> statistic, and puts the stack where the next allocation returns the same pointer as it
  would have at the mark.
\<close>

theorem st_mark_rewind:
  assumes "st_inv a" and "\<forall>(n, al) \<in> set reqs. st_fits n al"
  shows "\<exists>a'. hf_stack_rewind (st_allocate_all reqs a) (hf_stack_mark a) = Inr a' \<and> st_inv a' \<and>
    hs_used (st_get_stats a') = hs_used (st_get_stats a) \<and>
    (\<forall>n al. fst (st_allocate a' n al) = fst (st_allocate a n al))"
proof -
  let ?b = "st_allocate_all reqs a"
  from st_allocate_all_grows [OF assms] have b: "st_inv ?b" "unat (hf_stack_mark a) \<le> unat (st_top ?b)"
    "st_mem ?b = st_mem a" "st_capacity ?b = st_capacity a" by (simp_all add: hf_stack_mark_def)
  obtain a' where a': "hf_stack_rewind ?b (hf_stack_mark a) = Inr a'" "st_inv a'"
    "st_top a' = hf_stack_mark a" "st_mem a' = st_mem ?b" "st_capacity a' = st_capacity ?b"
    using b(1,2) by (rule hf_stack_rewind_inv)
  moreover have "fst (st_allocate a' n al) = fst (st_allocate a n al)" for n al
    using a' b by (intro st_allocate_pointer) (simp_all add: hf_stack_mark_def)
  ultimately show ?thesis
    using st_invD(5) [OF a'(2)] st_invD(5) [OF assms(1)] by (simp add: st_get_stats_def hf_stack_mark_def)
qed

theorem st_mark_rewind_witness:
  "\<exists>a'. hf_stack_rewind (st_allocate_all [(64, 16), (8, 16)] st_example) (hf_stack_mark st_example) = Inr a' \<and>
     fst (st_allocate a' 64 16) = Some 0x100010"
proof -
  have "fst (st_allocate st_example 64 16) = Some 0x100010"
    by (simp add: st_example_eq st_allocate_def hf_align_up_def Let_def)
  with st_mark_rewind [OF st_example_inv, of "[(64, 16), (8, 16)]"] show ?thesis
    by (auto simp: st_fits_16)
qed

text \<open>
  A rewind forgets the chain of headers.  Once a block is allocated, a mark is taken, and
  further allocations are rewound to that mark, the block that is on top again can no longer be
  released: its LIFO release fails the assertion.
\<close>

theorem st_rewind_forgets_block:
  assumes "st_inv a" and "st_fits n al" and "st_allocate a n al = (Some p, b)"
    and "\<forall>(n, al) \<in> set reqs. st_fits n al"
  shows "\<exists>c. hf_stack_rewind (st_allocate_all reqs b) (hf_stack_mark b) = Inr c \<and>
    st_top c = st_top b \<and> st_deallocate c p = Inl Assert_failed"
proof (rule st_allocate_cases [OF assms(1,2)], goal_cases)
  case (2 q b')
  then have b: "b' = b" "p = st_mem a + q" using assms(3) by simp_all
  with 2 have inv: "st_inv b" by simp
  let ?d = "st_allocate_all reqs b"
  note g = st_allocate_all_grows [OF inv assms(4)]
  obtain c where c: "hf_stack_rewind ?d (hf_stack_mark b) = Inr c" "st_top c = hf_stack_mark b"
      "st_mem c = st_mem ?d" "st_last_payload c = ST_NONE"
    by (rule hf_stack_rewind_inv [of ?d "hf_stack_mark b"]) (use g in \<open>simp_all add: hf_stack_mark_def\<close>)
  have "unat p = unat (st_mem a) + unat q"
    using 2 st_invD(3) [OF assms(1)] by (simp add: b unat_add_nowrap)
  then have "p \<noteq> NULL" using 2(5) by (intro notI) simp
  moreover have "p - st_mem c \<noteq> ST_NONE"
    using g 2 b c(3) eight_dvd_not_none [OF 2(7)] by simp
  ultimately have "st_deallocate c p = Inl Assert_failed" by (intro st_deallocate_other) (simp_all add: c(4))
  with c show ?case by (auto simp: hf_stack_mark_def)
qed (use assms(3) in simp)

theorem st_rewind_forgets_block_witness:
  "\<exists>c. hf_stack_rewind (st_allocate_all [(8, 16)] st_example1) (hf_stack_mark st_example1) = Inr c \<and>
     st_deallocate c 0x100010 = Inl Assert_failed"
  using st_rewind_forgets_block [OF st_example_inv st_fits_16 st_example1_eq(1), of "[(8, 16)]"]
  by (auto simp: st_fits_16)

text \<open>
  The sum of payload offset and size in \<^verbatim>\<open>st_allocate\<close> is not checked.  A request of
  \<open>2 ^ 64 - 144\<close> bytes on a 4 KiB stack that holds one block is granted and moves the top back to zero, so that the next
  request is answered with the address of the block still in use.
\<close>

theorem st_allocate_wraps:
  "\<exists>a b c. st_allocate st_example 100 16 = (Some 0x100010, a) \<and>
     st_allocate a (2 ^ 64 - 144) 16 = (Some 0x100090, b) \<and> st_top b = 0 \<and>
     st_allocate b 100 16 = (Some 0x100010, c)"
  by (simp add: st_example_eq st_allocate_def hf_align_up_def Let_def)

end
