(* ===== verification/HF_Slab.thy ===== *)
theory HF_Slab
  imports HF_Allocator
begin

text \<open>
  The slab allocator of \<^verbatim>\<open>hf_slab.c\<close>: slabs cut into equal slots, a central free list threaded
  through the free slots, and one magazine per thread that is refilled in batches.

  The allocator's own fields are the record \<open>sl_alloc\<close>.  What it shares with the rest of the process
  is the record \<open>sl_world\<close>: the memory cells, the variable \<^verbatim>\<open>tl_magazine\<close> of every thread, and the
  mapping calls made so far.  The services of the operating system are a parameter that gives one
  answer per growth, so that successive mappings differ.
\<close>

record sl_alloc =
  sl_obj_size :: u64
  sl_slab_bytes :: u64
  sl_slots_per_slab :: u64
  sl_slabs :: "addr list"
  sl_slab_cap :: u64
  sl_central_free :: addr
  sl_stats :: hf_stats

record sl_world =
  sw_cells :: cells
  sw_magazines :: "addr list"
  sw_grows :: nat
  sw_calls :: "vm_call list"

definition SL_BATCH :: nat where
  "SL_BATCH = 32"

definition tl_magazine :: "nat \<Rightarrow> sl_world \<Rightarrow> addr" where
  "tl_magazine t w = sw_magazines w ! t"

definition set_magazine :: "nat \<Rightarrow> addr \<Rightarrow> sl_world \<Rightarrow> sl_world" where
  "set_magazine t p w = w\<lparr>sw_magazines := (sw_magazines w)[t := p]\<rparr>"

text \<open>The loop of \<^verbatim>\<open>sl_grow\<close>, with \<open>i\<close> slots left to link in front of \<open>h\<close>.\<close>

fun sl_link :: "addr \<Rightarrow> u64 \<Rightarrow> nat \<Rightarrow> cells \<Rightarrow> addr \<Rightarrow> cells \<times> addr" where
  "sl_link mem obj 0 c h = (c, h)"
| "sl_link mem obj (Suc i) c h =
     (let s = mem + of_nat i * obj in sl_link mem obj i (c(s := h)) s)"

definition sl_grow :: "(nat \<Rightarrow> os_services) \<Rightarrow> sl_world \<Rightarrow> sl_alloc \<Rightarrow> sl_world \<times> sl_alloc" where
  "sl_grow E w a =
     (let os = E (sw_grows w);
          (cs, r) = hf_vm_reserve os (sl_slab_bytes a);
          w = w\<lparr>sw_grows := sw_grows w + 1, sw_calls := sw_calls w @ cs\<rparr>
      in case r of
           None \<Rightarrow> (w, a)
         | Some mem \<Rightarrow>
             let (c, h) = sl_link mem (sl_obj_size a) (unat (sl_slots_per_slab a)) (sw_cells w)
                            (sl_central_free a);
                 w = w\<lparr>sw_cells := c\<rparr>;
                 a = a\<lparr>sl_central_free := h\<rparr>
             in if length (sl_slabs a) = unat (sl_slab_cap a) \<and> \<not> os_calloc os 0
                then (w\<lparr>sw_calls := sw_calls w @ hf_vm_release os mem (sl_slab_bytes a)\<rparr>, a)
                else let a = (if length (sl_slabs a) = unat (sl_slab_cap a)
                              then a\<lparr>sl_slab_cap :=
                                     (if sl_slab_cap a \<noteq> 0 then sl_slab_cap a * 2 else 8)\<rparr>
                              else a)
                     in (w, a\<lparr>sl_slabs := sl_slabs a @ [mem],
                              sl_stats := (sl_stats a)\<lparr>hs_capacity :=
                                hs_capacity (sl_stats a) + sl_slab_bytes a\<rparr>\<rparr>))"

text \<open>The loop \<^verbatim>\<open>while (tail->next && n < SL_BATCH)\<close> of \<^verbatim>\<open>sl_refill\<close>.\<close>

function sl_batch_tail :: "cells \<Rightarrow> addr \<Rightarrow> nat \<Rightarrow> addr" where
  "sl_batch_tail c tail n =
     (if c tail \<noteq> NULL \<and> n < SL_BATCH then sl_batch_tail c (c tail) (n + 1) else tail)"
  by pat_completeness auto
termination
  by (relation "measure (\<lambda>(c, tail, n). SL_BATCH - n)") auto

declare sl_batch_tail.simps [simp del]

definition sl_refill ::
    "(nat \<Rightarrow> os_services) \<Rightarrow> nat \<Rightarrow> sl_world \<Rightarrow> sl_alloc \<Rightarrow> sl_world \<times> sl_alloc" where
  "sl_refill E t w a =
     (let (w, a) = (if sl_central_free a = NULL then sl_grow E w a else (w, a))
      in if sl_central_free a = NULL then (w, a)
         else let head = sl_central_free a;
                  tail = sl_batch_tail (sw_cells w) head 1
              in (set_magazine t head (w\<lparr>sw_cells := (sw_cells w)(tail := NULL)\<rparr>),
                  a\<lparr>sl_central_free := sw_cells w tail\<rparr>))"

definition sl_allocate ::
    "(nat \<Rightarrow> os_services) \<Rightarrow> nat \<Rightarrow> sl_world \<times> sl_alloc \<Rightarrow> u64 \<Rightarrow> u64 \<Rightarrow>
     addr option \<times> (sl_world \<times> sl_alloc)" where
  "sl_allocate E t wa sz alignment =
     (let (w, a) = wa;
          a = a\<lparr>sl_stats := count_alloc (sl_stats a)\<rparr>
      in if sz > sl_obj_size a then (None, w, a\<lparr>sl_stats := count_failed (sl_stats a)\<rparr>)
         else let (w, a) = (if tl_magazine t w = NULL then sl_refill E t w a else (w, a))
              in if tl_magazine t w = NULL
                 then (None, w, a\<lparr>sl_stats := count_failed (sl_stats a)\<rparr>)
                 else let s = tl_magazine t w
                      in (Some s, set_magazine t (sw_cells w s) w,
                          a\<lparr>sl_stats := raise_peak (set_used
                              (hs_used (sl_stats a) + sl_obj_size a) (sl_stats a))\<rparr>))"

definition sl_deallocate ::
    "nat \<Rightarrow> sl_world \<times> sl_alloc \<Rightarrow> addr \<Rightarrow> (sl_world \<times> sl_alloc) outcome" where
  "sl_deallocate t wa ptr =
     (if ptr = NULL then Inr wa
      else let (w, a) = wa;
               a = a\<lparr>sl_stats := set_used (hs_used (sl_stats a) - sl_obj_size a)
                                   (count_free (sl_stats a))\<rparr>;
               w = w\<lparr>sw_cells := (sw_cells w)(ptr := tl_magazine t w)\<rparr>
           in Inr (set_magazine t ptr w, a))"

definition sl_name :: "sl_world \<times> sl_alloc \<Rightarrow> string" where
  "sl_name wa = ''Slab''"

definition sl_get_stats :: "sl_world \<times> sl_alloc \<Rightarrow> hf_stats" where
  "sl_get_stats wa = sl_stats (snd wa)"

fun sl_walk_loop :: "u64 \<Rightarrow> nat \<Rightarrow> u64 \<Rightarrow> u64 \<Rightarrow> hf_block_info list" where
  "sl_walk_loop slab_bytes 0 off remaining = []"
| "sl_walk_loop slab_bytes (Suc n) off remaining =
     (let used = (if remaining < slab_bytes then remaining else slab_bytes)
      in (if used \<noteq> 0 then [\<lparr>bi_offset = off, bi_size = used, bi_is_free = False\<rparr>] else []) @
         (if used < slab_bytes
          then [\<lparr>bi_offset = off + used, bi_size = slab_bytes - used, bi_is_free = True\<rparr>] else []) @
         sl_walk_loop slab_bytes n (off + slab_bytes) (remaining - used))"

definition sl_walk :: "sl_world \<times> sl_alloc \<Rightarrow> hf_block_info list" where
  "sl_walk wa =
     (let a = snd wa
      in sl_walk_loop (sl_slab_bytes a) (length (sl_slabs a)) 0 (hs_used (sl_stats a)))"

definition sl_destroy :: "os_services \<Rightarrow> sl_world \<times> sl_alloc \<Rightarrow> vm_call list" where
  "sl_destroy os wa =
     concat (map (\<lambda>m. hf_vm_release os m (sl_slab_bytes (snd wa))) (sl_slabs (snd wa)))"

definition SL_VT ::
    "(nat \<Rightarrow> os_services) \<Rightarrow> nat \<Rightarrow> (sl_world \<times> sl_alloc) hf_allocator_vtable" where
  "SL_VT E t = \<lparr>vt_allocate = sl_allocate E t, vt_deallocate = sl_deallocate t, vt_name = sl_name,
     vt_get_stats = sl_get_stats, vt_walk = sl_walk, vt_destroy = sl_destroy\<rparr>"

definition hf_slab_create :: "os_services \<Rightarrow> u64 \<Rightarrow> u64 \<Rightarrow> sl_alloc option outcome" where
  "hf_slab_create os object_size slab_bytes =
     (let obj = (if object_size < 8 then 8 else object_size);
          obj = hf_align_up obj HF_DEFAULT_ALIGN;
          slab_bytes = (if slab_bytes = 0 then 64 * 1024 else slab_bytes);
          slab_bytes = hf_align_up slab_bytes (os_page_size os)
      in if obj = 0 then Inl Div_by_zero
         else if slab_bytes div obj = 0 then Inr None
         else if \<not> os_calloc os 0 then Inr None
         else Inr (Some \<lparr>sl_obj_size = obj, sl_slab_bytes = slab_bytes,
                         sl_slots_per_slab = slab_bytes div obj, sl_slabs = [], sl_slab_cap = 0,
                         sl_central_free = NULL, sl_stats = stats_zero\<rparr>))"


subsection \<open>Free lists in memory\<close>

fun sl_list :: "cells \<Rightarrow> addr \<Rightarrow> addr list \<Rightarrow> bool" where
  "sl_list c h [] \<longleftrightarrow> h = NULL"
| "sl_list c h (x # xs) \<longleftrightarrow> h = x \<and> x \<noteq> NULL \<and> sl_list c (c x) xs"

text \<open>Reading at most \<open>n\<close> nodes of a list.\<close>

fun sl_read :: "nat \<Rightarrow> cells \<Rightarrow> addr \<Rightarrow> addr list" where
  "sl_read 0 c h = []"
| "sl_read (Suc n) c h = (if h = NULL then [] else h # sl_read n c (c h))"

lemma sl_read_list: "sl_list c h xs \<Longrightarrow> length xs \<le> n \<Longrightarrow> sl_read n c h = xs"
proof (induction n c h arbitrary: xs rule: sl_read.induct)
  case (2 n c h)
  then show ?case by (cases xs) auto
qed simp

lemma sl_list_cong: "sl_list c h xs \<Longrightarrow> (\<And>x. x \<in> set xs \<Longrightarrow> c' x = c x) \<Longrightarrow> sl_list c' h xs"
  by (induction c h xs rule: sl_list.induct) auto

lemma sl_list_upd: "sl_list c h xs \<Longrightarrow> x \<notin> set xs \<Longrightarrow> sl_list (c(x := v)) h xs"
  by (erule sl_list_cong) auto

text \<open>Cutting a list after its first \<open>SL_BATCH\<close> nodes.\<close>

lemma sl_batch_tail_split:
  "sl_list c h xs \<Longrightarrow> xs \<noteq> [] \<Longrightarrow> distinct xs \<Longrightarrow> n < SL_BATCH \<Longrightarrow>
   k = min (SL_BATCH - Suc n) (length xs - 1) \<Longrightarrow>
   sl_batch_tail c h (Suc n) = xs ! k \<and> sl_list (c(xs ! k := NULL)) h (take (Suc k) xs) \<and>
   sl_list (c(xs ! k := NULL)) (c (xs ! k)) (drop (Suc k) xs)"
proof (induction xs arbitrary: h n k)
  case (Cons x xs)
  have hx: "h = x" "x \<noteq> NULL" "x \<notin> set xs" and l: "sl_list c (c x) xs"
    using Cons.prems by auto
  show ?case
  proof (cases "xs = [] \<or> Suc n = SL_BATCH")
    case True
    then have k: "k = 0" using Cons.prems(5) by auto
    have "\<not> (c x \<noteq> NULL \<and> Suc n < SL_BATCH)" using True l by auto
    then have "sl_batch_tail c h (Suc n) = x"
      unfolding hx(1) by (subst sl_batch_tail.simps) (simp only: if_False)
    moreover have "sl_list (c(x := NULL)) (c x) xs"
      using l hx(3) by (rule sl_list_upd)
    ultimately show ?thesis using k hx by (simp add: cell_upd del: fun_upd_apply)
  next
    case False
    then have n: "Suc n < SL_BATCH" and xs: "xs \<noteq> []" using Cons.prems(4) by auto
    then obtain j where j: "k = Suc j" "j = min (SL_BATCH - Suc (Suc n)) (length xs - 1)"
      using Cons.prems(5) n xs by (intro that [of "k - 1"]) (cases xs; simp)+
    have cx: "c x \<noteq> NULL" using l xs by (cases xs) auto
    have "distinct xs" using Cons.prems(3) by simp
    note IH = Cons.IH [OF l xs this n j(2)]
    have "xs ! j \<in> set xs" using xs j(2) by (intro nth_mem) (cases xs, auto)
    then have "xs ! j \<noteq> x" using hx(3) by auto
    moreover have "sl_batch_tail c x (Suc n) = sl_batch_tail c (c x) (Suc (Suc n))"
      using cx n by (subst sl_batch_tail.simps) simp
    ultimately show ?thesis using IH hx j(1) by (simp add: cell_upd del: fun_upd_apply)
  qed
qed simp

lemma sl_link_list:
  "sl_list c h xs \<Longrightarrow> (\<And>j. j < i \<Longrightarrow> mem + of_nat j * obj \<noteq> NULL \<and> mem + of_nat j * obj \<notin> set xs) \<Longrightarrow>
   (\<And>j k. j < k \<Longrightarrow> k < i \<Longrightarrow> mem + of_nat j * obj \<noteq> mem + of_nat k * obj) \<Longrightarrow>
   sl_link mem obj i c h = (c', h') \<Longrightarrow>
   sl_list c' h' (map (\<lambda>j. mem + of_nat j * obj) [0..<i] @ xs) \<and>
   (\<forall>x. (\<forall>j < i. x \<noteq> mem + of_nat j * obj) \<longrightarrow> c' x = c x)"
proof (induction mem obj i c h arbitrary: xs rule: sl_link.induct)
  case (2 mem obj i c h)
  let ?s = "mem + of_nat i * obj"
  have s: "sl_list (c(?s := h)) ?s (?s # xs)"
    using 2(2,3) by (auto intro!: sl_list_upd)
  have "sl_list c' h' (map (\<lambda>j. mem + of_nat j * obj) [0..<i] @ ?s # xs) \<and>
      (\<forall>x. (\<forall>j < i. x \<noteq> mem + of_nat j * obj) \<longrightarrow> c' x = (c(?s := h)) x)"
  proof (rule 2(1) [OF refl s])
    show "mem + of_nat j * obj \<noteq> NULL \<and> mem + of_nat j * obj \<notin> set (?s # xs)" if "j < i" for j
      using 2(3) [of j] 2(4) [of j i] that by auto
    show "mem + of_nat j * obj \<noteq> mem + of_nat k * obj" if "j < k" "k < i" for j k
      using 2(4) [of j k] that by simp
    show "sl_link mem obj i (c(?s := h)) ?s = (c', h')" using 2(5) by (simp add: Let_def)
  qed
  then show ?case by (auto simp: less_Suc_eq)
qed auto



subsection \<open>Slots, invariant and live blocks\<close>

definition sl_slot :: "sl_alloc \<Rightarrow> addr \<Rightarrow> nat \<Rightarrow> addr" where
  "sl_slot a m i = m + of_nat i * sl_obj_size a"

definition sl_slots :: "sl_alloc \<Rightarrow> addr list" where
  "sl_slots a = concat (map (\<lambda>m. map (sl_slot a m) [0..<unat (sl_slots_per_slab a)]) (sl_slabs a))"

text \<open>The free slots: the central list and the magazines, read from memory.\<close>

definition sl_free_lists :: "sl_world \<Rightarrow> sl_alloc \<Rightarrow> addr list list" where
  "sl_free_lists w a =
     (let n = length (sl_slots a)
      in sl_read n (sw_cells w) (sl_central_free a) # map (sl_read n (sw_cells w)) (sw_magazines w))"

definition sl_live_set :: "sl_world \<times> sl_alloc \<Rightarrow> addr set" where
  "sl_live_set wa = (case wa of (w, a) \<Rightarrow> set (sl_slots a) - set (concat (sl_free_lists w a)))"

definition sl_live :: "sl_world \<times> sl_alloc \<Rightarrow> addr \<rightharpoonup> nat" where
  "sl_live wa p = (if p \<in> sl_live_set wa then Some (unat (sl_obj_size (snd wa))) else None)"

text \<open>
  The services the theorems about growth rely on: each answer is well formed, the page size is
  fixed, the slab table can grow, and mappings handed out at different times do not overlap.
\<close>

definition sl_env_ok :: "(nat \<Rightarrow> os_services) \<Rightarrow> bool" where
  "sl_env_ok E \<longleftrightarrow>
     (\<forall>k. os_wf (E k) \<and> os_calloc (E k) 0 \<and> os_page_size (E k) = os_page_size (E 0)) \<and>
     (\<forall>i j n p q. i \<noteq> j \<longrightarrow> os_mmap (E i) n = Some p \<longrightarrow> os_mmap (E j) n = Some q \<longrightarrow>
        unat p + unat n \<le> unat q \<or> unat q + unat n \<le> unat p)"

definition sl_shape :: "(nat \<Rightarrow> os_services) \<Rightarrow> nat \<Rightarrow> sl_alloc \<Rightarrow> bool" where
  "sl_shape E g a \<longleftrightarrow>
     sl_env_ok E \<and> 16 \<le> unat (sl_obj_size a) \<and> 16 dvd unat (sl_obj_size a) \<and>
     unat (sl_slots_per_slab a) = unat (sl_slab_bytes a) div unat (sl_obj_size a) \<and>
     unat (sl_slots_per_slab a) \<noteq> 0 \<and>
     hf_align_up (sl_slab_bytes a) (os_page_size (E 0)) = sl_slab_bytes a \<and>
     distinct (sl_slabs a) \<and>
     (\<forall>m \<in> set (sl_slabs a). \<exists>i < g. os_mmap (E i) (sl_slab_bytes a) = Some m)"

text \<open>\<open>sl_rep c a mags fl\<close>: the lists \<open>fl\<close> are stored at the central head and at the magazines.\<close>

definition sl_rep :: "cells \<Rightarrow> sl_alloc \<Rightarrow> addr list \<Rightarrow> addr list list \<Rightarrow> bool" where
  "sl_rep c a mags fl \<longleftrightarrow>
     list_all2 (sl_list c) (sl_central_free a # mags) fl \<and>
     distinct (concat fl) \<and> set (concat fl) \<subseteq> set (sl_slots a)"

definition sl_inv :: "(nat \<Rightarrow> os_services) \<Rightarrow> sl_world \<times> sl_alloc \<Rightarrow> bool" where
  "sl_inv E wa \<longleftrightarrow> (case wa of (w, a) \<Rightarrow>
     sl_shape E (sw_grows w) a \<and> sl_rep (sw_cells w) a (sw_magazines w) (sl_free_lists w a) \<and>
     unat (hs_used (sl_stats a)) = card (sl_live_set wa) * unat (sl_obj_size a))"

lemma sl_rep_free_lists:
  assumes "sl_rep (sw_cells w) a (sw_magazines w) fl"
  shows "sl_free_lists w a = fl"
proof -
  have fl: "list_all2 (sl_list (sw_cells w)) (sl_central_free a # sw_magazines w) fl"
    and d: "distinct (concat fl)" and s: "set (concat fl) \<subseteq> set (sl_slots a)"
    using assms by (auto simp: sl_rep_def)
  have short: "length xs \<le> length (sl_slots a)" if "xs \<in> set fl" for xs
  proof -
    have "distinct xs" using d that by (auto simp: distinct_concat_iff)
    then have "length xs = card (set xs)" by (simp add: distinct_card)
    also have "\<dots> \<le> card (set (sl_slots a))" using s that by (intro card_mono) auto
    also have "\<dots> \<le> length (sl_slots a)" by (rule card_length)
    finally show ?thesis .
  qed
  have "map (sl_read (length (sl_slots a)) (sw_cells w)) (sl_central_free a # sw_magazines w) = fl"
  proof (rule nth_equalityI)
    show len: "length (map (sl_read (length (sl_slots a)) (sw_cells w)) (sl_central_free a # sw_magazines w)) = length fl"
      using list_all2_lengthD [OF fl] by simp
    fix i
    assume i: "i < length (map (sl_read (length (sl_slots a)) (sw_cells w)) (sl_central_free a # sw_magazines w))"
    then have "sl_list (sw_cells w) ((sl_central_free a # sw_magazines w) ! i) (fl ! i)"
      using fl by (simp add: list_all2_nthD del: list.map)
    moreover have "fl ! i \<in> set fl" using i len by (metis nth_mem)
    ultimately show "map (sl_read (length (sl_slots a)) (sw_cells w)) (sl_central_free a # sw_magazines w) ! i = fl ! i"
      using i short by (simp add: sl_read_list del: list.map)
  qed
  then show ?thesis by (simp add: sl_free_lists_def Let_def)
qed

lemma sl_slots_iff:
  "x \<in> set (sl_slots a) \<longleftrightarrow> (\<exists>m \<in> set (sl_slabs a). \<exists>i < unat (sl_slots_per_slab a). x = sl_slot a m i)"
  unfolding sl_slots_def set_concat set_map UN_iff by (force simp: image_iff)

lemma sl_slab_range:
  assumes shape: "sl_shape E g a" and m: "m \<in> set (sl_slabs a)"
  shows "m \<noteq> NULL" and "16 dvd unat m" and "unat m + unat (sl_slab_bytes a) < 2 ^ 63"
proof -
  from shape m obtain i where i: "os_mmap (E i) (sl_slab_bytes a) = Some m"
    and os: "os_wf (E i)" and al: "hf_align_up (sl_slab_bytes a) (os_page_size (E i)) = sl_slab_bytes a"
    unfolding sl_shape_def sl_env_ok_def by metis
  then have "hf_vm_reserve (E i) (sl_slab_bytes a) = ([Vm_reserve (sl_slab_bytes a) (Some m)], Some m)"
    by (simp add: hf_vm_reserve_def)
  from hf_vm_reserve_Some [OF os al [symmetric] this]
  show "m \<noteq> NULL" "16 dvd unat m" "unat m + unat (sl_slab_bytes a) < 2 ^ 63" by simp_all
qed

lemma sl_slab_disjoint:
  assumes shape: "sl_shape E g a" and "m \<in> set (sl_slabs a)" "m' \<in> set (sl_slabs a)" "m \<noteq> m'"
  shows "unat m + unat (sl_slab_bytes a) \<le> unat m' \<or> unat m' + unat (sl_slab_bytes a) \<le> unat m"
proof -
  from assms obtain i j where "os_mmap (E i) (sl_slab_bytes a) = Some m"
    "os_mmap (E j) (sl_slab_bytes a) = Some m'" and ok: "sl_env_ok E"
    unfolding sl_shape_def by metis
  moreover from this assms(4) have "i \<noteq> j" by auto
  ultimately show ?thesis unfolding sl_env_ok_def by blast
qed

lemma sl_slot_nat:
  assumes shape: "sl_shape E g a" and m: "m \<in> set (sl_slabs a)" and i: "i < unat (sl_slots_per_slab a)"
  shows "unat (sl_slot a m i) = unat m + i * unat (sl_obj_size a)"
    and "i * unat (sl_obj_size a) + unat (sl_obj_size a) \<le> unat (sl_slab_bytes a)"
    and "16 dvd unat (sl_slot a m i)" and "sl_slot a m i \<noteq> NULL"
proof -
  have "unat (sl_slots_per_slab a) = unat (sl_slab_bytes a) div unat (sl_obj_size a)"
    using shape by (simp add: sl_shape_def unat_div)
  then have "(i + 1) * unat (sl_obj_size a) \<le> unat (sl_slab_bytes a) div unat (sl_obj_size a) * unat (sl_obj_size a)"
    using i by (intro mult_le_mono1) simp
  also have "\<dots> \<le> unat (sl_slab_bytes a)" by (rule div_times_less_eq_dividend)
  finally show b: "i * unat (sl_obj_size a) + unat (sl_obj_size a) \<le> unat (sl_slab_bytes a)"
    by (simp add: add.commute)
  note r = sl_slab_range [OF shape m]
  have "i < 18446744073709551616" by (rule less_trans [OF i unat_u64_lt])
  then have ui: "unat (of_nat i :: u64) = i" by (simp add: unat_of_nat)
  then have "unat (of_nat i * sl_obj_size a) = i * unat (sl_obj_size a)"
    using b r(3) by (simp add: unat_mult_nowrap)
  then show n: "unat (sl_slot a m i) = unat m + i * unat (sl_obj_size a)"
    using b r(3) by (simp add: sl_slot_def unat_add_nowrap)
  show "16 dvd unat (sl_slot a m i)"
    unfolding n using r(2) shape by (simp add: sl_shape_def)
  have "0 < unat m" using r(1) by (simp add: unat_gt_0)
  then show "sl_slot a m i \<noteq> NULL" using n by (intro notI) simp
qed

text \<open>Two slots are the same or do not overlap.\<close>

lemma sl_slots_disjoint:
  assumes shape: "sl_shape E g a" and x: "x \<in> set (sl_slots a)" and y: "y \<in> set (sl_slots a)" and ne: "x \<noteq> y"
  shows "unat x + unat (sl_obj_size a) \<le> unat y \<or> unat y + unat (sl_obj_size a) \<le> unat x"
proof -
  obtain m i where m: "m \<in> set (sl_slabs a)" "i < unat (sl_slots_per_slab a)" "x = sl_slot a m i"
    using x by (auto simp: sl_slots_iff)
  obtain n j where n: "n \<in> set (sl_slabs a)" "j < unat (sl_slots_per_slab a)" "y = sl_slot a n j"
    using y by (auto simp: sl_slots_iff)
  note X = sl_slot_nat [OF shape m(1,2), folded m(3)] and Y = sl_slot_nat [OF shape n(1,2), folded n(3)]
  show ?thesis
  proof (cases "m = n")
    case True
    then have "i \<noteq> j" using ne m n by auto
    then have "(i + 1) * unat (sl_obj_size a) \<le> j * unat (sl_obj_size a) \<or>
        (j + 1) * unat (sl_obj_size a) \<le> i * unat (sl_obj_size a)"
      by (cases "i < j") (simp_all add: mult_le_mono1 del: mult_Suc)
    then show ?thesis using X(1) Y(1) True by (auto simp: add_mult_distrib)
  next
    case False
    from sl_slab_disjoint [OF shape m(1) n(1) False] show ?thesis
      using X(1,2) Y(1,2) by linarith
  qed
qed



subsection \<open>Growth and refill\<close>

lemma sl_lists_cong:
  "list_all2 (sl_list c) hs fl \<Longrightarrow> (\<And>x. x \<in> set (concat fl) \<Longrightarrow> c' x = c x) \<Longrightarrow>
   list_all2 (sl_list c') hs fl"
  by (induction hs fl rule: list_all2_induct) (auto intro: sl_list_cong)

lemma sl_shape_mono: "sl_shape E g a \<Longrightarrow> sl_shape E (Suc g) a"
  unfolding sl_shape_def by (blast intro: less_SucI)

lemma sl_shape_fields:
  assumes "sl_shape E g a" and "sl_obj_size a' = sl_obj_size a" and "sl_slab_bytes a' = sl_slab_bytes a"
    and "sl_slots_per_slab a' = sl_slots_per_slab a" and "sl_slabs a' = sl_slabs a"
  shows "sl_shape E g a'" and "sl_slots a' = sl_slots a"
  using assms by (simp_all add: sl_shape_def sl_slots_def sl_slot_def [abs_def])

lemma sl_stats_irrelevant [simp]:
  "sl_slots (a\<lparr>sl_stats := st\<rparr>) = sl_slots a"
  "sl_shape E g (a\<lparr>sl_stats := st\<rparr>) = sl_shape E g a"
  "sl_rep c (a\<lparr>sl_stats := st\<rparr>) mags fl = sl_rep c a mags fl"
  by (simp_all add: sl_slots_def sl_slot_def [abs_def] sl_shape_def sl_rep_def)

lemma sl_shape_grow:
  assumes shape: "sl_shape E g a" and map: "os_mmap (E g) (sl_slab_bytes a) = Some mem"
    and "sl_obj_size a' = sl_obj_size a" and "sl_slab_bytes a' = sl_slab_bytes a"
    and "sl_slots_per_slab a' = sl_slots_per_slab a" and "sl_slabs a' = sl_slabs a @ [mem]"
  shows "sl_shape E (Suc g) a'"
proof -
  have "mem \<notin> set (sl_slabs a)"
  proof
    assume "mem \<in> set (sl_slabs a)"
    then obtain i where "i < g" "os_mmap (E i) (sl_slab_bytes a) = Some mem"
      using shape by (auto simp: sl_shape_def)
    then have "unat mem + unat (sl_slab_bytes a) \<le> unat mem"
      using shape map unfolding sl_shape_def sl_env_ok_def by (metis less_irrefl)
    then have "unat (sl_slab_bytes a) = 0" by simp
    then show False using shape by (auto simp: sl_shape_def unat_div)
  qed
  moreover have "\<exists>i < Suc g. os_mmap (E i) (sl_slab_bytes a) = Some m" if "m \<in> set (sl_slabs a) \<or> m = mem" for m
    using that shape map unfolding sl_shape_def by (blast intro: less_SucI)
  ultimately show ?thesis using assms unfolding sl_shape_def by simp
qed

lemma sl_slots_inject:
  assumes "sl_shape E g a" and "m \<in> set (sl_slabs a)" and "j < k" and "k < unat (sl_slots_per_slab a)"
  shows "sl_slot a m j \<noteq> sl_slot a m k"
proof -
  have "unat (sl_slot a m j) < unat (sl_slot a m k)"
    using assms sl_slot_nat(1) [OF assms(1,2)] by (simp add: sl_shape_def)
  then show ?thesis by auto
qed

lemma sl_new_slots:
  assumes shape: "sl_shape E g a" and "mem \<in> set (sl_slabs a)" and x: "x \<in> set (sl_slots b)"
    and b: "sl_obj_size b = sl_obj_size a" "sl_slots_per_slab b = sl_slots_per_slab a"
      "set (sl_slabs b) \<subseteq> set (sl_slabs a)" "mem \<notin> set (sl_slabs b)"
    and j: "j < unat (sl_slots_per_slab a)"
  shows "x \<noteq> sl_slot a mem j"
proof -
  obtain m i where m: "m \<in> set (sl_slabs b)" "i < unat (sl_slots_per_slab a)" "x = sl_slot a m i"
    using x b by (auto simp: sl_slots_iff sl_slot_def)
  then have "m \<in> set (sl_slabs a)" "m \<noteq> mem" using b by auto
  from sl_slab_disjoint [OF shape this(1) assms(2) this(2)]
  have "unat x \<noteq> unat (sl_slot a mem j)"
    using sl_slot_nat(1,2) [OF shape \<open>m \<in> set (sl_slabs a)\<close> m(2)]
      sl_slot_nat(1,2) [OF shape assms(2) j] shape m(3) by (auto simp: sl_shape_def)
  then show ?thesis by auto
qed

lemma sl_grow_cases:
  assumes shape: "sl_shape E (sw_grows w) a"
    and rep: "sl_rep (sw_cells w) a (sw_magazines w) (cl # ml)"
  obtains (failed) w' where "sl_grow E w a = (w', a)" and "sl_shape E (sw_grows w') a"
      and "sw_cells w' = sw_cells w" and "sw_magazines w' = sw_magazines w"
      and "os_mmap (E (sw_grows w)) (sl_slab_bytes a) = None"
  | (grown) w' a' new where "sl_grow E w a = (w', a')" and "sl_shape E (sw_grows w') a'"
      and "sl_rep (sw_cells w') a' (sw_magazines w') ((new @ cl) # ml)" and "new \<noteq> []"
      and "sl_slots a' = sl_slots a @ new" and "set new \<inter> set (sl_slots a) = {}"
      and "sl_obj_size a' = sl_obj_size a" and "hs_used (sl_stats a') = hs_used (sl_stats a)"
      and "sw_magazines w' = sw_magazines w" and "sl_slab_bytes a' = sl_slab_bytes a"
      and "os_mmap (E (sw_grows w)) (sl_slab_bytes a) \<noteq> None"
proof -
  let ?os = "E (sw_grows w)" and ?n = "unat (sl_slots_per_slab a)"
  have al: "hf_align_up (sl_slab_bytes a) (os_page_size ?os) = sl_slab_bytes a"
    and calloc: "os_calloc ?os 0"
    using shape unfolding sl_shape_def sl_env_ok_def by metis+
  show ?thesis
  proof (cases "os_mmap ?os (sl_slab_bytes a)")
    case None
    let ?w' = "w\<lparr>sw_grows := sw_grows w + 1, sw_calls := sw_calls w @ [Vm_reserve (sl_slab_bytes a) None]\<rparr>"
    have "sl_grow E w a = (?w', a)"
      by (simp add: sl_grow_def hf_vm_reserve_def al None Let_def)
    then show ?thesis using None sl_shape_mono [OF shape] by (intro failed [of ?w']) simp_all
  next
    case (Some mem)
    obtain c h where link: "sl_link mem (sl_obj_size a) ?n (sw_cells w) (sl_central_free a) = (c, h)"
      by fastforce
    define w' where "w' = fst (sl_grow E w a)"
    define a' where "a' = snd (sl_grow E w a)"
    have same: "sw_cells w' = c" "sw_magazines w' = sw_magazines w" "sw_grows w' = Suc (sw_grows w)"
      "sl_obj_size a' = sl_obj_size a" "sl_slab_bytes a' = sl_slab_bytes a" "sl_central_free a' = h"
      "sl_slots_per_slab a' = sl_slots_per_slab a" "sl_slabs a' = sl_slabs a @ [mem]"
      "hs_used (sl_stats a') = hs_used (sl_stats a)"
      using link calloc
      by (simp_all add: w'_def a'_def sl_grow_def hf_vm_reserve_def al Some Let_def)
    have shape': "sl_shape E (sw_grows w') a'"
      unfolding same(3) by (rule sl_shape_grow [OF shape Some]) (simp_all add: same)
    have mem: "mem \<in> set (sl_slabs a')" "mem \<notin> set (sl_slabs a)"
      using shape' by (simp_all add: same sl_shape_def)
    let ?new = "map (sl_slot a mem) [0..<?n]"
    have slot: "sl_slot a' = sl_slot a" by (simp add: sl_slot_def [abs_def] same)
    have n: "unat (sl_slots_per_slab a') = ?n" "0 < ?n" using shape by (simp_all add: same sl_shape_def)
    have slots: "sl_slots a' = sl_slots a @ ?new"
      by (simp add: sl_slots_def same slot)
    have disj: "x \<noteq> sl_slot a mem j" if "x \<in> set (sl_slots a)" "j < ?n" for x j
      using sl_new_slots [OF shape' mem(1) that(1)] mem(2) that(2) by (simp add: same slot subset_iff)
    have inj: "sl_slot a mem j \<noteq> sl_slot a mem k" if "j < k" "k < ?n" for j k
      using sl_slots_inject [OF shape' mem(1) that(1)] that(2) by (simp add: n slot)
    have cl: "sl_list (sw_cells w) (sl_central_free a) cl" and ml: "list_all2 (sl_list (sw_cells w)) (sw_magazines w) ml"
      and d: "distinct (cl @ concat ml)" and sub: "set cl \<union> set (concat ml) \<subseteq> set (sl_slots a)"
      using rep by (simp_all add: sl_rep_def)
    have "sl_list c h (map (\<lambda>j. mem + of_nat j * sl_obj_size a) [0..<?n] @ cl) \<and>
        (\<forall>x. (\<forall>j < ?n. x \<noteq> mem + of_nat j * sl_obj_size a) \<longrightarrow> c x = sw_cells w x)"
    proof (rule sl_link_list [OF cl _ _ link])
      show "mem + of_nat j * sl_obj_size a \<noteq> NULL \<and> mem + of_nat j * sl_obj_size a \<notin> set cl" if "j < ?n" for j
        using sl_slot_nat(4) [OF shape' mem(1)] disj [of _ j] sub that by (auto simp: n slot sl_slot_def)
      show "mem + of_nat j * sl_obj_size a \<noteq> mem + of_nat k * sl_obj_size a" if "j < k" "k < ?n" for j k
        using inj [OF that] by (simp add: sl_slot_def)
    qed
    then have new: "sl_list c h (?new @ cl)" and keep: "\<And>x. (\<And>j. j < ?n \<Longrightarrow> x \<noteq> sl_slot a mem j) \<Longrightarrow> c x = sw_cells w x"
      by (simp_all add: sl_slot_def [abs_def])
    have mags: "list_all2 (sl_list c) (sw_magazines w) ml"
    proof (rule sl_lists_cong [OF ml])
      fix x
      assume "x \<in> set (concat ml)"
      then have "x \<in> set (sl_slots a)" using sub by blast
      then show "c x = sw_cells w x" using disj by (intro keep) blast
    qed
    have dnew: "distinct ?new"
      using inj by (auto simp: distinct_map inj_on_def) (metis linorder_neqE_nat)
    have "set ?new \<inter> set (sl_slots a) = {}" using disj by fastforce
    moreover from this have "distinct (concat ((?new @ cl) # ml))"
      using d dnew sub by auto
    then have "sl_rep (sw_cells w') a' (sw_magazines w') ((?new @ cl) # ml)"
      using new mags sub unfolding sl_rep_def slots by (auto simp: same)
    moreover have "?new \<noteq> []" using n(2) by simp
    ultimately show ?thesis
      using shape' slots same Some by (intro grown [of w' a' ?new]) (simp_all add: w'_def a'_def)
  qed
qed


lemma sl_rep_set_magazine:
  assumes "list_all2 (sl_list c) mags ml" and "sl_list c h xs"
  shows "list_all2 (sl_list c) (mags[t := h]) (ml[t := xs])"
  using assms by (rule list_all2_update_cong)

lemma concat_update:
  assumes "t < length ml"
  obtains pre post where "ml = pre @ ml ! t # post" and "\<forall>xs. ml[t := xs] = pre @ xs # post"
proof (rule that [of "take t ml" "drop (Suc t) ml"])
  show "ml = take t ml @ ml ! t # drop (Suc t) ml" using assms by (rule id_take_nth_drop)
  show "\<forall>xs. ml[t := xs] = take t ml @ xs # drop (Suc t) ml"
    using assms by (simp add: upd_conv_take_nth_drop)
qed

text \<open>Moving the first \<open>SL_BATCH\<close> slots of the central list into an empty magazine.\<close>

lemma sl_rep_refill:
  assumes rep: "sl_rep c a mags (cl # ml)" and cl: "cl \<noteq> []" and t: "t < length mags"
    and empty: "mags ! t = NULL"
  defines "tail \<equiv> sl_batch_tail c (sl_central_free a) 1"
  shows "sl_rep (c(tail := NULL)) (a\<lparr>sl_central_free := c tail\<rparr>) (mags[t := sl_central_free a])
      (drop SL_BATCH cl # ml[t := take SL_BATCH cl])"
    and "set (concat (drop SL_BATCH cl # ml[t := take SL_BATCH cl])) = set (concat (cl # ml))"
proof -
  have l: "sl_list c (sl_central_free a) cl" and m: "list_all2 (sl_list c) mags ml"
    and d: "distinct (cl @ concat ml)" and sub: "set cl \<union> set (concat ml) \<subseteq> set (sl_slots a)"
    using rep by (simp_all add: sl_rep_def)
  let ?k = "min (SL_BATCH - Suc 0) (length cl - 1)"
  have "(0::nat) < SL_BATCH" by (simp add: SL_BATCH_def)
  then have b: "tail = cl ! ?k" "sl_list (c(tail := NULL)) (sl_central_free a) (take (Suc ?k) cl)"
      "sl_list (c(tail := NULL)) (c tail) (drop (Suc ?k) cl)"
    using sl_batch_tail_split [OF l cl, of 0 ?k] d by (simp_all add: tail_def del: fun_upd_apply)
  have k: "Suc ?k = min SL_BATCH (length cl)" using cl by (cases cl) (simp_all add: SL_BATCH_def)
  have take: "take (Suc ?k) cl = take SL_BATCH cl" and drop: "drop (Suc ?k) cl = drop SL_BATCH cl"
    unfolding k by (simp_all add: min_def)
  have tl: "tail \<in> set cl" using b(1) k cl by (auto intro!: nth_mem simp: min_def) (cases cl; simp)+
  have ml_t: "ml ! t = []"
    using list_all2_nthD [OF m t] empty by (cases "ml ! t") auto
  have len: "t < length ml" using m t by (simp add: list_all2_lengthD)
  obtain pre post where pp: "ml = pre @ ml ! t # post" "\<forall>xs. ml[t := xs] = pre @ xs # post"
    using len by (rule concat_update)
  have cl_split: "cl = take SL_BATCH cl @ drop SL_BATCH cl" by simp
  have sets: "set cl = set (take SL_BATCH cl) \<union> set (drop SL_BATCH cl)"
    by (subst cl_split) (rule set_append)
  have ml_eq: "concat ml = concat pre @ concat post" using pp(1) ml_t by (metis append_Nil concat.simps(2) concat_append)
  show "set (concat (drop SL_BATCH cl # ml[t := take SL_BATCH cl])) = set (concat (cl # ml))"
    unfolding pp(2) [rule_format] by (auto simp: sets ml_eq simp del: set_concat)
  have "distinct (drop SL_BATCH cl @ concat pre @ take SL_BATCH cl @ concat post)"
  proof -
    have "distinct (take SL_BATCH cl @ drop SL_BATCH cl)" using d by simp
    then show ?thesis using d sets by (auto simp: ml_eq simp del: append_take_drop_id set_concat)
  qed
  moreover have "list_all2 (sl_list (c(tail := NULL))) mags ml"
    using m by (rule sl_lists_cong) (use tl d in auto)
  then have "list_all2 (sl_list (c(tail := NULL))) (mags[t := sl_central_free a]) (ml[t := take SL_BATCH cl])"
    using b(2) unfolding take by (rule sl_rep_set_magazine)
  ultimately show "sl_rep (c(tail := NULL)) (a\<lparr>sl_central_free := c tail\<rparr>) (mags[t := sl_central_free a])
      (drop SL_BATCH cl # ml[t := take SL_BATCH cl])"
    using b(3) sub sets unfolding sl_rep_def drop
    by (auto simp: pp(2) [rule_format] ml_eq sl_slots_def sl_slot_def [abs_def] simp del: fun_upd_apply)
qed

lemma sl_live_set_rep:
  assumes "sl_rep (sw_cells w) a (sw_magazines w) fl"
  shows "sl_live_set (w, a) = set (sl_slots a) - set (concat fl)"
  by (simp add: sl_live_set_def sl_rep_free_lists [OF assms])

lemma sl_invI:
  assumes "sl_shape E (sw_grows w) a" and "sl_rep (sw_cells w) a (sw_magazines w) fl"
    and "unat (hs_used (sl_stats a)) = card (set (sl_slots a) - set (concat fl)) * unat (sl_obj_size a)"
  shows "sl_inv E (w, a)"
  using assms by (simp add: sl_inv_def sl_live_set_rep [OF assms(2)] sl_rep_free_lists [OF assms(2)])

lemma sl_invE:
  assumes "sl_inv E (w, a)"
  obtains cl ml where "sl_shape E (sw_grows w) a"
    and "sl_rep (sw_cells w) a (sw_magazines w) (cl # ml)"
    and "length ml = length (sw_magazines w)"
    and "unat (hs_used (sl_stats a)) = card (set (sl_slots a) - set (concat (cl # ml))) * unat (sl_obj_size a)"
    and "sl_live_set (w, a) = set (sl_slots a) - set (concat (cl # ml))"
proof -
  from assms have rep: "sl_rep (sw_cells w) a (sw_magazines w) (sl_free_lists w a)" by (simp add: sl_inv_def)
  obtain cl ml where "sl_free_lists w a = cl # ml" by (simp add: sl_free_lists_def Let_def)
  note rep = rep [unfolded this]
  show ?thesis
  proof (rule that [OF _ rep])
    show "length ml = length (sw_magazines w)"
      using rep by (auto simp: sl_rep_def dest: list_all2_lengthD)
    show "sl_live_set (w, a) = set (sl_slots a) - set (concat (cl # ml))" by (rule sl_live_set_rep [OF rep])
    then show "unat (hs_used (sl_stats a)) = card (set (sl_slots a) - set (concat (cl # ml))) * unat (sl_obj_size a)"
      using assms by (simp add: sl_inv_def)
  qed (use assms in \<open>simp add: sl_inv_def\<close>)
qed


lemma sl_extent:
  assumes shape: "sl_shape E g a"
  shows "length (sl_slabs a) * unat (sl_slab_bytes a) \<le> 2 ^ 63"
    and "card (set (sl_slots a)) * unat (sl_obj_size a) \<le> length (sl_slabs a) * unat (sl_slab_bytes a)"
proof -
  have d: "distinct (sl_slabs a)" using shape by (simp add: sl_shape_def)
  have inj: "inj_on unat (set (sl_slabs a))" by (auto intro: inj_onI simp: word_eq_unatI)
  have "card (unat ` set (sl_slabs a)) * unat (sl_slab_bytes a) \<le> 2 ^ 63"
  proof (rule packed_ranges)
    show "\<forall>x \<in> unat ` set (sl_slabs a). x + unat (sl_slab_bytes a) \<le> 2 ^ 63"
      using sl_slab_range(3) [OF shape] by (auto intro: less_imp_le)
    show "\<forall>x \<in> unat ` set (sl_slabs a). \<forall>y \<in> unat ` set (sl_slabs a). x < y \<longrightarrow> x + unat (sl_slab_bytes a) \<le> y"
      using sl_slab_disjoint [OF shape] by fastforce
  qed simp
  moreover have "card (unat ` set (sl_slabs a)) = length (sl_slabs a)"
    using card_image [OF inj] d by (simp add: distinct_card)
  ultimately show "length (sl_slabs a) * unat (sl_slab_bytes a) \<le> 2 ^ 63" by simp
  have len: "length (sl_slots a) = length (sl_slabs a) * unat (sl_slots_per_slab a)"
    unfolding sl_slots_def by (induction "sl_slabs a") (simp_all add: length_concat sum_list_triv o_def)
  have n: "unat (sl_slots_per_slab a) = unat (sl_slab_bytes a) div unat (sl_obj_size a)"
    using shape by (simp add: sl_shape_def)
  have "card (set (sl_slots a)) * unat (sl_obj_size a) \<le> length (sl_slots a) * unat (sl_obj_size a)"
    by (intro mult_le_mono1 card_length)
  also have "\<dots> = length (sl_slabs a) * (unat (sl_slab_bytes a) div unat (sl_obj_size a) * unat (sl_obj_size a))"
    by (simp add: len n)
  also have "\<dots> \<le> length (sl_slabs a) * unat (sl_slab_bytes a)"
    by (intro mult_le_mono2 div_times_less_eq_dividend)
  finally show "card (set (sl_slots a)) * unat (sl_obj_size a) \<le> length (sl_slabs a) * unat (sl_slab_bytes a)" .
qed

lemma sl_used_bound:
  assumes shape: "sl_shape E g a" and S: "S \<subseteq> set (sl_slots a)"
  shows "card S * unat (sl_obj_size a) \<le> length (sl_slabs a) * unat (sl_slab_bytes a)"
    and "card S * unat (sl_obj_size a) \<le> 2 ^ 63"
proof -
  have "card S \<le> card (set (sl_slots a))" using S by (intro card_mono) simp_all
  then have "card S * unat (sl_obj_size a) \<le> card (set (sl_slots a)) * unat (sl_obj_size a)"
    by (rule mult_le_mono1)
  then show "card S * unat (sl_obj_size a) \<le> length (sl_slabs a) * unat (sl_slab_bytes a)"
    using sl_extent(2) [OF shape] by (rule order_trans)
  then show "card S * unat (sl_obj_size a) \<le> 2 ^ 63"
    using sl_extent(1) [OF shape] by (rule order_trans)
qed

text \<open>Popping and pushing a magazine.\<close>

lemma sl_rep_pop:
  assumes rep: "sl_rep c a mags (cl # ml)" and t: "t < length ml" and pop: "ml ! t = x # ys"
  shows "sl_rep c a (mags[t := c x]) (cl # ml[t := ys])" and "x \<in> set (sl_slots a)"
    and "set (sl_slots a) - set (concat (cl # ml[t := ys])) =
      insert x (set (sl_slots a) - set (concat (cl # ml)))"
    and "x \<in> set (concat (cl # ml))" and "mags ! t = x" and "x \<noteq> NULL"
proof -
  have m: "list_all2 (sl_list c) mags ml" and d: "distinct (cl @ concat ml)"
    and l: "sl_list c (sl_central_free a) cl" and sub: "set cl \<union> set (concat ml) \<subseteq> set (sl_slots a)"
    using rep by (simp_all add: sl_rep_def)
  have "sl_list c (mags ! t) (x # ys)"
    using list_all2_nthD2 [OF m t] pop by simp
  then have ys: "sl_list c (c x) ys" and hd: "mags ! t = x" "x \<noteq> NULL" by simp_all
  show "mags ! t = x" "x \<noteq> NULL" by (fact hd)+
  obtain pre post where pp: "ml = pre @ ml ! t # post" "\<forall>xs. ml[t := xs] = pre @ xs # post"
    using t by (rule concat_update)
  have old: "concat ml = concat pre @ (x # ys) @ concat post"
    by (subst pp(1)) (simp add: pop)
  have new: "concat (ml[t := ys]) = concat pre @ ys @ concat post" by (simp add: pp(2) [rule_format])
  show "x \<in> set (sl_slots a)" using sub old by auto
  show "x \<in> set (concat (cl # ml))" by (simp add: old del: set_concat)
  have "distinct (cl @ concat pre @ (x # ys) @ concat post)" using d by (simp only: old)
  then show "set (sl_slots a) - set (concat (cl # ml[t := ys])) =
      insert x (set (sl_slots a) - set (concat (cl # ml)))"
    using sub by (auto simp: old new simp del: set_concat)
  have "list_all2 (sl_list c) (mags[t := c x]) (ml[t := ys])"
    using m ys by (rule sl_rep_set_magazine)
  then show "sl_rep c a (mags[t := c x]) (cl # ml[t := ys])"
    using l d sub unfolding sl_rep_def by (auto simp: old new simp del: set_concat)
qed

lemma sl_rep_push:
  assumes rep: "sl_rep c a mags (cl # ml)" and t: "t < length ml" and x: "x \<in> set (sl_slots a)"
    and free: "x \<notin> set (concat (cl # ml))" and nz: "x \<noteq> NULL"
  shows "sl_rep (c(x := mags ! t)) a (mags[t := x]) (cl # ml[t := x # ml ! t])"
    and "set (concat (cl # ml[t := x # ml ! t])) = insert x (set (concat (cl # ml)))"
proof -
  have m: "list_all2 (sl_list c) mags ml" and d: "distinct (cl @ concat ml)"
    and l: "sl_list c (sl_central_free a) cl" and sub: "set cl \<union> set (concat ml) \<subseteq> set (sl_slots a)"
    using rep by (simp_all add: sl_rep_def)
  have xs: "sl_list (c(x := mags ! t)) x (x # ml ! t)"
  proof -
    have "x \<notin> set (ml ! t)" using free t by auto
    then have "sl_list (c(x := mags ! t)) (mags ! t) (ml ! t)"
      using list_all2_nthD2 [OF m t] by (intro sl_list_upd)
    then show ?thesis using nz by (simp add: cell_upd del: fun_upd_apply)
  qed
  obtain pre post where pp: "ml = pre @ ml ! t # post" "\<forall>xs. ml[t := xs] = pre @ xs # post"
    using t by (rule concat_update)
  have old: "concat ml = concat pre @ ml ! t @ concat post" by (subst pp(1)) simp
  have new: "concat (ml[t := x # ml ! t]) = concat pre @ (x # ml ! t) @ concat post"
    by (simp add: pp(2) [rule_format])
  show "set (concat (cl # ml[t := x # ml ! t])) = insert x (set (concat (cl # ml)))"
    by (auto simp: old new simp del: set_concat)
  have "list_all2 (sl_list (c(x := mags ! t))) mags ml"
    using m by (rule sl_lists_cong) (use free in auto)
  then have "list_all2 (sl_list (c(x := mags ! t))) (mags[t := x]) (ml[t := x # ml ! t])"
    using xs by (rule sl_rep_set_magazine)
  moreover have "sl_list (c(x := mags ! t)) (sl_central_free a) cl"
    using l free by (intro sl_list_upd) auto
  moreover have "distinct (cl @ concat (ml[t := x # ml ! t]))"
    using d free by (auto simp: old new simp del: set_concat)
  moreover have "set cl \<union> set (concat (ml[t := x # ml ! t])) \<subseteq> set (sl_slots a)"
    using sub x by (auto simp: old new simp del: set_concat)
  ultimately show "sl_rep (c(x := mags ! t)) a (mags[t := x]) (cl # ml[t := x # ml ! t])"
    unfolding sl_rep_def by (simp del: set_concat fun_upd_apply)
qed



subsection \<open>Allocation and release\<close>

lemma sl_refill_cases:
  assumes shape: "sl_shape E (sw_grows w) a" and rep: "sl_rep (sw_cells w) a (sw_magazines w) (cl # ml)"
    and t: "t < length (sw_magazines w)" and empty: "tl_magazine t w = NULL"
  obtains (none) w' where "sl_refill E t w a = (w', a)" and "sl_shape E (sw_grows w') a"
      and "sl_rep (sw_cells w') a (sw_magazines w') (cl # ml)" and "cl = []"
      and "tl_magazine t w' = NULL" and "sw_magazines w' = sw_magazines w"
      and "os_mmap (E (sw_grows w)) (sl_slab_bytes a) = None"
  | (batch) w' a' cl' ml' where "sl_refill E t w a = (w', a')" and "sl_shape E (sw_grows w') a'"
      and "sl_rep (sw_cells w') a' (sw_magazines w') (cl' # ml')" and "ml' ! t \<noteq> []"
      and "length ml' = length ml" and "length (sw_magazines w') = length (sw_magazines w)"
      and "set (sl_slots a') - set (concat (cl' # ml')) = set (sl_slots a) - set (concat (cl # ml))"
      and "sl_obj_size a' = sl_obj_size a" and "hs_used (sl_stats a') = hs_used (sl_stats a)"
      and "cl \<noteq> [] \<or> os_mmap (E (sw_grows w)) (sl_slab_bytes a) \<noteq> None"
proof -
  have central: "sl_central_free b = NULL \<longleftrightarrow> xs = []" if "sl_rep c b mags (xs # ys)" for c b mags xs ys
    using that by (cases xs) (auto simp: sl_rep_def)
  have len: "length ml = length (sw_magazines w)"
    using rep by (auto simp: sl_rep_def dest: list_all2_lengthD)
  have move: thesis
    if sh: "sl_shape E (sw_grows v) b" and rp: "sl_rep (sw_cells v) b (sw_magazines v) (xs # ml)"
      and ne: "xs \<noteq> []" and mags: "sw_magazines v = sw_magazines w"
      and step: "(if sl_central_free a = NULL then sl_grow E w a else (w, a)) = (v, b)"
      and live: "set (sl_slots b) - set (concat (xs # ml)) = set (sl_slots a) - set (concat (cl # ml))"
      and obj: "sl_obj_size b = sl_obj_size a" "hs_used (sl_stats b) = hs_used (sl_stats a)"
      and why: "cl \<noteq> [] \<or> os_mmap (E (sw_grows w)) (sl_slab_bytes a) \<noteq> None"
    for v b xs
  proof -
    let ?tl = "sl_batch_tail (sw_cells v) (sl_central_free b) 1"
    let ?w' = "set_magazine t (sl_central_free b) (v\<lparr>sw_cells := (sw_cells v)(?tl := NULL)\<rparr>)"
    let ?a' = "b\<lparr>sl_central_free := sw_cells v ?tl\<rparr>"
    have tv: "t < length (sw_magazines v)" "sw_magazines v ! t = NULL"
      using t empty by (simp_all add: mags tl_magazine_def)
    note R = sl_rep_refill [OF rp ne tv]
    have ref: "sl_refill E t w a = (?w', ?a')"
      using central [OF rp] ne by (simp add: sl_refill_def step Let_def)
    have "sl_shape E (sw_grows ?w') ?a'" and slots: "sl_slots ?a' = sl_slots b"
      using sl_shape_fields [OF sh, of ?a'] by (simp_all add: set_magazine_def)
    moreover have "sl_rep (sw_cells ?w') ?a' (sw_magazines ?w') (drop SL_BATCH xs # ml[t := take SL_BATCH xs])"
      using R(1) by (simp add: set_magazine_def del: fun_upd_apply)
    moreover have "ml[t := take SL_BATCH xs] ! t \<noteq> []"
      using ne t by (simp add: len SL_BATCH_def)
    moreover have "set (sl_slots ?a') - set (concat (drop SL_BATCH xs # ml[t := take SL_BATCH xs])) =
        set (sl_slots a) - set (concat (cl # ml))"
      unfolding slots R(2) by (rule live)
    ultimately show ?thesis
      using ref obj why by (intro batch [of ?w' ?a' "drop SL_BATCH xs" "ml[t := take SL_BATCH xs]"])
        (simp_all add: set_magazine_def mags)
  qed
  show ?thesis
  proof (cases "cl = []")
    case False
    then show ?thesis using central [OF rep] by (intro move [of w a cl]) (simp_all add: shape rep)
  next
    case True
    then have null: "sl_central_free a = NULL" using central [OF rep] by simp
    show ?thesis
    proof (rule sl_grow_cases [OF shape rep], goal_cases)
      case (1 w')
      then have "sl_refill E t w a = (w', a)" using null by (simp add: sl_refill_def)
      then show ?thesis
        using 1 True rep empty by (intro none [of w']) (simp_all add: tl_magazine_def)
    next
      case (2 w' a' new)
      have "set (sl_slots a') - set (concat ((new @ cl) # ml)) = set (sl_slots a) - set (concat (cl # ml))"
        using 2(5,6) True by auto
      with 2 True null show ?thesis by (intro move [of w' a' "new @ cl"]) simp_all
    qed
  qed
qed


lemma sl_live_size: "sl_live (w, a) p = Some m \<longleftrightarrow> p \<in> sl_live_set (w, a) \<and> m = unat (sl_obj_size a)"
  by (auto simp: sl_live_def)

lemma sl_allocate_cases:
  assumes inv: "sl_inv E (w, a)" and t: "t < length (sw_magazines w)"
  obtains (refused) w' a' where "sl_allocate E t (w, a) sz al = (None, w', a')" and "sl_inv E (w', a')"
      and "sl_live_set (w', a') = sl_live_set (w, a)" and "sl_obj_size a' = sl_obj_size a"
      and "sw_magazines w' = sw_magazines w"
      and "sz > sl_obj_size a \<or> (tl_magazine t w = NULL \<and> sl_central_free a = NULL \<and>
        os_mmap (E (sw_grows w)) (sl_slab_bytes a) = None)"
  | (granted) x w' a' where "sl_allocate E t (w, a) sz al = (Some x, w', a')" and "sl_inv E (w', a')"
      and "sz \<le> sl_obj_size a" and "x \<in> set (sl_slots a')" and "x \<notin> sl_live_set (w, a)"
      and "sl_live_set (w', a') = insert x (sl_live_set (w, a))" and "sl_obj_size a' = sl_obj_size a"
      and "length (sw_magazines w') = length (sw_magazines w)" and "x \<noteq> NULL" and "16 dvd unat x"
      and "unat x + unat (sl_obj_size a) < 2 ^ 63"
proof -
  obtain cl ml where shape: "sl_shape E (sw_grows w) a"
    and rep: "sl_rep (sw_cells w) a (sw_magazines w) (cl # ml)" and len: "length ml = length (sw_magazines w)"
    and used: "unat (hs_used (sl_stats a)) = card (set (sl_slots a) - set (concat (cl # ml))) * unat (sl_obj_size a)"
    and live: "sl_live_set (w, a) = set (sl_slots a) - set (concat (cl # ml))"
    using inv by (rule sl_invE)
  let ?a0 = "a\<lparr>sl_stats := count_alloc (sl_stats a)\<rparr>"
  have shape0: "sl_shape E (sw_grows w) ?a0" and slots0: "sl_slots ?a0 = sl_slots a"
    using sl_shape_fields [OF shape, of ?a0] by simp_all
  have rep0: "sl_rep (sw_cells w) ?a0 (sw_magazines w) (cl # ml)"
    using rep by simp
  have refuse: thesis
    if res: "sl_allocate E t (w, a) sz al = (None, v, ?a0\<lparr>sl_stats := count_failed (count_alloc (sl_stats a))\<rparr>)"
      and sh: "sl_shape E (sw_grows v) ?a0" and rp: "sl_rep (sw_cells v) ?a0 (sw_magazines v) (cl # ml)"
      and mags: "sw_magazines v = sw_magazines w"
      and why: "sz > sl_obj_size a \<or> (tl_magazine t w = NULL \<and> sl_central_free a = NULL \<and>
        os_mmap (E (sw_grows w)) (sl_slab_bytes a) = None)" for v
  proof -
    let ?a' = "?a0\<lparr>sl_stats := count_failed (count_alloc (sl_stats a))\<rparr>"
    have sh': "sl_shape E (sw_grows v) ?a'" and sl': "sl_slots ?a' = sl_slots a"
      using sl_shape_fields [OF sh, of ?a'] slots0 by simp_all
    have rp': "sl_rep (sw_cells v) ?a' (sw_magazines v) (cl # ml)" using rp by simp
    have "sl_inv E (v, ?a')" using used by (intro sl_invI [OF sh' rp']) (simp add: sl')
    moreover have "sl_live_set (v, ?a') = sl_live_set (w, a)"
      unfolding sl_live_set_rep [OF rp'] live sl' ..
    ultimately show ?thesis using res mags why by (intro refused [of v ?a']) simp_all
  qed
  have take: thesis
    if small: "\<not> sz > sl_obj_size a" and sh: "sl_shape E (sw_grows v) b"
      and rp: "sl_rep (sw_cells v) b (sw_magazines v) (cl' # ml')" and ne: "ml' ! t \<noteq> []"
      and len': "length ml' = length ml" "length (sw_magazines v) = length (sw_magazines w)"
      and lv: "set (sl_slots b) - set (concat (cl' # ml')) = set (sl_slots a) - set (concat (cl # ml))"
      and obj: "sl_obj_size b = sl_obj_size a" "hs_used (sl_stats b) = hs_used (sl_stats a)"
      and step: "(if tl_magazine t w = NULL then sl_refill E t w ?a0 else (w, ?a0)) = (v, b)"
    for v b cl' ml'
  proof -
    obtain x ys where x: "ml' ! t = x # ys" using ne by (cases "ml' ! t") auto
    have t': "t < length ml'" using t len len' by simp
    note P = sl_rep_pop [OF rp t' x]
    let ?w' = "set_magazine t (sw_cells v x) v"
    let ?st = "raise_peak (set_used (hs_used (sl_stats b) + sl_obj_size b) (sl_stats b))"
    let ?a' = "b\<lparr>sl_stats := ?st\<rparr>"
    have sh': "sl_shape E (sw_grows ?w') ?a'" and sl': "sl_slots ?a' = sl_slots b"
      using sl_shape_fields [OF sh, of ?a'] by (simp_all add: set_magazine_def)
    have rp': "sl_rep (sw_cells ?w') ?a' (sw_magazines ?w') (cl' # ml'[t := ys])"
      using P(1) by (simp add: set_magazine_def)
    have mag: "tl_magazine t v = x" using P(5) by (simp add: tl_magazine_def)
    have res: "sl_allocate E t (w, a) sz al = (Some x, ?w', ?a')"
      unfolding sl_allocate_def Let_def split_conv using small step mag P(6) by simp
    let ?L = "set (sl_slots a) - set (concat (cl # ml))"
    have new: "x \<notin> ?L" using P(4) unfolding lv [symmetric] by simp
    have lv': "set (sl_slots ?a') - set (concat (cl' # ml'[t := ys])) = insert x ?L"
      unfolding sl' P(3) lv ..
    have card: "card (insert x ?L) = Suc (card ?L)" using new by simp
    have "card (insert x ?L) * unat (sl_obj_size ?a') \<le> 2 ^ 63"
      using lv' by (intro sl_used_bound(2) [OF sh']) blast
    then have "unat (hs_used (sl_stats b) + sl_obj_size b) = card (insert x ?L) * unat (sl_obj_size a)"
      using used obj card by (simp add: unat_add_nowrap)
    then have "sl_inv E (?w', ?a')"
      by (intro sl_invI [OF sh' rp'], unfold lv') (simp add: obj)
    moreover have "sl_live_set (?w', ?a') = insert x (sl_live_set (w, a))"
      unfolding sl_live_set_rep [OF rp'] live lv' ..
    moreover have "16 dvd unat x" "unat x + unat (sl_obj_size a) < 2 ^ 63"
    proof -
      obtain m i where m: "m \<in> set (sl_slabs b)" "i < unat (sl_slots_per_slab b)" "x = sl_slot b m i"
        using P(2) by (auto simp: sl_slots_iff)
      from sl_slot_nat [OF sh m(1,2)] sl_slab_range(3) [OF sh m(1)]
      show "16 dvd unat x" "unat x + unat (sl_obj_size a) < 2 ^ 63" by (simp_all add: m(3) obj)
    qed
    ultimately show ?thesis
      using res small new live P(2,6) len' obj sl'
      by (intro granted [of x ?w' ?a']) (simp_all add: set_magazine_def not_less)
  qed
  have central: "sl_central_free a = NULL" if "cl = []"
    using rep that by (simp add: sl_rep_def)
  show ?thesis
  proof (cases "sz > sl_obj_size a")
    case True
    then have "sl_allocate E t (w, a) sz al = (None, w, ?a0\<lparr>sl_stats := count_failed (count_alloc (sl_stats a))\<rparr>)"
      by (simp add: sl_allocate_def Let_def)
    then show ?thesis using True by (intro refuse [OF _ shape0 rep0]) simp_all
  next
    case small: False
    show ?thesis
    proof (cases "tl_magazine t w = NULL")
      case False
      then have "ml ! t \<noteq> []"
        using rep t len by (auto simp: sl_rep_def tl_magazine_def dest: list_all2_nthD2)
      then show ?thesis using False small by (intro take [OF _ shape0 rep0]) (simp_all add: slots0)
    next
      case True
      show ?thesis
      proof (rule sl_refill_cases [OF shape0 rep0 t True], goal_cases)
        case (1 w')
        then have "sl_allocate E t (w, a) sz al = (None, w', ?a0\<lparr>sl_stats := count_failed (count_alloc (sl_stats a))\<rparr>)"
          using small True by (simp add: sl_allocate_def Let_def)
        then show ?thesis using 1 True central by (intro refuse [of w']) simp_all
      next
        case (2 w' a' cl' ml')
        then show ?thesis using small True by (intro take [of w' a' cl' ml']) (simp_all add: slots0)
      qed
    qed
  qed
qed


lemma sl_deallocate_live:
  assumes inv: "sl_inv E (w, a)" and t: "t < length (sw_magazines w)" and x: "x \<in> sl_live_set (w, a)"
  obtains w' a' where "sl_deallocate t (w, a) x = Inr (w', a')" and "sl_inv E (w', a')"
    and "sl_live_set (w', a') = sl_live_set (w, a) - {x}" and "sl_obj_size a' = sl_obj_size a"
    and "length (sw_magazines w') = length (sw_magazines w)" and "tl_magazine t w' = x"
proof -
  obtain cl ml where shape: "sl_shape E (sw_grows w) a"
    and rep: "sl_rep (sw_cells w) a (sw_magazines w) (cl # ml)" and len: "length ml = length (sw_magazines w)"
    and used: "unat (hs_used (sl_stats a)) = card (set (sl_slots a) - set (concat (cl # ml))) * unat (sl_obj_size a)"
    and live: "sl_live_set (w, a) = set (sl_slots a) - set (concat (cl # ml))"
    using inv by (rule sl_invE)
  let ?L = "set (sl_slots a) - set (concat (cl # ml))"
  have xs: "x \<in> set (sl_slots a)" "x \<notin> set (concat (cl # ml))" "x \<in> ?L" using x unfolding live by simp_all
  obtain m i where m: "m \<in> set (sl_slabs a)" "i < unat (sl_slots_per_slab a)" "x = sl_slot a m i"
    using xs(1) by (auto simp: sl_slots_iff)
  have nz: "x \<noteq> NULL" using sl_slot_nat(4) [OF shape m(1,2)] m(3) by simp
  have t': "t < length ml" using t len by simp
  note P = sl_rep_push [OF rep t' xs(1,2) nz]
  define w' where "w' = set_magazine t x (w\<lparr>sw_cells := (sw_cells w)(x := tl_magazine t w)\<rparr>)"
  define a' where "a' = a\<lparr>sl_stats := set_used (hs_used (sl_stats a) - sl_obj_size a) (count_free (sl_stats a))\<rparr>"
  have res: "sl_deallocate t (w, a) x = Inr (w', a')"
    using nz by (simp add: sl_deallocate_def Let_def w'_def a'_def)
  have sh': "sl_shape E (sw_grows w') a'" using shape by (simp add: w'_def a'_def set_magazine_def)
  have rp': "sl_rep (sw_cells w') a' (sw_magazines w') (cl # ml[t := x # ml ! t])"
    using P(1) by (simp add: w'_def a'_def set_magazine_def tl_magazine_def del: fun_upd_apply)
  have lv': "set (sl_slots a') - set (concat (cl # ml[t := x # ml ! t])) = ?L - {x}"
    unfolding P(2) by (auto simp: a'_def)
  have card: "card ?L = Suc (card (?L - {x}))" using xs(3) by (intro card.remove) simp_all
  then have ge: "unat (sl_obj_size a) \<le> unat (hs_used (sl_stats a))" using used by simp
  have "unat (hs_used (sl_stats a')) = unat (hs_used (sl_stats a)) - unat (sl_obj_size a)"
    using ge by (simp add: a'_def unat_sub_nowrap)
  also have "\<dots> = card (?L - {x}) * unat (sl_obj_size a)" using used card by simp
  finally have "unat (hs_used (sl_stats a')) = card (?L - {x}) * unat (sl_obj_size a)" .
  then have "sl_inv E (w', a')"
    by (intro sl_invI [OF sh' rp'], unfold lv') (simp add: a'_def)
  moreover have "sl_live_set (w', a') = sl_live_set (w, a) - {x}"
    unfolding sl_live_set_rep [OF rp'] live lv' ..
  ultimately show ?thesis
    using that res t by (simp add: w'_def a'_def set_magazine_def tl_magazine_def)
qed

definition sl_client_write :: "sl_world \<times> sl_alloc \<Rightarrow> addr \<Rightarrow> u64 \<Rightarrow> sl_world \<times> sl_alloc" where
  "sl_client_write wa x v = ((fst wa)\<lparr>sw_cells := (sw_cells (fst wa))(x := v)\<rparr>, snd wa)"

lemma sl_client_write_ok:
  assumes inv: "sl_inv E (w, a)" and blk: "in_block (sl_live (w, a)) p x"
  shows "sl_inv E (sl_client_write (w, a) x v)" and "sl_live (sl_client_write (w, a) x v) = sl_live (w, a)"
proof -
  obtain cl ml where shape: "sl_shape E (sw_grows w) a"
    and rep: "sl_rep (sw_cells w) a (sw_magazines w) (cl # ml)"
    and used: "unat (hs_used (sl_stats a)) = card (set (sl_slots a) - set (concat (cl # ml))) * unat (sl_obj_size a)"
    and live: "sl_live_set (w, a) = set (sl_slots a) - set (concat (cl # ml))"
    using inv by (rule sl_invE)
  from blk have p: "p \<in> sl_live_set (w, a)" "unat p \<le> unat x" "unat x < unat p + unat (sl_obj_size a)"
    by (auto simp: in_block_def sl_live_def split: option.splits if_splits)
  have ne: "((sw_cells w)(x := v)) f = sw_cells w f" if "f \<in> set (concat (cl # ml))" for f
  proof -
    have f: "f \<in> set (sl_slots a)" using rep that by (auto simp: sl_rep_def)
    have "p \<in> set (sl_slots a)" "p \<noteq> f" using p(1) that unfolding live by auto
    from sl_slots_disjoint [OF shape this(1) f this(2)] p(2,3)
    have "unat x \<noteq> unat f" using shape by (auto simp: sl_shape_def)
    then show ?thesis by auto
  qed
  have "list_all2 (sl_list (sw_cells w)) (sl_central_free a # sw_magazines w) (cl # ml)"
    using rep by (simp add: sl_rep_def)
  from sl_lists_cong [OF this ne]
  have "list_all2 (sl_list ((sw_cells w)(x := v))) (sl_central_free a # sw_magazines w) (cl # ml)" .
  then have rp': "sl_rep ((sw_cells w)(x := v)) a (sw_magazines w) (cl # ml)"
    using rep unfolding sl_rep_def by blast
  let ?w = "w\<lparr>sw_cells := (sw_cells w)(x := v)\<rparr>"
  have rw: "sl_rep (sw_cells ?w) a (sw_magazines ?w) (cl # ml)" using rp' by (simp del: fun_upd_apply)
  have eq: "sl_client_write (w, a) x v = (?w, a)" by (simp add: sl_client_write_def)
  show "sl_inv E (sl_client_write (w, a) x v)"
    unfolding eq using shape used by (intro sl_invI [OF _ rw]) simp_all
  have "sl_live_set (?w, a) = sl_live_set (w, a)" unfolding sl_live_set_rep [OF rw] live ..
  then show "sl_live (sl_client_write (w, a) x v) = sl_live (w, a)"
    unfolding eq by (simp add: sl_live_def fun_eq_iff)
qed


subsection \<open>The contracts\<close>

text \<open>The invariant of a process with \<open>n\<close> threads.\<close>

definition sl_threads_inv :: "(nat \<Rightarrow> os_services) \<Rightarrow> nat \<Rightarrow> sl_world \<times> sl_alloc \<Rightarrow> bool" where
  "sl_threads_inv E n wa \<longleftrightarrow> sl_inv E wa \<and> length (sw_magazines (fst wa)) = n"

lemma sl_contract:
  assumes tn: "t < n"
  shows "allocator_contract (sl_threads_inv E n) (sl_allocate E t) (sl_deallocate t) sl_live
    (\<lambda>n al. True) (\<lambda>s p. sl_live s p \<noteq> None) sl_client_write"
proof
  fix s s' :: "sl_world \<times> sl_alloc" and sz al p x v
  assume "sl_threads_inv E n s"
  then obtain w a where s: "s = (w, a)" and inv: "sl_inv E (w, a)"
    and len: "length (sw_magazines w) = n" by (cases s) (simp add: sl_threads_inv_def)
  have t: "t < length (sw_magazines w)" using tn len by simp
  show "sl_threads_inv E n (snd (sl_allocate E t s sz al))"
    unfolding s by (rule sl_allocate_cases [OF inv t, of sz al]) (simp_all add: sl_threads_inv_def len)
  show "sl_live s' = sl_live s" if "sl_allocate E t s sz al = (None, s')"
    by (rule sl_allocate_cases [OF inv t, of sz al]) (use that s in \<open>auto simp: sl_live_def fun_eq_iff\<close>)
  show "p \<noteq> NULL \<and> sl_live s p = None \<and> (\<exists>m\<ge>unat sz. sl_live s' = (sl_live s)(p \<mapsto> m))"
    if ret: "sl_allocate E t s sz al = (Some p, s')"
  proof (rule sl_allocate_cases [OF inv t, of sz al], goal_cases)
    case (2 y w' a')
    then have eq: "y = p" "s' = (w', a')" using ret s by simp_all
    have "sl_live s' = (sl_live s)(p \<mapsto> unat (sl_obj_size a))"
      using 2 by (auto simp: s eq sl_live_def fun_eq_iff)
    moreover have "unat sz \<le> unat (sl_obj_size a)" using 2(3) by (simp add: word_le_nat_alt)
    ultimately show ?case using 2(5,9) by (auto simp: s eq sl_live_def)
  qed (use ret s in simp)
  show "blocks_disjoint (sl_live s)"
    unfolding blocks_disjoint_def
  proof (intro allI impI)
    fix p q m k
    assume "sl_live s p = Some m" "sl_live s q = Some k" "p \<noteq> q"
    moreover from sl_invE [OF inv] have "sl_shape E (sw_grows w) a" by metis
    ultimately show "unat p + m \<le> unat q \<or> unat q + k \<le> unat p"
      using sl_slots_disjoint [of E "sw_grows w" a p q] by (simp add: s sl_live_size sl_live_set_def)
  qed
  show "sl_live s p \<noteq> None \<and> (\<exists>s'. sl_deallocate t s p = Inr s' \<and> sl_threads_inv E n s' \<and>
      sl_live s' = (sl_live s)(p := None))" if lv: "sl_live s p \<noteq> None"
  proof -
    have "p \<in> sl_live_set (w, a)" using lv by (simp add: s sl_live_def split: if_splits)
    with inv t show ?thesis
    proof (rule sl_deallocate_live)
      fix w' a'
      assume d: "sl_deallocate t (w, a) p = Inr (w', a')" "sl_inv E (w', a')"
        "sl_live_set (w', a') = sl_live_set (w, a) - {p}" "sl_obj_size a' = sl_obj_size a"
        "length (sw_magazines w') = length (sw_magazines w)"
      then have "sl_live (w', a') = (sl_live s)(p := None)" by (auto simp: s sl_live_def fun_eq_iff)
      with d lv show ?thesis by (auto simp: s sl_threads_inv_def len)
    qed
  qed
  show "sl_threads_inv E n (sl_client_write s x v) \<and> sl_live (sl_client_write s x v) = sl_live s"
    if "in_block (sl_live s) p x"
    using sl_client_write_ok [OF inv, of p x v] that len by (simp add: s sl_threads_inv_def sl_client_write_def)
qed

interpretation sl: threaded_contract "sl_threads_inv E" "sl_allocate E" sl_deallocate sl_live
    "\<lambda>n al. True" "\<lambda>s p. sl_live s p \<noteq> None" sl_client_write
  for E
  by (rule threaded_contract.intro) (rule sl_contract)


lemma sl_walk_loop_spec:
  "unat off + n * unat sb < 2 ^ 64 \<Longrightarrow> unat remaining \<le> n * unat sb \<Longrightarrow> 0 < unat sb \<Longrightarrow>
   tiles (unat off) (sl_walk_loop sb n off remaining) (unat off + n * unat sb) \<and>
   used_bytes (sl_walk_loop sb n off remaining) = unat remaining"
proof (induction sb n off remaining rule: sl_walk_loop.induct)
  case (1 sb off remaining)
  then show ?case by (simp add: used_bytes_def)
next
  case (2 sb n off remaining)
  define used where "used = (if remaining < sb then remaining else sb)"
  have u: "unat used \<le> unat sb" "unat used \<le> unat remaining" "unat used = min (unat remaining) (unat sb)"
    by (auto simp: used_def word_less_nat_alt)
  have off: "unat (off + sb) = unat off + unat sb" "unat (off + used) = unat off + unat used"
    using 2(2) u(1) by (simp_all add: unat_add_nowrap)
  have sub: "unat (sb - used) = unat sb - unat used" "unat (remaining - used) = unat remaining - unat used"
    using u by (simp_all add: unat_sub_nowrap)
  let ?rest = "sl_walk_loop sb n (off + sb) (remaining - used)"
  have IH: "tiles (unat (off + sb)) ?rest (unat (off + sb) + n * unat sb) \<and>
      used_bytes ?rest = unat (remaining - used)"
  proof (rule 2(1) [OF used_def])
    show "unat (off + sb) + n * unat sb < 2 ^ 64" using 2(2) by (simp add: off)
    show "unat (remaining - used) \<le> n * unat sb" using 2(3) u(3) by (simp add: sub)
  qed (rule 2(4))
  have nz: "used \<noteq> 0 \<longleftrightarrow> 0 < unat used" by (simp add: unat_gt_0)
  show ?case
    unfolding sl_walk_loop.simps Let_def
    unfolding used_def [symmetric]
    unfolding nz word_less_nat_alt
    using IH u(1,2) by (auto simp: off sub used_bytes_def add.assoc)
qed

lemma sl_walk_spec:
  assumes "sl_inv E s"
  shows "tiles 0 (sl_walk s) (length (sl_slabs (snd s)) * unat (sl_slab_bytes (snd s)))"
    and "used_bytes (sl_walk s) = unat (hs_used (sl_stats (snd s)))"
proof -
  obtain w a where s: "s = (w, a)" by (cases s)
  obtain cl ml where shape: "sl_shape E (sw_grows w) a"
    and used: "unat (hs_used (sl_stats a)) = card (set (sl_slots a) - set (concat (cl # ml))) * unat (sl_obj_size a)"
    using sl_invE [OF assms [unfolded s]] by metis
  have pos: "0 < unat (sl_slab_bytes a)" using shape by (cases "unat (sl_slab_bytes a)") (auto simp: sl_shape_def)
  have "unat (hs_used (sl_stats a)) \<le> length (sl_slabs a) * unat (sl_slab_bytes a)"
    unfolding used by (rule sl_used_bound(1) [OF shape]) blast
  moreover have "length (sl_slabs a) * unat (sl_slab_bytes a) < 2 ^ 64"
    using sl_extent(1) [OF shape] by (rule le_less_trans) simp
  ultimately show "tiles 0 (sl_walk s) (length (sl_slabs (snd s)) * unat (sl_slab_bytes (snd s)))"
    and "used_bytes (sl_walk s) = unat (hs_used (sl_stats (snd s)))"
    using sl_walk_loop_spec [of 0 "length (sl_slabs a)" "sl_slab_bytes a" "hs_used (sl_stats a)"] pos
    by (simp_all add: s sl_walk_def Let_def)
qed

interpretation sl_layout: layout_contract "sl_inv E" sl_walk
    "\<lambda>s. length (sl_slabs (snd s)) * unat (sl_slab_bytes (snd s))" "\<lambda>s. unat (hs_used (sl_stats (snd s)))"
  for E
  by unfold_locales (simp_all add: sl_walk_spec)


subsection \<open>Construction\<close>

definition sl_fresh_world :: "nat \<Rightarrow> sl_world" where
  "sl_fresh_world n = \<lparr>sw_cells = (\<lambda>_. 0), sw_magazines = replicate n NULL, sw_grows = 0, sw_calls = []\<rparr>"

lemma hf_slab_create_inv:
  assumes env: "sl_env_ok E" and ret: "hf_slab_create (E 0) object_size slab_bytes = Inr (Some a)"
  shows "sl_threads_inv E n (sl_fresh_world n, a)"
proof -
  define obj where "obj = hf_align_up (if object_size < 8 then 8 else object_size) 16"
  define sb where "sb = hf_align_up (if slab_bytes = 0 then 64 * 1024 else slab_bytes) (os_page_size (E 0))"
  from ret have nz: "obj \<noteq> 0" "sb div obj \<noteq> 0"
    and a: "a = \<lparr>sl_obj_size = obj, sl_slab_bytes = sb, sl_slots_per_slab = sb div obj, sl_slabs = [],
      sl_slab_cap = 0, sl_central_free = NULL, sl_stats = stats_zero\<rparr>"
    by (auto simp: hf_slab_create_def Let_def HF_DEFAULT_ALIGN_def obj_def [symmetric] sb_def [symmetric]
        split: if_splits)
  have dvd: "16 dvd unat obj" using hf_align_up_dvd [of 4] by (simp add: obj_def)
  have "0 < unat obj" using nz(1) by (simp add: unat_gt_0)
  with dvd have ge: "16 \<le> unat obj" by (intro dvd_imp_le)
  have "os_wf (E 0)" using env by (simp add: sl_env_ok_def)
  then have al: "hf_align_up sb (os_page_size (E 0)) = sb" unfolding sb_def by (rule os_page_align_idem)
  have "0 < unat (sb div obj)" using nz(2) by (simp add: unat_gt_0)
  then have q: "unat sb div unat obj \<noteq> 0" by (simp add: unat_div)
  have slots: "sl_slots a = []" by (simp add: sl_slots_def a)
  have shape: "sl_shape E (sw_grows (sl_fresh_world n)) a"
    using env dvd ge al q by (simp add: sl_shape_def a unat_div)
  have "list_all2 (sl_list (\<lambda>_. 0)) (replicate n NULL) (replicate n [])"
    by (simp add: list_all2_conv_all_nth)
  then have "sl_rep (sw_cells (sl_fresh_world n)) a (sw_magazines (sl_fresh_world n)) ([] # replicate n [])"
    by (simp add: sl_rep_def sl_fresh_world_def a)
  moreover have "hs_used (sl_stats a) = 0" by (simp add: a stats_zero_def)
  ultimately have "sl_inv E (sl_fresh_world n, a)"
    by (intro sl_invI [OF shape]) (simp_all add: slots)
  then show ?thesis by (simp add: sl_threads_inv_def sl_fresh_world_def)
qed



subsection \<open>Properties\<close>

definition sl_env_example :: "nat \<Rightarrow> os_services" where
  "sl_env_example k = \<lparr>os_page_size = 4096,
     os_mmap = (\<lambda>n. if n = 0 \<or> n \<ge> 0x100000 \<or> k \<ge> 1000 then None
                    else Some (0x100000 + of_nat k * 0x100000)),
     os_calloc = (\<lambda>_. True)\<rparr>"

lemma sl_env_example_addr:
  "k < 1000 \<Longrightarrow> unat (0x100000 + of_nat k * 0x100000 :: u64) = 0x100000 + k * 0x100000"
  by (simp add: unat_add_nowrap unat_mult_nowrap unat_of_nat)

lemma sl_env_example_ok: "sl_env_ok sl_env_example"
proof -
  have "os_wf (sl_env_example k)" for k
    unfolding os_wf_def
  proof (intro conjI allI impI)
    have "os_page_size (sl_env_example k) = 2 ^ 12" by (simp add: sl_env_example_def)
    then show "\<exists>j. 12 \<le> j \<and> j < 32 \<and> os_page_size (sl_env_example k) = 2 ^ j"
      by (intro exI [of _ 12] conjI) simp_all
    show "os_mmap (sl_env_example k) 0 = None" by (simp add: sl_env_example_def)
    fix n p
    assume that: "os_mmap (sl_env_example k) n = Some p"
    then have k: "k < 1000" and n: "unat n < 0x100000" and p: "p = 0x100000 + of_nat k * 0x100000"
      by (auto simp: sl_env_example_def word_le_nat_alt not_le split: if_splits)
    have u: "unat p = 0x100000 + k * 0x100000" unfolding p by (rule sl_env_example_addr [OF k])
    then show "p \<noteq> NULL" by (intro notI) simp
    have "unat p = 4096 * (256 + k * 256)" using u by simp
    then have "4096 dvd unat p" by (rule dvdI)
    then show "unat (os_page_size (sl_env_example k)) dvd unat p" by (simp add: sl_env_example_def)
    show "unat p + unat n < 2 ^ 63" using u n k by simp
  qed
  moreover have "unat p + unat n \<le> unat q \<or> unat q + unat n \<le> unat p"
    if "i \<noteq> j" "os_mmap (sl_env_example i) n = Some p" "os_mmap (sl_env_example j) n = Some q" for i j n p q
  proof -
    from that have ij: "i < 1000" "j < 1000" and n: "unat n < 0x100000"
      and p: "p = 0x100000 + of_nat i * 0x100000" "q = 0x100000 + of_nat j * 0x100000"
      by (auto simp: sl_env_example_def word_le_nat_alt not_le split: if_splits)
    have "unat p = 0x100000 + i * 0x100000" "unat q = 0x100000 + j * 0x100000"
      unfolding p using ij by (simp_all only: sl_env_example_addr)
    then show ?thesis using n \<open>i \<noteq> j\<close> by linarith
  qed
  moreover have "os_calloc (sl_env_example k) 0 \<and> os_page_size (sl_env_example k) = os_page_size (sl_env_example 0)" for k
    by (simp add: sl_env_example_def)
  ultimately show ?thesis unfolding sl_env_ok_def by blast
qed

definition sl_example :: sl_alloc where
  "sl_example = \<lparr>sl_obj_size = 1024, sl_slab_bytes = 4096, sl_slots_per_slab = 4, sl_slabs = [],
     sl_slab_cap = 0, sl_central_free = NULL, sl_stats = stats_zero\<rparr>"

lemma sl_example_create: "hf_slab_create (sl_env_example 0) 1024 4096 = Inr (Some sl_example)"
  by (simp add: hf_slab_create_def sl_env_example_def HF_DEFAULT_ALIGN_def hf_align_up_def Let_def sl_example_def)

lemma sl_example_inv: "sl_threads_inv sl_env_example n (sl_fresh_world n, sl_example)"
  using sl_env_example_ok sl_example_create by (rule hf_slab_create_inv)

lemma sl_link_numeral:
  "sl_link mem obj (numeral k) c h =
     (let s = mem + of_nat (pred_numeral k) * obj in sl_link mem obj (pred_numeral k) (c(s := h)) s)"
  by (simp add: numeral_eq_Suc)

lemmas sl_eval = sl_allocate_def sl_refill_def sl_grow_def hf_vm_reserve_def hf_vm_release_def
  hf_align_up_def tl_magazine_def set_magazine_def sl_fresh_world_def sl_env_example_def
  sl_batch_tail.simps SL_BATCH_def sl_link_numeral Let_def

lemma sl_example_first:
  "fst (sl_allocate sl_env_example 0 (sl_fresh_world 1, sl_example) 100 16) = Some 0x100000"
  by (simp add: sl_eval sl_example_def)

definition sl_example1 :: "sl_world \<times> sl_alloc" where
  "sl_example1 = snd (sl_allocate sl_env_example 0 (sl_fresh_world 1, sl_example) 100 16)"

lemma sl_example1_state:
  "sl_inv sl_env_example sl_example1" "0 < length (sw_magazines (fst sl_example1))"
  "0x100000 \<in> sl_live_set sl_example1" "sl_obj_size (snd sl_example1) = 1024"
proof -
  have inv: "sl_inv sl_env_example (sl_fresh_world 1, sl_example)" "0 < length (sw_magazines (sl_fresh_world 1))"
    using sl_example_inv [of 1] by (simp_all add: sl_threads_inv_def)
  have obj: "sl_obj_size sl_example = 1024" by (simp add: sl_example_def)
  have "sl_inv sl_env_example sl_example1 \<and> 0 < length (sw_magazines (fst sl_example1)) \<and>
      0x100000 \<in> sl_live_set sl_example1 \<and> sl_obj_size (snd sl_example1) = 1024"
    unfolding sl_example1_def
    by (rule sl_allocate_cases [OF inv, of 100 16]) (use sl_example_first inv(2) obj in auto)
  then show "sl_inv sl_env_example sl_example1" "0 < length (sw_magazines (fst sl_example1))"
    "0x100000 \<in> sl_live_set sl_example1" "sl_obj_size (snd sl_example1) = 1024" by simp_all
qed





text \<open>
  A slot that a thread releases is the next one the same thread gets, in constant time from its
  magazine, for every request that fits a slot.
\<close>

theorem sl_lifo_reuse:
  assumes "sl_inv E (w, a)" and "t < length (sw_magazines w)" and "x \<in> sl_live_set (w, a)"
    and "sz \<le> sl_obj_size a"
  shows "\<exists>s. sl_deallocate t (w, a) x = Inr s \<and> fst (sl_allocate E t s sz al) = Some x"
proof (rule sl_deallocate_live [OF assms(1-3)])
  fix w' a'
  assume d: "sl_deallocate t (w, a) x = Inr (w', a')" "tl_magazine t w' = x" "sl_obj_size a' = sl_obj_size a"
  have "x \<noteq> NULL"
    using sl_invE [OF assms(1)] sl_slot_nat(4) assms(3) by (metis DiffE sl_slots_iff)
  then have "fst (sl_allocate E t (w', a') sz al) = Some x"
    using d assms(4) by (simp add: sl_allocate_def Let_def not_less)
  with d show ?thesis by blast
qed


theorem sl_lifo_reuse_witness:
  "\<exists>s. sl_deallocate 0 sl_example1 0x100000 = Inr s \<and>
     fst (sl_allocate sl_env_example 0 s 64 16) = Some 0x100000"
proof -
  obtain w a where wa: "sl_example1 = (w, a)" by (cases sl_example1)
  show ?thesis
    using sl_lifo_reuse [of sl_env_example w a 0 "0x100000" 64 16] sl_example1_state by (simp add: wa)
qed

text \<open>
  The variable \<^verbatim>\<open>tl_magazine\<close> is shared by all slab allocators of a thread.  After one
  allocation from a slab of 1024-byte objects, a request of 4096 bytes to a second slab allocator, of
  4096-byte objects, is answered with a 1024-byte slot of the first; the second owns no slab at all.
\<close>

theorem sl_magazine_shared:
  "\<exists>b s s'. hf_slab_create (sl_env_example 0) 4096 4096 = Inr (Some b) \<and>
     sl_allocate sl_env_example 0 (sl_fresh_world 1, sl_example) 1024 16 = (Some 0x100000, s) \<and>
     sl_allocate sl_env_example 0 (fst s, b) 4096 16 = (Some 0x100400, s') \<and>
     0x100400 \<in> set (sl_slots (snd s)) \<and> sl_slabs (snd s') = []"
proof -
  let ?b = "\<lparr>sl_obj_size = 4096, sl_slab_bytes = 4096, sl_slots_per_slab = 1, sl_slabs = [],
     sl_slab_cap = 0, sl_central_free = NULL, sl_stats = stats_zero\<rparr>"
  have "hf_slab_create (sl_env_example 0) 4096 4096 = Inr (Some ?b)"
    by (simp add: hf_slab_create_def sl_env_example_def HF_DEFAULT_ALIGN_def hf_align_up_def Let_def)
  moreover obtain r s where s: "sl_allocate sl_env_example 0 (sl_fresh_world 1, sl_example) 1024 16 = (r, s)"
    by (metis surj_pair)
  moreover obtain r' s' where s': "sl_allocate sl_env_example 0 (fst s, ?b) 4096 16 = (r', s')"
    by (metis surj_pair)
  moreover have "r = Some 0x100000" "sl_slabs (snd s) = [0x100000]" "sl_obj_size (snd s) = 1024"
    "sl_slots_per_slab (snd s) = 4" "tl_magazine 0 (fst s) = 0x100400"
    using s by (auto simp: sl_eval sl_example_def)
  moreover from this have "r' = Some 0x100400" "sl_slabs (snd s') = []"
    using s' by (auto simp: sl_allocate_def Let_def)
  moreover have "0x100400 \<in> set (sl_slots (snd s))"
    using calculation by (simp add: sl_slots_iff sl_slot_def) (intro exI [of _ 1], simp)
  ultimately show ?thesis by blast
qed

text \<open>
  When the table of slabs cannot be enlarged, \<^verbatim>\<open>sl_grow\<close> releases the new slab but leaves its
  slots in the central list: the next allocation returns a pointer into memory that is no longer
  mapped.
\<close>

theorem sl_grow_dangling:
  "\<exists>w a. sl_allocate (\<lambda>k. (sl_env_example k)\<lparr>os_calloc := (\<lambda>_. False)\<rparr>) 0
       (sl_fresh_world 1, sl_example) 1024 16 = (Some 0x100000, w, a) \<and>
     sw_calls w = [Vm_reserve 4096 (Some 0x100000), Vm_release 0x100000 4096] \<and>
     vm_held (sw_calls w) {} = {}"
  by (simp add: sl_eval sl_example_def)

text \<open>
  An object size within 16 bytes of the top of the address range is rounded up to zero, and
  \<^verbatim>\<open>hf_slab_create\<close> divides by it.
\<close>

theorem hf_slab_create_div_zero:
  assumes "object_size > 2 ^ 64 - 16"
  shows "hf_slab_create os object_size slab_bytes = Inl Div_by_zero"
proof -
  have "(2 ^ 64 - 16 :: u64) = 0xFFFFFFFFFFFFFFF0" by simp
  then have gt: "unat object_size > 0xFFFFFFFFFFFFFFF0" using assms by (simp add: word_less_nat_alt)
  then have big: "\<not> object_size < 8" by (simp add: word_less_nat_alt)
  define d where "d = unat object_size - 0xFFFFFFFFFFFFFFF1"
  have d: "unat object_size = 0xFFFFFFFFFFFFFFF1 + d" "d < 15"
    using gt unat_u64_lt [of object_size] unfolding d_def by linarith+
  have "unat (object_size + 15) = (unat object_size + 15) mod 18446744073709551616"
    by (simp add: unat_word_ariths)
  also have "unat object_size + 15 = d + 18446744073709551616" using d(1) by simp
  also have "(d + 18446744073709551616) mod 18446744073709551616 = d" using d(2) by (simp only: mod_add_self2) simp
  finally have lt: "unat (object_size + 15) < 16" using d(2) by linarith
  have "unat (hf_align_up object_size (2 ^ 4)) = unat (object_size + 15) div 16 * 16"
    unfolding hf_align_up_def pow2_minus_1_mask by (simp add: unat_and_not_mask add.commute)
  then have "hf_align_up object_size 16 = 0" using lt by (simp add: word_eq_unatI)
  then show ?thesis using big by (simp add: hf_slab_create_def Let_def HF_DEFAULT_ALIGN_def)
qed

theorem hf_slab_create_div_zero_witness:
  "(2 ^ 64 - 8 :: u64) > 2 ^ 64 - 16 \<and> hf_slab_create os_example (2 ^ 64 - 8) 4096 = Inl Div_by_zero"
  using hf_slab_create_div_zero [of "2 ^ 64 - 8" os_example 4096] by simp

end
