(* ===== verification/HF_Dlist.thy ===== *)
theory HF_Dlist
  imports HF_Allocator
begin

text \<open>
  Doubly-linked lists in the cell memory.  The free lists of the buddy allocator are NULL-terminated,
  that of the boundary-tag allocator is a ring; both kinds are made of segments.  A node is its
  \<^verbatim>\<open>next\<close> cell followed by its \<^verbatim>\<open>prev\<close> cell.
\<close>

subsection \<open>Segments\<close>

text \<open>
  \<open>dl_seg c p h xs l e\<close>: the nodes \<open>xs\<close> are linked from head \<open>h\<close>, whose predecessor is \<open>p\<close>, to the last
  node \<open>l\<close>, whose successor is \<open>e\<close>.
\<close>

fun dl_seg :: "cells \<Rightarrow> addr \<Rightarrow> addr \<Rightarrow> addr list \<Rightarrow> addr \<Rightarrow> addr \<Rightarrow> bool" where
  "dl_seg c p h [] l e \<longleftrightarrow> l = p \<and> e = h"
| "dl_seg c p h (x # xs) l e \<longleftrightarrow> h = x \<and> x \<noteq> NULL \<and> c (x + 8) = p \<and> dl_seg c x (c x) xs l e"

definition dl_list :: "cells \<Rightarrow> addr \<Rightarrow> addr list \<Rightarrow> bool" where
  "dl_list c h xs \<longleftrightarrow> (\<exists>l. dl_seg c NULL h xs l NULL)"

text \<open>Node addresses are multiples of 16, so that the cells of different nodes are different.\<close>

definition dl_node :: "addr \<Rightarrow> bool" where
  "dl_node x \<longleftrightarrow> 16 dvd unat x \<and> unat x < 2 ^ 63"

lemma dl_node_ne:
  assumes "dl_node x" and "dl_node y"
  shows "x \<noteq> y + 8" and "y + 8 \<noteq> x"
proof -
  have "unat (y + 8) = unat y + 8" using assms(2) by (simp add: dl_node_def unat_add_nowrap)
  moreover have "\<not> 16 dvd unat y + 8"
    using assms(2) by (auto simp: dl_node_def dvd_add_right_iff)
  ultimately show "x \<noteq> y + 8" using assms(1) by (auto simp: dl_node_def)
  then show "y + 8 \<noteq> x" by simp
qed

lemma dl_seg_append:
  "dl_seg c p h (xs @ ys) l e \<longleftrightarrow> (\<exists>m f. dl_seg c p h xs m f \<and> dl_seg c m f ys l e)"
  by (induction xs arbitrary: p h) auto

lemma dl_seg_cong:
  "dl_seg c p h xs l e \<Longrightarrow> (\<And>x. x \<in> set xs \<Longrightarrow> c' x = c x \<and> c' (x + 8) = c (x + 8)) \<Longrightarrow>
   dl_seg c' p h xs l e"
  by (induction c p h xs l e rule: dl_seg.induct) auto

lemma dl_seg_last: "dl_seg c p h xs l e \<Longrightarrow> xs \<noteq> [] \<Longrightarrow> l = last xs \<and> l \<in> set xs \<and> h \<in> set xs \<and> h \<noteq> NULL"
proof (induction xs arbitrary: p h)
  case (Cons x xs)
  then show ?case by (cases xs) auto
qed simp

text \<open>Redirecting the end of a segment, and the predecessor of its head.\<close>

lemma dl_seg_set_end:
  "dl_seg c p h xs l e \<Longrightarrow> xs \<noteq> [] \<Longrightarrow> distinct xs \<Longrightarrow> \<forall>x \<in> set xs. dl_node x \<Longrightarrow>
   dl_seg (c(l := f)) p h xs l f"
proof (induction xs arbitrary: p h)
  case (Cons x xs)
  have hx: "h = x" "x \<noteq> NULL" "c (x + 8) = p" and tl: "dl_seg c x (c x) xs l e"
    using Cons.prems(1) by auto
  show ?case
  proof (cases "xs = []")
    case True
    then show ?thesis
      using hx tl dl_node_ne [of x x] Cons.prems(4) by (simp add: cell_upd del: fun_upd_apply)
  next
    case False
    then have "l \<in> set xs" using dl_seg_last [OF tl] by simp
    then have "x \<noteq> l" "x + 8 \<noteq> l"
      using Cons.prems(3,4) dl_node_ne(2) [of l x] by auto
    moreover have "dl_seg (c(l := f)) x (c x) xs l f"
      using tl False Cons.prems by (intro Cons.IH) auto
    ultimately show ?thesis using hx by (simp add: cell_upd del: fun_upd_apply)
  qed
qed simp

lemma dl_seg_set_prev:
  assumes "dl_seg c p h xs l e" and "xs \<noteq> []" and "distinct xs" and "\<forall>x \<in> set xs. dl_node x"
  shows "dl_seg (c(h + 8 := q)) q h xs l e"
proof -
  obtain ys where xs: "xs = h # ys" using assms(1,2) by (cases xs) auto
  have tl: "dl_seg c h (c h) ys l e" and "h \<noteq> NULL" using assms(1) xs by auto
  have ne: "y \<noteq> h + 8 \<and> y + 8 \<noteq> h + 8" if "y \<in> set ys" for y
    using that assms(3,4) xs dl_node_ne(1) [of y h] by auto
  have "dl_seg (c(h + 8 := q)) h (c h) ys l e"
    using tl by (rule dl_seg_cong) (use ne in auto)
  moreover have "h \<noteq> h + 8" using assms(4) xs dl_node_ne(1) [of h h] by simp
  ultimately show ?thesis using \<open>h \<noteq> NULL\<close> xs by (simp add: cell_upd del: fun_upd_apply)
qed


subsection \<open>Rings\<close>

definition dl_ring :: "cells \<Rightarrow> addr list \<Rightarrow> bool" where
  "dl_ring c xs \<longleftrightarrow> xs \<noteq> [] \<and> distinct xs \<and> (\<forall>x \<in> set xs. dl_node x) \<and>
     dl_seg c (last xs) (hd xs) xs (last xs) (hd xs)"

lemma dl_seg_hd: "dl_seg c p h xs l e \<Longrightarrow> xs \<noteq> [] \<Longrightarrow> h = hd xs"
  by (cases xs) simp_all

lemma dl_ring_rotate:
  assumes "dl_ring c (xs @ ys)"
  shows "dl_ring c (ys @ xs)"
proof (cases "xs = [] \<or> ys = []")
  case True
  then show ?thesis using assms by auto
next
  case False
  then have seg: "dl_seg c (last ys) (hd xs) (xs @ ys) (last ys) (hd xs)"
    using assms by (simp add: dl_ring_def)
  then obtain m f where mf: "dl_seg c (last ys) (hd xs) xs m f" "dl_seg c m f ys (last ys) (hd xs)"
    unfolding dl_seg_append by blast
  then have "m = last xs" "f = hd ys" using dl_seg_last dl_seg_hd False by blast+
  then have "dl_seg c (last xs) (hd ys) (ys @ xs) (last xs) (hd ys)"
    using mf unfolding dl_seg_append by blast
  then show ?thesis using assms False by (auto simp: dl_ring_def)
qed

lemma dl_ring_cong:
  assumes "dl_ring c xs" and "\<And>x. x \<in> set xs \<Longrightarrow> c' x = c x \<and> c' (x + 8) = c (x + 8)"
  shows "dl_ring c' xs"
  using assms unfolding dl_ring_def by (auto intro: dl_seg_cong)

lemma dl_ring_single: "dl_node x \<Longrightarrow> x \<noteq> NULL \<Longrightarrow> c x = x \<Longrightarrow> c (x + 8) = x \<Longrightarrow> dl_ring c [x]"
  by (simp add: dl_ring_def)

text \<open>The successor of the first node: itself, or the head of the rest.\<close>

lemma dl_ring_Cons:
  assumes "dl_ring c (x # xs)"
  shows "x \<noteq> NULL" and "c (x + 8) = last (x # xs)" and "c x = hd (xs @ [x])"
    and "xs \<noteq> [] \<Longrightarrow> dl_seg c x (hd xs) xs (last xs) x"
proof -
  have seg: "x \<noteq> NULL" "c (x + 8) = last (x # xs)" "dl_seg c x (c x) xs (last (x # xs)) x"
    using assms by (auto simp: dl_ring_def)
  then show "x \<noteq> NULL" and "c (x + 8) = last (x # xs)" by simp_all
  show n: "c x = hd (xs @ [x])" using seg(3) dl_seg_hd [OF seg(3)] by (cases xs) auto
  show "dl_seg c x (hd xs) xs (last xs) x" if "xs \<noteq> []"
    using seg(3) n that by simp
qed

lemma dl_ring_insert:
  assumes ring: "dl_ring c (x # xs)" and n: "dl_node n" "n \<noteq> NULL" "n \<notin> set (x # xs)"
  defines "c1 \<equiv> (c(n := c x))(n + 8 := x)"
  defines "c2 \<equiv> c1(c1 x + 8 := n)"
  shows "dl_ring (c2(x := n)) (x # n # xs)"
    and "(\<And>y. y \<in> set (n # x # xs) \<Longrightarrow> z \<noteq> y \<and> z \<noteq> y + 8) \<Longrightarrow> (c2(x := n)) z = c z"
proof -
  have nodes: "dl_node x" "\<And>y. y \<in> set xs \<Longrightarrow> dl_node y" and d: "x \<notin> set xs" "distinct xs"
    using ring by (auto simp: dl_ring_def)
  note R = dl_ring_Cons [OF ring]
  note ne = dl_node_ne
  have xn: "x \<noteq> n" "n \<noteq> x" using n(3) by auto
  have c1x: "c1 x = hd (xs @ [x])" using R(3) xn ne(1) [OF nodes(1) n(1)] by (simp add: c1_def)
  show "dl_ring (c2(x := n)) (x # n # xs)"
  proof (cases "xs = []")
    case True
    then have "c1 x = x" using c1x by simp
    then show ?thesis
      using True R(1) n nodes xn ne [OF nodes(1) n(1)] ne [OF n(1) nodes(1)] ne [OF nodes(1) nodes(1)]
        ne [OF n(1) n(1)]
      by (simp add: dl_ring_def c2_def c1_def)
  next
    case False
    then obtain y ys where xs: "xs = y # ys" by (cases xs) auto
    have y: "c1 x = y" using c1x xs by simp
    have c2: "c2 = c1(y + 8 := n)" by (simp only: c2_def y)
    have seg: "dl_seg c x y xs (last xs) x" using R(4) [OF False] xs by simp
    have "dl_seg (c(y + 8 := n)) n y xs (last xs) x"
      using dl_seg_set_prev [OF seg False] d nodes by blast
    then have "dl_seg (c2(x := n)) n y xs (last xs) x"
    proof (rule dl_seg_cong)
      fix z assume z: "z \<in> set xs"
      have "z \<noteq> n" "z \<noteq> x" "z + 8 \<noteq> n" "z + 8 \<noteq> x" "z \<noteq> n + 8" "z + 8 \<noteq> n + 8"
        using z n d ne [OF nodes(2) [OF z] n(1)] ne [OF nodes(2) [OF z] nodes(1)] ne [OF n(1) nodes(2) [OF z]]
          ne [OF nodes(1) nodes(2) [OF z]] by auto
      then show "(c2(x := n)) z = (c(y + 8 := n)) z \<and> (c2(x := n)) (z + 8) = (c(y + 8 := n)) (z + 8)"
        by (simp add: c2 c1_def)
    qed
    moreover have "(c2(x := n)) (x + 8) = last xs" "(c2(x := n)) n = y" "(c2(x := n)) (n + 8) = x"
      using R(2,3) n d xs xn ne [OF nodes(1) nodes(1)] ne [OF nodes(1) n(1)] ne [OF n(1) nodes(1)] ne [OF n(1) n(1)]
        ne [OF n(1) nodes(2) [of y]] ne [OF nodes(1) nodes(2) [of y]]
      by (auto simp: c2 c1_def)
    ultimately show ?thesis
      using False R(1) n nodes d xs unfolding dl_ring_def
      by (auto simp: dl_seg.simps simp del: fun_upd_apply) (simp_all only: fun_upd_same)
  qed
  show "(c2(x := n)) z = c z" if z: "\<And>y. y \<in> set (n # x # xs) \<Longrightarrow> z \<noteq> y \<and> z \<noteq> y + 8"
  proof -
    have "c1 x \<in> set (x # xs)" unfolding c1x by (cases xs) auto
    then have "z \<noteq> c1 x + 8" using z [of "c1 x"] by auto
    then show ?thesis using z [of n] z [of x] by (simp add: c2_def c1_def)
  qed
qed

lemma dl_ring_unlink:
  assumes ring: "dl_ring c (n # xs)" and "xs \<noteq> []"
  defines "c1 \<equiv> c(c (n + 8) := c n)"
  shows "dl_ring (c1(c1 n + 8 := c1 (n + 8))) xs" and "c1 n = c n" and "c1 (n + 8) = c (n + 8)"
    and "(\<And>y. y \<in> set xs \<Longrightarrow> z \<noteq> y \<and> z \<noteq> y + 8) \<Longrightarrow> (c1(c1 n + 8 := c1 (n + 8))) z = c z"
proof -
  have nodes: "dl_node n" "\<forall>y \<in> set xs. dl_node y" and d: "n \<notin> set xs" "distinct xs"
    using ring by (auto simp: dl_ring_def)
  note R = dl_ring_Cons [OF ring]
  have l: "c (n + 8) = last xs" "last xs \<in> set xs" and h: "c n = hd xs" "hd xs \<in> set xs"
    using R(2,3) assms(2) by simp_all
  have e: "n \<noteq> last xs" "n + 8 \<noteq> last xs"
    using l(2) d nodes dl_node_ne [of "last xs" n] by auto
  show c1n: "c1 n = c n" and c1p: "c1 (n + 8) = c (n + 8)" using e by (simp_all add: c1_def l(1))
  have "dl_seg c1 n (hd xs) xs (last xs) (hd xs)"
    unfolding c1_def l(1) h(1) using dl_seg_set_end [OF R(4) [OF assms(2)] assms(2) d(2) nodes(2)] .
  then have "dl_seg (c1(hd xs + 8 := last xs)) (last xs) (hd xs) xs (last xs) (hd xs)"
    using assms(2) d(2) nodes(2) by (rule dl_seg_set_prev)
  then show "dl_ring (c1(c1 n + 8 := c1 (n + 8))) xs"
    unfolding c1n c1p l(1) h(1) using assms(2) d nodes by (simp add: dl_ring_def)
  show "(c1(c1 n + 8 := c1 (n + 8))) z = c z" if "\<And>y. y \<in> set xs \<Longrightarrow> z \<noteq> y \<and> z \<noteq> y + 8"
    unfolding c1n c1p l(1) h(1) using that l(2) h(2) by (simp add: c1_def l(1))
qed

end
