(* ===== verification/HF_Buddy.thy ===== *)
theory HF_Buddy
  imports HF_Dlist
begin

text \<open>
  The buddy allocator of \<^verbatim>\<open>hf_buddy.c\<close>: power-of-two blocks, one doubly-linked free list per order
  threaded through the free blocks, a byte map with the order and state of each block start, and an
  order tag in the first cell of each used block.  Orders are natural numbers; offsets, addresses and
  list nodes are 64-bit words in an explicit cell memory.
\<close>

record bd_alloc =
  bd_mem :: addr
  bd_capacity :: u64
  bd_min_order :: nat
  bd_max_order :: nat
  bd_free_lists :: "addr list"
  bd_order_map :: "u8 list"
  bd_cells :: cells
  bd_stats :: hf_stats

definition BD_HDR :: u64 where
  "BD_HDR = 16"

definition slot_of :: "bd_alloc \<Rightarrow> addr \<Rightarrow> nat" where
  "slot_of a p = unat (drop_bit (bd_min_order a) (p - bd_mem a))"

text \<open>A node is its \<^verbatim>\<open>next\<close> cell followed by its \<^verbatim>\<open>prev\<close> cell.\<close>

definition bd_push :: "bd_alloc \<Rightarrow> addr \<Rightarrow> nat \<Rightarrow> bd_alloc" where
  "bd_push a n order =
     (let c = (bd_cells a)(n + 8 := NULL);
          c = c(n := bd_free_lists a ! order);
          c = (if c n \<noteq> NULL then c(c n + 8 := n) else c)
      in a\<lparr>bd_cells := c, bd_free_lists := (bd_free_lists a)[order := n],
           bd_order_map := (bd_order_map a)[slot_of a n := of_nat order OR 0x40]\<rparr>)"

definition bd_pop :: "bd_alloc \<Rightarrow> nat \<Rightarrow> addr \<times> bd_alloc" where
  "bd_pop a order =
     (let n = bd_free_lists a ! order; c = bd_cells a
      in (n, a\<lparr>bd_free_lists := (bd_free_lists a)[order := c n],
               bd_cells := (if c n \<noteq> NULL then c(c n + 8 := NULL) else c)\<rparr>))"

definition bd_unlink :: "bd_alloc \<Rightarrow> addr \<Rightarrow> nat \<Rightarrow> bd_alloc" where
  "bd_unlink a n order =
     (let c = bd_cells a;
          a = (if c (n + 8) \<noteq> NULL then a\<lparr>bd_cells := c(c (n + 8) := c n)\<rparr>
               else a\<lparr>bd_free_lists := (bd_free_lists a)[order := c n]\<rparr>);
          c = bd_cells a
      in if c n \<noteq> NULL then a\<lparr>bd_cells := c(c n + 8 := c (n + 8))\<rparr> else a)"

definition bd_mark_used :: "bd_alloc \<Rightarrow> addr \<Rightarrow> nat \<Rightarrow> bd_alloc" where
  "bd_mark_used a p order =
     a\<lparr>bd_order_map := (bd_order_map a)[slot_of a p := of_nat order OR 0x80 OR 0x40]\<rparr>"

definition bd_is_free_at :: "bd_alloc \<Rightarrow> addr \<Rightarrow> nat \<Rightarrow> bool" where
  "bd_is_free_at a buddy order =
     (let enc = bd_order_map a ! slot_of a buddy
      in enc AND 0x40 \<noteq> 0 \<and> enc AND 0x80 = 0 \<and> unat (enc AND 0x3F) = order)"

definition order_for :: "bd_alloc \<Rightarrow> u64 \<Rightarrow> nat" where
  "order_for a bytes =
     (let od = hf_log2_floor (hf_next_pow2 bytes)
      in if od < bd_min_order a then bd_min_order a else od)"

text \<open>The loop \<^verbatim>\<open>while (o <= a->max_order && !a->free_lists[o]) ++o\<close>.\<close>

function bd_find :: "bd_alloc \<Rightarrow> nat \<Rightarrow> nat" where
  "bd_find a od =
     (if od \<le> bd_max_order a \<and> bd_free_lists a ! od = NULL then bd_find a (od + 1) else od)"
  by pat_completeness auto
termination
  by (relation "measure (\<lambda>(a, od). Suc (bd_max_order a) - od)") auto

declare bd_find.simps [simp del]

text \<open>The splitting loop \<^verbatim>\<open>while (o > order)\<close>.\<close>

fun bd_split :: "bd_alloc \<Rightarrow> addr \<Rightarrow> nat \<Rightarrow> nat \<Rightarrow> bd_alloc" where
  "bd_split a blk 0 order = a"
| "bd_split a blk (Suc od) order =
     (if Suc od > order then bd_split (bd_push a (blk + push_bit od 1) od) blk od order else a)"

definition bd_allocate :: "bd_alloc \<Rightarrow> u64 \<Rightarrow> u64 \<Rightarrow> addr option \<times> bd_alloc" where
  "bd_allocate a sz alignment =
     (let need = sz + BD_HDR;
          need = (if alignment > need then alignment + BD_HDR else need);
          order = order_for a need;
          a = a\<lparr>bd_stats := count_alloc (bd_stats a)\<rparr>
      in if order > bd_max_order a then (None, a\<lparr>bd_stats := count_failed (bd_stats a)\<rparr>)
         else let od = bd_find a order
              in if od > bd_max_order a then (None, a\<lparr>bd_stats := count_failed (bd_stats a)\<rparr>)
                 else let (blk, a) = bd_pop a od;
                          a = bd_split a blk od order;
                          a = bd_mark_used a blk order
                      in (Some (blk + BD_HDR),
                          a\<lparr>bd_stats := raise_peak (set_used
                              (hs_used (bd_stats a) + push_bit order 1) (bd_stats a)),
                            bd_cells := (bd_cells a)(blk := of_nat order)\<rparr>))"

text \<open>The merging loop \<^verbatim>\<open>while (order < a->max_order)\<close> of \<^verbatim>\<open>bd_deallocate\<close>.\<close>

function bd_merge :: "bd_alloc \<Rightarrow> u64 \<Rightarrow> nat \<Rightarrow> bd_alloc \<times> u64 \<times> nat" where
  "bd_merge a off order =
     (if order < bd_max_order a then
        let buddy = bd_mem a + (off XOR push_bit order 1)
        in if \<not> bd_is_free_at a buddy order then (a, off, order)
           else bd_merge (bd_unlink a buddy order) (off AND NOT (push_bit order 1)) (order + 1)
      else (a, off, order))"
  by pat_completeness auto
termination
  by (relation "measure (\<lambda>(a, off, order). bd_max_order a - order)")
    (auto simp: bd_unlink_def Let_def)

declare bd_merge.simps [simp del]

definition bd_deallocate :: "bd_alloc \<Rightarrow> addr \<Rightarrow> bd_alloc outcome" where
  "bd_deallocate a ptr =
     (if ptr = NULL then Inr a
      else let a = a\<lparr>bd_stats := count_free (bd_stats a)\<rparr>;
               blk = ptr - BD_HDR;
               order = unat (ucast (bd_cells a blk) :: u32)
           in if \<not> (order \<ge> bd_min_order a \<and> order \<le> bd_max_order a) then Inl Assert_failed
              else let a = a\<lparr>bd_stats := set_used (hs_used (bd_stats a) - push_bit order 1) (bd_stats a)\<rparr>;
                       (a, off, order) = bd_merge a (blk - bd_mem a) order
                   in Inr (bd_push a (bd_mem a + off) order))"

definition bd_name :: "bd_alloc \<Rightarrow> string" where
  "bd_name a = ''Buddy''"

definition bd_get_stats :: "bd_alloc \<Rightarrow> hf_stats" where
  "bd_get_stats a = bd_stats a"

text \<open>
  The loop of \<^verbatim>\<open>bd_walk\<close>.  A map entry with an order below the minimum would not advance the slot;
  the loop is bounded by fuel, and \<open>None\<close> stands for not having finished.
\<close>

fun bd_walk_loop :: "nat \<Rightarrow> bd_alloc \<Rightarrow> nat \<Rightarrow> hf_block_info list option" where
  "bd_walk_loop fuel a slot =
     (if slot < unat (drop_bit (bd_min_order a) (bd_capacity a)) then
        case fuel of
          0 \<Rightarrow> None
        | Suc fuel \<Rightarrow>
            let enc = bd_order_map a ! slot;
                order = unat (enc AND 0x3F);
                used = (enc AND 0x80 \<noteq> 0)
            in if order = 0 \<and> enc AND 0x40 = 0 then bd_walk_loop fuel a (slot + 1)
               else let sz = push_bit order 1 :: u64
                    in map_option (\<lambda>bs. \<lparr>bi_offset = push_bit (bd_min_order a) (of_nat slot),
                                         bi_size = sz, bi_is_free = (\<not> used)\<rparr> # bs)
                         (bd_walk_loop fuel a (slot + unat (drop_bit (bd_min_order a) sz)))
      else Some [])"

declare bd_walk_loop.simps [simp del]

definition bd_walk :: "bd_alloc \<Rightarrow> hf_block_info list" where
  "bd_walk a =
     (case bd_walk_loop (unat (drop_bit (bd_min_order a) (bd_capacity a))) a 0 of
        None \<Rightarrow> [] | Some bs \<Rightarrow> bs)"

definition bd_destroy :: "os_services \<Rightarrow> bd_alloc \<Rightarrow> vm_call list" where
  "bd_destroy os a = hf_vm_release os (bd_mem a) (bd_capacity a)"

definition BD_VT :: "bd_alloc hf_allocator_vtable" where
  "BD_VT = \<lparr>vt_allocate = bd_allocate, vt_deallocate = bd_deallocate, vt_name = bd_name,
     vt_get_stats = bd_get_stats, vt_walk = bd_walk, vt_destroy = bd_destroy\<rparr>"

definition hf_buddy_create :: "os_services \<Rightarrow> u64 \<Rightarrow> u64 \<Rightarrow> vm_call list \<times> bd_alloc option" where
  "hf_buddy_create os capacity min_block =
     (let flo = 16 + BD_HDR;
          min_block = (if min_block < flo then flo else min_block);
          min_block = hf_next_pow2 min_block;
          capacity = (if capacity < min_block then min_block else capacity);
          capacity = hf_next_pow2 capacity
      in if \<not> os_calloc os 0 then ([], None)
         else case hf_vm_reserve os capacity of
             (cs, None) \<Rightarrow> (cs, None)
           | (cs, Some mem) \<Rightarrow>
               let min_order = hf_log2_floor min_block; max_order = hf_log2_floor capacity
               in if \<not> os_calloc os 1 \<or> \<not> os_calloc os 2
                  then (cs @ hf_vm_release os mem capacity, None)
                  else (cs, Some (bd_push
                         \<lparr>bd_mem = mem, bd_capacity = capacity, bd_min_order = min_order,
                          bd_max_order = max_order, bd_free_lists = replicate (max_order + 1) NULL,
                          bd_order_map = replicate (unat (drop_bit min_order capacity)) 0,
                          bd_cells = (\<lambda>_. 0),
                          bd_stats = stats_zero\<lparr>hs_capacity := capacity\<rparr>\<rparr> mem max_order)))"


subsection \<open>The byte map\<close>

definition bd_enc :: "nat \<Rightarrow> bool \<Rightarrow> u8" where
  "bd_enc k u = (if u then of_nat k OR 0x80 OR 0x40 else of_nat k OR 0x40)"

lemma bd_enc_bits_all:
  "\<forall>k \<in> set [0..<64]. \<forall>u \<in> {True, False}.
     bd_enc k u AND 0x40 \<noteq> 0 \<and> (bd_enc k u AND 0x80 \<noteq> 0) = u \<and> unat (bd_enc k u AND 0x3F) = k"
  unfolding bd_enc_def by code_simp

lemma bd_enc_bits:
  assumes "k < 64"
  shows "bd_enc k u AND 0x40 \<noteq> 0" and "bd_enc k u AND 0x80 \<noteq> 0 \<longleftrightarrow> u" and "unat (bd_enc k u AND 0x3F) = k"
  using bd_enc_bits_all assms by (cases u; simp)+


subsection \<open>Buddy partitions\<close>

text \<open>
  The abstract state: a map from the offset of each block to its order and whether it is used.
\<close>

type_synonym bd_blocks = "nat \<rightharpoonup> nat \<times> bool"

definition bd_covers :: "bd_blocks \<Rightarrow> nat \<Rightarrow> nat \<Rightarrow> bool" where
  "bd_covers M b x \<longleftrightarrow> (case M b of None \<Rightarrow> False | Some (k, u) \<Rightarrow> b \<le> x \<and> x < b + 2 ^ k)"

definition bd_part :: "nat \<Rightarrow> nat \<Rightarrow> bd_blocks \<Rightarrow> bool" where
  "bd_part mn mx M \<longleftrightarrow>
     (\<forall>b k u. M b = Some (k, u) \<longrightarrow> mn \<le> k \<and> k \<le> mx \<and> 2 ^ k dvd b \<and> b + 2 ^ k \<le> 2 ^ mx) \<and>
     (\<forall>x < 2 ^ mx. \<exists>b. bd_covers M b x) \<and>
     (\<forall>b c x. bd_covers M b x \<longrightarrow> bd_covers M c x \<longrightarrow> b = c)"

lemma bd_partD:
  assumes "bd_part mn mx M"
  shows "M b = Some (k, u) \<Longrightarrow> mn \<le> k \<and> k \<le> mx \<and> 2 ^ k dvd b \<and> b + 2 ^ k \<le> 2 ^ mx"
    and "x < 2 ^ mx \<Longrightarrow> \<exists>b. bd_covers M b x"
    and "bd_covers M b x \<Longrightarrow> bd_covers M c x \<Longrightarrow> b = c"
  using assms unfolding bd_part_def by blast+

lemma bd_covers_Some: "M b = Some (k, u) \<Longrightarrow> bd_covers M b x \<longleftrightarrow> b \<le> x \<and> x < b + 2 ^ k"
  by (simp add: bd_covers_def)

lemma bd_covers_self: "M b = Some (k, u) \<Longrightarrow> bd_covers M b b"
  by (simp add: bd_covers_def)

lemma bd_covers_upd:
  "bd_covers (M(b \<mapsto> (k, u))) c x \<longleftrightarrow> (if c = b then b \<le> x \<and> x < b + 2 ^ k else bd_covers M c x)"
  by (simp add: bd_covers_def)

lemma bd_covers_del: "bd_covers (M(b := None)) c x \<longleftrightarrow> c \<noteq> b \<and> bd_covers M c x"
  by (simp add: bd_covers_def)

lemma bd_part_inside:
  assumes "bd_part mn mx M" and "M b = Some (k, u)" and "b < x" and "x < b + 2 ^ k"
  shows "M x = None"
proof (rule ccontr)
  assume "M x \<noteq> None"
  then have "bd_covers M x x" by (auto simp: bd_covers_def)
  moreover have "bd_covers M b x" using assms by (simp add: bd_covers_Some)
  ultimately show False using bd_partD(3) [OF assms(1)] assms(3) by blast
qed

lemma bd_part_flag:
  assumes part: "bd_part mn mx M" and b: "M b = Some (k, u)"
  shows "bd_part mn mx (M(b \<mapsto> (k, v)))"
proof -
  have "bd_covers (M(b \<mapsto> (k, v))) = bd_covers M"
    using b by (auto simp: fun_eq_iff bd_covers_upd bd_covers_Some)
  with part b show ?thesis unfolding bd_part_def by (auto split: if_splits)
qed

lemma bd_part_split:
  assumes part: "bd_part mn mx M" and b: "M b = Some (Suc k, u)" and mn: "mn \<le> k"
  shows "M (b + 2 ^ k) = None" and "bd_part mn mx (M(b \<mapsto> (k, v), b + 2 ^ k \<mapsto> (k, w)))"
proof -
  show none: "M (b + 2 ^ k) = None"
    using part b by (rule bd_part_inside) simp_all
  let ?M = "M(b \<mapsto> (k, v), b + 2 ^ k \<mapsto> (k, w))"
  have b': "Suc k \<le> mx" "2 ^ Suc k dvd b" "b + 2 ^ Suc k \<le> 2 ^ mx"
    using bd_partD(1) [OF part b] by simp_all
  have proj: "bd_covers M (if c = b + 2 ^ k then b else c) x" if "bd_covers ?M c x" for c x
    using that b by (auto simp: bd_covers_upd bd_covers_Some split: if_splits)
  show "bd_part mn mx ?M"
    unfolding bd_part_def
  proof (intro conjI allI impI)
    fix c j t
    assume c: "?M c = Some (j, t)"
    have "2 ^ k dvd b" using b'(2) by (rule dvd_trans [rotated]) (simp add: le_imp_power_dvd)
    then show "mn \<le> j" "j \<le> mx" "2 ^ j dvd c" "c + 2 ^ j \<le> 2 ^ mx"
      using c bd_partD(1) [OF part, of c j t] mn b' by (auto split: if_splits)
  next
    fix x :: nat
    assume "x < 2 ^ mx"
    then obtain c where c: "bd_covers M c x" using bd_partD(2) [OF part] by blast
    show "\<exists>c. bd_covers ?M c x"
    proof (cases "c = b")
      case True
      then have "b \<le> x" "x < b + 2 ^ Suc k" using c b by (simp_all add: bd_covers_Some)
      then have "bd_covers ?M (if x < b + 2 ^ k then b else b + 2 ^ k) x" by (simp add: bd_covers_upd)
      then show ?thesis by blast
    next
      case False
      moreover have "c \<noteq> b + 2 ^ k" using c none by (auto simp: bd_covers_def)
      ultimately have "bd_covers ?M c x" using c by (simp add: bd_covers_upd)
      then show ?thesis by blast
    qed
  next
    fix c d x
    assume c: "bd_covers ?M c x" and d: "bd_covers ?M d x"
    from bd_partD(3) [OF part proj [OF c] proj [OF d]]
    show "c = d" using c d by (auto simp: bd_covers_upd split: if_splits)
  qed
qed

lemma bd_part_merge:
  assumes part: "bd_part mn mx M" and b: "M b = Some (k, u)" and b2: "M (b + 2 ^ k) = Some (k, t)"
    and dvd: "2 ^ Suc k dvd b" and k: "k < mx"
  shows "bd_part mn mx (M(b + 2 ^ k := None, b \<mapsto> (Suc k, w)))"
proof -
  let ?M = "M(b + 2 ^ k := None, b \<mapsto> (Suc k, w))"
  have cov: "bd_covers ?M c x \<longleftrightarrow>
      (if c = b then bd_covers M b x \<or> bd_covers M (b + 2 ^ k) x else c \<noteq> b + 2 ^ k \<and> bd_covers M c x)" for c x
    using b b2 by (auto simp: bd_covers_upd bd_covers_del bd_covers_Some)
  show ?thesis
    unfolding bd_part_def
  proof (intro conjI allI impI)
    fix c j t
    assume "?M c = Some (j, t)"
    then show "mn \<le> j" "j \<le> mx" "2 ^ j dvd c" "c + 2 ^ j \<le> 2 ^ mx"
      using bd_partD(1) [OF part, of c j t] bd_partD(1) [OF part b] bd_partD(1) [OF part b2] dvd k
      by (auto split: if_splits)
  next
    fix x :: nat
    assume "x < 2 ^ mx"
    then obtain c where c: "bd_covers M c x" using bd_partD(2) [OF part] by blast
    then have "bd_covers ?M (if c = b + 2 ^ k then b else c) x" unfolding cov by auto
    then show "\<exists>c. bd_covers ?M c x" by blast
  next
    fix c d x
    assume c: "bd_covers ?M c x" and d: "bd_covers ?M d x"
    then show "c = d" unfolding cov using bd_partD(3) [OF part] by (auto split: if_splits)
  qed
qed

text \<open>The buddy of a block of order \<open>k\<close> always starts a block, of order at most \<open>k\<close>.\<close>

definition bd_buddy :: "nat \<Rightarrow> nat \<Rightarrow> nat" where
  "bd_buddy k b = (if odd (b div 2 ^ k) then b - 2 ^ k else b + 2 ^ k)"

lemma bd_buddy_parent:
  assumes "2 ^ k dvd b"
  obtains q where "2 ^ Suc k dvd q" and "b = q \<or> b = q + 2 ^ k" and "bd_buddy k b = (if b = q then q + 2 ^ k else q)"
    and "odd (b div 2 ^ k) \<longleftrightarrow> b = q + 2 ^ k"
proof -
  obtain m where m: "b = 2 ^ k * m" using assms by (rule dvdE)
  then have div: "b div 2 ^ k = m" by simp
  show ?thesis
  proof (cases "even m")
    case True
    then obtain r where "m = 2 * r" by (rule evenE)
    with m div show ?thesis by (intro that [of b]) (simp_all add: bd_buddy_def)
  next
    case False
    then obtain r where r: "m = 2 * r + 1" by (rule oddE)
    with m have "b = 2 ^ k * (2 * r) + 2 ^ k" by (simp add: algebra_simps)
    with m div False r show ?thesis by (intro that [of "2 ^ k * (2 * r)"]) (simp_all add: bd_buddy_def)
  qed
qed

lemma bd_part_buddy:
  assumes part: "bd_part mn mx M" and b: "M b = Some (k, u)" and k: "k < mx"
  shows "\<exists>j v. M (bd_buddy k b) = Some (j, v) \<and> j \<le> k"
proof -
  note B = bd_partD(1) [OF part b]
  obtain q where q: "2 ^ Suc k dvd q" "b = q \<or> b = q + 2 ^ k"
    and bud: "bd_buddy k b = (if b = q then q + 2 ^ k else q)"
    using bd_buddy_parent [of k b] B by metis
  have top: "q + 2 ^ Suc k \<le> 2 ^ mx"
  proof -
    have "2 ^ Suc k dvd (2::nat) ^ mx" using k by (intro le_imp_power_dvd) simp
    then obtain m where m: "(2::nat) ^ mx = 2 ^ Suc k * m" by (rule dvdE)
    obtain r where r: "q = 2 ^ Suc k * r" using q(1) by (rule dvdE)
    have "0 < (2::nat) ^ k" by simp
    then have "q < 2 ^ mx" using q(2) B by linarith
    then have "r < m" using m r by simp
    then have "2 ^ Suc k * (r + 1) \<le> 2 ^ Suc k * m" by (intro mult_le_mono2) simp
    then show ?thesis using m r by (simp only: distrib_left mult_1_right)
  qed
  define x where "x = bd_buddy k b"
  have "x = q \<or> x = q + 2 ^ k" unfolding x_def bud by simp
  moreover have "0 < (2::nat) ^ k" by simp
  moreover have "(2::nat) ^ Suc k = 2 ^ k + 2 ^ k" by simp
  ultimately have x: "x < 2 ^ mx" "q \<le> x" "x < q + 2 ^ Suc k" using top by linarith+
  have "2 ^ k dvd q" using q(1) by (rule dvd_trans [OF le_imp_power_dvd, rotated]) simp
  then have dvd: "2 ^ k dvd x" using \<open>x = q \<or> x = q + 2 ^ k\<close> by auto
  from bd_partD(2) [OF part x(1)] obtain c where cov: "bd_covers M c x" by blast
  then obtain j v where c: "M c = Some (j, v)" "c \<le> x" "x < c + 2 ^ j"
    by (auto simp: bd_covers_def split: option.splits)
  note C = bd_partD(1) [OF part c(1)]
  have jk: "j \<le> k"
  proof (rule ccontr)
    assume "\<not> j \<le> k"
    then have "2 ^ Suc k dvd (2::nat) ^ j" by (intro le_imp_power_dvd) simp
    then obtain m where m: "(2::nat) ^ j = 2 ^ Suc k * m" by (rule dvdE)
    obtain r where r: "q = 2 ^ Suc k * r" using q(1) by (rule dvdE)
    obtain s where s: "c = 2 ^ j * s" using C by (auto elim: dvdE)
    then have s': "c = 2 ^ Suc k * (m * s)" using m by (simp add: mult.assoc)
    have "2 ^ Suc k * (m * s) < 2 ^ Suc k * (r + 1)" using c(2) x(3) s' r by (simp only: distrib_left mult_1_right)
    then have "m * s < r + 1" by (simp only: mult_less_cancel1)
    then have "m * s \<le> r" by simp
    then have cq: "c \<le> q" using s' r by simp
    have "2 ^ Suc k * r < 2 ^ Suc k * (m * s + m)"
      using c(3) x(2) s' r m by (simp only: distrib_left)
    then have "r < m * s + m" by (simp only: mult_less_cancel1)
    then have "r + 1 \<le> m * s + m" by simp
    then have "2 ^ Suc k * (r + 1) \<le> 2 ^ Suc k * (m * s + m)" by (rule mult_le_mono2)
    then have "q + 2 ^ Suc k \<le> c + 2 ^ j" using s' r m by (simp only: distrib_left mult_1_right)
    moreover have "0 < (2::nat) ^ k" by simp
    moreover have "(2::nat) ^ Suc k = 2 ^ k + 2 ^ k" by simp
    ultimately have "c \<le> b \<and> b < c + 2 ^ j" using cq q(2) by linarith
    then have "bd_covers M c b" using c(1) by (simp only: bd_covers_Some)
    moreover have "bd_covers M b b" using b by (simp add: bd_covers_def)
    ultimately have "c = b" using bd_partD(3) [OF part] by blast
    then show False using c(1) b \<open>\<not> j \<le> k\<close> by simp
  qed
  have "c = x"
  proof -
    have "2 ^ j dvd x" using dvd jk by (blast intro: dvd_trans le_imp_power_dvd)
    moreover have "2 ^ j dvd c" using C by simp
    ultimately have "2 ^ j dvd x - c" by (rule dvd_diff_nat)
    moreover have "x - c < 2 ^ j" using c(2,3) by simp
    ultimately have "x - c = 0" by (metis dvd_imp_le not_le gr0I)
    then show ?thesis using c(2) by simp
  qed
  then show ?thesis using c(1) jk x_def by blast
qed

lemma bd_part_next:
  assumes part: "bd_part mn mx M" and b: "M b = Some (k, u)"
  shows "b + 2 ^ k = 2 ^ mx \<or> M (b + 2 ^ k) \<noteq> None"
proof (cases "b + 2 ^ k = 2 ^ mx")
  case False
  then have "b + 2 ^ k < 2 ^ mx" using bd_partD(1) [OF part b] by simp
  then obtain c where c: "bd_covers M c (b + 2 ^ k)" using bd_partD(2) [OF part] by blast
  then obtain j v where j: "M c = Some (j, v)" "c \<le> b + 2 ^ k" "b + 2 ^ k < c + 2 ^ j"
    by (auto simp: bd_covers_def split: option.splits)
  have "c = b + 2 ^ k"
  proof (rule ccontr)
    assume "c \<noteq> b + 2 ^ k"
    then have "bd_covers M c (b + 2 ^ k - 1)" using j by (auto simp: bd_covers_Some)
    moreover have "0 < (2::nat) ^ k" by simp
    then have "b \<le> b + 2 ^ k - 1 \<and> b + 2 ^ k - 1 < b + 2 ^ k" by linarith
    then have "bd_covers M b (b + 2 ^ k - 1)" using b by (simp only: bd_covers_Some)
    ultimately have "c = b" using bd_partD(3) [OF part] by blast
    then show False using j b by simp
  qed
  then show ?thesis using j(1) by simp
qed simp

lemma bd_part_zero:
  assumes "bd_part mn mx M"
  shows "M 0 \<noteq> None"
proof -
  obtain c where "bd_covers M c 0" using bd_partD(2) [OF assms, of 0] by auto
  then show ?thesis by (auto simp: bd_covers_def split: option.splits)
qed



subsection \<open>Representation\<close>

definition bd_at :: "bd_alloc \<Rightarrow> nat \<Rightarrow> addr" where
  "bd_at a b = bd_mem a + of_nat b"

definition bd_shape :: "bd_alloc \<Rightarrow> bool" where
  "bd_shape a \<longleftrightarrow>
     5 \<le> bd_min_order a \<and> bd_min_order a \<le> bd_max_order a \<and> bd_max_order a < 63 \<and>
     bd_capacity a = 2 ^ bd_max_order a \<and> 0 < unat (bd_mem a) \<and> 32 dvd unat (bd_mem a) \<and>
     unat (bd_mem a) + 2 ^ bd_max_order a < 2 ^ 63 \<and>
     length (bd_free_lists a) = Suc (bd_max_order a) \<and>
     length (bd_order_map a) = 2 ^ (bd_max_order a - bd_min_order a)"

text \<open>
  \<open>bd_core a M fls H\<close>: the allocator stores the blocks \<open>M\<close>.  The list of order \<open>k\<close> holds the free blocks
  of order \<open>k\<close>, the byte map is right at every block start, and every used block carries its tag.  \<open>H\<close>
  are the blocks in the hands of the running operation, which are in no list and whose map entry and
  tag may be stale.
\<close>

definition bd_core :: "bd_alloc \<Rightarrow> bd_blocks \<Rightarrow> addr list list \<Rightarrow> nat set \<Rightarrow> bool" where
  "bd_core a M fls H \<longleftrightarrow>
     bd_shape a \<and> bd_part (bd_min_order a) (bd_max_order a) M \<and>
     length fls = Suc (bd_max_order a) \<and>
     (\<forall>k \<le> bd_max_order a. dl_list (bd_cells a) (bd_free_lists a ! k) (fls ! k) \<and>
        distinct (fls ! k) \<and> set (fls ! k) = bd_at a ` {b. M b = Some (k, False)}) \<and>
     (\<forall>b k u. M b = Some (k, u) \<longrightarrow> b \<notin> H \<longrightarrow>
        bd_order_map a ! (b div 2 ^ bd_min_order a) = bd_enc k u) \<and>
     (\<forall>b k. M b = Some (k, True) \<longrightarrow> b \<notin> H \<longrightarrow> bd_cells a (bd_at a b) = of_nat k) \<and>
     (\<forall>b \<in> H. \<exists>k. M b = Some (k, True))"

lemma bd_coreD:
  assumes "bd_core a M fls H"
  shows "bd_shape a" and "bd_part (bd_min_order a) (bd_max_order a) M"
    and "length fls = Suc (bd_max_order a)"
    and "k \<le> bd_max_order a \<Longrightarrow> dl_list (bd_cells a) (bd_free_lists a ! k) (fls ! k)"
    and "k \<le> bd_max_order a \<Longrightarrow> distinct (fls ! k)"
    and "k \<le> bd_max_order a \<Longrightarrow> set (fls ! k) = bd_at a ` {b. M b = Some (k, False)}"
    and "M b = Some (k, u) \<Longrightarrow> b \<notin> H \<Longrightarrow> bd_order_map a ! (b div 2 ^ bd_min_order a) = bd_enc k u"
    and "M b = Some (k, True) \<Longrightarrow> b \<notin> H \<Longrightarrow> bd_cells a (bd_at a b) = of_nat k"
    and "b \<in> H \<Longrightarrow> \<exists>k. M b = Some (k, True)"
proof -
  have c: "bd_shape a" "bd_part (bd_min_order a) (bd_max_order a) M" "length fls = Suc (bd_max_order a)"
    "\<forall>k \<le> bd_max_order a. dl_list (bd_cells a) (bd_free_lists a ! k) (fls ! k) \<and>
        distinct (fls ! k) \<and> set (fls ! k) = bd_at a ` {b. M b = Some (k, False)}"
    "\<forall>b k u. M b = Some (k, u) \<longrightarrow> b \<notin> H \<longrightarrow> bd_order_map a ! (b div 2 ^ bd_min_order a) = bd_enc k u"
    "\<forall>b k. M b = Some (k, True) \<longrightarrow> b \<notin> H \<longrightarrow> bd_cells a (bd_at a b) = of_nat k"
    "\<forall>b \<in> H. \<exists>k. M b = Some (k, True)"
    using assms unfolding bd_core_def by - (elim conjE, assumption)+
  show "bd_shape a" "bd_part (bd_min_order a) (bd_max_order a) M" "length fls = Suc (bd_max_order a)"
    by fact+
  show "k \<le> bd_max_order a \<Longrightarrow> dl_list (bd_cells a) (bd_free_lists a ! k) (fls ! k)"
    "k \<le> bd_max_order a \<Longrightarrow> distinct (fls ! k)"
    "k \<le> bd_max_order a \<Longrightarrow> set (fls ! k) = bd_at a ` {b. M b = Some (k, False)}"
    using c(4) by simp_all
  show "M b = Some (k, u) \<Longrightarrow> b \<notin> H \<Longrightarrow> bd_order_map a ! (b div 2 ^ bd_min_order a) = bd_enc k u"
    using c(5) by simp
  show "M b = Some (k, True) \<Longrightarrow> b \<notin> H \<Longrightarrow> bd_cells a (bd_at a b) = of_nat k"
    using c(6) by simp
  show "b \<in> H \<Longrightarrow> \<exists>k. M b = Some (k, True)" using c(7) by simp
qed

lemma bd_at_block:
  assumes shape: "bd_shape a" and part: "bd_part (bd_min_order a) (bd_max_order a) M" and b: "M b = Some (k, u)"
  shows "unat (bd_at a b) = unat (bd_mem a) + b" and "dl_node (bd_at a b)" and "bd_at a b \<noteq> NULL"
    and "32 dvd b" and "b < 2 ^ bd_max_order a"
    and "slot_of a (bd_at a b) = b div 2 ^ bd_min_order a"
    and "b div 2 ^ bd_min_order a < length (bd_order_map a)"
    and "32 \<le> (2::nat) ^ k" and "unat (bd_mem a) + b + 2 ^ k < 2 ^ 63"
proof -
  note B = bd_partD(1) [OF part b]
  have S: "5 \<le> bd_min_order a" "bd_min_order a \<le> bd_max_order a" "0 < unat (bd_mem a)" "32 dvd unat (bd_mem a)"
    "unat (bd_mem a) + 2 ^ bd_max_order a < 2 ^ 63"
    "length (bd_order_map a) = 2 ^ (bd_max_order a - bd_min_order a)"
    using shape by (simp_all add: bd_shape_def)
  have pos: "0 < (2::nat) ^ k" by simp
  show lt: "b < 2 ^ bd_max_order a" using B pos by linarith
  show room: "unat (bd_mem a) + b + 2 ^ k < 2 ^ 63" using S(5) B by linarith
  then have "b < 2 ^ 63" by linarith
  then have ub: "unat (of_nat b :: u64) = b" by (simp add: unat_of_nat)
  show at: "unat (bd_at a b) = unat (bd_mem a) + b"
    using room by (simp add: bd_at_def unat_add_nowrap ub)
  have "(2::nat) ^ 5 dvd 2 ^ k" using B S(1) by (intro le_imp_power_dvd) simp
  then have k32: "(32::nat) dvd 2 ^ k" by simp
  then show "32 \<le> (2::nat) ^ k" using pos by (rule dvd_imp_le)
  from k32 show b32: "32 dvd b" using B by (blast intro: dvd_trans)
  then have "32 dvd unat (bd_at a b)" using S(4) at by simp
  then have "16 dvd unat (bd_at a b)" by (rule dvd_trans [rotated]) simp
  then show "dl_node (bd_at a b)" using at room by (simp add: dl_node_def)
  show "bd_at a b \<noteq> NULL" using at S(3) by (intro notI) simp
  show "slot_of a (bd_at a b) = b div 2 ^ bd_min_order a"
    by (simp add: slot_of_def bd_at_def unat_drop_bit_div ub)
  have "2 ^ bd_max_order a = 2 ^ (bd_max_order a - bd_min_order a) * (2::nat) ^ bd_min_order a"
    using S(2) by (simp flip: power_add)
  then show "b div 2 ^ bd_min_order a < length (bd_order_map a)"
    using lt by (simp add: S(6) less_mult_imp_div_less)
qed

lemma bd_at_inject:
  assumes "bd_shape a" and "bd_part (bd_min_order a) (bd_max_order a) M"
    and "M b = Some (k, u)" and "M c = Some (j, v)" and "bd_at a b = bd_at a c"
  shows "b = c"
proof -
  have "unat (bd_mem a) + b = unat (bd_mem a) + c"
    using bd_at_block(1) [OF assms(1,2,3)] bd_at_block(1) [OF assms(1,2,4)] unfolding assms(5) by metis
  then show ?thesis by (rule add_left_imp_eq)
qed

lemma bd_slot_inject:
  assumes part: "bd_part mn mx M" and "M b = Some (k, u)" and "M c = Some (j, v)"
    and eq: "b div 2 ^ mn = c div 2 ^ mn"
  shows "b = c"
proof -
  have "2 ^ mn dvd x" if "M x = Some (i, t)" for x i t
    using bd_partD(1) [OF part that] by (blast intro: dvd_trans le_imp_power_dvd)
  then have "2 ^ mn dvd b" "2 ^ mn dvd c" using assms by blast+
  then show ?thesis using eq by (metis dvd_div_mult_self)
qed

text \<open>One operation on the list of one order, which changes the state of block \<open>b\<close>.\<close>

lemma bd_core_update:
  assumes core: "bd_core a M fls H" and b: "M b = Some (k, u)"
    and same: "bd_mem a' = bd_mem a" "bd_capacity a' = bd_capacity a" "bd_min_order a' = bd_min_order a"
      "bd_max_order a' = bd_max_order a" "length (bd_order_map a') = length (bd_order_map a)"
    and heads: "bd_free_lists a' = (bd_free_lists a)[k := h]"
    and list: "dl_list (bd_cells a') h xs" "distinct xs"
      "set xs = bd_at a ` {c. (M(b \<mapsto> (k, v))) c = Some (k, False)}"
    and cells: "\<And>z. (\<forall>c. (M c = Some (k, False) \<or> c = b) \<longrightarrow> z \<noteq> bd_at a c \<and> z \<noteq> bd_at a c + 8) \<Longrightarrow>
      bd_cells a' z = bd_cells a z"
    and map: "\<And>i. i \<noteq> b div 2 ^ bd_min_order a \<Longrightarrow> bd_order_map a' ! i = bd_order_map a ! i"
    and hole: "H' = (if v then insert b H else H - {b})" "v \<or> bd_order_map a' ! (b div 2 ^ bd_min_order a) = bd_enc k False"
  shows "bd_core a' (M(b \<mapsto> (k, v))) (fls[k := xs]) H'"
proof -
  let ?M = "M(b \<mapsto> (k, v))"
  note C = bd_coreD [OF core]
  have at: "bd_at a' = bd_at a" by (simp add: bd_at_def [abs_def] same)
  have k: "k \<le> bd_max_order a" using bd_partD(1) [OF C(2) b] by simp
  have shape: "bd_shape a'" using C(1) by (simp add: bd_shape_def same heads)
  have part: "bd_part (bd_min_order a') (bd_max_order a') ?M"
    unfolding same by (rule bd_part_flag [OF C(2) b])
  have other: "bd_cells a' (bd_at a c) = bd_cells a (bd_at a c) \<and> bd_cells a' (bd_at a c + 8) = bd_cells a (bd_at a c + 8)"
    if c: "M c = Some (j, t)" "c \<noteq> b" "(j, t) \<noteq> (k, False)" for c j t
  proof -
    have ne: "bd_at a c \<noteq> bd_at a d \<and> bd_at a c \<noteq> bd_at a d + 8 \<and> bd_at a c + 8 \<noteq> bd_at a d"
      if d: "M d = Some (k, False) \<or> d = b" for d
    proof -
      have "d \<noteq> c" using d c by auto
      obtain i s where i: "M d = Some (i, s)" using d b by blast
      have "dl_node (bd_at a c)" "dl_node (bd_at a d)"
        using bd_at_block(2) [OF C(1,2) c(1)] bd_at_block(2) [OF C(1,2) i] by simp_all
      moreover have "bd_at a c \<noteq> bd_at a d"
        using bd_at_inject [OF C(1,2) c(1) i] \<open>d \<noteq> c\<close> by blast
      ultimately show ?thesis
        using dl_node_ne [of "bd_at a c" "bd_at a d"] dl_node_ne [of "bd_at a d" "bd_at a c"] by simp
    qed
    then show ?thesis by (intro conjI cells) auto
  qed
  show ?thesis
    unfolding bd_core_def
  proof (intro conjI allI impI ballI)
    show "bd_shape a'" "bd_part (bd_min_order a') (bd_max_order a') ?M" by fact+
    show "length (fls[k := xs]) = Suc (bd_max_order a')" by (simp add: same C(3))
  next
    fix j
    assume j: "j \<le> bd_max_order a'"
    show "dl_list (bd_cells a') (bd_free_lists a' ! j) (fls[k := xs] ! j)" "distinct (fls[k := xs] ! j)"
      "set (fls[k := xs] ! j) = bd_at a' ` {c. ?M c = Some (j, False)}"
    proof -
      have len: "k < length fls" "k < length (bd_free_lists a)" using k C(1,3) by (simp_all add: bd_shape_def)
      have "dl_list (bd_cells a') (bd_free_lists a' ! j) (fls[k := xs] ! j) \<and> distinct (fls[k := xs] ! j) \<and>
          set (fls[k := xs] ! j) = bd_at a' ` {c. ?M c = Some (j, False)}"
      proof (cases "j = k")
        case True
        then show ?thesis using list len by (simp add: heads at)
      next
        case False
        have jm: "j \<le> bd_max_order a" using j same by simp
        have set: "set (fls ! j) = bd_at a ` {c. M c = Some (j, False)}" by (rule C(6) [OF jm])
        have "{c. ?M c = Some (j, False)} = {c. M c = Some (j, False)}" using False b by auto
        moreover have "dl_list (bd_cells a') (bd_free_lists a ! j) (fls ! j)"
        proof -
          obtain l where l: "dl_seg (bd_cells a) NULL (bd_free_lists a ! j) (fls ! j) l NULL"
            using C(4) [OF jm] by (auto simp: dl_list_def)
          have "bd_cells a' x = bd_cells a x \<and> bd_cells a' (x + 8) = bd_cells a (x + 8)"
            if x: "x \<in> set (fls ! j)" for x
          proof -
            obtain c where c: "x = bd_at a c" "M c = Some (j, False)" using x set by auto
            then have "c \<noteq> b" using False b by auto
            then show ?thesis using other [OF c(2)] c(1) False by simp
          qed
          from dl_seg_cong [OF l this] show ?thesis unfolding dl_list_def by blast
        qed
        ultimately show ?thesis using False C(5) [OF jm] set by (simp add: heads at)
      qed
      then show "dl_list (bd_cells a') (bd_free_lists a' ! j) (fls[k := xs] ! j)" "distinct (fls[k := xs] ! j)"
        "set (fls[k := xs] ! j) = bd_at a' ` {c. ?M c = Some (j, False)}" by simp_all
    qed
  next
    fix c j t
    assume c: "?M c = Some (j, t)" "c \<notin> H'"
    show "bd_order_map a' ! (c div 2 ^ bd_min_order a') = bd_enc j t"
    proof (cases "c = b")
      case True
      then show ?thesis using c hole by (auto simp: same split: if_splits)
    next
      case False
      then have "M c = Some (j, t)" "c \<notin> H" using c hole(1) by (auto split: if_splits)
      moreover from this False have "c div 2 ^ bd_min_order a \<noteq> b div 2 ^ bd_min_order a"
        using bd_slot_inject [OF C(2) _ b] by blast
      ultimately show ?thesis using C(7) map by (simp add: same)
    qed
  next
    fix c j
    assume c: "?M c = Some (j, True)" "c \<notin> H'"
    then have "c \<noteq> b" using hole(1) by (auto split: if_splits)
    then have "M c = Some (j, True)" "c \<notin> H" using c hole(1) by (auto split: if_splits)
    then show "bd_cells a' (bd_at a' c) = of_nat j"
      using other [of c j True] \<open>c \<noteq> b\<close> C(8) by (simp add: at)
  next
    fix c
    assume "c \<in> H'"
    then show "\<exists>j. ?M c = Some (j, True)" using C(9) hole(1) by (auto split: if_splits)
  qed
qed



subsection \<open>Operations on the representation\<close>

definition bd_static :: "bd_alloc \<Rightarrow> bd_alloc \<Rightarrow> bool" where
  "bd_static a' a \<longleftrightarrow> bd_mem a' = bd_mem a \<and> bd_capacity a' = bd_capacity a \<and>
     bd_min_order a' = bd_min_order a \<and> bd_max_order a' = bd_max_order a \<and> bd_stats a' = bd_stats a"

lemma bd_static_refl [simp]: "bd_static a a"
  by (simp add: bd_static_def)

lemma bd_static_trans: "bd_static c b \<Longrightarrow> bd_static b a \<Longrightarrow> bd_static c a"
  by (simp add: bd_static_def)

lemma bd_static_at: "bd_static a' a \<Longrightarrow> bd_at a' = bd_at a"
  by (simp add: bd_static_def bd_at_def [abs_def])

lemma bd_static_ops:
  "bd_static (bd_push a n k) a" "bd_static (bd_unlink a n k) a" "bd_static (bd_mark_used a n k) a"
  by (simp_all add: bd_static_def bd_push_def bd_unlink_def bd_mark_used_def Let_def)

lemma bd_unlink_map: "bd_order_map (bd_unlink a n k) = bd_order_map a"
  by (simp add: bd_unlink_def Let_def)

text \<open>Cutting one node out of a list.\<close>

lemma bd_unlink_seg:
  assumes l: "dl_seg c NULL h (xs @ n # ys) l NULL" and d: "distinct (xs @ n # ys)"
    and nodes: "\<forall>x \<in> set (xs @ n # ys). dl_node x"
  defines "c1 \<equiv> (if c (n + 8) \<noteq> NULL then c(c (n + 8) := c n) else c)"
  defines "c2 \<equiv> (if c1 n \<noteq> NULL then c1(c1 n + 8 := c1 (n + 8)) else c1)"
  shows "dl_list c2 (if c (n + 8) \<noteq> NULL then h else c n) (xs @ ys)"
    and "c1 n = c n" and "c1 (n + 8) = c (n + 8)"
    and "(\<forall>x \<in> set (xs @ ys). z \<noteq> x \<and> z \<noteq> x + 8) \<Longrightarrow> c2 z = c z"
proof -
  obtain m f where pre: "dl_seg c NULL h xs m f" and "dl_seg c m f (n # ys) l NULL"
    using l unfolding dl_seg_append by blast
  then have f: "f = n" "n \<noteq> NULL" and m: "c (n + 8) = m" and suf: "dl_seg c n (c n) ys l NULL" by auto
  have nn: "dl_node n" and nx: "\<And>x. x \<in> set xs \<Longrightarrow> dl_node x" and ny: "\<And>y. y \<in> set ys \<Longrightarrow> dl_node y"
    using nodes by auto
  have mx: "m \<in> set xs \<and> m \<noteq> NULL" if "xs \<noteq> []"
    using dl_seg_last [OF pre that] nx that pre nodes
    by (metis dl_seg_append dl_seg.simps(2) split_list)
  have m0: "m = NULL" if "xs = []" using pre that by simp
  have cm: "m \<noteq> NULL \<longleftrightarrow> xs \<noteq> []" using mx m0 by blast
  have fy: "c n \<in> set ys \<and> c n \<noteq> NULL" if "ys \<noteq> []"
    using dl_seg_last [OF suf that] by simp
  have f0: "c n = NULL" if "ys = []" using suf that by simp
  have cf: "c n \<noteq> NULL \<longleftrightarrow> ys \<noteq> []" using fy f0 by blast
  show e1: "c1 n = c n"
    using mx nn d dl_node_ne by (auto simp: c1_def m cm)
  show e2: "c1 (n + 8) = c (n + 8)"
    using mx nn nx dl_node_ne [of m n] by (auto simp: c1_def m cm)
  have pre1: "dl_seg c1 NULL h xs m (c n)" if ne: "xs \<noteq> []"
  proof -
    have "c1 = c(m := c n)" using mx [OF ne] by (simp add: c1_def m)
    then show ?thesis using dl_seg_set_end [OF pre ne] d nodes by simp
  qed
  have suf1: "dl_seg c1 n (c n) ys l NULL"
  proof (rule dl_seg_cong [OF suf])
    fix y assume y: "y \<in> set ys"
    show "c1 y = c y \<and> c1 (y + 8) = c (y + 8)"
    proof (cases "xs = []")
      case False
      then have "y \<noteq> m" "y + 8 \<noteq> m" using mx [OF False] y d dl_node_ne(2) [of m y] nx ny by auto
      then show ?thesis by (simp add: c1_def m)
    qed (use m0 in \<open>simp add: c1_def m\<close>)
  qed
  have suf2: "dl_seg c2 m (c n) ys l' NULL" if "l' = (if ys = [] then m else l)" for l'
  proof (cases "ys = []")
    case True
    then show ?thesis using that f0 by simp
  next
    case False
    then have "c2 = c1(c n + 8 := m)" using fy e1 e2 by (simp add: c2_def m)
    then show ?thesis using dl_seg_set_prev [OF suf1 False] d nodes that False by simp
  qed
  show "dl_list c2 (if c (n + 8) \<noteq> NULL then h else c n) (xs @ ys)"
  proof (cases "xs = []")
    case True
    then show ?thesis using suf2 m0 m unfolding dl_list_def by auto
  next
    case False
    have "dl_seg c2 NULL h xs m (c n)"
    proof (rule dl_seg_cong [OF pre1 [OF False]])
      fix x assume x: "x \<in> set xs"
      show "c2 x = c1 x \<and> c2 (x + 8) = c1 (x + 8)"
      proof (cases "ys = []")
        case False
        then have "x \<noteq> c n + 8" "x + 8 \<noteq> c n + 8"
          using fy [OF False] x d dl_node_ne(1) [of x "c n"] nx ny by auto
        then show ?thesis using e1 by (simp add: c2_def)
      qed (use f0 e1 in \<open>simp add: c2_def\<close>)
    qed
    then show ?thesis using suf2 mx [OF False] m unfolding dl_list_def dl_seg_append by auto
  qed
  show "c2 z = c z" if z: "\<forall>x \<in> set (xs @ ys). z \<noteq> x \<and> z \<noteq> x + 8"
  proof -
    have "c1 z = c z" using z mx cm by (auto simp: c1_def m)
    moreover have "c2 z = c1 z" using z fy cf e1 by (auto simp: c2_def)
    ultimately show ?thesis by simp
  qed
qed

lemma bd_core_unlink:
  assumes core: "bd_core a M fls H" and b: "M b = Some (k, False)"
  shows "\<exists>fls'. bd_core (bd_unlink a (bd_at a b) k) (M(b \<mapsto> (k, True))) fls' (insert b H)"
proof -
  note C = bd_coreD [OF core]
  have k: "k \<le> bd_max_order a" using bd_partD(1) [OF C(2) b] by simp
  let ?n = "bd_at a b" and ?c = "bd_cells a" and ?h = "bd_free_lists a ! k" and ?a' = "bd_unlink a (bd_at a b) k"
  have set: "set (fls ! k) = bd_at a ` {c. M c = Some (k, False)}" by (rule C(6) [OF k])
  then have "?n \<in> set (fls ! k)" using b by auto
  then obtain xs ys where xy: "fls ! k = xs @ ?n # ys" by (meson split_list)
  obtain l where l: "dl_seg ?c NULL ?h (xs @ ?n # ys) l NULL"
    using C(4) [OF k] xy by (auto simp: dl_list_def)
  have d: "distinct (xs @ ?n # ys)" using C(5) [OF k] xy by simp
  have nodes: "\<forall>x \<in> set (xs @ ?n # ys). dl_node x"
    using set bd_at_block(2) [OF C(1,2)] unfolding xy by fastforce
  note U = bd_unlink_seg [OF l d nodes]
  have cells: "bd_cells ?a' = (let c1 = (if ?c (?n + 8) \<noteq> NULL then ?c(?c (?n + 8) := ?c ?n) else ?c)
      in if c1 ?n \<noteq> NULL then c1(c1 ?n + 8 := c1 (?n + 8)) else c1)"
    by (simp add: bd_unlink_def Let_def)
  have heads: "bd_free_lists ?a' = (bd_free_lists a)[k := (if ?c (?n + 8) \<noteq> NULL then ?h else ?c ?n)]"
    by (simp add: bd_unlink_def Let_def)
  have setxs: "set (xs @ ys) = bd_at a ` {c. (M(b \<mapsto> (k, True))) c = Some (k, False)}"
  proof -
    have "set (xs @ ys) = set (fls ! k) - {?n}" using d xy by auto
    also have "\<dots> = bd_at a ` ({c. M c = Some (k, False)} - {b})"
    proof -
      have "bd_at a c \<noteq> ?n" if "M c = Some (k, False)" "c \<noteq> b" for c
        using bd_at_inject [OF C(1,2) that(1) b] that(2) by blast
      then show ?thesis by (auto simp: set)
    qed
    also have "{c. M c = Some (k, False)} - {b} = {c. (M(b \<mapsto> (k, True))) c = Some (k, False)}" by auto
    finally show ?thesis .
  qed
  have "bd_core ?a' (M(b \<mapsto> (k, True))) (fls[k := xs @ ys]) (insert b H)"
  proof (rule bd_core_update [OF core b _ _ _ _ _ heads])
    show "dl_list (bd_cells ?a') (if ?c (?n + 8) \<noteq> NULL then ?h else ?c ?n) (xs @ ys)"
      using U(1) unfolding cells Let_def .
    show "distinct (xs @ ys)" using d by simp
    show "set (xs @ ys) = bd_at a ` {c. (M(b \<mapsto> (k, True))) c = Some (k, False)}" by (rule setxs)
    show "bd_cells ?a' z = ?c z"
      if z: "\<forall>c. (M c = Some (k, False) \<or> c = b) \<longrightarrow> z \<noteq> bd_at a c \<and> z \<noteq> bd_at a c + 8" for z
    proof -
      have "\<forall>x \<in> set (xs @ ys). z \<noteq> x \<and> z \<noteq> x + 8"
        using z unfolding setxs by (auto split: if_splits)
      from U(4) [OF this] show ?thesis unfolding cells Let_def .
    qed
  qed (simp_all add: bd_unlink_map bd_unlink_def Let_def)
  then show ?thesis by blast
qed


lemma bd_core_pop:
  assumes core: "bd_core a M fls H" and k: "k \<le> bd_max_order a" and ne: "bd_free_lists a ! k \<noteq> NULL"
  obtains b fls' where "bd_pop a k = (bd_at a b, bd_unlink a (bd_at a b) k)" and "M b = Some (k, False)"
    and "bd_core (bd_unlink a (bd_at a b) k) (M(b \<mapsto> (k, True))) fls' (insert b H)"
proof -
  note C = bd_coreD [OF core]
  obtain l where l: "dl_seg (bd_cells a) NULL (bd_free_lists a ! k) (fls ! k) l NULL"
    using C(4) [OF k] by (auto simp: dl_list_def)
  then obtain xs where xs: "fls ! k = bd_free_lists a ! k # xs" using ne by (cases "fls ! k") auto
  then have "bd_free_lists a ! k \<in> bd_at a ` {b. M b = Some (k, False)}" using C(6) [OF k] by auto
  then obtain b where b: "bd_free_lists a ! k = bd_at a b" "M b = Some (k, False)" by blast
  have "bd_cells a (bd_at a b + 8) = NULL" using l unfolding xs b(1) by simp
  then have "bd_pop a k = (bd_at a b, bd_unlink a (bd_at a b) k)"
    by (simp add: bd_pop_def bd_unlink_def Let_def b(1))
  with bd_core_unlink [OF core b(2)] b(2) that show ?thesis by blast
qed

lemma bd_core_push:
  assumes core: "bd_core a M fls H" and b: "M b = Some (k, True)" "b \<in> H"
  shows "\<exists>fls'. bd_core (bd_push a (bd_at a b) k) (M(b \<mapsto> (k, False))) fls' (H - {b})"
proof -
  note C = bd_coreD [OF core]
  note B = bd_at_block [OF C(1,2) b(1)]
  have k: "k \<le> bd_max_order a" using bd_partD(1) [OF C(2) b(1)] by simp
  have k64: "k < 64" using k C(1) by (simp add: bd_shape_def)
  let ?n = "bd_at a b" and ?c = "bd_cells a" and ?h = "bd_free_lists a ! k" and ?a' = "bd_push a (bd_at a b) k"
  let ?c1 = "?c(?n + 8 := NULL, ?n := ?h)"
  let ?c2 = "if ?h \<noteq> NULL then ?c1(?h + 8 := ?n) else ?c1"
  have self: "?n \<noteq> ?n + 8" using dl_node_ne(1) [OF B(2) B(2)] .
  have cells: "bd_cells ?a' = ?c2" by (simp add: bd_push_def Let_def)
  have heads: "bd_free_lists ?a' = (bd_free_lists a)[k := ?n]" by (simp add: bd_push_def Let_def)
  have map: "bd_order_map ?a' = (bd_order_map a)[b div 2 ^ bd_min_order a := bd_enc k False]"
    by (simp add: bd_push_def Let_def B(6) bd_enc_def)
  have set: "set (fls ! k) = bd_at a ` {c. M c = Some (k, False)}" by (rule C(6) [OF k])
  have nodes: "dl_node x \<and> x \<noteq> ?n" if "x \<in> set (fls ! k)" for x
  proof -
    obtain c where c: "x = bd_at a c" "M c = Some (k, False)" using \<open>x \<in> set (fls ! k)\<close> set by auto
    then have "c \<noteq> b" using b(1) by auto
    then show ?thesis using bd_at_block(2) [OF C(1,2) c(2)] bd_at_inject [OF C(1,2) c(2) b(1)] c(1) by auto
  qed
  have fresh: "?c1 x = ?c x \<and> ?c1 (x + 8) = ?c (x + 8)" if "x \<in> set (fls ! k)" for x
    using nodes [OF that] B(2) dl_node_ne(1) [of x ?n] dl_node_ne(2) [of ?n x] by auto
  obtain l where l: "dl_seg ?c NULL ?h (fls ! k) l NULL"
    using C(4) [OF k] by (auto simp: dl_list_def)
  have l1: "dl_seg ?c1 NULL ?h (fls ! k) l NULL" by (rule dl_seg_cong [OF l fresh])
  have "\<exists>l'. dl_seg ?c2 NULL ?n (?n # fls ! k) l' NULL"
  proof (cases "fls ! k = []")
    case True
    then have "?h = NULL" using l by simp
    then show ?thesis using True B(3) self by (simp add: cell_upd del: fun_upd_apply)
  next
    case False
    have h: "?h \<in> set (fls ! k)" "?h \<noteq> NULL" using dl_seg_last [OF l False] by simp_all
    have "dl_seg (?c1(?h + 8 := ?n)) ?n ?h (fls ! k) l NULL"
      using dl_seg_set_prev [OF l1 False] C(5) [OF k] nodes by blast
    moreover have "?n \<noteq> ?h + 8" "?n + 8 \<noteq> ?h + 8"
      using nodes [OF h(1)] dl_node_ne(1) [OF B(2), of ?h] by auto
    ultimately show ?thesis using h(2) B(3) self by (auto simp: cell_upd simp del: fun_upd_apply)
  qed
  then have list: "dl_list (bd_cells ?a') ?n (?n # fls ! k)" unfolding cells dl_list_def .
  have "bd_core ?a' (M(b \<mapsto> (k, False))) (fls[k := ?n # fls ! k]) (H - {b})"
  proof (rule bd_core_update [OF core b(1) _ _ _ _ _ heads list])
    show "distinct (?n # fls ! k)" using C(5) [OF k] nodes by auto
    show "set (?n # fls ! k) = bd_at a ` {c. (M(b \<mapsto> (k, False))) c = Some (k, False)}"
      by (auto simp: set)
    show "bd_cells ?a' z = ?c z"
      if z: "\<forall>c. (M c = Some (k, False) \<or> c = b) \<longrightarrow> z \<noteq> bd_at a c \<and> z \<noteq> bd_at a c + 8" for z
    proof -
      have "?h \<in> set (fls ! k)" if "?h \<noteq> NULL" using l that dl_seg_last [OF l] by (cases "fls ! k = []") auto
      then have "?h \<noteq> NULL \<longrightarrow> z \<noteq> ?h + 8" using z set by auto
      then show ?thesis using z unfolding cells by auto
    qed
    show "bd_order_map ?a' ! i = bd_order_map a ! i" if "i \<noteq> b div 2 ^ bd_min_order a" for i
      using that by (simp add: map)
    show "False \<or> bd_order_map ?a' ! (b div 2 ^ bd_min_order a) = bd_enc k False"
      using B(7) by (simp add: map)
  qed (use bd_static_ops(1) [of a ?n k] in \<open>simp_all add: bd_static_def map\<close>)
  then show ?thesis by blast
qed

text \<open>Writing the map entry and the tag of a block that is handed out.\<close>

lemma bd_core_use:
  assumes core: "bd_core a M fls H" and b: "M b = Some (k, True)" "b \<in> H"
  shows "bd_core ((bd_mark_used a (bd_at a b) k)\<lparr>bd_cells := (bd_cells a)(bd_at a b := of_nat k)\<rparr>) M fls (H - {b})"
    (is "bd_core ?a' M fls ?H")
proof -
  note C = bd_coreD [OF core]
  note B = bd_at_block [OF C(1,2) b(1)]
  let ?n = "bd_at a b"
  have at: "bd_at ?a' = bd_at a" by (simp add: bd_at_def [abs_def] bd_mark_used_def)
  have map: "bd_order_map ?a' = (bd_order_map a)[b div 2 ^ bd_min_order a := bd_enc k True]"
    by (simp add: bd_mark_used_def B(6) bd_enc_def)
  have static: "bd_mem ?a' = bd_mem a" "bd_min_order ?a' = bd_min_order a" "bd_max_order ?a' = bd_max_order a"
    "bd_capacity ?a' = bd_capacity a" "bd_free_lists ?a' = bd_free_lists a"
    by (simp_all add: bd_mark_used_def)
  have other: "?n \<noteq> bd_at a c \<and> ?n \<noteq> bd_at a c + 8" if c: "M c = Some (j, t)" "c \<noteq> b" for c j t
    using bd_at_inject [OF C(1,2) c(1) b(1)] dl_node_ne(1) [OF B(2) bd_at_block(2) [OF C(1,2) c(1)]] c(2) by metis
  show ?thesis
    unfolding bd_core_def static at
  proof (intro conjI allI impI ballI)
    show "bd_shape ?a'" using C(1) by (simp add: bd_shape_def static map)
    show "bd_part (bd_min_order a) (bd_max_order a) M" by (rule C(2))
    show "length fls = Suc (bd_max_order a)" by (rule C(3))
  next
    fix j assume j: "j \<le> bd_max_order a"
    show "distinct (fls ! j)" "set (fls ! j) = bd_at a ` {b. M b = Some (j, False)}" by (rule C(5,6) [OF j])+
    obtain l where l: "dl_seg (bd_cells a) NULL (bd_free_lists a ! j) (fls ! j) l NULL"
      using C(4) [OF j] by (auto simp: dl_list_def)
    have "bd_cells ?a' x = bd_cells a x \<and> bd_cells ?a' (x + 8) = bd_cells a (x + 8)" if "x \<in> set (fls ! j)" for x
    proof -
      obtain c where c: "x = bd_at a c" "M c = Some (j, False)" using \<open>x \<in> set (fls ! j)\<close> C(6) [OF j] by auto
      then have "c \<noteq> b" using b(1) by auto
      then show ?thesis using other [OF c(2)] c(1) by auto
    qed
    from dl_seg_cong [OF l this] show "dl_list (bd_cells ?a') (bd_free_lists a ! j) (fls ! j)"
      unfolding dl_list_def by blast
  next
    fix c j t assume c: "M c = Some (j, t)" "c \<notin> ?H"
    show "bd_order_map ?a' ! (c div 2 ^ bd_min_order a) = bd_enc j t"
    proof (cases "c = b")
      case True
      then have "j = k" "t" using c b by simp_all
      with True show ?thesis unfolding map using B(7) by simp
    next
      case False
      then have "c div 2 ^ bd_min_order a \<noteq> b div 2 ^ bd_min_order a"
        using bd_slot_inject [OF C(2) c(1) b(1)] by blast
      then show ?thesis unfolding map using C(7) [OF c(1)] c(2) False by simp
    qed
  next
    fix c j assume c: "M c = Some (j, True)" "c \<notin> ?H"
    show "bd_cells ?a' (bd_at a c) = of_nat j"
    proof (cases "c = b")
      case True
      then show ?thesis using c b by simp
    next
      case False
      then show ?thesis using other [OF c(1)] C(8) [OF c(1)] c(2) by auto
    qed
  next
    fix c assume "c \<in> ?H"
    then show "\<exists>j. M c = Some (j, True)" using C(9) by blast
  qed
qed


text \<open>A change of view on the blocks in hand, with the memory as it is.\<close>

lemma bd_core_reshape:
  assumes core: "bd_core a M fls H" and part: "bd_part (bd_min_order a) (bd_max_order a) M'"
    and free: "\<And>j. {c. M' c = Some (j, False)} = {c. M c = Some (j, False)}"
    and old: "\<And>c j t. M' c = Some (j, t) \<Longrightarrow> c \<notin> H' \<Longrightarrow> M c = Some (j, t) \<and> c \<notin> H"
    and hand: "\<And>c. c \<in> H' \<Longrightarrow> \<exists>j. M' c = Some (j, True)"
  shows "bd_core a M' fls H'"
proof -
  note C = bd_coreD [OF core]
  show ?thesis
    unfolding bd_core_def free
  proof (intro conjI allI impI ballI)
    fix k assume k: "k \<le> bd_max_order a"
    show "dl_list (bd_cells a) (bd_free_lists a ! k) (fls ! k)" "distinct (fls ! k)"
      "set (fls ! k) = bd_at a ` {b. M b = Some (k, False)}"
      by (rule C(4,5,6) [OF k])+
  next
    fix c j t assume "M' c = Some (j, t)" "c \<notin> H'"
    then show "bd_order_map a ! (c div 2 ^ bd_min_order a) = bd_enc j t" using old C(7) by metis
  next
    fix c j assume "M' c = Some (j, True)" "c \<notin> H'"
    then show "bd_cells a (bd_at a c) = of_nat j" using old C(8) by metis
  qed (fact C(1) part C(3) hand)+
qed

text \<open>Splitting a block in hand into two halves in hand, and the reverse: memory does not change.\<close>

lemma bd_core_split:
  assumes core: "bd_core a M fls H" and b: "M b = Some (Suc k, True)" "b \<in> H" and k: "bd_min_order a \<le> k"
  shows "bd_core a (M(b \<mapsto> (k, True), b + 2 ^ k \<mapsto> (k, True))) fls (insert (b + 2 ^ k) H)"
proof -
  let ?M = "M(b \<mapsto> (k, True), b + 2 ^ k \<mapsto> (k, True))"
  note C = bd_coreD [OF core]
  have none: "M (b + 2 ^ k) = None" by (rule bd_part_split(1) [OF C(2) b(1) k])
  have part: "bd_part (bd_min_order a) (bd_max_order a) ?M" by (rule bd_part_split(2) [OF C(2) b(1) k])
  have free: "{c. ?M c = Some (j, False)} = {c. M c = Some (j, False)}" for j using b none by auto
  have old: "M c = Some (j, t) \<and> c \<notin> H" if "?M c = Some (j, t)" "c \<notin> insert (b + 2 ^ k) H" for c j t
    using that b by (auto split: if_splits)
  have hand: "\<exists>j. ?M c = Some (j, True)" if "c \<in> insert (b + 2 ^ k) H" for c
    using that C(9) [of c] by auto
  show ?thesis using part free old hand by (rule bd_core_reshape [OF core])
qed

lemma bd_core_merge:
  assumes core: "bd_core a M fls H" and b: "M b = Some (k, True)" "b \<in> H"
    and b2: "M (b + 2 ^ k) = Some (k, True)" "b + 2 ^ k \<in> H"
    and dvd: "2 ^ Suc k dvd b" and k: "k < bd_max_order a"
  shows "bd_core a (M(b + 2 ^ k := None, b \<mapsto> (Suc k, True))) fls (H - {b + 2 ^ k})"
proof -
  let ?M = "M(b + 2 ^ k := None, b \<mapsto> (Suc k, True))"
  note C = bd_coreD [OF core]
  have part: "bd_part (bd_min_order a) (bd_max_order a) ?M" by (rule bd_part_merge [OF C(2) b(1) b2(1) dvd k])
  have free: "{c. ?M c = Some (j, False)} = {c. M c = Some (j, False)}" for j using b b2 by auto
  have old: "M c = Some (j, t) \<and> c \<notin> H" if "?M c = Some (j, t)" "c \<notin> H - {b + 2 ^ k}" for c j t
    using that b by (auto split: if_splits)
  have hand: "\<exists>j. ?M c = Some (j, True)" if "c \<in> H - {b + 2 ^ k}" for c
    using that C(9) [of c] by auto
  show ?thesis using part free old hand by (rule bd_core_reshape [OF core])
qed


subsection \<open>The loops\<close>

lemma bd_at_add: "bd_at a b + 2 ^ k = bd_at a (b + 2 ^ k)"
  by (simp add: bd_at_def add.assoc)

lemma bd_buddy_upper: "2 ^ Suc k dvd b \<Longrightarrow> bd_buddy k (b + 2 ^ k) = b"
proof -
  assume "2 ^ Suc k dvd b"
  then obtain m where "b = 2 ^ k * (2 * m)" by (auto simp: dvd_def)
  then have "(b + 2 ^ k) div 2 ^ k = 2 * m + 1" by (simp add: div_add1_eq)
  then show ?thesis by (simp add: bd_buddy_def)
qed

lemma bd_split_core:
  "bd_core a M fls {b} \<Longrightarrow> M b = Some (od, True) \<Longrightarrow> order \<le> od \<Longrightarrow> bd_min_order a \<le> order \<Longrightarrow>
   \<exists>M' fls'. bd_core (bd_split a (bd_at a b) od order) M' fls' {b} \<and> M' b = Some (order, True) \<and>
     bd_static (bd_split a (bd_at a b) od order) a \<and>
     (\<forall>c j. c \<noteq> b \<longrightarrow> M' c = Some (j, True) \<longleftrightarrow> c \<noteq> b \<and> M c = Some (j, True)) \<and>
     (\<forall>c j. M' c = Some (j, False) \<longrightarrow> M c = Some (j, False) \<or> bd_buddy j c = b)"
proof (induction od arbitrary: a M fls)
  case 0
  then show ?case by (intro exI [of _ M] exI [of _ fls]) simp
next
  case (Suc k)
  show ?case
  proof (cases "Suc k > order")
    case False
    then have "Suc k = order" using Suc.prems(3) by simp
    then show ?thesis using Suc.prems by (intro exI [of _ M] exI [of _ fls]) auto
  next
    case True
    then have ok: "order \<le> k" "bd_min_order a \<le> k" using Suc.prems(4) by simp_all
    let ?b2 = "b + 2 ^ k"
    let ?M1 = "M(b \<mapsto> (k, True), ?b2 \<mapsto> (k, True))"
    have c1: "bd_core a ?M1 fls {?b2, b}"
      using bd_core_split [OF Suc.prems(1,2) _ ok(2)] by simp
    have ne: "b \<noteq> ?b2" by simp
    let ?a2 = "bd_push a (bd_at a ?b2) k" and ?M2 = "?M1(?b2 \<mapsto> (k, False))"
    obtain fls2 where c2: "bd_core ?a2 ?M2 fls2 {b}"
      using bd_core_push [OF c1, of ?b2 k] ne by auto
    have st: "bd_static ?a2 a" by (rule bd_static_ops)
    note at = bd_static_at [OF st]
    have part: "bd_part (bd_min_order a) (bd_max_order a) M" by (rule bd_coreD(2) [OF Suc.prems(1)])
    have none: "M ?b2 = None" using bd_part_split(1) [OF part Suc.prems(2) ok(2)] .
    have bud: "bd_buddy k ?b2 = b" using bd_partD(1) [OF part Suc.prems(2)] by (intro bd_buddy_upper) simp
    have "?M2 b = Some (k, True)" "bd_min_order ?a2 \<le> order"
      using ne Suc.prems(4) st by (simp_all add: bd_static_def)
    from Suc.IH [OF c2 this(1) ok(1) this(2)] obtain M' fls' where
      IH: "bd_core (bd_split ?a2 (bd_at a b) k order) M' fls' {b}" "M' b = Some (order, True)"
        "bd_static (bd_split ?a2 (bd_at a b) k order) ?a2"
        "\<forall>c j. c \<noteq> b \<longrightarrow> M' c = Some (j, True) \<longleftrightarrow> c \<noteq> b \<and> ?M2 c = Some (j, True)"
        "\<forall>c j. M' c = Some (j, False) \<longrightarrow> ?M2 c = Some (j, False) \<or> bd_buddy j c = b"
      unfolding at by blast
    have eq: "bd_split a (bd_at a b) (Suc k) order = bd_split ?a2 (bd_at a b) k order"
      using True by (simp add: bd_at_add)
    have "\<forall>c j. c \<noteq> b \<longrightarrow> M' c = Some (j, True) \<longleftrightarrow> c \<noteq> b \<and> M c = Some (j, True)"
      using IH(4) none by (auto split: if_splits)
    moreover have "\<forall>c j. M' c = Some (j, False) \<longrightarrow> M c = Some (j, False) \<or> bd_buddy j c = b"
    proof (intro allI impI)
      fix c j assume "M' c = Some (j, False)"
      then have "?M2 c = Some (j, False) \<or> bd_buddy j c = b" using IH(5) by blast
      then show "M c = Some (j, False) \<or> bd_buddy j c = b" using bud by (auto split: if_splits)
    qed
    ultimately show ?thesis
      unfolding eq using IH(1,2) bd_static_trans [OF IH(3) st] by blast
  qed
qed

lemma bd_word_buddy:
  assumes "b < 2 ^ 63" and "k < 63"
  shows "(of_nat b :: u64) XOR push_bit k 1 = of_nat (bd_buddy k b)"
    and "(of_nat b :: u64) AND NOT (push_bit k 1) = of_nat (if odd (b div 2 ^ k) then b - 2 ^ k else b)"
proof -
  have u: "unat (of_nat b :: u64) = b" using assms(1) by (simp add: unat_of_nat)
  have "bit (unat (of_nat b :: u64)) k \<longleftrightarrow> bit (of_nat b :: u64) k"
    using assms(2) by (simp only: bit_unsigned_iff) simp
  then have bit: "bit (of_nat b :: u64) k \<longleftrightarrow> odd (b div 2 ^ k)"
    unfolding u bit_iff_odd [of b k] by blast
  have ge: "2 ^ k \<le> b" if "odd (b div 2 ^ k)"
    using that by (metis div_less even_zero not_le)
  have "(of_nat b :: u64) XOR push_bit k 1 = flip_bit k (of_nat b)"
    by (simp add: flip_bit_eq_xor)
  also have "\<dots> = of_nat (bd_buddy k b)"
    using ge by (simp add: flip_bit_eq_if set_bit_eq unset_bit_eq bit bd_buddy_def of_nat_diff)
  finally show "(of_nat b :: u64) XOR push_bit k 1 = of_nat (bd_buddy k b)" .
  have "(of_nat b :: u64) AND NOT (push_bit k 1) = unset_bit k (of_nat b)"
    by (simp add: unset_bit_eq_and_not)
  also have "\<dots> = of_nat (if odd (b div 2 ^ k) then b - 2 ^ k else b)"
    using ge by (simp add: unset_bit_eq bit of_nat_diff)
  finally show "(of_nat b :: u64) AND NOT (push_bit k 1) = of_nat (if odd (b div 2 ^ k) then b - 2 ^ k else b)" .
qed


lemma bd_is_free_at_iff:
  assumes core: "bd_core a M fls H" and x: "M x = Some (j, v)" "x \<notin> H"
  shows "bd_is_free_at a (bd_at a x) k \<longleftrightarrow> M x = Some (k, False)"
proof -
  note C = bd_coreD [OF core]
  have "j < 64" using bd_partD(1) [OF C(2) x(1)] C(1) by (simp add: bd_shape_def)
  note E = bd_enc_bits [OF this, of v]
  have "bd_order_map a ! slot_of a (bd_at a x) = bd_enc j v"
    using C(7) [OF x] bd_at_block(6) [OF C(1,2) x(1)] by simp
  then show ?thesis using E x(1) by (auto simp: bd_is_free_at_def Let_def)
qed

lemma bd_buddy_ne: "2 ^ k dvd b \<Longrightarrow> bd_buddy k b \<noteq> b"
proof -
  assume "2 ^ k dvd b"
  then have "odd (b div 2 ^ k) \<Longrightarrow> 2 ^ k \<le> b" by (metis div_less even_zero not_le)
  then have "odd (b div 2 ^ k) \<Longrightarrow> b - 2 ^ k < b" by (intro diff_less) (auto intro: less_le_trans [of 0 "2 ^ k"])
  then show ?thesis by (cases "odd (b div 2 ^ k)") (simp_all add: bd_buddy_def)
qed

lemma bd_buddy_involution:
  assumes "2 ^ k dvd b"
  shows "bd_buddy k (bd_buddy k b) = b"
proof -
  obtain q where q: "2 ^ Suc k dvd q" "b = q \<or> b = q + 2 ^ k"
    and bud: "bd_buddy k b = (if b = q then q + 2 ^ k else q)"
    using bd_buddy_parent [OF assms] by metis
  then obtain m where m: "q = 2 ^ k * (2 * m)" by (auto simp: dvd_def)
  then have "q div 2 ^ k = 2 * m" by simp
  then have "bd_buddy k q = q + 2 ^ k" by (simp add: bd_buddy_def)
  then show ?thesis using bd_buddy_upper [OF q(1)] q(2) bud by auto
qed

lemma bd_merge_core:
  "bd_core a M fls {b} \<Longrightarrow> M b = Some (order, True) \<Longrightarrow>
   \<exists>a' b' k M' fls'. bd_merge a (of_nat b) order = (a', of_nat b', k) \<and> bd_core a' M' fls' {b'} \<and>
     M' b' = Some (k, True) \<and> bd_static a' a \<and>
     (\<forall>c j. c \<noteq> b' \<longrightarrow> M' c = Some (j, True) \<longleftrightarrow> c \<noteq> b \<and> M c = Some (j, True)) \<and>
     (\<forall>c j. M' c = Some (j, False) \<longrightarrow> M c = Some (j, False)) \<and>
     (k = bd_max_order a \<or> M' (bd_buddy k b') \<noteq> Some (k, False)) \<and> (b' = b \<or> (\<exists>j. M b' = Some (j, False)))"
proof (induction "bd_max_order a - order" arbitrary: a M fls b order)
  case 0
  note C = bd_coreD [OF 0(2)]
  have "\<not> order < bd_max_order a" "order = bd_max_order a"
    using 0 bd_partD(1) [OF C(2) 0(3)] by simp_all
  then have "bd_merge a (of_nat b) order = (a, of_nat b, order)" by (subst bd_merge.simps) simp
  then show ?case using 0 \<open>order = bd_max_order a\<close> by (intro exI conjI) (assumption | simp)+
next
  case (Suc d)
  note C = bd_coreD [OF Suc(3)]
  note B = bd_partD(1) [OF C(2) Suc(4)]
  have lt: "order < bd_max_order a" using Suc(2) by simp
  have k63: "order < 63" using lt C(1) by (simp add: bd_shape_def)
  have b63: "b < 2 ^ 63" using bd_at_block(9) [OF C(1,2) Suc(4)] by simp
  let ?x = "bd_buddy order b"
  obtain j v where x: "M ?x = Some (j, v)" "j \<le> order" using bd_part_buddy [OF C(2) Suc(4) lt] by blast
  have dvd: "2 ^ order dvd b" using B by simp
  have xb: "?x \<noteq> b" by (rule bd_buddy_ne [OF dvd])
  have addr: "bd_mem a + (of_nat b XOR push_bit order 1) = bd_at a ?x"
    unfolding bd_word_buddy(1) [OF b63 k63] bd_at_def ..
  have free: "bd_is_free_at a (bd_at a ?x) order \<longleftrightarrow> M ?x = Some (order, False)"
    using xb by (intro bd_is_free_at_iff [OF Suc(3) x(1)]) simp
  show ?case
  proof (cases "M ?x = Some (order, False)")
    case False
    then have "bd_merge a (of_nat b) order = (a, of_nat b, order)"
      using lt by (subst bd_merge.simps) (simp add: addr [simplified] free Let_def)
    then show ?thesis using Suc(3,4) False by (intro exI conjI) (assumption | simp)+
  next
    case True
    obtain q where q: "2 ^ Suc order dvd q" "b = q \<or> b = q + 2 ^ order"
      and bud: "?x = (if b = q then q + 2 ^ order else q)" and odd: "odd (b div 2 ^ order) \<longleftrightarrow> b = q + 2 ^ order"
      using bd_buddy_parent [OF dvd] by metis
    let ?a1 = "bd_unlink a (bd_at a ?x) order" and ?M1 = "M(?x \<mapsto> (order, True))"
    obtain fls1 where c1: "bd_core ?a1 ?M1 fls1 {?x, b}" using bd_core_unlink [OF Suc(3) True] by auto
    have st: "bd_static ?a1 a" by (rule bd_static_ops)
    let ?M2 = "?M1(q + 2 ^ order := None, q \<mapsto> (Suc order, True))"
    have both: "?M1 q = Some (order, True)" "?M1 (q + 2 ^ order) = Some (order, True)" "{?x, b} = {q, q + 2 ^ order}"
      using q(2) bud Suc(4) xb by (auto split: if_splits)
    have "bd_core ?a1 ?M2 fls1 ({?x, b} - {q + 2 ^ order})"
      by (rule bd_core_merge [OF c1 both(1) _ both(2) _ q(1)]) (use both(3) lt st in \<open>auto simp: bd_static_def\<close>)
    moreover have "{?x, b} - {q + 2 ^ order} = {q}" unfolding both(3) by auto
    ultimately have c2: "bd_core ?a1 ?M2 fls1 {q}" by (simp only: )
    have low: "of_nat b AND NOT (push_bit order 1) = (of_nat q :: u64)"
      unfolding bd_word_buddy(2) [OF b63 k63] odd using q(2) by auto
    have eq: "bd_merge a (of_nat b) order = bd_merge ?a1 (of_nat q) (order + 1)"
      using lt True by (subst bd_merge.simps) (simp add: addr [simplified] free low [simplified] Let_def)
    have "d = bd_max_order ?a1 - (order + 1)" using Suc(2) st by (simp add: bd_static_def)
    moreover have "?M2 q = Some (order + 1, True)" by simp
    ultimately obtain a' b' k M' fls' where IH: "bd_merge ?a1 (of_nat q) (order + 1) = (a', of_nat b', k)"
      "bd_core a' M' fls' {b'}" "M' b' = Some (k, True)" "bd_static a' ?a1"
      "\<forall>c j. c \<noteq> b' \<longrightarrow> M' c = Some (j, True) \<longleftrightarrow> c \<noteq> q \<and> ?M2 c = Some (j, True)"
      "\<forall>c j. M' c = Some (j, False) \<longrightarrow> ?M2 c = Some (j, False)"
      "k = bd_max_order ?a1 \<or> M' (bd_buddy k b') \<noteq> Some (k, False)" "b' = q \<or> (\<exists>j. ?M2 b' = Some (j, False))"
      using Suc(1) [OF _ c2] by blast
    have "\<forall>c j. c \<noteq> b' \<longrightarrow> M' c = Some (j, True) \<longleftrightarrow> c \<noteq> b \<and> M c = Some (j, True)"
    proof (intro allI impI)
      fix c i assume "c \<noteq> b'"
      then have "M' c = Some (i, True) \<longleftrightarrow> c \<noteq> q \<and> ?M2 c = Some (i, True)" using IH(5) by blast
      also have "\<dots> \<longleftrightarrow> c \<noteq> b \<and> M c = Some (i, True)"
        using q(2) bud True Suc(4) by (auto split: if_splits)
      finally show "M' c = Some (i, True) \<longleftrightarrow> c \<noteq> b \<and> M c = Some (i, True)" .
    qed
    moreover have "\<forall>c j. M' c = Some (j, False) \<longrightarrow> M c = Some (j, False)"
    proof (intro allI impI)
      fix c i assume "M' c = Some (i, False)"
      then have "?M2 c = Some (i, False)" using IH(6) by blast
      then show "M c = Some (i, False)" by (auto split: if_splits)
    qed
    moreover have "b' = b \<or> (\<exists>j. M b' = Some (j, False))"
    proof (cases "b' = q")
      case True
      then show ?thesis using q(2) bud \<open>M ?x = Some (order, False)\<close> by auto
    next
      case False
      then obtain i where "?M2 b' = Some (i, False)" using IH(8) by blast
      then show ?thesis by (auto split: if_splits)
    qed
    ultimately show ?thesis
      unfolding eq using IH(1,2,3,7) bd_static_trans [OF IH(4) st] st
      by (intro exI [of _ a'] exI [of _ b'] exI [of _ k] exI [of _ M'] exI [of _ fls'])
        (simp add: bd_static_def)
  qed
qed

end
