(* ===== verification/HF_Buddy_Correct.thy ===== *)
theory HF_Buddy_Correct
  imports HF_Buddy
begin

text \<open>
  Correctness of the buddy allocator: the walk lists exactly the blocks of the partition, every
  operation keeps the partition, its free lists and the statistics consistent, no two free buddies
  are ever left unmerged, and the allocator satisfies the allocator and layout contracts.
\<close>

subsection \<open>The walk\<close>

definition bd_used_set :: "bd_blocks \<Rightarrow> nat set" where
  "bd_used_set M = {x. \<exists>b k. M b = Some (k, True) \<and> b \<le> x \<and> x < b + 2 ^ k}"

definition bd_entry :: "nat \<Rightarrow> nat \<Rightarrow> bool \<Rightarrow> hf_block_info" where
  "bd_entry b k u = \<lparr>bi_offset = of_nat b, bi_size = 2 ^ k, bi_is_free = (\<not> u)\<rparr>"

lemma bd_used_set_sub:
  assumes "bd_part mn mx M"
  shows "bd_used_set M \<subseteq> {..<2 ^ mx}"
proof
  fix x assume "x \<in> bd_used_set M"
  then obtain b k where b: "M b = Some (k, True)" "x < b + 2 ^ k" by (auto simp: bd_used_set_def)
  have "b + 2 ^ k \<le> 2 ^ mx" using bd_partD(1) [OF assms b(1)] by simp
  then show "x \<in> {..<2 ^ mx}" using b(2) by simp
qed

lemma bd_used_set_finite: "bd_part mn mx M \<Longrightarrow> finite (bd_used_set M)"
  by (rule finite_subset [OF bd_used_set_sub]) simp_all

lemma bd_used_set_block:
  assumes part: "bd_part mn mx M" and b: "M b = Some (k, u)" and x: "b \<le> x" "x < b + 2 ^ k"
  shows "x \<in> bd_used_set M \<longleftrightarrow> u"
proof
  assume "x \<in> bd_used_set M"
  then obtain c j where c: "M c = Some (j, True)" "c \<le> x" "x < c + 2 ^ j" by (auto simp: bd_used_set_def)
  then have "c = b"
    using bd_partD(3) [OF part, of c x b] b x by (simp add: bd_covers_Some)
  then show u using b c by simp
qed (use b x in \<open>auto simp: bd_used_set_def\<close>)

text \<open>The used bytes from a block on: the block's own, and those from its successor on.\<close>

lemma bd_used_from:
  assumes part: "bd_part mn mx M" and b: "M b = Some (k, u)"
  shows "card {x \<in> bd_used_set M. b \<le> x} =
    (if u then 2 ^ k else 0) + card {x \<in> bd_used_set M. b + 2 ^ k \<le> x}"
proof -
  let ?I = "if u then {b..<b + 2 ^ k} else {}"
  have "{x \<in> bd_used_set M. b \<le> x} = ?I \<union> {x \<in> bd_used_set M. b + 2 ^ k \<le> x}"
  proof (rule set_eqI)
    fix x
    show "x \<in> {x \<in> bd_used_set M. b \<le> x} \<longleftrightarrow> x \<in> ?I \<union> {x \<in> bd_used_set M. b + 2 ^ k \<le> x}"
      using bd_used_set_block [OF part b, of x] by (cases "b + 2 ^ k \<le> x"; cases "b \<le> x") auto
  qed
  moreover have "?I \<inter> {x \<in> bd_used_set M. b + 2 ^ k \<le> x} = {}" by auto
  ultimately show ?thesis
    using bd_used_set_finite [OF part] by (simp add: card_Un_disjoint)
qed

lemma bd_total_slots:
  assumes "bd_shape a"
  shows "unat (drop_bit (bd_min_order a) (bd_capacity a)) = 2 ^ bd_max_order a div 2 ^ bd_min_order a"
  using assms by (simp add: unat_drop_bit_div bd_shape_def)

lemma bd_walk_loop_step:
  assumes core: "bd_core a M fls {}" and b: "M b = Some (k, u)"
  shows "bd_walk_loop (Suc fuel) a (b div 2 ^ bd_min_order a) =
    map_option ((#) (bd_entry b k u)) (bd_walk_loop fuel a ((b + 2 ^ k) div 2 ^ bd_min_order a))"
proof -
  note C = bd_coreD [OF core]
  let ?mn = "bd_min_order a"
  have k: "?mn \<le> k" "k \<le> bd_max_order a" "2 ^ k dvd b" "b + 2 ^ k \<le> 2 ^ bd_max_order a"
    using bd_partD(1) [OF C(2) b] by simp_all
  have mx: "bd_max_order a < 63" using C(1) by (simp add: bd_shape_def)
  have dk: "(2::nat) ^ ?mn dvd 2 ^ k" using k(1) by (rule le_imp_power_dvd)
  have db: "2 ^ ?mn dvd b" using dk k(3) by (rule dvd_trans)
  have "b div 2 ^ ?mn < 2 ^ bd_max_order a div 2 ^ ?mn"
    using bd_at_block(5) [OF C(1,2) b] db k
    by (metis C(1) bd_shape_def div_less_mono dvd_div_mult_self le_imp_power_dvd less_mult_imp_div_less)
  moreover have enc: "bd_order_map a ! (b div 2 ^ ?mn) = bd_enc k u" using C(7) [OF b] by simp
  have "k < 64" using k(2) mx by simp
  note E = bd_enc_bits [OF this, of u]
  have off: "push_bit ?mn (of_nat (b div 2 ^ ?mn)) = (of_nat b :: u64)"
  proof -
    have "(of_nat b :: u64) = of_nat (b div 2 ^ ?mn * 2 ^ ?mn)" using db by simp
    then show ?thesis by (simp add: push_bit_eq_mult)
  qed
  have sl: "b div 2 ^ ?mn + unat (drop_bit ?mn (push_bit k 1 :: u64)) = (b + 2 ^ k) div 2 ^ ?mn"
    using dk k(2) mx by (simp add: unat_drop_bit_div push_bit_eq_mult div_plus_div_distrib_dvd_right)
  ultimately show ?thesis
    using E off sl
    by (subst bd_walk_loop.simps)
      (simp add: bd_total_slots [OF C(1)] enc bd_entry_def push_bit_eq_mult Let_def)
qed

lemma bd_walk_loop_end:
  assumes core: "bd_core a M fls {}"
  shows "bd_walk_loop fuel a (2 ^ bd_max_order a div 2 ^ bd_min_order a) = Some []"
    and "card {x \<in> bd_used_set M. 2 ^ bd_max_order a \<le> x} = 0"
    and "2 ^ bd_max_order a \<le> c \<Longrightarrow> M c = None"
proof -
  note C = bd_coreD [OF core]
  show "bd_walk_loop fuel a (2 ^ bd_max_order a div 2 ^ bd_min_order a) = Some []"
    by (subst bd_walk_loop.simps) (simp add: bd_total_slots [OF C(1)])
  have "{x \<in> bd_used_set M. 2 ^ bd_max_order a \<le> x} = {}" using bd_used_set_sub [OF C(2)] by auto
  then show "card {x \<in> bd_used_set M. 2 ^ bd_max_order a \<le> x} = 0" by (simp only: card.empty)
  show "M c = None" if "2 ^ bd_max_order a \<le> c"
    using bd_at_block(5) [OF C(1,2), of c] that by (cases "M c") auto
qed

lemma bd_walk_loop_spec:
  assumes core: "bd_core a M fls {}"
  defines "mn \<equiv> bd_min_order a" and "mx \<equiv> bd_max_order a"
  shows "b = 2 ^ mx \<or> M b \<noteq> None \<Longrightarrow> (2 ^ mx - b) div 2 ^ mn \<le> fuel \<Longrightarrow>
    \<exists>bs. bd_walk_loop fuel a (b div 2 ^ mn) = Some bs \<and> tiles b bs (2 ^ mx) \<and>
      used_bytes bs = card {x \<in> bd_used_set M. b \<le> x} \<and>
      set bs = {bd_entry c k u | c k u. b \<le> c \<and> M c = Some (k, u)}"
proof (induction fuel arbitrary: b)
  case 0
  note C = bd_coreD [OF core]
  show ?case
  proof (cases "b = 2 ^ mx")
    case True
    then show ?thesis using bd_walk_loop_end [OF core] by (simp add: mn_def mx_def used_bytes_def)
  next
    case False
    then obtain k u where b: "M b = Some (k, u)" using 0 by auto
    have "2 ^ mn \<le> (2::nat) ^ k" "b + 2 ^ k \<le> 2 ^ mx"
      using bd_partD(1) [OF C(2) b] by (simp_all add: mn_def mx_def)
    then have "2 ^ mn \<le> 2 ^ mx - b" by linarith
    then have "0 < (2 ^ mx - b) div 2 ^ mn" by (simp add: div_greater_zero_iff)
    then show ?thesis using 0 by simp
  qed
next
  case (Suc fuel)
  note C = bd_coreD [OF core]
  show ?case
  proof (cases "b = 2 ^ mx")
    case True
    then show ?thesis using bd_walk_loop_end [OF core] by (simp add: mn_def mx_def used_bytes_def)
  next
    case False
    then obtain k u where b: "M b = Some (k, u)" using Suc by auto
    have k: "2 ^ mn dvd (2::nat) ^ k" "b + 2 ^ k \<le> 2 ^ mx" "k < 63"
      using bd_partD(1) [OF C(2) b] C(1) by (auto simp: mn_def mx_def le_imp_power_dvd bd_shape_def)
    have fuel: "(2 ^ mx - (b + 2 ^ k)) div 2 ^ mn \<le> fuel"
    proof -
      have "2 ^ mx - b = 2 ^ mx - (b + 2 ^ k) + 2 ^ k" using k(2) by simp
      then have "(2 ^ mx - b) div 2 ^ mn = (2 ^ mx - (b + 2 ^ k)) div 2 ^ mn + 2 ^ k div 2 ^ mn"
        using k(1) by (simp add: div_plus_div_distrib_dvd_right)
      moreover have "0 < (2::nat) ^ k div 2 ^ mn"
        using k(1) by (simp add: div_greater_zero_iff dvd_imp_le)
      ultimately show ?thesis using Suc.prems(2) by linarith
    qed
    have "b + 2 ^ k = 2 ^ mx \<or> M (b + 2 ^ k) \<noteq> None"
      using bd_part_next [OF C(2) b] by (simp add: mx_def)
    from Suc.IH [OF this fuel] obtain bs where
      bs: "bd_walk_loop fuel a ((b + 2 ^ k) div 2 ^ mn) = Some bs" "tiles (b + 2 ^ k) bs (2 ^ mx)"
        "used_bytes bs = card {x \<in> bd_used_set M. b + 2 ^ k \<le> x}"
        "set bs = {bd_entry c k' u | c k' u. b + 2 ^ k \<le> c \<and> M c = Some (k', u)}"
      by blast
    have entry: "unat (bi_offset (bd_entry b k u)) = b" "unat (bi_size (bd_entry b k u)) = 2 ^ k"
      using bd_at_block(9) [OF C(1,2) b] k(3) by (simp_all add: bd_entry_def unat_of_nat_small)
    have "bd_walk_loop (Suc fuel) a (b div 2 ^ mn) = Some (bd_entry b k u # bs)"
      using bd_walk_loop_step [OF core b, of fuel] bs(1) by (simp add: mn_def)
    moreover have "tiles b (bd_entry b k u # bs) (2 ^ mx)" using bs(2) entry by simp
    moreover have "used_bytes (bd_entry b k u # bs) = card {x \<in> bd_used_set M. b \<le> x}"
      using bd_used_from [OF C(2) b] bs(3) entry by (simp add: used_bytes_def bd_entry_def)
    moreover have "set (bd_entry b k u # bs) = {bd_entry c k u | c k u. b \<le> c \<and> M c = Some (k, u)}"
    proof -
      have "b \<le> c \<and> M c = Some (j, t) \<longleftrightarrow> c = b \<and> j = k \<and> t = u \<or> b + 2 ^ k \<le> c \<and> M c = Some (j, t)" for c j t
        using bd_part_inside [OF C(2) b, of c] b by (cases "c = b"; cases "c < b + 2 ^ k") auto
      then have "{bd_entry c k u | c k u. b \<le> c \<and> M c = Some (k, u)} =
          {bd_entry c j t | c j t. c = b \<and> j = k \<and> t = u \<or> b + 2 ^ k \<le> c \<and> M c = Some (j, t)}"
        by (simp only: )
      also have "\<dots> = insert (bd_entry b k u) {bd_entry c j t | c j t. b + 2 ^ k \<le> c \<and> M c = Some (j, t)}"
        by auto
      finally show ?thesis by (simp only: set_simps bs(4))
    qed
    ultimately show ?thesis by (intro exI [of _ "bd_entry b k u # bs"] conjI)
  qed
qed

lemma bd_walk_core:
  assumes core: "bd_core a M fls {}"
  shows "tiles 0 (bd_walk a) (2 ^ bd_max_order a)"
    and "used_bytes (bd_walk a) = card (bd_used_set M)"
    and "set (bd_walk a) = {bd_entry c k u | c k u. M c = Some (k, u)}"
proof -
  note C = bd_coreD [OF core]
  have "M 0 \<noteq> None" using bd_part_zero [OF C(2)] .
  then obtain bs where "bd_walk_loop (2 ^ bd_max_order a div 2 ^ bd_min_order a) a 0 = Some bs"
    "tiles 0 bs (2 ^ bd_max_order a)" "used_bytes bs = card (bd_used_set M)"
    "set bs = {bd_entry c k u | c k u. M c = Some (k, u)}"
    using bd_walk_loop_spec [OF core, of 0 "2 ^ bd_max_order a div 2 ^ bd_min_order a"] by auto
  moreover from this have "bd_walk a = bs" by (simp add: bd_walk_def bd_total_slots [OF C(1)])
  ultimately show "tiles 0 (bd_walk a) (2 ^ bd_max_order a)"
    and "used_bytes (bd_walk a) = card (bd_used_set M)"
    and "set (bd_walk a) = {bd_entry c k u | c k u. M c = Some (k, u)}" by simp_all
qed


subsection \<open>Live blocks and the invariant\<close>

definition bd_live :: "bd_alloc \<Rightarrow> addr \<rightharpoonup> nat" where
  "bd_live a =
     map_of (map (\<lambda>e. (bd_mem a + bi_offset e + BD_HDR, unat (bi_size e) - 16))
       (filter (\<lambda>e. \<not> bi_is_free e) (bd_walk a)))"

definition bd_coalesced :: "nat \<Rightarrow> bd_blocks \<Rightarrow> bool" where
  "bd_coalesced mx M \<longleftrightarrow>
     (\<forall>b k. M b = Some (k, False) \<longrightarrow> k < mx \<longrightarrow> M (bd_buddy k b) \<noteq> Some (k, False))"

definition bd_inv :: "bd_alloc \<Rightarrow> bool" where
  "bd_inv a \<longleftrightarrow> (\<exists>M fls. bd_core a M fls {} \<and> bd_coalesced (bd_max_order a) M \<and>
     unat (hs_used (bd_stats a)) = card (bd_used_set M))"

lemma bd_invE:
  assumes "bd_inv a"
  obtains M fls where "bd_core a M fls {}" and "bd_coalesced (bd_max_order a) M"
    and "unat (hs_used (bd_stats a)) = card (bd_used_set M)"
  using assms unfolding bd_inv_def by blast

lemma bd_invI:
  "bd_core a M fls {} \<Longrightarrow> bd_coalesced (bd_max_order a) M \<Longrightarrow>
   unat (hs_used (bd_stats a)) = card (bd_used_set M) \<Longrightarrow> bd_inv a"
  unfolding bd_inv_def by blast

lemma bd_live_iff:
  assumes core: "bd_core a M fls {}"
  shows "bd_live a p = Some m \<longleftrightarrow> (\<exists>b k. M b = Some (k, True) \<and> p = bd_at a b + BD_HDR \<and> m = 2 ^ k - 16)"
proof -
  note C = bd_coreD [OF core]
  let ?xs = "map (\<lambda>e. (bd_mem a + bi_offset e + BD_HDR, unat (bi_size e) - 16))
    (filter (\<lambda>e. \<not> bi_is_free e) (bd_walk a))"
  have k64: "k < 64" if "M b = Some (k, u)" for b k u
    using bd_partD(1) [OF C(2) that] C(1) by (simp add: bd_shape_def)
  have mem: "(p, m) \<in> set ?xs \<longleftrightarrow> (\<exists>b k. M b = Some (k, True) \<and> p = bd_at a b + BD_HDR \<and> m = 2 ^ k - 16)" for p m
    using k64 by (auto simp: bd_walk_core(3) [OF core] bd_entry_def bd_at_def image_iff; fastforce)
  have "v = w" if "(p, v) \<in> set ?xs" "(p, w) \<in> set ?xs" for v w
  proof -
    from that obtain b k c j where b: "M b = Some (k, True)" "p = bd_at a b + BD_HDR" "v = 2 ^ k - 16"
      and c: "M c = Some (j, True)" "p = bd_at a c + BD_HDR" "w = 2 ^ j - 16"
      unfolding mem by blast
    then have "b = c" using bd_at_inject [OF C(1,2) b(1) c(1)] by simp
    then show ?thesis using b c by simp
  qed
  then show ?thesis unfolding bd_live_def mem [symmetric] by (rule map_of_functional)
qed

lemma bd_live_addr:
  assumes core: "bd_core a M fls {}" and b: "M b = Some (k, u)"
  shows "unat (bd_at a b + BD_HDR) = unat (bd_mem a) + b + 16"
  using bd_at_block(1,8,9) [OF bd_coreD(1,2) [OF core] b] by (simp add: BD_HDR_def unat_add_nowrap)

lemma bd_live_disjoint:
  assumes "bd_inv a"
  shows "blocks_disjoint (bd_live a)"
proof -
  obtain M fls where core: "bd_core a M fls {}" using bd_invE [OF assms] by blast
  note C = bd_coreD [OF core]
  show ?thesis
    unfolding blocks_disjoint_def
  proof (intro allI impI)
    fix p q m l
    assume "bd_live a p = Some m" and "bd_live a q = Some l" and ne: "p \<noteq> q"
    then obtain b k c j where b: "M b = Some (k, True)" "p = bd_at a b + BD_HDR" "m = 2 ^ k - 16"
      and c: "M c = Some (j, True)" "q = bd_at a c + BD_HDR" "l = 2 ^ j - 16"
      unfolding bd_live_iff [OF core] by blast
    have "b \<noteq> c" using ne b c by auto
    then have "b + 2 ^ k \<le> c \<or> c + 2 ^ j \<le> b"
      using bd_part_inside [OF C(2) b(1), of c] bd_part_inside [OF C(2) c(1), of b] b(1) c(1)
      by (metis linorder_not_le nat_neq_iff option.distinct(1))
    moreover have "(16::nat) \<le> 2 ^ k" "(16::nat) \<le> 2 ^ j"
      using bd_at_block(8) [OF C(1,2) b(1)] bd_at_block(8) [OF C(1,2) c(1)] by simp_all
    ultimately show "unat p + m \<le> unat q \<or> unat q + l \<le> unat p"
      unfolding b c bd_live_addr [OF core b(1)] bd_live_addr [OF core c(1)] by linarith
  qed
qed

lemma bd_core_stats [simp]: "bd_core (a\<lparr>bd_stats := st\<rparr>) M fls H = bd_core a M fls H"
  by (simp add: bd_core_def bd_shape_def bd_at_def)

lemma bd_core_hold:
  assumes "bd_core a M fls {}" and "M b = Some (k, True)"
  shows "bd_core a M fls {b}"
  using assms unfolding bd_core_def by blast

lemma bd_used_set_cong:
  "(\<And>c j. M' c = Some (j, True) \<longleftrightarrow> M c = Some (j, True)) \<Longrightarrow> bd_used_set M' = bd_used_set M"
  by (simp add: bd_used_set_def)

text \<open>Handing out a block that was part of a free one, in terms of the used bytes.\<close>

lemma bd_used_set_grow:
  assumes part: "bd_part mn mx M" and b: "M b = Some (j, False)" "k \<le> j"
    and b': "M' b = Some (k, True)" and rest: "\<And>c i. c \<noteq> b \<Longrightarrow> M' c = Some (i, True) \<longleftrightarrow> M c = Some (i, True)"
  shows "card (bd_used_set M') = card (bd_used_set M) + 2 ^ k"
proof -
  have eq: "M' c = Some (i, True) \<longleftrightarrow> c = b \<and> i = k \<or> M c = Some (i, True)" for c i
    using rest b(1) b' by (cases "c = b") auto
  have "bd_used_set M' = {b..<b + 2 ^ k} \<union> bd_used_set M"
    unfolding bd_used_set_def eq by (auto, rule exI [of _ b], rule exI [of _ k], simp)
  moreover have "{b..<b + 2 ^ k} \<inter> bd_used_set M = {}"
  proof -
    have "x < b + 2 ^ j" if "x < b + 2 ^ k" for x
      by (rule less_le_trans [OF that]) (use b(2) in simp)
    then show ?thesis using bd_used_set_block [OF part b(1)] by auto
  qed
  ultimately show ?thesis using bd_used_set_finite [OF part] by (simp add: card_Un_disjoint)
qed


subsection \<open>Allocation\<close>

definition bd_need :: "u64 \<Rightarrow> u64 \<Rightarrow> u64" where
  "bd_need n al = (let need = n + BD_HDR in if al > need then al + BD_HDR else need)"

definition bd_fits :: "u64 \<Rightarrow> u64 \<Rightarrow> bool" where
  "bd_fits n al \<longleftrightarrow> n \<le> 2 ^ 63 - 16 \<and> al \<le> 2 ^ 63 - 16"

lemma bd_need_bounds:
  assumes "bd_fits n al"
  shows "unat n + 16 \<le> unat (bd_need n al)" and "bd_need n al \<le> 2 ^ 63" and "bd_need n al \<noteq> 0"
proof -
  have n: "unat n \<le> 2 ^ 63 - 16" and al: "unat al \<le> 2 ^ 63 - 16"
    using assms by (simp_all add: bd_fits_def word_le_nat_alt)
  then have "unat (n + BD_HDR) = unat n + 16" "unat (al + BD_HDR) = unat al + 16"
    by (simp_all add: BD_HDR_def unat_add_nowrap)
  then show 1: "unat n + 16 \<le> unat (bd_need n al)" and "bd_need n al \<le> 2 ^ 63"
    using n al by (auto simp: bd_need_def Let_def word_le_nat_alt word_less_nat_alt)
  then show "bd_need n al \<noteq> 0" by (auto simp: unat_eq_0)
qed

lemma bd_order_for:
  assumes "bd_fits n al"
  shows "bd_min_order a \<le> order_for a (bd_need n al)"
    and "unat (bd_need n al) \<le> 2 ^ order_for a (bd_need n al)"
    and "\<And>i. bd_min_order a \<le> i \<Longrightarrow> unat (bd_need n al) \<le> 2 ^ i \<Longrightarrow> order_for a (bd_need n al) \<le> i"
proof -
  obtain j where j: "j < 64" "hf_next_pow2 (bd_need n al) = 2 ^ j" "unat (bd_need n al) \<le> 2 ^ j"
    "j = 0 \<or> 2 ^ (j - 1) < unat (bd_need n al)"
    using hf_next_pow2_exponent [OF bd_need_bounds(3,2) [OF assms]] by metis
  have eq: "order_for a (bd_need n al) = (if j < bd_min_order a then bd_min_order a else j)"
    using j(1,2) by (simp add: order_for_def Let_def)
  show "bd_min_order a \<le> order_for a (bd_need n al)" by (simp add: eq)
  show "unat (bd_need n al) \<le> 2 ^ order_for a (bd_need n al)"
    by (rule order_trans [OF j(3)]) (simp add: eq)
  show "order_for a (bd_need n al) \<le> i" if "bd_min_order a \<le> i" "unat (bd_need n al) \<le> 2 ^ i" for i
  proof -
    have "j \<le> i"
    proof (cases "j = 0")
      case False
      then have "(2::nat) ^ (j - 1) < 2 ^ i" using j(4) that(2) by linarith
      then have "j - 1 < i" by (rule power_less_imp_less_exp [rotated]) simp
      then show ?thesis by simp
    qed simp
    then show ?thesis using that(1) by (simp add: eq)
  qed
qed

lemma bd_find_spec:
  "od \<le> Suc (bd_max_order a) \<Longrightarrow> od \<le> bd_find a od \<and> bd_find a od \<le> Suc (bd_max_order a) \<and>
   (\<forall>i. od \<le> i \<longrightarrow> i < bd_find a od \<longrightarrow> bd_free_lists a ! i = NULL) \<and>
   (bd_find a od \<le> bd_max_order a \<longrightarrow> bd_free_lists a ! bd_find a od \<noteq> NULL)"
proof (induction a od rule: bd_find.induct)
  case (1 a od)
  show ?case
  proof (cases "od \<le> bd_max_order a \<and> bd_free_lists a ! od = NULL")
    case True
    then have "bd_find a od = bd_find a (od + 1)" by (subst bd_find.simps) simp
    moreover have "i = od \<or> od + 1 \<le> i" if "od \<le> i" for i using that by auto
    ultimately show ?thesis using 1(1) [OF True] True by (metis Suc_eq_plus1 Suc_leD le_SucI not_less_eq_eq)
  next
    case False
    then have "bd_find a od = od" by (subst bd_find.simps) auto
    then show ?thesis using 1(2) False by auto
  qed
qed

text \<open>An empty free list means that the partition has no free block of its order.\<close>

lemma bd_no_free:
  assumes core: "bd_core a M fls H" and k: "k \<le> bd_max_order a" and "bd_free_lists a ! k = NULL"
  shows "M b \<noteq> Some (k, False)"
proof
  assume b: "M b = Some (k, False)"
  note C = bd_coreD [OF core]
  obtain l where "dl_seg (bd_cells a) NULL NULL (fls ! k) l NULL"
    using C(4) [OF k] assms(3) by (auto simp: dl_list_def)
  then have "fls ! k = []" by (cases "fls ! k") auto
  then show False using C(6) [OF k] b by auto
qed

lemma bd_coalesced_split:
  assumes coal: "bd_coalesced mx M" and part: "bd_part mn mx M'" and b: "M' b = Some (k, True)"
    and free: "\<And>c j. M' c = Some (j, False) \<Longrightarrow> M c = Some (j, False) \<or> bd_buddy j c = b"
  shows "bd_coalesced mx M'"
  unfolding bd_coalesced_def
proof (intro allI impI notI)
  fix c j
  assume c: "M' c = Some (j, False)" and j: "j < mx" and d: "M' (bd_buddy j c) = Some (j, False)"
  have "bd_buddy j (bd_buddy j c) = c"
    using bd_partD(1) [OF part c] by (intro bd_buddy_involution) simp
  then have "M c = Some (j, False)" and "M (bd_buddy j c) = Some (j, False)"
    using free [OF c] free [OF d] b c d by auto
  then show False using coal j by (auto simp: bd_coalesced_def)
qed


lemma bd_find_stats [simp]: "bd_find (a\<lparr>bd_stats := st\<rparr>) od = bd_find a od"
proof (induction a od rule: bd_find.induct)
  case (1 a od)
  show ?case
    by (subst (1 2) bd_find.simps) (use 1 in auto)
qed

lemma order_for_stats [simp]: "order_for (a\<lparr>bd_stats := st\<rparr>) n = order_for a n"
  by (simp add: order_for_def Let_def)

lemma bd_at_stats [simp]: "bd_at (a\<lparr>bd_stats := st\<rparr>) = bd_at a"
  by (simp add: bd_at_def fun_eq_iff)

lemma bd_at_used [simp]: "bd_at (bd_mark_used a p k) = bd_at a"
  by (simp add: bd_at_def fun_eq_iff bd_mark_used_def)

text \<open>
  A request either finds no free block that is large enough, or gets one carved out of a free block:
  every other used block keeps its place and size, and no two free buddies appear.
\<close>

lemma bd_allocate_core:
  assumes core: "bd_core a M fls {}" and coal: "bd_coalesced (bd_max_order a) M" and fit: "bd_fits n al"
  defines "k \<equiv> order_for a (bd_need n al)"
  obtains (refused) a' where "bd_allocate a n al = (None, a')" and "bd_core a' M fls {}"
      and "hs_used (bd_stats a') = hs_used (bd_stats a)" and "bd_mem a' = bd_mem a"
      and "bd_max_order a' = bd_max_order a" and "\<forall>b j. M b = Some (j, False) \<longrightarrow> j < k"
  | (granted) b j M' fls' a' where "bd_allocate a n al = (Some (bd_at a b + BD_HDR), a')"
      and "bd_core a' M' fls' {}" and "bd_coalesced (bd_max_order a') M'"
      and "M b = Some (j, False)" and "k \<le> j" and "M' b = Some (k, True)"
      and "\<forall>c i. c \<noteq> b \<longrightarrow> M' c = Some (i, True) \<longleftrightarrow> M c = Some (i, True)"
      and "hs_used (bd_stats a') = hs_used (bd_stats a) + 2 ^ k" and "bd_mem a' = bd_mem a"
      and "bd_max_order a' = bd_max_order a"
proof -
  let ?a = "a\<lparr>bd_stats := count_alloc (bd_stats a)\<rparr>"
  let ?od = "bd_find a k"
  have core1: "bd_core ?a M fls {}" using core by simp
  note C = bd_coreD [OF core1]
  have al: "bd_allocate a n al =
     (if k > bd_max_order a \<or> ?od > bd_max_order a
      then (None, ?a\<lparr>bd_stats := count_failed (bd_stats ?a)\<rparr>)
      else let (blk, a) = bd_pop ?a ?od; a = bd_split a blk ?od k; a = bd_mark_used a blk k
           in (Some (blk + BD_HDR),
               a\<lparr>bd_stats := raise_peak (set_used (hs_used (bd_stats a) + push_bit k 1) (bd_stats a)),
                 bd_cells := (bd_cells a)(blk := of_nat k)\<rparr>))"
    unfolding bd_allocate_def bd_need_def [symmetric, unfolded Let_def] k_def Let_def by simp
  have mn: "bd_min_order a \<le> k" unfolding k_def by (rule bd_order_for [OF fit])
  show thesis
  proof (cases "k > bd_max_order a \<or> ?od > bd_max_order a")
    case True
    have "j < k" if b: "M b = Some (j, False)" for b j
    proof (rule ccontr)
      assume "\<not> j < k"
      moreover have jm: "j \<le> bd_max_order a" using bd_partD(1) [OF C(2) b] by simp
      ultimately have "bd_free_lists a ! j = NULL"
        using True bd_find_spec [of k a] by auto
      then show False using bd_no_free [OF core jm] b by blast
    qed
    then show thesis using True core by (intro refused [of "?a\<lparr>bd_stats := count_failed (bd_stats ?a)\<rparr>"]) (simp_all add: al)
  next
    case False
    then have od: "k \<le> ?od" "?od \<le> bd_max_order ?a" "bd_free_lists ?a ! ?od \<noteq> NULL"
      using bd_find_spec [of k a] by auto
    obtain b fls1 where pop: "bd_pop ?a ?od = (bd_at ?a b, bd_unlink ?a (bd_at ?a b) ?od)"
      and b: "M b = Some (?od, False)"
      and core2: "bd_core (bd_unlink ?a (bd_at ?a b) ?od) (M(b \<mapsto> (?od, True))) fls1 {b}"
      using bd_core_pop [OF core1 od(2,3)] by metis
    let ?u = "bd_unlink ?a (bd_at ?a b) ?od"
    have st1: "bd_static ?u ?a" by (rule bd_static_ops)
    then have at: "bd_at ?u = bd_at a" and mn': "bd_min_order ?u \<le> k"
      using bd_static_at [OF st1] mn by (simp_all add: bd_static_def)
    let ?s = "bd_split ?u (bd_at a b) ?od k"
    obtain M' fls' where core3: "bd_core ?s M' fls' {b}" and b': "M' b = Some (k, True)"
      and st2: "bd_static ?s ?u"
      and used: "\<forall>c j. c \<noteq> b \<longrightarrow> M' c = Some (j, True) \<longleftrightarrow> c \<noteq> b \<and> (M(b \<mapsto> (?od, True))) c = Some (j, True)"
      and free: "\<forall>c j. M' c = Some (j, False) \<longrightarrow> (M(b \<mapsto> (?od, True))) c = Some (j, False) \<or> bd_buddy j c = b"
      using bd_split_core [OF core2 _ od(1) mn'] unfolding at by auto
    have st: "bd_static ?s ?a" by (rule bd_static_trans [OF st2 st1])
    then have at': "bd_at ?s = bd_at a" using bd_static_at by fastforce
    let ?r = "(bd_mark_used ?s (bd_at ?s b) k)\<lparr>bd_cells := (bd_cells ?s)(bd_at ?s b := of_nat k)\<rparr>"
    have core4: "bd_core ?r M' fls' {}" using bd_core_use [OF core3 b'] by simp
    have mx: "bd_max_order ?r = bd_max_order a" "bd_mem ?r = bd_mem a" "hs_used (bd_stats ?r) = hs_used (bd_stats a)"
      using st by (simp_all add: bd_static_def bd_mark_used_def)
    have coal': "bd_coalesced (bd_max_order a) M'"
    proof (rule bd_coalesced_split [OF coal])
      show "bd_part (bd_min_order ?r) (bd_max_order a) M'" using bd_coreD(2) [OF core4] mx(1) by simp
      show "M' b = Some (k, True)" by (rule b')
    qed (use free in \<open>auto split: if_splits\<close>)
    let ?z = "?r\<lparr>bd_stats := raise_peak (set_used (hs_used (bd_stats ?r) + push_bit k 1) (bd_stats ?r))\<rparr>"
    show thesis
    proof (rule granted [where b = b and j = ?od and M' = M' and fls' = fls' and a' = ?z])
      show "bd_allocate a n al = (Some (bd_at a b + BD_HDR), ?z)"
        using False by (simp add: al pop at' [simplified] Let_def) (rule bd_alloc.equality, simp_all add: bd_mark_used_def)
    qed (use core4 coal' mx used b od b' in \<open>auto simp: push_bit_eq_mult\<close>)
  qed
qed


subsection \<open>Release\<close>

lemma bd_coalesced_push:
  assumes coal: "bd_coalesced mx M" and part: "bd_part mn mx M'" and b: "M' b = Some (k, True)"
    and free: "\<And>c j. M' c = Some (j, False) \<Longrightarrow> M c = Some (j, False)"
    and top: "k = mx \<or> M' (bd_buddy k b) \<noteq> Some (k, False)"
  shows "bd_coalesced mx (M'(b \<mapsto> (k, False)))"
  unfolding bd_coalesced_def
proof (intro allI impI notI)
  fix c j
  assume c: "(M'(b \<mapsto> (k, False))) c = Some (j, False)" and j: "j < mx"
    and d: "(M'(b \<mapsto> (k, False))) (bd_buddy j c) = Some (j, False)"
  have "\<exists>u. M' c = Some (j, u)" using b c by (auto split: if_splits)
  then have dvd: "2 ^ j dvd c" using bd_partD(1) [OF part] by blast
  have ne: "bd_buddy j c \<noteq> c" by (rule bd_buddy_ne [OF dvd])
  have inv: "bd_buddy j (bd_buddy j c) = c" by (rule bd_buddy_involution [OF dvd])
  consider "c = b" | "bd_buddy j c = b" | "c \<noteq> b" "bd_buddy j c \<noteq> b" by blast
  then show False
  proof cases
    case 1
    then show False using c d top j ne by auto
  next
    case 2
    then show False using c d top j ne inv by auto
  next
    case 3
    then have "M c = Some (j, False)" "M (bd_buddy j c) = Some (j, False)" using c d free by simp_all
    then show False using coal j by (simp add: bd_coalesced_def)
  qed
qed

lemma bd_deallocate_core:
  assumes core: "bd_core a M fls {}" and coal: "bd_coalesced (bd_max_order a) M" and b: "M b = Some (k, True)"
  obtains a' M' fls' where "bd_deallocate a (bd_at a b + BD_HDR) = Inr a'" and "bd_core a' M' fls' {}"
    and "bd_coalesced (bd_max_order a') M'"
    and "\<forall>c i. M' c = Some (i, True) \<longleftrightarrow> c \<noteq> b \<and> M c = Some (i, True)"
    and "hs_used (bd_stats a') = hs_used (bd_stats a) - 2 ^ k" and "bd_mem a' = bd_mem a"
    and "bd_max_order a' = bd_max_order a"
proof -
  note C = bd_coreD [OF core]
  let ?p = "bd_at a b + BD_HDR"
  let ?a = "a\<lparr>bd_stats := set_used (hs_used (bd_stats a) - 2 ^ k) (count_free (bd_stats a))\<rparr>"
  have k: "bd_min_order a \<le> k" "k \<le> bd_max_order a" "k < 63"
    using bd_partD(1) [OF C(2) b] C(1) by (auto simp: bd_shape_def)
  have null: "?p \<noteq> NULL" using bd_live_addr [OF core b] by (auto simp: unat_eq_0)
  have tag: "bd_cells a (bd_at a b) = of_nat k" using C(8) [OF b] by simp
  have order: "unat (ucast (of_nat k :: u64) :: u32) = k"
    using k(3) by (simp add: unsigned_of_nat take_bit_nat_eq_self)
  have hold: "bd_core ?a M fls {b}" using bd_core_hold [OF core b] by simp
  obtain a1 b' k' M' fls' where mg: "bd_merge ?a (of_nat b) k = (a1, of_nat b', k')"
    and core1: "bd_core a1 M' fls' {b'}" and b': "M' b' = Some (k', True)" and st: "bd_static a1 ?a"
    and used: "\<forall>c j. c \<noteq> b' \<longrightarrow> M' c = Some (j, True) \<longleftrightarrow> c \<noteq> b \<and> M c = Some (j, True)"
    and free: "\<forall>c j. M' c = Some (j, False) \<longrightarrow> M c = Some (j, False)"
    and top: "k' = bd_max_order ?a \<or> M' (bd_buddy k' b') \<noteq> Some (k', False)"
    and place: "b' = b \<or> (\<exists>j. M b' = Some (j, False))"
    using bd_merge_core [OF hold b] by blast
  obtain fls2 where core2: "bd_core (bd_push a1 (bd_at a1 b') k') (M'(b' \<mapsto> (k', False))) fls2 {}"
    using bd_core_push [OF core1 b'] by auto
  have off: "bd_at a b + BD_HDR - BD_HDR - bd_mem a = of_nat b" by (simp add: bd_at_def)
  have "bd_deallocate a ?p = Inr (bd_push a1 (bd_at a1 b') k')"
    using null k mg off tag order
    by (simp add: bd_deallocate_def Let_def push_bit_eq_mult) (simp add: bd_at_def)
  moreover have "bd_static (bd_push a1 (bd_at a1 b') k') ?a"
    using bd_static_ops(1) st by (rule bd_static_trans)
  moreover have "bd_coalesced (bd_max_order a) (M'(b' \<mapsto> (k', False)))"
  proof (rule bd_coalesced_push [OF coal])
    show "bd_part (bd_min_order a1) (bd_max_order a) M'"
      using bd_coreD(2) [OF core1] st by (simp add: bd_static_def)
    show "M' b' = Some (k', True)" by (rule b')
  qed (use free top in auto)
  moreover have "(M'(b' \<mapsto> (k', False))) c = Some (i, True) \<longleftrightarrow> c \<noteq> b \<and> M c = Some (i, True)" for c i
    using used place by (cases "c = b'") auto
  ultimately show thesis
    using core2
    by (intro that [where a' = "bd_push a1 (bd_at a1 b') k'" and M' = "M'(b' \<mapsto> (k', False))" and fls' = fls2])
      (auto simp: bd_static_def)
qed

lemma bd_used_set_shrink:
  assumes part: "bd_part mn mx M" and b: "M b = Some (k, True)"
    and rest: "\<And>c i. M' c = Some (i, True) \<longleftrightarrow> c \<noteq> b \<and> M c = Some (i, True)"
  shows "card (bd_used_set M) = card (bd_used_set M') + 2 ^ k"
proof -
  let ?N = "M(b \<mapsto> (k, False))"
  have "bd_part mn mx ?N" by (rule bd_part_flag [OF part b])
  then have "card (bd_used_set M) = card (bd_used_set ?N) + 2 ^ k"
    by (rule bd_used_set_grow [of mn mx ?N b k]) (use b in auto)
  moreover have "bd_used_set ?N = bd_used_set M'" by (rule bd_used_set_cong) (auto simp: rest)
  ultimately show ?thesis by simp
qed


subsection \<open>Writes of a client\<close>

definition bd_client_write :: "bd_alloc \<Rightarrow> addr \<Rightarrow> u64 \<Rightarrow> bd_alloc" where
  "bd_client_write a x v = a\<lparr>bd_cells := (bd_cells a)(x := v)\<rparr>"

lemma bd_core_frame:
  assumes core: "bd_core a M fls {}"
    and same: "\<And>b k u. M b = Some (k, u) \<Longrightarrow> c (bd_at a b) = bd_cells a (bd_at a b) \<and>
      c (bd_at a b + 8) = bd_cells a (bd_at a b + 8) \<or> u \<and> c (bd_at a b) = bd_cells a (bd_at a b)"
  shows "bd_core (a\<lparr>bd_cells := c\<rparr>) M fls {}"
proof -
  note C = bd_coreD [OF core]
  have "dl_list c (bd_free_lists a ! k) (fls ! k)" if k: "k \<le> bd_max_order a" for k
  proof -
    obtain l where seg: "dl_seg (bd_cells a) NULL (bd_free_lists a ! k) (fls ! k) l NULL"
      using C(4) [OF k] by (auto simp: dl_list_def)
    have "dl_seg c NULL (bd_free_lists a ! k) (fls ! k) l NULL"
      using seg
    proof (rule dl_seg_cong)
      fix x assume "x \<in> set (fls ! k)"
      then obtain b where "M b = Some (k, False)" "x = bd_at a b" using C(6) [OF k] by auto
      then show "c x = bd_cells a x \<and> c (x + 8) = bd_cells a (x + 8)" using same by blast
    qed
    then show ?thesis by (auto simp: dl_list_def)
  qed
  moreover have "c (bd_at a b) = bd_cells a (bd_at a b)" if "M b = Some (k, True)" for b k
    using same [OF that] by blast
  ultimately show ?thesis
    using core by (simp add: bd_core_def bd_shape_def bd_at_def)
qed

lemma bd_client_write_core:
  assumes core: "bd_core a M fls {}" and blk: "in_block (bd_live a) p x"
  shows "bd_core (bd_client_write a x v) M fls {}"
proof -
  note C = bd_coreD [OF core]
  from blk obtain m where "bd_live a p = Some m" and x: "unat p \<le> unat x" "unat x < unat p + m"
    by (auto simp: in_block_def split: option.splits)
  then obtain b k where b: "M b = Some (k, True)" "p = bd_at a b + BD_HDR" "m = 2 ^ k - 16"
    unfolding bd_live_iff [OF core] by blast
  have x': "unat (bd_mem a) + b + 16 \<le> unat x" "unat x < unat (bd_mem a) + b + 2 ^ k"
    using x bd_live_addr [OF core b(1)] bd_at_block(8) [OF C(1,2) b(1)] unfolding b(2,3) by linarith+
  have "x \<noteq> bd_at a c \<and> x \<noteq> bd_at a c + 8" if c: "M c = Some (j, u)" for c j u
  proof -
    have cc: "unat (bd_at a c) = unat (bd_mem a) + c" "unat (bd_at a c + 8) = unat (bd_mem a) + c + 8"
      "32 \<le> (2::nat) ^ j"
      using bd_at_block(1,8,9) [OF C(1,2) c] by (simp_all add: unat_add_nowrap)
    have "b = c \<or> b + 2 ^ k \<le> c \<or> c + 2 ^ j \<le> b"
      using bd_part_inside [OF C(2) b(1), of c] bd_part_inside [OF C(2) c, of b] b(1) c
      by (metis linorder_not_le nat_neq_iff option.distinct(1))
    then have "unat x \<noteq> unat (bd_at a c)" "unat x \<noteq> unat (bd_at a c + 8)"
      using x' cc by linarith+
    then show ?thesis by auto
  qed
  then show ?thesis
    unfolding bd_client_write_def by (intro bd_core_frame [OF core]) auto
qed


subsection \<open>The contracts\<close>

lemma bd_live_eq:
  assumes "bd_core a M fls {}" and "bd_core a' M' fls' {}" and "bd_mem a' = bd_mem a"
    and used: "\<And>c i. M' c = Some (i, True) \<longleftrightarrow> M c = Some (i, True)"
  shows "bd_live a' = bd_live a"
proof -
  have "bd_live a' p = Some m \<longleftrightarrow> bd_live a p = Some m" for p m
    unfolding bd_live_iff [OF assms(1)] bd_live_iff [OF assms(2)] used by (simp add: bd_at_def assms(3))
  then show ?thesis by (rule map_eqI)
qed

lemma bd_live_upd:
  assumes core: "bd_core a M fls {}" and core': "bd_core a' M' fls' {}" and mem: "bd_mem a' = bd_mem a"
    and b: "M b = Some (j, False)" "M' b = Some (k, True)"
    and used: "\<And>c i. c \<noteq> b \<Longrightarrow> M' c = Some (i, True) \<longleftrightarrow> M c = Some (i, True)"
  shows "bd_live a (bd_at a b + BD_HDR) = None"
    and "bd_live a' = (bd_live a)(bd_at a b + BD_HDR \<mapsto> 2 ^ k - 16)"
proof -
  note C = bd_coreD [OF core]
  have other: "p \<noteq> bd_at a b + BD_HDR" if "M c = Some (i, True)" "p = bd_at a c + BD_HDR" for p c i
    using bd_at_inject [OF C(1,2) that(1) b(1)] that b(1) by auto
  show none: "bd_live a (bd_at a b + BD_HDR) = None"
    using bd_live_iff [OF core] other by (metis not_None_eq)
  have all: "M' c = Some (i, True) \<longleftrightarrow> c = b \<and> i = k \<or> M c = Some (i, True)" for c i
    using used b by (cases "c = b") auto
  have "bd_live a' p = Some m \<longleftrightarrow> ((bd_live a)(bd_at a b + BD_HDR \<mapsto> 2 ^ k - 16)) p = Some m" for p m
  proof (cases "p = bd_at a b + BD_HDR")
    case True
    then show ?thesis
      unfolding bd_live_iff [OF core'] all using other [of _ _ p] by (auto simp: bd_at_def mem)
  next
    case False
    then show ?thesis
      unfolding bd_live_iff [OF core'] all using bd_live_iff [OF core, of p m] by (auto simp: bd_at_def mem)
  qed
  then show "bd_live a' = (bd_live a)(bd_at a b + BD_HDR \<mapsto> 2 ^ k - 16)" by (rule map_eqI)
qed

lemma bd_card_bound: "bd_core a M fls H \<Longrightarrow> card (bd_used_set M) < 2 ^ 63"
proof -
  assume "bd_core a M fls H"
  note C = bd_coreD [OF this]
  have "card (bd_used_set M) \<le> 2 ^ bd_max_order a"
    using card_mono [OF _ bd_used_set_sub [OF C(2)]] by simp
  also have "\<dots> < 2 ^ 63" using C(1) by (simp add: bd_shape_def)
  finally show ?thesis .
qed

lemma bd_allocate_cases:
  assumes inv: "bd_inv a" and fit: "bd_fits n al"
  obtains (refused) a' where "bd_allocate a n al = (None, a')" and "bd_inv a'" and "bd_live a' = bd_live a"
      and "\<forall>e \<in> set (bd_walk a). bi_is_free e \<longrightarrow> unat (bi_size e) < unat (bd_need n al)"
  | (granted) p k a' where "bd_allocate a n al = (Some p, a')" and "bd_inv a'" and "bd_live a p = None"
      and "k = order_for a (bd_need n al)" and "bd_live a' = (bd_live a)(p \<mapsto> 2 ^ k - 16)"
      and "unat n + 16 \<le> 2 ^ k" and "p \<noteq> NULL" and "unat p mod 32 = 16"
proof -
  obtain M fls where core: "bd_core a M fls {}" and coal: "bd_coalesced (bd_max_order a) M"
    and us: "unat (hs_used (bd_stats a)) = card (bd_used_set M)"
    using bd_invE [OF inv] by blast
  note C = bd_coreD [OF core]
  let ?k = "order_for a (bd_need n al)"
  show thesis
  proof (rule bd_allocate_core [OF core coal fit], goal_cases)
    case (1 a')
    have "unat (bi_size e) < unat (bd_need n al)" if e: "e \<in> set (bd_walk a)" and fr: "bi_is_free e" for e
    proof -
      obtain b j where b: "M b = Some (j, False)" "e = bd_entry b j False"
      proof -
        from e obtain b j u where "M b = Some (j, u)" "e = bd_entry b j u"
          unfolding bd_walk_core(3) [OF core] by blast
        then show thesis using fr by (intro that) (auto simp: bd_entry_def)
      qed
      have j: "bd_min_order a \<le> j" "j < 64" using bd_partD(1) [OF C(2) b(1)] C(1) by (auto simp: bd_shape_def)
      have "\<not> unat (bd_need n al) \<le> 2 ^ j"
        using bd_order_for(3) [OF fit j(1)] 1(6) b(1) by fastforce
      then show ?thesis using b(2) j(2) by (simp add: bd_entry_def)
    qed
    moreover have "bd_live a' = bd_live a" by (rule bd_live_eq [OF core 1(2,4)]) simp
    moreover have "bd_inv a'" using 1 coal us by (intro bd_invI [OF 1(2)]) simp_all
    ultimately show thesis by (intro refused [OF 1(1)]) simp_all
  next
    case (2 b j M' fls' a')
    have cd: "card (bd_used_set M') = card (bd_used_set M) + 2 ^ ?k"
      by (rule bd_used_set_grow [OF C(2) 2(4,5)]) (use 2(6,7) in blast)+
    have k: "?k < 64" using 2(5) bd_partD(1) [OF C(2) 2(4)] C(1) by (auto simp: bd_shape_def)
    have "unat (hs_used (bd_stats a')) = card (bd_used_set M')"
      unfolding 2(8) using us cd k bd_card_bound [OF 2(2)] by (subst unat_add_nowrap) auto
    then have inv': "bd_inv a'" by (rule bd_invI [OF 2(2,3)])
    have live: "bd_live a (bd_at a b + BD_HDR) = None"
        "bd_live a' = (bd_live a)(bd_at a b + BD_HDR \<mapsto> 2 ^ ?k - 16)"
      using bd_live_upd [OF core 2(2,9,4,6)] 2(7) by blast+
    have addr: "unat (bd_at a b + BD_HDR) = unat (bd_mem a) + b + 16" by (rule bd_live_addr [OF core 2(4)])
    have "32 dvd unat (bd_mem a) + b"
      using C(1) bd_at_block(4) [OF C(1,2) 2(4)] by (simp add: bd_shape_def)
    then have "unat (bd_at a b + BD_HDR) mod 32 = 16" unfolding addr by (auto simp: dvd_def)
    moreover have "bd_at a b + BD_HDR \<noteq> NULL" using addr by (auto simp: unat_eq_0)
    moreover have "unat n + 16 \<le> 2 ^ ?k"
      using bd_need_bounds(1) [OF fit] bd_order_for(2) [OF fit, of a] by linarith
    ultimately show thesis using inv' live by (intro granted [OF 2(1)]) simp_all
  qed
qed

lemma bd_deallocate_live:
  assumes inv: "bd_inv a" and live: "bd_live a p \<noteq> None"
  obtains a' where "bd_deallocate a p = Inr a'" and "bd_inv a'" and "bd_live a' = (bd_live a)(p := None)"
proof -
  obtain M fls where core: "bd_core a M fls {}" and coal: "bd_coalesced (bd_max_order a) M"
    and us: "unat (hs_used (bd_stats a)) = card (bd_used_set M)"
    using bd_invE [OF inv] by blast
  note C = bd_coreD [OF core]
  obtain b k where b: "M b = Some (k, True)" "p = bd_at a b + BD_HDR"
    using live unfolding not_None_eq bd_live_iff [OF core] by blast
  show thesis
  proof (rule bd_deallocate_core [OF core coal b(1)], goal_cases)
    case (1 a' M' fls')
    have cd: "card (bd_used_set M) = card (bd_used_set M') + 2 ^ k"
      by (rule bd_used_set_shrink [OF C(2) b(1)]) (use 1(4) in blast)
    have k: "k < 64" using bd_partD(1) [OF C(2) b(1)] C(1) by (auto simp: bd_shape_def)
    have "unat (hs_used (bd_stats a')) = card (bd_used_set M')"
      unfolding 1(5) using us cd k by (subst unat_sub_nowrap) auto
    then have "bd_inv a'" by (rule bd_invI [OF 1(2,3)])
    moreover have "bd_live a' = (bd_live a)(p := None)"
    proof -
      have "bd_live a' q = Some m \<longleftrightarrow> ((bd_live a)(p := None)) q = Some m" for q m
      proof (cases "q = p")
        case True
        then show ?thesis
          unfolding bd_live_iff [OF 1(2)] using bd_at_inject [OF C(1,2) _ b(1)] 1(4,6) b(2)
          by (auto simp: bd_at_def)
      next
        case False
        then show ?thesis
          unfolding bd_live_iff [OF 1(2)] using bd_live_iff [OF core, of q m] 1(4,6) b(2)
          by (auto simp: bd_at_def)
      qed
      then show ?thesis by (rule map_eqI)
    qed
    ultimately show thesis using 1(1) b(2) by (intro that) simp_all
  qed
qed


interpretation bd: allocator_contract bd_inv bd_allocate bd_deallocate bd_live bd_fits
    "\<lambda>a p. bd_live a p \<noteq> None" bd_client_write
proof (unfold_locales, goal_cases)
  case (1 s n al)
  then show ?case by (rule bd_allocate_cases) simp_all
next
  case (2 s n al s')
  show ?case by (rule bd_allocate_cases [OF 2(1,2)]) (use 2(3) in simp_all)
next
  case (3 s n al p s')
  show ?case
  proof (rule bd_allocate_cases [OF 3(1,2)], goal_cases)
    case (2 q k a')
    then have "unat n \<le> 2 ^ k - 16" by linarith
    then show ?case using 2 3(3) by auto
  qed (use 3(3) in simp)
next
  case (4 s)
  then show ?case by (rule bd_live_disjoint)
next
  case (5 s p)
  show ?case by (rule bd_deallocate_live [OF 5]) (use 5 in simp)
next
  case (6 s p x v)
  obtain M fls where core: "bd_core s M fls {}" and coal: "bd_coalesced (bd_max_order s) M"
    and us: "unat (hs_used (bd_stats s)) = card (bd_used_set M)"
    using bd_invE [OF 6(1)] by blast
  note core' = bd_client_write_core [OF core 6(2), of v]
  have "bd_inv (bd_client_write s x v)"
    using coal us by (intro bd_invI [OF core']) (simp_all add: bd_client_write_def)
  moreover have "bd_live (bd_client_write s x v) = bd_live s"
    by (rule bd_live_eq [OF core core']) (simp_all add: bd_client_write_def)
  ultimately show ?case ..
qed

interpretation bd_layout: layout_contract bd_inv bd_walk "\<lambda>a. 2 ^ bd_max_order a"
    "\<lambda>a. unat (hs_used (bd_stats a))"
proof (unfold_locales, goal_cases)
  case (1 s)
  then show ?case using bd_walk_core(1) by (blast elim: bd_invE)
next
  case (2 s)
  then obtain M fls where "bd_core s M fls {}" "unat (hs_used (bd_stats s)) = card (bd_used_set M)"
    by (blast elim: bd_invE)
  then show ?case using bd_walk_core(2) by simp
qed


subsection \<open>Creation\<close>

definition bd_blank :: "addr \<Rightarrow> nat \<Rightarrow> nat \<Rightarrow> bd_alloc" where
  "bd_blank mem mn mx =
     \<lparr>bd_mem = mem, bd_capacity = 2 ^ mx, bd_min_order = mn, bd_max_order = mx,
      bd_free_lists = replicate (mx + 1) NULL,
      bd_order_map = replicate (unat (drop_bit mn (2 ^ mx :: u64))) 0, bd_cells = (\<lambda>_. 0),
      bd_stats = stats_zero\<lparr>hs_capacity := 2 ^ mx\<rparr>\<rparr>"

lemma bd_blank_core:
  assumes mn: "5 \<le> mn" "mn \<le> mx" and mem: "mem \<noteq> NULL" "32 dvd unat mem" "unat mem + 2 ^ mx < 2 ^ 63"
  shows "bd_core (bd_blank mem mn mx) [0 \<mapsto> (mx, True)] (replicate (Suc mx) []) {0}"
proof -
  have "(2::nat) ^ mx < 2 ^ 63" using mem(3) by linarith
  then have mx: "mx < 63" by (rule power_less_imp_less_exp [rotated]) simp
  have "0 < unat mem" using mem(1) by (simp add: unat_gt_0)
  then have shape: "bd_shape (bd_blank mem mn mx)"
    using mn mem mx by (simp add: bd_shape_def bd_blank_def unat_drop_bit_div power_diff)
  have part: "bd_part mn mx [0 \<mapsto> (mx, True)]"
    unfolding bd_part_def using mn by (auto simp: bd_covers_def split: if_splits)
  have "set (replicate (Suc mx) [] ! k) = bd_at (bd_blank mem mn mx) ` {b. [0 \<mapsto> (mx, True)] b = Some (k, False)}"
    if "k \<le> mx" for k
    using that by (auto simp: nth_replicate simp del: replicate_Suc split: if_splits)
  moreover have "dl_list c (replicate (Suc mx) NULL ! k) (replicate (Suc mx) [] ! k)" if "k \<le> mx" for k c
    using that by (simp add: dl_list_def nth_replicate del: replicate_Suc)
  moreover have "distinct (replicate (Suc mx) [] ! k)" if "k \<le> mx" for k
    using that by (simp add: nth_replicate del: replicate_Suc)
  ultimately show ?thesis
    using shape part unfolding bd_core_def by (simp add: bd_blank_def del: replicate_Suc split: if_splits)
qed

lemma hf_vm_reserve_rounds:
  assumes "os_wf os"
  shows "hf_vm_reserve os (hf_align_up n (os_page_size os)) = hf_vm_reserve os n"
  using os_page_align_idem [OF assms] by (simp add: hf_vm_reserve_def Let_def)

lemma hf_buddy_create_orders:
  assumes "min_block \<le> 2 ^ 63" and "capacity \<le> 2 ^ 63"
  defines "mb \<equiv> hf_next_pow2 (if min_block < 16 + BD_HDR then 16 + BD_HDR else min_block)"
  defines "cp \<equiv> hf_next_pow2 (if capacity < mb then mb else capacity)"
  obtains mn mx where "mb = 2 ^ mn" and "cp = 2 ^ mx" and "5 \<le> mn" and "mn \<le> mx" and "mx < 64"
    and "unat capacity \<le> 2 ^ mx" and "mb \<le> 2 ^ 63"
proof -
  let ?m = "if min_block < 16 + BD_HDR then 16 + BD_HDR else min_block"
  have m: "?m \<noteq> 0" "?m \<le> 2 ^ 63" "32 \<le> unat ?m"
    using assms(1) by (auto simp: BD_HDR_def word_le_nat_alt word_less_nat_alt)
  obtain mn where mn: "mn < 64" "mb = 2 ^ mn" "unat ?m \<le> 2 ^ mn"
    using hf_next_pow2_exponent [OF m(1,2)] unfolding mb_def by metis
  have "(2::nat) ^ 5 \<le> 2 ^ mn" using m(3) mn(3) by simp
  then have "5 \<le> mn" by (rule power_le_imp_le_exp [rotated]) simp
  let ?c = "if capacity < mb then mb else capacity"
  have "(2::nat) ^ mn \<le> 2 ^ 63" using mn(1) by (intro power_increasing) simp_all
  then have mb63: "mb \<le> 2 ^ 63" using mn(1,2) by (simp add: word_le_nat_alt)
  then have c: "?c \<noteq> 0" "?c \<le> 2 ^ 63" "2 ^ mn \<le> unat ?c" "unat capacity \<le> unat ?c"
    using assms(2) mn(1,2) by (auto simp: word_less_nat_alt not_less split: if_splits)
  obtain mx where mx: "mx < 64" "cp = 2 ^ mx" "unat ?c \<le> 2 ^ mx"
    using hf_next_pow2_exponent [OF c(1,2)] unfolding cp_def by metis
  have "(2::nat) ^ mn \<le> 2 ^ mx" using c(3) mx(3) by linarith
  then have "mn \<le> mx" by (rule power_le_imp_le_exp [rotated]) simp
  then show thesis using that mn mx \<open>5 \<le> mn\<close> c(4) mb63 by auto
qed

lemma hf_buddy_create_Some:
  assumes os: "os_wf os" and mb: "min_block \<le> 2 ^ 63"
    and ret: "hf_buddy_create os capacity min_block = (cs, Some a)"
  obtains mem mn mx where "a = bd_push (bd_blank mem mn mx) mem mx" and "5 \<le> mn" and "mn \<le> mx"
    and "mem \<noteq> NULL" and "32 dvd unat mem" and "unat mem + 2 ^ mx < 2 ^ 63" and "unat capacity \<le> 2 ^ mx"
    and "vm_held (cs @ bd_destroy os a) {} = {}"
proof -
  define m where "m = hf_next_pow2 (if min_block < 16 + BD_HDR then 16 + BD_HDR else min_block)"
  define c where "c = hf_next_pow2 (if capacity < m then m else capacity)"
  from ret obtain mem where res: "hf_vm_reserve os c = (cs, Some mem)"
    and a: "a = bd_push
         \<lparr>bd_mem = mem, bd_capacity = c, bd_min_order = hf_log2_floor m, bd_max_order = hf_log2_floor c,
          bd_free_lists = replicate (hf_log2_floor c + 1) NULL,
          bd_order_map = replicate (unat (drop_bit (hf_log2_floor m) c)) 0, bd_cells = (\<lambda>_. 0),
          bd_stats = stats_zero\<lparr>hs_capacity := c\<rparr>\<rparr> mem (hf_log2_floor c)"
    unfolding hf_buddy_create_def Let_def m_def [symmetric] c_def [symmetric]
    by (auto split: if_splits prod.splits option.splits)
  note R = hf_vm_reserve_Some [OF os refl, of c, unfolded hf_vm_reserve_rounds [OF os], OF res]
  obtain k where k: "12 \<le> k" "k < 32" "os_page_size os = 2 ^ k" using os_wfD [OF os] by metis
  have "capacity \<le> 2 ^ 63"
  proof (rule ccontr)
    assume "\<not> capacity \<le> 2 ^ 63"
    moreover have "m \<le> 2 ^ 63"
      by (rule hf_buddy_create_orders [OF mb order_refl, folded m_def])
    ultimately have "c = 0"
      unfolding c_def by (subst if_not_P) (auto simp: not_le intro!: hf_next_pow2_above)
    then show False using R(4) k by (simp add: hf_align_up_def)
  qed
  then obtain mn mx where o: "m = 2 ^ mn" "c = 2 ^ mx" "5 \<le> mn" "mn \<le> mx" "mx < 64" "unat capacity \<le> 2 ^ mx"
    using hf_buddy_create_orders [OF mb, of capacity, folded m_def, folded c_def] by metis
  have "(2::nat) ^ mx + 2 ^ k \<le> 2 ^ 63 + 2 ^ 32"
    using o(5) k(2) by (intro add_mono power_increasing) simp_all
  then have "unat c \<le> unat (hf_align_up c (os_page_size os))"
    unfolding k(3) using o(2,5) k(2) by (intro hf_align_up_bounds(1)) simp_all
  then have fit: "unat mem + 2 ^ mx < 2 ^ 63" using R(3) o(2,5) by simp
  have "(2::nat) ^ 5 dvd 2 ^ k" using k(1) by (intro le_imp_power_dvd) simp
  moreover have "unat (os_page_size os) = 2 ^ k" using k by simp
  ultimately have "32 dvd unat mem" using R(5) dvd_trans [of "32" "2 ^ k" "unat mem"] by simp
  moreover have "a = bd_push (bd_blank mem mn mx) mem mx"
    using a o by (simp add: bd_blank_def)
  moreover from this have "bd_destroy os a = [Vm_release mem (hf_align_up c (os_page_size os))]"
    using R(1) o(2) bd_static_ops(1) [of "bd_blank mem mn mx" mem mx]
    by (simp add: bd_destroy_def hf_vm_release_def bd_static_def bd_blank_def)
  then have "vm_held (cs @ bd_destroy os a) {} = {}" by (simp add: R(6))
  ultimately show thesis using that o fit R(1) by blast
qed

lemma hf_buddy_create_inv:
  assumes "os_wf os" and "min_block \<le> 2 ^ 63" and "hf_buddy_create os capacity min_block = (cs, Some a)"
  shows "bd_inv a" and "bd_live a = Map.empty"
proof -
  obtain mem mn mx where a: "a = bd_push (bd_blank mem mn mx) mem mx" and mn: "5 \<le> mn" "mn \<le> mx"
    and mem: "mem \<noteq> NULL" "32 dvd unat mem" "unat mem + 2 ^ mx < 2 ^ 63"
    using hf_buddy_create_Some [OF assms] by metis
  let ?M = "[0 \<mapsto> (mx, False)] :: bd_blocks"
  have at: "bd_at (bd_blank mem mn mx) 0 = mem" by (simp add: bd_at_def bd_blank_def)
  obtain fls where core: "bd_core a ?M fls {}"
    using bd_core_push [OF bd_blank_core [OF mn mem], of 0 mx] unfolding at a by auto
  have st: "bd_max_order a = mx" "hs_used (bd_stats a) = 0"
    using bd_static_ops(1) [of "bd_blank mem mn mx" mem mx]
    by (simp_all add: a bd_static_def bd_blank_def stats_zero_def)
  have none: "?M c \<noteq> Some (i, True)" for c i by simp
  show "bd_inv a"
    by (rule bd_invI [OF core]) (use st none in \<open>simp_all add: bd_coalesced_def bd_used_set_def split: if_splits\<close>)
  show "bd_live a = Map.empty" by (rule map_eqI) (use none in \<open>simp add: bd_live_iff [OF core]\<close>)
qed


subsection \<open>No lasting fragmentation\<close>

lemma bd_all_free:
  assumes core: "bd_core a M fls {}" and coal: "bd_coalesced (bd_max_order a) M"
    and free: "\<And>b k. M b \<noteq> Some (k, True)"
  shows "M 0 = Some (bd_max_order a, False)"
proof -
  note C = bd_coreD [OF core]
  obtain k u where z: "M 0 = Some (k, u)" using bd_part_zero [OF C(2)] by auto
  define m where "m = (LEAST k. \<exists>b. M b = Some (k, False))"
  have z': "M 0 = Some (k, False)" using z free [of 0 k] by (cases u) simp_all
  then have "m \<le> k" unfolding m_def by (intro Least_le) blast
  have "\<exists>b. M b = Some (m, False)" unfolding m_def by (rule LeastI) (use z' in blast)
  then obtain b where b: "M b = Some (m, False)" by blast
  have "m \<ge> bd_max_order a"
  proof (rule ccontr)
    assume m: "\<not> m \<ge> bd_max_order a"
    then obtain j v where jv: "M (bd_buddy m b) = Some (j, v)" "j \<le> m"
      using bd_part_buddy [OF C(2) b] by auto
    then have v: "M (bd_buddy m b) = Some (j, False)" using free [of _ j] by (cases v) auto
    then have "m \<le> j" unfolding m_def by (intro Least_le) blast
    then show False using coal b v jv(2) m by (simp add: bd_coalesced_def)
  qed
  then have "k = bd_max_order a" using \<open>m \<le> k\<close> bd_partD(1) [OF C(2) z'] by simp
  then show ?thesis using z' by simp
qed

lemma bd_walk_whole:
  assumes inv: "bd_inv a" and live: "bd_live a = Map.empty"
  shows "bd_walk a = [\<lparr>bi_offset = 0, bi_size = bd_capacity a, bi_is_free = True\<rparr>]"
proof -
  obtain M fls where core: "bd_core a M fls {}" and coal: "bd_coalesced (bd_max_order a) M"
    using bd_invE [OF inv] by blast
  note C = bd_coreD [OF core]
  let ?e = "bd_entry 0 (bd_max_order a) False"
  have none: "M b \<noteq> Some (k, True)" for b k
    using live bd_live_iff [OF core, of "bd_at a b + BD_HDR" "2 ^ k - 16"] by auto
  have z: "M 0 = Some (bd_max_order a, False)" by (rule bd_all_free [OF core coal none])
  have only: "c = 0 \<and> k = bd_max_order a \<and> u = False" if c: "M c = Some (k, u)" for c k u
  proof -
    have "c = 0" using bd_part_inside [OF C(2) z, of c] bd_at_block(5) [OF C(1,2) c] c by fastforce
    then show ?thesis using c z by simp
  qed
  have mem: "x = ?e" if x: "x \<in> set (bd_walk a)" for x
  proof -
    obtain c k u where "x = bd_entry c k u" "M c = Some (k, u)"
      using x unfolding bd_walk_core(3) [OF core] by blast
    then show ?thesis using only [of c k u] by simp
  qed
  have ne: "bd_walk a \<noteq> []"
    using bd_walk_core(1) [OF core] by (cases "bd_walk a") simp_all
  have mx: "bd_max_order a < 64" "bd_capacity a = 2 ^ bd_max_order a" using C(1) by (auto simp: bd_shape_def)
  have e: "unat (bi_offset ?e) = 0" "unat (bi_size ?e) = 2 ^ bd_max_order a"
    using mx by (simp_all add: bd_entry_def)
  obtain bs where w: "bd_walk a = ?e # bs"
  proof (cases "bd_walk a")
    case Nil
    then show thesis using ne by simp
  next
    case (Cons x xs)
    then show thesis using mem [of x] that by simp
  qed
  have "bs = []"
  proof (cases bs)
    case (Cons x xs)
    then have "x = ?e" using mem [of x] w by simp
    then show ?thesis using bd_walk_core(1) [OF core] e w Cons by simp
  qed simp
  then show ?thesis using w mx by (simp add: bd_entry_def)
qed


subsection \<open>An example allocator\<close>

definition bd_example :: bd_alloc where
  "bd_example = bd_push (bd_blank 0x100000 10 12) 0x100000 12"

lemma bd_example_create:
  "hf_buddy_create os_example 4096 1024 = ([Vm_reserve 4096 (Some 0x100000)], Some bd_example)"
proof -
  have "replicate 13 NULL = NULL # replicate 12 NULL" by (simp add: numeral_eq_Suc)
  then show ?thesis
    using hf_next_pow2_pow2 [of 10] hf_next_pow2_pow2 [of 12] hf_log2_floor_pow2 [of 10] hf_log2_floor_pow2 [of 12]
    by (simp add: hf_buddy_create_def hf_vm_reserve_def os_example_def BD_HDR_def bd_example_def bd_blank_def
        hf_align_up_def Let_def)
qed

lemmas bd_example_inv = hf_buddy_create_inv [OF os_example_wf _ bd_example_create, simplified]

lemma bd_fits_example: "bd_fits 100 16" "bd_fits 8 16"
  by (simp_all add: bd_fits_def)

lemma bd_example_allocate: "fst (bd_allocate bd_example 100 16) = Some 0x100010"
  unfolding bd_example_def bd_blank_def by code_simp


subsection \<open>Properties\<close>

text \<open>
  C28: \<^verbatim>\<open>bd_allocate\<close> keeps the invariant.  A request whose size computation does not wrap either gets
  a block that was not live, of the smallest power of two (not below the minimum) that holds the
  request and its header, or is refused because no free block is as large as what it needs.
\<close>

theorem bd_allocate_correct:
  assumes "bd_inv a" and "bd_fits n al"
  shows "case bd_allocate a n al of
      (None, a') \<Rightarrow> bd_inv a' \<and> bd_live a' = bd_live a \<and>
        (\<forall>e \<in> set (bd_walk a). bi_is_free e \<longrightarrow> unat (bi_size e) < unat (bd_need n al))
    | (Some p, a') \<Rightarrow> bd_inv a' \<and> p \<noteq> NULL \<and> bd_live a p = None \<and>
        (\<exists>k. bd_min_order a \<le> k \<and> unat n + 16 \<le> 2 ^ k \<and>
           (\<forall>i. bd_min_order a \<le> i \<longrightarrow> unat (bd_need n al) \<le> 2 ^ i \<longrightarrow> k \<le> i) \<and>
           bd_live a' = (bd_live a)(p \<mapsto> 2 ^ k - 16))"
  by (rule bd_allocate_cases [OF assms])
    (use bd_order_for [OF assms(2)] in \<open>auto intro!: exI [of _ "order_for a (bd_need n al)"]\<close>)

theorem bd_allocate_correct_witness:
  "\<exists>a' k. bd_allocate bd_example 100 16 = (Some 0x100010, a') \<and> bd_inv a' \<and>
     bd_live a' = [0x100010 \<mapsto> 2 ^ k - 16]"
  using bd_allocate_correct [OF bd_example_inv(1) bd_fits_example(1)] bd_example_allocate bd_example_inv(2)
  by (cases "bd_allocate bd_example 100 16") auto

text \<open>
  C29: a client of a freshly created buddy allocator that makes admissible requests, frees only live
  blocks and writes only inside its blocks never runs into an assertion, and its blocks are
  pairwise disjoint at every point.
\<close>

theorem buddy_client_safe:
  assumes "os_wf os" and "min_block \<le> 2 ^ 63" and "hf_buddy_create os capacity min_block = (cs, Some a)"
    and "well_behaved bd_allocate bd_deallocate bd_client_write bd_live bd_fits (\<lambda>a p. bd_live a p \<noteq> None) a ops"
  shows "\<exists>a'. client_run bd_allocate bd_deallocate bd_client_write a ops = Inr a' \<and> bd_inv a' \<and>
    blocks_disjoint (bd_live a') \<and> used_bytes (bd_walk a') = unat (hs_used (bd_get_stats a'))"
  using bd.run_invar [OF hf_buddy_create_inv(1) [OF assms(1-3)] assms(4)] bd.live_disjoint bd_layout.walk_used
  by (auto simp: bd_get_stats_def)

theorem buddy_client_safe_witness:
  "\<exists>a'. client_run bd_allocate bd_deallocate bd_client_write bd_example [Op_alloc 100 16, Op_alloc 8 16] = Inr a' \<and>
     blocks_disjoint (bd_live a')"
  using buddy_client_safe [OF os_example_wf _ bd_example_create, of "[Op_alloc 100 16, Op_alloc 8 16]"]
  by (auto simp: bd_fits_example)

text \<open>
  C26: fragmentation does not last.  Whatever a well-behaved client did since the creation, once all its
  blocks are released the merging of buddies has restored the one free block of the whole capacity.
\<close>

theorem bd_free_all_coalesces:
  assumes "os_wf os" and "min_block \<le> 2 ^ 63" and "hf_buddy_create os capacity min_block = (cs, Some a)"
    and "well_behaved bd_allocate bd_deallocate bd_client_write bd_live bd_fits (\<lambda>a p. bd_live a p \<noteq> None) a ops"
    and "client_run bd_allocate bd_deallocate bd_client_write a ops = Inr a'" and "bd_live a' = Map.empty"
  shows "bd_walk a' = [\<lparr>bi_offset = 0, bi_size = bd_capacity a', bi_is_free = True\<rparr>]"
  using bd.run_invar [OF hf_buddy_create_inv(1) [OF assms(1-3)] assms(4)] assms(5,6) by (auto intro: bd_walk_whole)

lemma bd_example_roundtrip:
  "\<exists>a' a''. bd_allocate bd_example 100 16 = (Some 0x100010, a') \<and> bd_live a' 0x100010 \<noteq> None \<and>
     bd_deallocate a' 0x100010 = Inr a'' \<and> bd_live a'' = Map.empty"
proof (rule bd_allocate_cases [OF bd_example_inv(1) bd_fits_example(1)], goal_cases)
  case (1 a')
  then show ?case using bd_example_allocate by simp
next
  case (2 p k a')
  have p: "p = 0x100010" using 2(1) bd_example_allocate by simp
  have "bd_live a' p \<noteq> None" using 2(5) by simp
  then show ?case
    by (rule bd_deallocate_live [OF 2(2)]) (use 2 p bd_example_inv(2) in auto)
qed

theorem bd_free_all_coalesces_witness:
  "\<exists>a'. client_run bd_allocate bd_deallocate bd_client_write bd_example
      [Op_alloc 100 16, Op_free 0x100010] = Inr a' \<and> length (bd_walk a') = 1"
proof -
  obtain a1 a2 where a: "bd_allocate bd_example 100 16 = (Some 0x100010, a1)" "bd_live a1 0x100010 \<noteq> None"
    "bd_deallocate a1 0x100010 = Inr a2" "bd_live a2 = Map.empty"
    using bd_example_roundtrip by blast
  have "well_behaved bd_allocate bd_deallocate bd_client_write bd_live bd_fits (\<lambda>a p. bd_live a p \<noteq> None)
      bd_example [Op_alloc 100 16, Op_free 0x100010]"
    and run: "client_run bd_allocate bd_deallocate bd_client_write bd_example
      [Op_alloc 100 16, Op_free 0x100010] = Inr a2"
    using a bd_fits_example(1) by simp_all
  then show ?thesis
    using bd_free_all_coalesces [OF os_example_wf _ bd_example_create _ run a(4)] by simp
qed

text \<open>
  Alignments of 32 and more are never honoured.  Every pointer \<^verbatim>\<open>bd_allocate\<close> returns is 16 above
  a multiple of 32, whatever the requested alignment.
\<close>

theorem bd_alignment_ignored:
  assumes "bd_inv a" and "bd_fits n al" and "bd_allocate a n al = (Some p, a')"
  shows "unat p mod 32 = 16"
  by (rule bd_allocate_cases [OF assms(1,2)]) (use assms(3) in simp_all)

theorem bd_alignment_ignored_witness:
  "\<exists>p a'. bd_allocate bd_example 8 64 = (Some p, a') \<and> unat p mod 32 = 16"
proof -
  have "fst (bd_allocate bd_example 8 64) = Some 0x100010"
    unfolding bd_example_def bd_blank_def by code_simp
  then obtain a' where "bd_allocate bd_example 8 64 = (Some 0x100010, a')"
    by (cases "bd_allocate bd_example 8 64") auto
  moreover have "bd_fits 8 64" by (simp add: bd_fits_def)
  ultimately show ?thesis using bd_alignment_ignored [OF bd_example_inv(1)] by blast
qed

text \<open>
  A request of \<^verbatim>\<open>2^63\<close> bytes to a 4 KiB buddy allocator succeeds and gets a block of 1 KiB:
  the rounding to a power of two wraps to zero.
\<close>

theorem bd_allocate_wraps:
  "(case bd_allocate bd_example (2 ^ 63) 16 of (r, a') \<Rightarrow>
      r = Some 0x100010 \<and> \<lparr>bi_offset = 0, bi_size = 1024, bi_is_free = False\<rparr> \<in> set (bd_walk a'))"
  unfolding bd_example_def bd_blank_def by code_simp

end
