(* ===== verification/HF_Free_List.thy ===== *)
theory HF_Free_List
  imports HF_Dlist
begin

text \<open>
  The boundary-tag allocator of \<^verbatim>\<open>hf_free_list.c\<close>: blocks carry a header of two cells (size with
  the used bit, physical predecessor); the free blocks form a ring threaded through their
  payload; a release merges a block with its free neighbours.  First, best and next fit choose
  among the free blocks.
\<close>

datatype hf_fit_policy = HF_FIT_FIRST | HF_FIT_BEST | HF_FIT_NEXT

record fl_alloc =
  fl_mem :: addr
  fl_capacity :: u64
  fl_policy :: hf_fit_policy
  fl_free_head :: addr
  fl_cursor :: addr
  fl_cells :: cells
  fl_stats :: hf_stats

definition FL_HDR :: u64 where
  "FL_HDR = 16"

definition FL_MIN :: u64 where
  "FL_MIN = FL_HDR + 16"

text \<open>
  A header is the cell \<^verbatim>\<open>size_flags\<close> followed by the cell \<^verbatim>\<open>prev_phys\<close>, a list node the cell
  \<^verbatim>\<open>next\<close> followed by the cell \<^verbatim>\<open>prev\<close>.
\<close>

definition hdr_size :: "fl_alloc \<Rightarrow> addr \<Rightarrow> u64" where
  "hdr_size a h = fl_cells a h AND NOT 1"

definition hdr_used :: "fl_alloc \<Rightarrow> addr \<Rightarrow> bool" where
  "hdr_used a h \<longleftrightarrow> fl_cells a h AND 1 \<noteq> 0"

definition fl_store :: "addr \<Rightarrow> u64 \<Rightarrow> fl_alloc \<Rightarrow> fl_alloc" where
  "fl_store x v a = a\<lparr>fl_cells := (fl_cells a)(x := v)\<rparr>"

definition hdr_set :: "addr \<Rightarrow> u64 \<Rightarrow> bool \<Rightarrow> fl_alloc \<Rightarrow> fl_alloc" where
  "hdr_set h sz used a = fl_store h (sz OR (if used then 1 else 0)) a"

definition set_prev_phys :: "addr \<Rightarrow> addr \<Rightarrow> fl_alloc \<Rightarrow> fl_alloc" where
  "set_prev_phys h p a = fl_store (h + 8) p a"

definition payload_node :: "addr \<Rightarrow> addr" where
  "payload_node h = h + FL_HDR"

definition header_of :: "addr \<Rightarrow> addr" where
  "header_of n = n - FL_HDR"

definition next_phys :: "fl_alloc \<Rightarrow> addr \<Rightarrow> addr" where
  "next_phys a h =
     (let n = h + hdr_size a h in if n < fl_mem a + fl_capacity a then n else NULL)"

definition plausible_header :: "fl_alloc \<Rightarrow> addr \<Rightarrow> bool" where
  "plausible_header a h \<longleftrightarrow>
     (if h < fl_mem a \<or> h \<ge> fl_mem a + fl_capacity a then False
      else let sz = hdr_size a h
           in hdr_used a h \<and> sz \<ge> FL_MIN \<and> sz mod HF_DEFAULT_ALIGN = 0 \<and>
              h + sz \<le> fl_mem a + fl_capacity a)"

definition fl_insert :: "fl_alloc \<Rightarrow> addr \<Rightarrow> fl_alloc" where
  "fl_insert a n =
     (let a = (if fl_free_head a = NULL then
                 fl_store n n (fl_store (n + 8) n (a\<lparr>fl_free_head := n\<rparr>))
               else
                 let hd = fl_free_head a;
                     a = fl_store n (fl_cells a hd) a;
                     a = fl_store (n + 8) hd a;
                     a = fl_store (fl_cells a hd + 8) n a
                 in fl_store hd n a)
      in if fl_cursor a = NULL then a\<lparr>fl_cursor := n\<rparr> else a)"

definition fl_unlink :: "fl_alloc \<Rightarrow> addr \<Rightarrow> fl_alloc" where
  "fl_unlink a n =
     (if fl_cells a n = n then a\<lparr>fl_free_head := NULL, fl_cursor := NULL\<rparr>
      else let a = fl_store (fl_cells a (n + 8)) (fl_cells a n) a;
               a = fl_store (fl_cells a n + 8) (fl_cells a (n + 8)) a;
               a = (if fl_free_head a = n then a\<lparr>fl_free_head := fl_cells a n\<rparr> else a)
           in if fl_cursor a = n then a\<lparr>fl_cursor := fl_cells a n\<rparr> else a)"

text \<open>
  The scans of the ring.  They follow \<^verbatim>\<open>next\<close> until they are back at the start, which a damaged
  ring may never reach: they are bounded by fuel, and \<open>None\<close> stands for not having finished.
  \<open>fit_loop\<close> is the loop of first fit (from the head) and of next fit (from the cursor).
\<close>

fun fit_loop :: "nat \<Rightarrow> fl_alloc \<Rightarrow> u64 \<Rightarrow> addr \<Rightarrow> addr \<Rightarrow> addr option" where
  "fit_loop 0 a need start n = None"
| "fit_loop (Suc fuel) a need start n =
     (if hdr_size a (header_of n) \<ge> need then Some n
      else let n = fl_cells a n
           in if n \<noteq> start then fit_loop fuel a need start n else Some NULL)"

fun best_loop :: "nat \<Rightarrow> fl_alloc \<Rightarrow> u64 \<Rightarrow> addr \<Rightarrow> addr \<Rightarrow> addr \<Rightarrow> u64 \<Rightarrow> addr option" where
  "best_loop 0 a need start n best best_sz = None"
| "best_loop (Suc fuel) a need start n best best_sz =
     (let sz = hdr_size a (header_of n);
          (best, best_sz) = (if sz \<ge> need \<and> sz < best_sz then (n, sz) else (best, best_sz));
          n = fl_cells a n
      in if n \<noteq> start then best_loop fuel a need start n best best_sz else Some best)"

definition fl_fuel :: "fl_alloc \<Rightarrow> nat" where
  "fl_fuel a = unat (fl_capacity a) div 32"

definition find_fit :: "fl_alloc \<Rightarrow> u64 \<Rightarrow> (addr \<times> fl_alloc) option" where
  "find_fit a need =
     (if fl_free_head a = NULL then Some (NULL, a)
      else case fl_policy a of
        HF_FIT_FIRST \<Rightarrow>
          map_option (\<lambda>n. (n, a)) (fit_loop (fl_fuel a) a need (fl_free_head a) (fl_free_head a))
      | HF_FIT_BEST \<Rightarrow>
          map_option (\<lambda>n. (n, a))
            (best_loop (fl_fuel a) a need (fl_free_head a) (fl_free_head a) NULL (- 1))
      | HF_FIT_NEXT \<Rightarrow>
          let start = (if fl_cursor a \<noteq> NULL then fl_cursor a else fl_free_head a)
          in map_option (\<lambda>n. (n, if n \<noteq> NULL then a\<lparr>fl_cursor := fl_cells a n\<rparr> else a))
               (fit_loop (fl_fuel a) a need start start))"

text \<open>A scan that does not finish is treated as finding nothing; on a well-formed ring it finishes.\<close>

definition fl_carve :: "fl_alloc \<Rightarrow> addr \<Rightarrow> u64 \<Rightarrow> fl_alloc" where
  "fl_carve a h need =
     (let remain = hdr_size a h - need
      in if remain \<ge> FL_MIN then
           let split = h + need;
               a = hdr_set split remain False a;
               a = set_prev_phys split h a;
               after = next_phys a split;
               a = (if after \<noteq> NULL then set_prev_phys after split a else a);
               a = hdr_set h need True a
           in fl_insert a (payload_node split)
         else hdr_set h (hdr_size a h) True a)"

definition fl_allocate :: "fl_alloc \<Rightarrow> u64 \<Rightarrow> u64 \<Rightarrow> addr option \<times> fl_alloc" where
  "fl_allocate a sz alignment =
     (let sz = (if sz = 0 then 1 else sz);
          sz = (if alignment > HF_DEFAULT_ALIGN then sz + alignment else sz);
          need = hf_align_up (FL_HDR + sz) HF_DEFAULT_ALIGN;
          need = (if need < FL_MIN then FL_MIN else need);
          a = a\<lparr>fl_stats := count_alloc (fl_stats a)\<rparr>;
          (node, a) = (case find_fit a need of None \<Rightarrow> (NULL, a) | Some r \<Rightarrow> r)
      in if node = NULL then (None, a\<lparr>fl_stats := count_failed (fl_stats a)\<rparr>)
         else let h = header_of node;
                  a = fl_unlink a node;
                  a = fl_carve a h need;
                  a = a\<lparr>fl_stats := raise_peak (set_used (hs_used (fl_stats a) + hdr_size a h) (fl_stats a))\<rparr>;
                  p = h + FL_HDR
              in if alignment > HF_DEFAULT_ALIGN then
                   let aligned = hf_align_up (p + 8) alignment
                   in (Some aligned, fl_store (aligned - 8) (aligned - p) a)
                 else (Some p, a))"

text \<open>Merging a block with its physical successor, and with its physical predecessor.\<close>

definition fl_merge_next :: "fl_alloc \<Rightarrow> addr \<Rightarrow> fl_alloc" where
  "fl_merge_next a h =
     (let nb = next_phys a h
      in if nb \<noteq> NULL \<and> \<not> hdr_used a nb then
           let a = fl_unlink a (payload_node nb);
               a = (if fl_cursor a = payload_node nb then a\<lparr>fl_cursor := NULL\<rparr> else a);
               a = hdr_set h (hdr_size a h + hdr_size a nb) False a;
               nn = next_phys a h
           in if nn \<noteq> NULL then set_prev_phys nn h a else a
         else a)"

definition fl_merge_prev :: "fl_alloc \<Rightarrow> addr \<Rightarrow> addr \<times> fl_alloc" where
  "fl_merge_prev a h =
     (let pb = fl_cells a (h + 8)
      in if pb \<noteq> NULL \<and> \<not> hdr_used a pb then
           let a = fl_unlink a (payload_node pb);
               a = (if fl_cursor a = payload_node pb then a\<lparr>fl_cursor := NULL\<rparr> else a);
               a = hdr_set pb (hdr_size a pb + hdr_size a h) False a;
               nn = next_phys a pb
           in (pb, if nn \<noteq> NULL then set_prev_phys nn pb a else a)
         else (h, a))"

definition fl_deallocate :: "fl_alloc \<Rightarrow> addr \<Rightarrow> fl_alloc outcome" where
  "fl_deallocate a ptr =
     (if ptr = NULL then Inr a
      else let a = a\<lparr>fl_stats := count_free (fl_stats a)\<rparr>;
               raw = ptr;
               h = raw - FL_HDR;
               h = (if \<not> plausible_header a h then raw - fl_cells a (raw - 8) - FL_HDR else h)
           in if \<not> hdr_used a h then Inl Assert_failed
              else let a = a\<lparr>fl_stats := set_used (hs_used (fl_stats a) - hdr_size a h) (fl_stats a)\<rparr>;
                       a = hdr_set h (hdr_size a h) False a;
                       a = fl_merge_next a h;
                       (h, a) = fl_merge_prev a h
                   in Inr (fl_insert a (payload_node h)))"

definition fl_name :: "fl_alloc \<Rightarrow> string" where
  "fl_name a =
     (case fl_policy a of
        HF_FIT_FIRST \<Rightarrow> ''FreeList/FirstFit''
      | HF_FIT_BEST \<Rightarrow> ''FreeList/BestFit''
      | HF_FIT_NEXT \<Rightarrow> ''FreeList/NextFit'')"

definition fl_get_stats :: "fl_alloc \<Rightarrow> hf_stats" where
  "fl_get_stats a = fl_stats a"

text \<open>The walk advances by the size in each header; a zero size would stop it from advancing.\<close>

fun fl_walk_loop :: "nat \<Rightarrow> fl_alloc \<Rightarrow> addr \<Rightarrow> hf_block_info list option" where
  "fl_walk_loop fuel a c =
     (if c < fl_mem a + fl_capacity a then
        case fuel of
          0 \<Rightarrow> None
        | Suc fuel \<Rightarrow>
            map_option (\<lambda>bs. \<lparr>bi_offset = c - fl_mem a, bi_size = hdr_size a c,
                               bi_is_free = (\<not> hdr_used a c)\<rparr> # bs)
              (fl_walk_loop fuel a (c + hdr_size a c))
      else Some [])"

declare fl_walk_loop.simps [simp del]

definition fl_walk :: "fl_alloc \<Rightarrow> hf_block_info list" where
  "fl_walk a = (case fl_walk_loop (fl_fuel a) a (fl_mem a) of None \<Rightarrow> [] | Some bs \<Rightarrow> bs)"

definition fl_destroy :: "os_services \<Rightarrow> fl_alloc \<Rightarrow> vm_call list" where
  "fl_destroy os a = hf_vm_release os (fl_mem a) (fl_capacity a)"

definition FL_VT :: "fl_alloc hf_allocator_vtable" where
  "FL_VT = \<lparr>vt_allocate = fl_allocate, vt_deallocate = fl_deallocate, vt_name = fl_name,
     vt_get_stats = fl_get_stats, vt_walk = fl_walk, vt_destroy = fl_destroy\<rparr>"

definition hf_free_list_create ::
    "os_services \<Rightarrow> u64 \<Rightarrow> hf_fit_policy \<Rightarrow> vm_call list \<times> fl_alloc option" where
  "hf_free_list_create os capacity policy =
     (let capacity = (if capacity < FL_MIN * 2 then FL_MIN * 2 else capacity);
          capacity = hf_align_up capacity (os_page_size os)
      in if \<not> os_calloc os 0 then ([], None)
         else case hf_vm_reserve os capacity of
             (cs, None) \<Rightarrow> (cs, None)
           | (cs, Some mem) \<Rightarrow>
               let a = \<lparr>fl_mem = mem, fl_capacity = capacity, fl_policy = policy, fl_free_head = NULL,
                        fl_cursor = NULL, fl_cells = (\<lambda>_. 0),
                        fl_stats = stats_zero\<lparr>hs_capacity := capacity\<rparr>\<rparr>;
                   a = hdr_set mem capacity False a;
                   a = set_prev_phys mem NULL a;
                   a = a\<lparr>fl_free_head := payload_node mem\<rparr>;
                   a = fl_store (fl_free_head a) (fl_free_head a)
                         (fl_store (fl_free_head a + 8) (fl_free_head a) a);
                   a = a\<lparr>fl_cursor := fl_free_head a\<rparr>
               in (cs, Some a))"

end
