(* ===== verification/HF_Free_List_Rep.thy ===== *)
theory HF_Free_List_Rep
  imports HF_Free_List
begin

text \<open>
  The representation of the boundary-tag allocator: the headers describe a partition of the memory
  into blocks and the ring holds its free blocks.  The primitive steps of the operations (taking a
  node out of the ring, putting one in, flipping the used bit, cutting and joining blocks) keep the
  representation, and the searches of the ring agree with searches of the list of its nodes.
\<close>

subsection \<open>Partitions\<close>

text \<open>A map from the offset of each block to its size and whether it is used.\<close>

type_synonym fl_blocks = "nat \<rightharpoonup> nat \<times> bool"

definition fl_part :: "nat \<Rightarrow> fl_blocks \<Rightarrow> bool" where
  "fl_part cap M \<longleftrightarrow> M 0 \<noteq> None \<and>
     (\<forall>b s u. M b = Some (s, u) \<longrightarrow>
        32 \<le> s \<and> 16 dvd s \<and> 16 dvd b \<and> b + s \<le> cap \<and> (b + s = cap \<or> M (b + s) \<noteq> None) \<and>
        (\<forall>x. b < x \<longrightarrow> x < b + s \<longrightarrow> M x = None))"

lemma fl_partD:
  assumes "fl_part cap M"
  shows "M 0 \<noteq> None"
    and "M b = Some (s, u) \<Longrightarrow> 32 \<le> s"
    and "M b = Some (s, u) \<Longrightarrow> 16 dvd s"
    and "M b = Some (s, u) \<Longrightarrow> 16 dvd b"
    and "M b = Some (s, u) \<Longrightarrow> b + s \<le> cap"
    and "M b = Some (s, u) \<Longrightarrow> b + s = cap \<or> M (b + s) \<noteq> None"
    and "M b = Some (s, u) \<Longrightarrow> b < x \<Longrightarrow> x < b + s \<Longrightarrow> M x = None"
  using assms unfolding fl_part_def by blast+

lemma fl_part_disjoint:
  assumes part: "fl_part cap M" and "M b = Some (s, u)" and "M c = Some (t, v)"
  shows "b = c \<or> b + s \<le> c \<or> c + t \<le> b"
proof (rule ccontr)
  assume ne: "\<not> ?thesis"
  then have "b < c \<and> c < b + s \<or> c < b \<and> b < c + t" by linarith
  then show False using fl_partD(7) [OF part assms(2), of c] fl_partD(7) [OF part assms(3), of b] assms(2,3) by auto
qed

lemma fl_part_below:
  assumes part: "fl_part cap M" and "M b \<noteq> None"
  shows "b < cap"
proof -
  obtain s u where b: "M b = Some (s, u)" using assms(2) by auto
  show ?thesis using fl_partD(2,5) [OF part b] by linarith
qed

lemma fl_part_prev:
  assumes part: "fl_part cap M" and b: "M b \<noteq> None" "b \<noteq> 0"
  obtains c s u where "M c = Some (s, u)" and "c + s = b"
proof -
  let ?P = "\<lambda>x. x < b \<and> M x \<noteq> None"
  have "?P 0" using b fl_partD(1) [OF part] by simp
  define c where "c = (GREATEST x. ?P x)"
  have c: "?P c" unfolding c_def by (rule GreatestI_nat [of ?P 0 b]) (use \<open>?P 0\<close> in auto)
  have max: "x \<le> c" if "?P x" for x
    unfolding c_def by (rule Greatest_le_nat [of ?P x b]) (use that in auto)
  obtain s u where cs: "M c = Some (s, u)" using c by auto
  have "\<not> b < c + s" using fl_partD(7) [OF part cs, of b] c b(1) by auto
  moreover have "\<not> c + s < b"
  proof
    assume lt: "c + s < b"
    then have "M (c + s) \<noteq> None" using fl_partD(6) [OF part cs] fl_part_below [OF part b(1)] by auto
    then have "c + s \<le> c" using max lt by blast
    then show False using fl_partD(2) [OF part cs] by simp
  qed
  ultimately show thesis using that cs by simp
qed

lemma fl_part_flag:
  assumes part: "fl_part cap M" and b: "M b = Some (s, u)"
  shows "fl_part cap (M(b \<mapsto> (s, v)))"
proof -
  have none: "(M(b \<mapsto> (s, v))) x = None \<longleftrightarrow> M x = None" for x using b by simp
  have some: "\<exists>w. M c = Some (t, w)" if "(M(b \<mapsto> (s, v))) c = Some (t, x)" for c t x
    using that b by (auto split: if_splits)
  show ?thesis
    unfolding fl_part_def none using part some unfolding fl_part_def by (metis none)
qed

lemma fl_part_split:
  assumes part: "fl_part cap M" and b: "M b = Some (s, u)"
    and n: "32 \<le> n" "n + 32 \<le> s" "16 dvd n"
  shows "M (b + n) = None" and "fl_part cap (M(b \<mapsto> (n, v), b + n \<mapsto> (s - n, w)))"
proof -
  note B = fl_partD(2-7) [OF part b]
  show none: "M (b + n) = None" using B(6) [of "b + n"] n by simp
  let ?M = "M(b \<mapsto> (n, v), b + n \<mapsto> (s - n, w))"
  have dom: "?M x \<noteq> None \<longleftrightarrow> M x \<noteq> None \<or> x = b + n" for x using b by auto
  show "fl_part cap ?M"
    unfolding fl_part_def
  proof (intro conjI allI impI)
    show "?M 0 \<noteq> None" using dom fl_partD(1) [OF part] by simp
    fix c t y
    assume c: "?M c = Some (t, y)"
    consider "c = b + n" "t = s - n" | "c = b" "t = n" "c \<noteq> b + n" | "M c = Some (t, y)" "c \<noteq> b" "c \<noteq> b + n"
      using c n by (auto split: if_splits)
    then have "32 \<le> t \<and> 16 dvd t \<and> 16 dvd c \<and> c + t \<le> cap \<and> (c + t = cap \<or> ?M (c + t) \<noteq> None) \<and>
      (\<forall>x. c < x \<longrightarrow> x < c + t \<longrightarrow> ?M x = None)"
    proof cases
      case 1
      then show ?thesis using B n by (auto simp: dvd_diff_nat)
    next
      case 2
      then show ?thesis using B n by auto
    next
      case 3
      note D = fl_partD(2-7) [OF part 3(1)]
      have "\<not> (c < b + n \<and> b + n < c + t)"
        using fl_part_disjoint [OF part b 3(1)] 3(2) n by linarith
      moreover have "\<not> (c < b \<and> b < c + t)" using D(6) [of b] b by auto
      ultimately show ?thesis using D dom 3 by auto
    qed
    then show "32 \<le> t" "16 dvd t" "16 dvd c" "c + t \<le> cap" "c + t = cap \<or> ?M (c + t) \<noteq> None"
      "\<And>x. c < x \<Longrightarrow> x < c + t \<Longrightarrow> ?M x = None" by blast+
  qed
qed

lemma fl_part_merge:
  assumes part: "fl_part cap M" and b: "M b = Some (s, u)" and c: "M (b + s) = Some (t, v)"
  shows "fl_part cap (M(b + s := None, b \<mapsto> (s + t, w)))"
proof -
  let ?M = "M(b + s := None, b \<mapsto> (s + t, w))"
  note B = fl_partD(2-7) [OF part b] and C = fl_partD(2-7) [OF part c]
  have dom: "?M x \<noteq> None \<longleftrightarrow> M x \<noteq> None \<and> x \<noteq> b + s" for x using b B(1) by auto
  show ?thesis
    unfolding fl_part_def
  proof (intro conjI allI impI)
    show "?M 0 \<noteq> None" using dom [of 0] fl_partD(1) [OF part] B(1) by auto
    fix d r y
    assume d: "?M d = Some (r, y)"
    consider "d = b" "r = s + t" | "M d = Some (r, y)" "d \<noteq> b" "d \<noteq> b + s"
      using d by (auto split: if_splits)
    then have "32 \<le> r \<and> 16 dvd r \<and> 16 dvd d \<and> d + r \<le> cap \<and> (d + r = cap \<or> ?M (d + r) \<noteq> None) \<and>
      (\<forall>x. d < x \<longrightarrow> x < d + r \<longrightarrow> ?M x = None)"
    proof cases
      case 1
      have "?M x = None" if "b < x" "x < b + (s + t)" for x
        using that B(6) [of x] C(6) [of x] dom [of x] by (cases "x < b + s"; cases "x = b + s") auto
      moreover have "d + r = cap \<or> ?M (d + r) \<noteq> None"
        using 1 C(5) dom [of "d + r"] C(1) by (auto simp: add.assoc)
      ultimately show ?thesis using 1 B C by (auto simp: add.assoc)
    next
      case 2
      note D = fl_partD(2-7) [OF part 2(1)]
      have "d + r \<noteq> b + s"
        using fl_part_disjoint [OF part b 2(1)] 2(2) B(1) D(1) by linarith
      then have "d + r = cap \<or> ?M (d + r) \<noteq> None" using D(5) dom [of "d + r"] by auto
      moreover have "?M x = None" if "d < x" "x < d + r" for x using D(6) [OF that] dom [of x] by blast
      ultimately show ?thesis using D by blast
    qed
    then show "32 \<le> r" "16 dvd r" "16 dvd d" "d + r \<le> cap" "d + r = cap \<or> ?M (d + r) \<noteq> None"
      "\<And>x. d < x \<Longrightarrow> x < d + r \<Longrightarrow> ?M x = None" by blast+
  qed
qed


subsection \<open>Headers\<close>

definition fl_at :: "fl_alloc \<Rightarrow> nat \<Rightarrow> addr" where
  "fl_at a b = fl_mem a + of_nat b"

definition fl_shape :: "fl_alloc \<Rightarrow> bool" where
  "fl_shape a \<longleftrightarrow> 0 < unat (fl_mem a) \<and> 16 dvd unat (fl_mem a) \<and> 16 dvd unat (fl_capacity a) \<and>
     32 \<le> unat (fl_capacity a) \<and> unat (fl_mem a) + unat (fl_capacity a) < 2 ^ 63"

lemma fl_at_unat:
  assumes shape: "fl_shape a" and "b \<le> unat (fl_capacity a)"
  shows "unat (fl_at a b) = unat (fl_mem a) + b"
  using assms by (simp add: fl_at_def fl_shape_def unat_add_nowrap unat_of_nat_small)

lemma fl_at_block:
  assumes shape: "fl_shape a" and part: "fl_part (unat (fl_capacity a)) M" and b: "M b = Some (s, u)"
  shows "unat (fl_at a b) = unat (fl_mem a) + b" and "unat (fl_at a b + 8) = unat (fl_mem a) + b + 8"
    and "unat (fl_at a b + 16) = unat (fl_mem a) + b + 16" and "unat (fl_at a b + 24) = unat (fl_mem a) + b + 24"
    and "dl_node (fl_at a b + 16)" and "fl_at a b \<noteq> NULL" and "fl_at a b + 16 \<noteq> NULL"
    and "unat (fl_mem a) + b + s < 2 ^ 63"
proof -
  note B = fl_partD(2-5) [OF part b]
  show at: "unat (fl_at a b) = unat (fl_mem a) + b" using B by (intro fl_at_unat [OF shape]) simp
  show top: "unat (fl_mem a) + b + s < 2 ^ 63" using shape B(4) by (simp add: fl_shape_def)
  show "unat (fl_at a b + 8) = unat (fl_mem a) + b + 8" and at16: "unat (fl_at a b + 16) = unat (fl_mem a) + b + 16"
    and "unat (fl_at a b + 24) = unat (fl_mem a) + b + 24"
    using at top B(1) by (simp_all add: unat_add_nowrap)
  show "dl_node (fl_at a b + 16)"
    unfolding dl_node_def at16 using shape B(1,3) top by (simp add: fl_shape_def)
  show "fl_at a b \<noteq> NULL" using at shape by (auto simp: fl_shape_def)
  show "fl_at a b + 16 \<noteq> NULL" using at16 by (auto simp: unat_eq_0)
qed

lemma fl_at_ne:
  assumes shape: "fl_shape a" and part: "fl_part (unat (fl_capacity a)) M"
    and b: "M b = Some (s, u)" and c: "M c = Some (t, v)"
  shows "fl_at a b = fl_at a c \<longleftrightarrow> b = c"
    and "fl_at a b \<noteq> fl_at a c + 8" and "fl_at a c + 8 \<noteq> fl_at a b"
    and "fl_at a b \<noteq> fl_at a c + 16" and "fl_at a c + 16 \<noteq> fl_at a b"
    and "fl_at a b \<noteq> fl_at a c + 24" and "fl_at a c + 24 \<noteq> fl_at a b"
    and "fl_at a b + 8 \<noteq> fl_at a c + 16" and "fl_at a c + 16 \<noteq> fl_at a b + 8"
    and "fl_at a b + 8 \<noteq> fl_at a c + 24" and "fl_at a c + 24 \<noteq> fl_at a b + 8"
proof -
  note B = fl_at_block [OF shape part b] and C = fl_at_block [OF shape part c]
  have sep: "b = c \<or> b + 32 \<le> c \<or> c + 32 \<le> b"
    using fl_part_disjoint [OF part b c] fl_partD(2) [OF part b] fl_partD(2) [OF part c] by linarith
  show "fl_at a b = fl_at a c \<longleftrightarrow> b = c" using B(1) C(1) by (metis add_left_cancel)
  have "unat (fl_at a b) \<noteq> unat (fl_at a c + 8)" "unat (fl_at a b) \<noteq> unat (fl_at a c + 16)"
    "unat (fl_at a b) \<noteq> unat (fl_at a c + 24)" "unat (fl_at a b + 8) \<noteq> unat (fl_at a c + 16)"
    "unat (fl_at a b + 8) \<noteq> unat (fl_at a c + 24)"
    unfolding B C using sep by linarith+
  then show "fl_at a b \<noteq> fl_at a c + 8" and "fl_at a c + 8 \<noteq> fl_at a b"
    and "fl_at a b \<noteq> fl_at a c + 16" and "fl_at a c + 16 \<noteq> fl_at a b"
    and "fl_at a b \<noteq> fl_at a c + 24" and "fl_at a c + 24 \<noteq> fl_at a b"
    and "fl_at a b + 8 \<noteq> fl_at a c + 16" and "fl_at a c + 16 \<noteq> fl_at a b + 8"
    and "fl_at a b + 8 \<noteq> fl_at a c + 24" and "fl_at a c + 24 \<noteq> fl_at a b + 8"
    by metis+
qed

definition fl_enc :: "nat \<Rightarrow> bool \<Rightarrow> u64" where
  "fl_enc s u = of_nat s OR (if u then 1 else 0)"

lemma fl_enc_decode:
  assumes "even s"
  shows "fl_enc s u AND NOT 1 = of_nat s" and "fl_enc s u AND 1 \<noteq> 0 \<longleftrightarrow> u"
proof -
  have b0: "\<not> bit (of_nat s :: u64) 0" using assms by (simp add: bit_0)
  show "fl_enc s u AND NOT 1 = of_nat s"
    by (rule bit_word_eqI) (use b0 in \<open>auto simp: fl_enc_def bit_simps bit_1_iff intro!: gr0I\<close>)
  have "fl_enc s u AND 1 = (if u then 1 else 0)"
    by (rule bit_word_eqI) (use b0 in \<open>auto simp: fl_enc_def bit_simps bit_1_iff intro!: gr0I\<close>)
  then show "fl_enc s u AND 1 \<noteq> 0 \<longleftrightarrow> u" by simp
qed


subsection \<open>The representation\<close>

definition fl_ring_ok :: "fl_alloc \<Rightarrow> addr list \<Rightarrow> bool" where
  "fl_ring_ok a fs \<longleftrightarrow>
     (if fs = [] then fl_free_head a = NULL \<and> fl_cursor a = NULL
      else dl_ring (fl_cells a) fs \<and> fl_free_head a = hd fs \<and> fl_cursor a \<in> set fs)"

text \<open>\<open>H\<close> holds the free blocks an operation has taken out of the ring.\<close>

definition fl_core :: "fl_alloc \<Rightarrow> fl_blocks \<Rightarrow> addr list \<Rightarrow> nat set \<Rightarrow> bool" where
  "fl_core a M fs H \<longleftrightarrow>
     fl_shape a \<and> fl_part (unat (fl_capacity a)) M \<and>
     (\<forall>b s u. M b = Some (s, u) \<longrightarrow> fl_cells a (fl_at a b) = fl_enc s u) \<and>
     (\<forall>b s u. M b = Some (s, u) \<longrightarrow> M (b + s) \<noteq> None \<longrightarrow> fl_cells a (fl_at a (b + s) + 8) = fl_at a b) \<and>
     fl_cells a (fl_at a 0 + 8) = NULL \<and>
     fl_ring_ok a fs \<and>
     set fs = (\<lambda>b. fl_at a b + 16) ` {b. (\<exists>s. M b = Some (s, False)) \<and> b \<notin> H} \<and>
     (\<forall>b \<in> H. \<exists>s. M b = Some (s, False))"

lemma fl_coreD:
  assumes "fl_core a M fs H"
  shows "fl_shape a" and "fl_part (unat (fl_capacity a)) M"
    and "M b = Some (s, u) \<Longrightarrow> fl_cells a (fl_at a b) = fl_enc s u"
    and "M b = Some (s, u) \<Longrightarrow> M (b + s) \<noteq> None \<Longrightarrow> fl_cells a (fl_at a (b + s) + 8) = fl_at a b"
    and "fl_cells a (fl_at a 0 + 8) = NULL"
    and "fl_ring_ok a fs"
    and "set fs = (\<lambda>b. fl_at a b + 16) ` {b. (\<exists>s. M b = Some (s, False)) \<and> b \<notin> H}"
    and "b \<in> H \<Longrightarrow> \<exists>s. M b = Some (s, False)"
  using assms unfolding fl_core_def by - (elim conjE, (assumption | blast))+

lemma fl_core_header:
  assumes core: "fl_core a M fs H" and b: "M b = Some (s, u)"
  shows "hdr_size a (fl_at a b) = of_nat s" and "hdr_used a (fl_at a b) \<longleftrightarrow> u"
    and "unat (of_nat s :: u64) = s"
proof -
  note C = fl_coreD [OF core]
  have "even s" using fl_partD(3) [OF C(2) b] by (meson dvd_trans even_numeral)
  then show "hdr_size a (fl_at a b) = of_nat s" and "hdr_used a (fl_at a b) \<longleftrightarrow> u"
    unfolding hdr_size_def hdr_used_def C(3) [OF b] by (rule fl_enc_decode)+
  show "unat (of_nat s :: u64) = s"
    using fl_at_block(8) [OF C(1,2) b] by (intro unat_of_nat_small) simp
qed

lemma fl_at_add: "fl_at a b + of_nat s = fl_at a (b + s)"
  by (simp add: fl_at_def)

lemma fl_at_end:
  assumes core: "fl_core a M fs H" and b: "M b = Some (s, u)"
  shows "fl_at a (b + s) < fl_mem a + fl_capacity a \<longleftrightarrow> M (b + s) \<noteq> None"
proof -
  note C = fl_coreD [OF core]
  have cap: "unat (fl_mem a + fl_capacity a) = unat (fl_mem a) + unat (fl_capacity a)"
    using C(1) by (simp add: fl_shape_def unat_add_nowrap)
  have le: "b + s \<le> unat (fl_capacity a)" by (rule fl_partD(5) [OF C(2) b])
  have "fl_at a (b + s) < fl_mem a + fl_capacity a \<longleftrightarrow> b + s < unat (fl_capacity a)"
    unfolding word_less_nat_alt cap fl_at_unat [OF C(1) le] by simp
  also have "\<dots> \<longleftrightarrow> M (b + s) \<noteq> None"
    using fl_partD(6) [OF C(2) b] fl_part_below [OF C(2)] le by auto
  finally show ?thesis .
qed

lemma fl_next_phys:
  assumes "fl_core a M fs H" and "M b = Some (s, u)"
  shows "next_phys a (fl_at a b) = (if M (b + s) = None then NULL else fl_at a (b + s))"
  unfolding next_phys_def fl_core_header(1) [OF assms] fl_at_add Let_def fl_at_end [OF assms] by simp


subsection \<open>The ring operations\<close>

lemma fl_ring_cong:
  assumes "fl_ring_ok a fs" and "fl_free_head a' = fl_free_head a" and "fl_cursor a' = fl_cursor a"
    and "\<And>x. x \<in> set fs \<Longrightarrow> fl_cells a' x = fl_cells a x \<and> fl_cells a' (x + 8) = fl_cells a (x + 8)"
  shows "fl_ring_ok a' fs"
  using assms unfolding fl_ring_ok_def by (auto intro: dl_ring_cong)

text \<open>
  The ring operations touch only the cells of list nodes: \<open>outside N z\<close> holds of the cells of no
  node in \<open>N\<close>.
\<close>

definition outside :: "addr set \<Rightarrow> addr \<Rightarrow> bool" where
  "outside N z \<longleftrightarrow> (\<forall>n \<in> N. z \<noteq> n \<and> z \<noteq> n + 8)"

lemma fl_store_sel [simp]:
  "fl_mem (fl_store x v a) = fl_mem a" "fl_capacity (fl_store x v a) = fl_capacity a"
  "fl_policy (fl_store x v a) = fl_policy a" "fl_free_head (fl_store x v a) = fl_free_head a"
  "fl_cursor (fl_store x v a) = fl_cursor a" "fl_stats (fl_store x v a) = fl_stats a"
  "fl_cells (fl_store x v a) = (fl_cells a)(x := v)"
  by (simp_all add: fl_store_def)

definition fl_static :: "fl_alloc \<Rightarrow> fl_alloc \<Rightarrow> bool" where
  "fl_static a' a \<longleftrightarrow> fl_mem a' = fl_mem a \<and> fl_capacity a' = fl_capacity a \<and>
     fl_policy a' = fl_policy a \<and> fl_stats a' = fl_stats a"

lemma fl_static_refl [simp]: "fl_static a a"
  by (simp add: fl_static_def)

lemma fl_static_trans: "fl_static c b \<Longrightarrow> fl_static b a \<Longrightarrow> fl_static c a"
  by (simp add: fl_static_def)

lemma fl_static_at: "fl_static a' a \<Longrightarrow> fl_at a' = fl_at a"
  by (simp add: fl_static_def fl_at_def fun_eq_iff)

lemma fl_static_ops [simp]:
  "fl_static (fl_insert a n) a" "fl_static (fl_unlink a n) a" "fl_static (hdr_set h s u a) a"
  "fl_static (set_prev_phys h p a) a" "fl_static (fl_store x v a) a"
  by (simp_all add: fl_static_def fl_insert_def fl_unlink_def hdr_set_def set_prev_phys_def Let_def)

lemma fl_unlink_ring:
  assumes ring: "fl_ring_ok a fs" and n: "n \<in> set fs"
  obtains fs' where "fl_ring_ok (fl_unlink a n) fs'" and "set fs' = set fs - {n}"
    and "\<And>z. outside (set fs) z \<Longrightarrow> fl_cells (fl_unlink a n) z = fl_cells a z"
proof -
  have ok: "dl_ring (fl_cells a) fs" "fl_free_head a = hd fs" "fl_cursor a \<in> set fs"
    using ring n by (auto simp: fl_ring_ok_def split: if_splits)
  have d: "distinct fs" using ok(1) by (simp add: dl_ring_def)
  obtain ys zs where fs: "fs = ys @ n # zs" using n by (meson split_list)
  then have rot: "dl_ring (fl_cells a) (n # zs @ ys)" using ok(1) dl_ring_rotate [of _ ys "n # zs"] by simp
  note R = dl_ring_Cons [OF rot]
  show thesis
  proof (cases "zs @ ys = []")
    case True
    then have "fl_cells a n = n" using R(3) by simp
    then show thesis using True fs by (intro that [of "[]"]) (simp_all add: fl_unlink_def fl_ring_ok_def)
  next
    case False
    have nx: "fl_cells a n = hd (zs @ ys)" using R(3) unfolding hd_append2 [OF False] .
    then have mem: "fl_cells a n \<in> set (zs @ ys)" using False by (metis hd_in_set)
    then have ne: "fl_cells a n \<noteq> n" using d fs by auto
    note U = dl_ring_unlink [OF rot False]
    let ?c1 = "(fl_cells a)(fl_cells a (n + 8) := fl_cells a n)"
    let ?c2 = "?c1(?c1 n + 8 := ?c1 (n + 8))"
    have cells: "fl_cells (fl_unlink a n) = ?c2" using ne by (simp add: fl_unlink_def Let_def)
    have c2n: "?c2 n = hd (zs @ ys)"
    proof -
      have "?c1 n + 8 \<noteq> n"
        using rot mem dl_node_ne(2) [of n "fl_cells a n"] unfolding U(2) by (auto simp: dl_ring_def)
      then show ?thesis using U(2) nx by simp
    qed
    define fs' where "fs' = ys @ zs"
    have ring': "dl_ring (fl_cells (fl_unlink a n)) fs'"
      unfolding cells fs'_def using U(1) by (rule dl_ring_rotate)
    have ptrs: "fl_free_head (fl_unlink a n) = (if fl_free_head a = n then ?c2 n else fl_free_head a)"
      "fl_cursor (fl_unlink a n) = (if fl_cursor a = n then ?c2 n else fl_cursor a)"
      using ne by (simp_all add: fl_unlink_def Let_def)
    have hd': "fl_free_head (fl_unlink a n) = hd fs'"
      unfolding ptrs c2n using ok(2) d False by (auto simp: fs fs'_def hd_append)
    have "hd (zs @ ys) \<in> set (zs @ ys)" using False by (rule hd_in_set)
    then have cur: "fl_cursor (fl_unlink a n) \<in> set fs'"
      unfolding ptrs c2n using ok(3) by (auto simp: fs fs'_def)
    have "fl_ring_ok (fl_unlink a n) fs'"
      using ring' hd' cur False by (auto simp: fl_ring_ok_def fs'_def)
    moreover have "set fs' = set fs - {n}" using d by (auto simp: fs fs'_def)
    moreover have "fl_cells (fl_unlink a n) z = fl_cells a z" if "outside (set fs) z" for z
      unfolding cells using that by (intro U(4)) (auto simp: outside_def fs)
    ultimately show thesis by (rule that)
  qed
qed

lemma fl_insert_ring:
  assumes ring: "fl_ring_ok a fs" and n: "n \<notin> set fs" "dl_node n" "n \<noteq> NULL"
  obtains fs' where "fl_ring_ok (fl_insert a n) fs'" and "set fs' = insert n (set fs)"
    and "\<And>z. outside (insert n (set fs)) z \<Longrightarrow> fl_cells (fl_insert a n) z = fl_cells a z"
proof (cases "fs = []")
  case True
  then have a: "fl_free_head a = NULL" "fl_cursor a = NULL" using ring by (simp_all add: fl_ring_ok_def)
  have "dl_ring (fl_cells (fl_insert a n)) [n]"
    using n dl_node_ne [OF n(2) n(2)] a by (intro dl_ring_single) (simp_all add: fl_insert_def)
  then have "fl_ring_ok (fl_insert a n) [n]" using a by (simp add: fl_ring_ok_def fl_insert_def Let_def)
  then show thesis using True a by (intro that) (auto simp: fl_insert_def outside_def)
next
  case False
  then obtain x xs where fs: "fs = x # xs" by (cases fs) auto
  then have ok: "dl_ring (fl_cells a) (x # xs)" "fl_free_head a = x" "fl_cursor a \<in> set fs"
    using ring by (simp_all add: fl_ring_ok_def)
  have x0: "x \<noteq> NULL" using dl_ring_Cons(1) [OF ok(1)] .
  have c0: "fl_cursor a \<noteq> NULL"
  proof -
    obtain ys zs where "fs = ys @ fl_cursor a # zs" using ok(3) by (meson split_list)
    then have "dl_ring (fl_cells a) (fl_cursor a # zs @ ys)"
      using ok(1) fs dl_ring_rotate [of _ ys "fl_cursor a # zs"] by simp
    then show ?thesis by (rule dl_ring_Cons(1))
  qed
  have "n \<notin> set (x # xs)" using n(1) fs by simp
  note I = dl_ring_insert [OF ok(1) n(2,3) this]
  let ?c1 = "((fl_cells a)(n := fl_cells a x))(n + 8 := x)"
  have cells: "fl_cells (fl_insert a n) = (?c1(?c1 x + 8 := n))(x := n)"
    using ok(2) x0 by (simp add: fl_insert_def Let_def)
  have "fl_ring_ok (fl_insert a n) (x # n # xs)"
    using I(1) cells ok(2,3) x0 c0 fs by (auto simp: fl_ring_ok_def fl_insert_def Let_def)
  moreover have "fl_cells (fl_insert a n) z = fl_cells a z" if "outside (insert n (set fs)) z" for z
    unfolding cells by (rule I(2)) (use that fs in \<open>auto simp: outside_def\<close>)
  ultimately show thesis using fs by (intro that) auto
qed


subsection \<open>Operations on the representation\<close>

lemma fl_node_block:
  assumes core: "fl_core a M fs H" and "n \<in> set fs"
  obtains b s where "n = fl_at a b + 16" and "M b = Some (s, False)" and "b \<notin> H"
  using assms(2) unfolding fl_coreD(7) [OF core] by blast

lemma fl_header_outside:
  assumes core: "fl_core a M fs H" and b: "M b = Some (s, u)" and c: "M c = Some (t, v)"
  shows "outside (insert (fl_at a c + 16) (set fs)) (fl_at a b)"
    and "outside (insert (fl_at a c + 16) (set fs)) (fl_at a b + 8)"
proof -
  note C = fl_coreD [OF core]
  have "fl_at a b \<noteq> fl_at a d + 16 \<and> fl_at a b \<noteq> fl_at a d + 16 + 8 \<and>
      fl_at a b + 8 \<noteq> fl_at a d + 16 \<and> fl_at a b + 8 \<noteq> fl_at a d + 16 + 8" if "M d = Some (r, w)" for d r w
    using fl_at_ne [OF C(1,2) b that] by (simp add: add.assoc)
  moreover have "\<exists>d r w. n = fl_at a d + 16 \<and> M d = Some (r, w)" if "n \<in> insert (fl_at a c + 16) (set fs)" for n
    using that c unfolding C(7) by blast
  ultimately have "fl_at a b \<noteq> n \<and> fl_at a b \<noteq> n + 8 \<and> fl_at a b + 8 \<noteq> n \<and> fl_at a b + 8 \<noteq> n + 8"
    if "n \<in> insert (fl_at a c + 16) (set fs)" for n
    using that by metis
  then show "outside (insert (fl_at a c + 16) (set fs)) (fl_at a b)"
    and "outside (insert (fl_at a c + 16) (set fs)) (fl_at a b + 8)"
    unfolding outside_def by simp_all
qed

lemma outside_mono: "outside N z \<Longrightarrow> N' \<subseteq> N \<Longrightarrow> outside N' z"
  by (auto simp: outside_def)

text \<open>Operations that keep every header: the two ring operations.\<close>

lemma fl_core_ring:
  assumes core: "fl_core a M fs H" and st: "fl_static a' a" and ring: "fl_ring_ok a' fs'"
    and set': "set fs' = (\<lambda>b. fl_at a b + 16) ` {b. (\<exists>s. M b = Some (s, False)) \<and> b \<notin> H'}"
    and c: "M c = Some (t, v)"
    and same: "\<And>z. outside (insert (fl_at a c + 16) (set fs)) z \<Longrightarrow> fl_cells a' z = fl_cells a z"
    and hold: "\<forall>b \<in> H'. \<exists>s. M b = Some (s, False)"
  shows "fl_core a' M fs' H'"
proof -
  note C = fl_coreD [OF core]
  have hdr: "fl_cells a' (fl_at a b) = fl_cells a (fl_at a b) \<and> fl_cells a' (fl_at a b + 8) = fl_cells a (fl_at a b + 8)"
    if "M b = Some (s, u)" for b s u
    using fl_header_outside [OF core that c] same by blast
  have at: "fl_at a' = fl_at a" by (rule fl_static_at [OF st])
  have "fl_cells a' (fl_at a (b + s) + 8) = fl_at a b" if "M b = Some (s, u)" "M (b + s) \<noteq> None" for b s u
    using C(4) [OF that] hdr [of "b + s"] that(2) by auto
  moreover have "fl_cells a' (fl_at a 0 + 8) = NULL" using C(5) hdr [of 0] fl_partD(1) [OF C(2)] by auto
  moreover have "fl_shape a'" "fl_part (unat (fl_capacity a')) M" using C(1,2) st by (simp_all add: fl_shape_def fl_static_def)
  ultimately show ?thesis
    unfolding fl_core_def at using ring set' hold hdr C(3) by auto
qed

lemma fl_at_inj:
  assumes "fl_core a M fs H" and "M b = Some (s, u)" and "M c = Some (t, v)"
  shows "fl_at a b + 16 = fl_at a c + 16 \<longleftrightarrow> b = c"
  using fl_at_ne(1) [OF fl_coreD(1,2) [OF assms(1)] assms(2,3)] by simp

lemma fl_core_unlink:
  assumes core: "fl_core a M fs H" and b: "M b = Some (s, False)" "b \<notin> H"
  shows "\<exists>fs'. fl_core (fl_unlink a (fl_at a b + 16)) M fs' (insert b H)"
proof -
  note C = fl_coreD [OF core]
  have n: "fl_at a b + 16 \<in> set fs" using b unfolding C(7) by blast
  obtain fs' where ring: "fl_ring_ok (fl_unlink a (fl_at a b + 16)) fs'" and s': "set fs' = set fs - {fl_at a b + 16}"
    and same: "\<And>z. outside (set fs) z \<Longrightarrow> fl_cells (fl_unlink a (fl_at a b + 16)) z = fl_cells a z"
    using fl_unlink_ring [OF C(6) n] by blast
  have "set fs' = (\<lambda>b. fl_at a b + 16) ` {c. (\<exists>s. M c = Some (s, False)) \<and> c \<notin> insert b H}"
  proof -
    have "fl_at a c + 16 \<noteq> fl_at a b + 16" if "M c = Some (t, False)" "c \<noteq> b" for c t
      using fl_at_inj [OF core that(1) b(1)] that(2) by blast
    then show ?thesis unfolding s' C(7) by auto
  qed
  moreover have "\<forall>c \<in> insert b H. \<exists>s. M c = Some (s, False)" using C(8) b by blast
  ultimately have "fl_core (fl_unlink a (fl_at a b + 16)) M fs' (insert b H)"
    using same by (intro fl_core_ring [OF core _ ring _ b(1)]) (auto intro: outside_mono)
  then show ?thesis ..
qed

lemma fl_core_insert:
  assumes core: "fl_core a M fs H" and b: "b \<in> H"
  shows "\<exists>fs'. fl_core (fl_insert a (fl_at a b + 16)) M fs' (H - {b})"
proof -
  note C = fl_coreD [OF core]
  obtain s where bs: "M b = Some (s, False)" using C(8) [OF b] by blast
  note B = fl_at_block [OF C(1,2) bs]
  have n: "fl_at a b + 16 \<notin> set fs"
    using fl_at_inj [OF core bs] b by (auto elim!: fl_node_block [OF core])
  obtain fs' where ring: "fl_ring_ok (fl_insert a (fl_at a b + 16)) fs'"
    and s': "set fs' = insert (fl_at a b + 16) (set fs)"
    and same: "\<And>z. outside (insert (fl_at a b + 16) (set fs)) z \<Longrightarrow>
      fl_cells (fl_insert a (fl_at a b + 16)) z = fl_cells a z"
    using fl_insert_ring [OF C(6) n B(5,7)] by blast
  have "set fs' = (\<lambda>b. fl_at a b + 16) ` {c. (\<exists>s. M c = Some (s, False)) \<and> c \<notin> H - {b}}"
    unfolding s' C(7) using bs by auto
  moreover have "\<forall>c \<in> H - {b}. \<exists>s. M c = Some (s, False)" using C(8) by blast
  ultimately have "fl_core (fl_insert a (fl_at a b + 16)) M fs' (H - {b})"
    using same by (intro fl_core_ring [OF core _ ring _ bs]) auto
  then show ?thesis ..
qed

text \<open>Operations that keep the ring: writes to headers.\<close>

lemma fl_core_headers:
  assumes core: "fl_core a M fs H" and st: "fl_static a' a"
    and ptrs: "fl_free_head a' = fl_free_head a" "fl_cursor a' = fl_cursor a"
    and part: "fl_part (unat (fl_capacity a)) M'"
    and hdr: "\<And>b s u. M' b = Some (s, u) \<Longrightarrow> fl_cells a' (fl_at a b) = fl_enc s u"
    and prv: "\<And>b s u. M' b = Some (s, u) \<Longrightarrow> M' (b + s) \<noteq> None \<Longrightarrow> fl_cells a' (fl_at a (b + s) + 8) = fl_at a b"
    and zero: "fl_cells a' (fl_at a 0 + 8) = NULL"
    and nodes: "\<And>b s. M b = Some (s, False) \<Longrightarrow> b \<notin> H \<Longrightarrow>
      fl_cells a' (fl_at a b + 16) = fl_cells a (fl_at a b + 16) \<and> fl_cells a' (fl_at a b + 24) = fl_cells a (fl_at a b + 24)"
    and free: "\<And>b. (\<exists>s. M' b = Some (s, False)) \<and> b \<notin> H' \<longleftrightarrow> (\<exists>s. M b = Some (s, False)) \<and> b \<notin> H"
    and hold: "\<forall>b \<in> H'. \<exists>s. M' b = Some (s, False)"
  shows "fl_core a' M' fs H'"
proof -
  note C = fl_coreD [OF core]
  have at: "fl_at a' = fl_at a" by (rule fl_static_at [OF st])
  have "fl_ring_ok a' fs"
  proof (rule fl_ring_cong [OF C(6) ptrs])
    fix x assume "x \<in> set fs"
    then obtain b s where "x = fl_at a b + 16" "M b = Some (s, False)" "b \<notin> H" by (rule fl_node_block [OF core])
    then show "fl_cells a' x = fl_cells a x \<and> fl_cells a' (x + 8) = fl_cells a (x + 8)"
      using nodes by (simp add: add.assoc)
  qed
  moreover have "fl_shape a'" "fl_part (unat (fl_capacity a')) M'"
    using C(1) part st by (simp_all add: fl_shape_def fl_static_def)
  ultimately show ?thesis
    unfolding fl_core_def at free C(7) using hdr prv zero hold by blast
qed

lemma fl_core_flag:
  assumes core: "fl_core a M fs H" and b: "M b = Some (s, u)" and u: "u \<or> b \<in> H"
  shows "fl_core (hdr_set (fl_at a b) (of_nat s) v a) (M(b \<mapsto> (s, v))) fs (if v then H - {b} else insert b H)"
proof -
  note C = fl_coreD [OF core]
  let ?a = "hdr_set (fl_at a b) (of_nat s) v a"
  have cells: "fl_cells ?a = (fl_cells a)(fl_at a b := fl_enc s v)" by (simp add: hdr_set_def fl_enc_def)
  note ne = fl_at_ne [OF C(1,2) b]
  show ?thesis
  proof (rule fl_core_headers [OF core])
    show "fl_part (unat (fl_capacity a)) (M(b \<mapsto> (s, v)))" by (rule fl_part_flag [OF C(2) b])
    show "fl_cells ?a (fl_at a c) = fl_enc t w" if "(M(b \<mapsto> (s, v))) c = Some (t, w)" for c t w
      using that C(3) [of c t w] ne(1) [of c t w] unfolding cells by (auto split: if_splits)
    show "fl_cells ?a (fl_at a (c + t) + 8) = fl_at a c"
      if c: "(M(b \<mapsto> (s, v))) c = Some (t, w)" and "(M(b \<mapsto> (s, v))) (c + t) \<noteq> None" for c t w
    proof -
      have "\<exists>w. M c = Some (t, w)" "M (c + t) \<noteq> None" using that b by (auto split: if_splits)
      then show ?thesis using C(4) [of c t] ne(2) [of "c + t"] unfolding cells by auto
    qed
    show "fl_cells ?a (fl_at a 0 + 8) = NULL"
      using C(5) ne(2) [of 0] fl_partD(1) [OF C(2)] unfolding cells by auto
    show "fl_cells ?a (fl_at a c + 16) = fl_cells a (fl_at a c + 16) \<and>
        fl_cells ?a (fl_at a c + 24) = fl_cells a (fl_at a c + 24)" if "M c = Some (t, False)" for c t
      using ne(4,6) [OF that] unfolding cells by auto
  qed (use u b C(8) in \<open>auto simp: hdr_set_def split: if_splits\<close>)
qed


text \<open>Cutting a held free block into a used one and a held free rest.\<close>

lemma fl_core_split:
  assumes core: "fl_core a M fs H" and b: "M b = Some (s, False)" "b \<in> H"
    and n: "32 \<le> n" "n + 32 \<le> s" "16 dvd n"
  defines "split \<equiv> fl_at a b + of_nat n"
  defines "a1 \<equiv> set_prev_phys split (fl_at a b) (hdr_set split (of_nat (s - n)) False a)"
  defines "a2 \<equiv> (if next_phys a1 split \<noteq> NULL then set_prev_phys (next_phys a1 split) split a1 else a1)"
  shows "fl_core (hdr_set (fl_at a b) (of_nat n) True a2) (M(b \<mapsto> (n, True), b + n \<mapsto> (s - n, False))) fs
    (insert (b + n) (H - {b}))" (is "fl_core ?a' ?M fs ?H")
proof -
  note C = fl_coreD [OF core]
  note none = fl_part_split(1) [OF C(2) b(1) n] and part = fl_part_split(2) [OF C(2) b(1) n]
  have part': "fl_part (unat (fl_capacity a)) ?M" by (rule part)
  have M': "?M b = Some (n, True)" "?M (b + n) = Some (s - n, False)" using n by auto
  have rest: "?M c = M c" if "c \<noteq> b" "c \<noteq> b + n" for c using that by simp
  have split: "split = fl_at a (b + n)" by (simp add: split_def fl_at_def)
  have bns: "b + n + (s - n) = b + s" using n by simp
  have even: "even (s - n)" using fl_partD(3) [OF part' M'(2)] by (meson dvd_trans even_numeral)
  let ?e = "b + s"
  have e: "?M ?e \<noteq> None \<longleftrightarrow> M ?e \<noteq> None" using n by simp
  have nxt: "next_phys a1 split = (if M ?e = None then NULL else fl_at a ?e)"
  proof -
    have "fl_cells a1 split = fl_enc (s - n) False"
      by (simp add: a1_def set_prev_phys_def hdr_set_def fl_enc_def)
    then have "hdr_size a1 split = of_nat (s - n)"
      unfolding hdr_size_def using fl_enc_decode(1) [OF even] by simp
    moreover have "split + of_nat (s - n) = fl_at a ?e" unfolding split fl_at_add bns ..
    moreover have "fl_mem a1 = fl_mem a" "fl_capacity a1 = fl_capacity a"
      by (simp_all add: a1_def set_prev_phys_def hdr_set_def)
    ultimately show ?thesis unfolding next_phys_def Let_def using fl_at_end [OF core b(1)] by simp
  qed
  have eb: "fl_at a ?e \<noteq> NULL" if "M ?e \<noteq> None"
    using that fl_at_block(6) [OF C(1,2), of ?e] by auto
  have cells: "fl_cells ?a' =
     (let c = (fl_cells a)(split := fl_enc (s - n) False, split + 8 := fl_at a b);
          c = (if M ?e \<noteq> None then c(fl_at a ?e + 8 := split) else c)
      in c(fl_at a b := fl_enc n True))"
    unfolding a2_def nxt using eb
    by (auto simp: a1_def set_prev_phys_def hdr_set_def fl_enc_def Let_def)
  note ne = fl_at_ne [OF C(1) part']
  have look: "fl_cells ?a' z =
     (if z = fl_at a b then fl_enc n True else if M ?e \<noteq> None \<and> z = fl_at a ?e + 8 then fl_at a (b + n)
      else if z = fl_at a (b + n) + 8 then fl_at a b else if z = fl_at a (b + n) then fl_enc (s - n) False
      else fl_cells a z)" for z
    unfolding cells split by (simp add: Let_def)
  have E: "\<not> (M ?e \<noteq> None \<and> fl_at a c = fl_at a ?e + 8) \<and>
      (M ?e \<noteq> None \<and> fl_at a c + 8 = fl_at a ?e + 8 \<longleftrightarrow> M ?e \<noteq> None \<and> c = ?e) \<and>
      \<not> (M ?e \<noteq> None \<and> fl_at a c + 16 = fl_at a ?e + 8) \<and> \<not> (M ?e \<noteq> None \<and> fl_at a c + 24 = fl_at a ?e + 8)"
    if c: "?M c = Some (t, w)" for c t w
  proof (cases "M ?e")
    case (Some ry)
    then obtain r y where "M ?e = Some (r, y)" by (cases ry) auto
    then have "?M ?e = Some (r, y)" using n by simp
    then show ?thesis using ne(1,2) [OF c] ne(9,11) [OF _ c] by simp
  qed simp
  note ne_e = E [THEN conjunct1] E [THEN conjunct2, THEN conjunct1] E [THEN conjunct2, THEN conjunct2, THEN conjunct1]
    E [THEN conjunct2, THEN conjunct2, THEN conjunct2]
  show ?thesis
  proof (rule fl_core_headers [OF core _ _ _ part'])
    show "fl_static ?a' a"
      unfolding a2_def a1_def by (simp add: fl_static_def set_prev_phys_def hdr_set_def)
    show "fl_free_head ?a' = fl_free_head a" "fl_cursor ?a' = fl_cursor a"
      unfolding a2_def a1_def by (simp_all add: set_prev_phys_def hdr_set_def)
    show "fl_cells ?a' (fl_at a c) = fl_enc t w" if c: "?M c = Some (t, w)" for c t w
    proof -
      consider "c = b" "t = n" "w" | "c = b + n" "t = s - n" "\<not> w" | "c \<noteq> b" "c \<noteq> b + n" "M c = Some (t, w)"
        using c n by (auto split: if_splits)
      then show ?thesis
        unfolding look if_not_P [OF ne_e(1) [OF c]] ne(1) [OF c M'(1)] ne(1) [OF c M'(2)]
        using ne(2) [OF c M'(2)] n C(3) by cases simp_all
    qed
    show "fl_cells ?a' (fl_at a (c + t) + 8) = fl_at a c" if c: "?M c = Some (t, w)" and ct: "?M (c + t) \<noteq> None" for c t w
    proof -
      obtain r y where d: "?M (c + t) = Some (r, y)" using ct by auto
      have "fl_cells ?a' (fl_at a (c + t) + 8) =
          (if M ?e \<noteq> None \<and> c + t = ?e then fl_at a (b + n)
           else if c + t = b + n then fl_at a b else fl_cells a (fl_at a (c + t) + 8))"
        unfolding look ne_e(2) [OF d]
        unfolding add_right_cancel ne(1) [OF d M'(2)]
        using ne(3) [OF M'(1) d] ne(3) [OF M'(2) d] by simp
      moreover consider "c = b" "t = n" | "c = b + n" "t = s - n" | "c \<noteq> b" "c \<noteq> b + n" "M c = Some (t, w)"
        using c n by (auto split: if_splits)
      then have "(if M ?e \<noteq> None \<and> c + t = ?e then fl_at a (b + n)
           else if c + t = b + n then fl_at a b else fl_cells a (fl_at a (c + t) + 8)) = fl_at a c"
      proof cases
        case 1
        then show ?thesis using n by simp
      next
        case 2
        then have "c + t = ?e" using bns by simp
        then show ?thesis using 2 ct e by simp
      next
        case 3
        have ct': "c + t \<noteq> b + n" "c + t \<noteq> ?e"
          using fl_part_disjoint [OF part' c M'(1)] fl_part_disjoint [OF part' c M'(2)] 3
            fl_partD(2) [OF part' c] n by linarith+
        then have "M (c + t) \<noteq> None" using ct b(1) by (cases "c + t = b") simp_all
        then have "fl_cells a (fl_at a (c + t) + 8) = fl_at a c" by (rule C(4) [OF 3(3)])
        then show ?thesis using ct' by simp
      qed
      ultimately show ?thesis by (rule trans)
    qed
    show "fl_cells ?a' (fl_at a 0 + 8) = NULL"
    proof -
      obtain r y where z: "?M 0 = Some (r, y)" using fl_partD(1) [OF part'] by auto
      show ?thesis
        unfolding look ne_e(2) [OF z]
        unfolding add_right_cancel ne(1) [OF z M'(2)]
        using C(5) n ne(3) [OF M'(1) z] ne(3) [OF M'(2) z] by simp
    qed
    show "fl_cells ?a' (fl_at a c + 16) = fl_cells a (fl_at a c + 16) \<and>
        fl_cells ?a' (fl_at a c + 24) = fl_cells a (fl_at a c + 24)" if c: "M c = Some (t, False)" "c \<notin> H" for c t
    proof -
      have "c \<noteq> b" "c \<noteq> b + n" using c b none by auto
      then have c': "?M c = Some (t, False)" using c by simp
      show ?thesis
        unfolding look if_not_P [OF ne_e(3) [OF c']] if_not_P [OF ne_e(4) [OF c']]
        using ne(5,7,9,11) [OF M'(1) c'] ne(5,7,9,11) [OF M'(2) c'] by simp
    qed
    show "(\<exists>s. ?M c = Some (s, False)) \<and> c \<notin> ?H \<longleftrightarrow> (\<exists>s. M c = Some (s, False)) \<and> c \<notin> H" for c
      using b none n by (cases "c = b"; cases "c = b + n") auto
    show "\<forall>c \<in> ?H. \<exists>s. ?M c = Some (s, False)" using C(8) none by auto
  qed
qed


text \<open>Joining a held free block and the held free block right after it.\<close>

lemma fl_core_merge:
  assumes core: "fl_core a M fs H" and b: "M b = Some (s, False)" "b \<in> H"
    and c: "M (b + s) = Some (t, False)" "b + s \<in> H"
  defines "a1 \<equiv> hdr_set (fl_at a b) (of_nat s + of_nat t) False a"
  defines "a2 \<equiv> (if next_phys a1 (fl_at a b) \<noteq> NULL then set_prev_phys (next_phys a1 (fl_at a b)) (fl_at a b) a1 else a1)"
  shows "fl_core a2 (M(b + s := None, b \<mapsto> (s + t, False))) fs (H - {b + s})" (is "fl_core a2 ?M fs ?H")
proof -
  note C = fl_coreD [OF core]
  have part': "fl_part (unat (fl_capacity a)) ?M" by (rule fl_part_merge [OF C(2) b(1) c(1)])
  have s: "32 \<le> s" by (rule fl_partD(2) [OF C(2) b(1)])
  have old: "\<exists>r y. M d = Some (r, y)" if "?M d = Some (r', y')" for d r' y'
    using that b(1) by (auto split: if_splits)
  let ?e = "b + (s + t)"
  have "M ?e \<noteq> None \<longleftrightarrow> ?M ?e \<noteq> None" using s fl_partD(2) [OF C(2) c(1)] by simp
  have ev: "even (s + t)"
    using fl_partD(3) [OF C(2) b(1)] fl_partD(3) [OF C(2) c(1)] by (meson dvd_add dvd_trans even_numeral)
  have enc: "of_nat s + of_nat t = (of_nat (s + t) :: u64)" by simp
  have nxt: "next_phys a1 (fl_at a b) = (if M ?e = None then NULL else fl_at a ?e)"
  proof -
    have "hdr_size a1 (fl_at a b) = of_nat (s + t)"
      unfolding hdr_size_def a1_def enc using fl_enc_decode(1) [OF ev, of False] by (simp add: hdr_set_def fl_enc_def)
    moreover have "fl_mem a1 = fl_mem a" "fl_capacity a1 = fl_capacity a" by (simp_all add: a1_def hdr_set_def)
    ultimately show ?thesis
      unfolding next_phys_def Let_def using fl_at_end [OF core c(1)] by (simp only: fl_at_add add.assoc) simp
  qed
  have eb: "fl_at a ?e \<noteq> NULL" if "M ?e \<noteq> None"
    using that fl_at_block(6) [OF C(1,2), of ?e] by auto
  have look: "fl_cells a2 z =
     (if M ?e \<noteq> None \<and> z = fl_at a ?e + 8 then fl_at a b
      else if z = fl_at a b then fl_enc (s + t) False else fl_cells a z)" for z
    unfolding a2_def nxt using eb unfolding a1_def enc by (auto simp: set_prev_phys_def hdr_set_def fl_enc_def)
  note ne = fl_at_ne [OF C(1,2)]
  have E: "\<not> (M ?e \<noteq> None \<and> fl_at a d = fl_at a ?e + 8) \<and>
      (M ?e \<noteq> None \<and> fl_at a d + 8 = fl_at a ?e + 8 \<longleftrightarrow> M ?e \<noteq> None \<and> d = ?e) \<and>
      \<not> (M ?e \<noteq> None \<and> fl_at a d + 16 = fl_at a ?e + 8) \<and> \<not> (M ?e \<noteq> None \<and> fl_at a d + 24 = fl_at a ?e + 8)"
    if d: "M d = Some (r, w)" for d r w
  proof (cases "M ?e")
    case (Some ry)
    then obtain r y where "M ?e = Some (r, y)" by (cases ry) auto
    then show ?thesis using ne(1,2) [OF d] ne(9,11) [OF _ d] by simp
  qed simp
  note ne_e = E [THEN conjunct1] E [THEN conjunct2, THEN conjunct1] E [THEN conjunct2, THEN conjunct2, THEN conjunct1]
    E [THEN conjunct2, THEN conjunct2, THEN conjunct2]
  show ?thesis
  proof (rule fl_core_headers [OF core _ _ _ part'])
    show "fl_static a2 a" "fl_free_head a2 = fl_free_head a" "fl_cursor a2 = fl_cursor a"
      unfolding a2_def a1_def by (simp_all add: fl_static_def set_prev_phys_def hdr_set_def)
    show "fl_cells a2 (fl_at a d) = fl_enc r w" if d: "?M d = Some (r, w)" for d r w
    proof -
      obtain r' w' where d': "M d = Some (r', w')" using old [OF d] by blast
      consider "d = b" "r = s + t" "\<not> w" | "d \<noteq> b" "M d = Some (r, w)" using d by (auto split: if_splits)
      then show ?thesis
        unfolding look if_not_P [OF ne_e(1) [OF d']] ne(1) [OF d' b(1)] using C(3) by cases simp_all
    qed
    show "fl_cells a2 (fl_at a (d + r) + 8) = fl_at a d" if d: "?M d = Some (r, w)" and dr: "?M (d + r) \<noteq> None" for d r w
    proof -
      obtain r' w' where f: "M (d + r) = Some (r', w')"
        using dr b(1) by (cases "M (d + r)"; cases "d + r = b") (auto split: if_splits)
      have "fl_cells a2 (fl_at a (d + r) + 8) =
          (if M ?e \<noteq> None \<and> d + r = ?e then fl_at a b else fl_cells a (fl_at a (d + r) + 8))"
        unfolding look ne_e(2) [OF f] if_not_P [OF ne(3) [OF b(1) f]] ..
      moreover consider "d = b" "r = s + t" | "d \<noteq> b" "d \<noteq> b + s" "M d = Some (r, w)"
        using d by (auto split: if_splits)
      then have "(if M ?e \<noteq> None \<and> d + r = ?e then fl_at a b else fl_cells a (fl_at a (d + r) + 8)) = fl_at a d"
      proof cases
        case 1
        then show ?thesis using f by simp
      next
        case 2
        have "d + r \<noteq> ?e"
          using fl_part_disjoint [OF C(2) 2(3) c(1)] 2(2) fl_partD(2) [OF C(2) 2(3)] fl_partD(2) [OF C(2) c(1)] by linarith
        moreover have "fl_cells a (fl_at a (d + r) + 8) = fl_at a d" by (rule C(4) [OF 2(3)]) (use f in simp)
        ultimately show ?thesis by simp
      qed
      ultimately show ?thesis by (rule trans)
    qed
    show "fl_cells a2 (fl_at a 0 + 8) = NULL"
    proof -
      obtain r y where z: "M 0 = Some (r, y)" using fl_partD(1) [OF C(2)] by auto
      show ?thesis
        unfolding look ne_e(2) [OF z] if_not_P [OF ne(3) [OF b(1) z]] using C(5) s by simp
    qed
    show "fl_cells a2 (fl_at a d + 16) = fl_cells a (fl_at a d + 16) \<and>
        fl_cells a2 (fl_at a d + 24) = fl_cells a (fl_at a d + 24)" if d: "M d = Some (r, False)" "d \<notin> H" for d r
      unfolding look if_not_P [OF ne_e(3) [OF d(1)]] if_not_P [OF ne_e(4) [OF d(1)]]
        if_not_P [OF ne(5) [OF b(1) d(1)]] if_not_P [OF ne(7) [OF b(1) d(1)]] by simp
    show "(\<exists>s. ?M d = Some (s, False)) \<and> d \<notin> ?H \<longleftrightarrow> (\<exists>s. M d = Some (s, False)) \<and> d \<notin> H" for d
      using b c s by (cases "d = b"; cases "d = b + s") auto
    show "\<forall>d \<in> ?H. \<exists>s. ?M d = Some (s, False)" using C(8) by auto
  qed
qed


subsection \<open>Searching the ring\<close>

definition node_fits :: "fl_alloc \<Rightarrow> u64 \<Rightarrow> addr \<Rightarrow> bool" where
  "node_fits a need n \<longleftrightarrow> hdr_size a (header_of n) \<ge> need"

definition first_fit :: "fl_alloc \<Rightarrow> u64 \<Rightarrow> addr list \<Rightarrow> addr" where
  "first_fit a need ns = (case find (node_fits a need) ns of None \<Rightarrow> NULL | Some n \<Rightarrow> n)"

text \<open>The loop of first and next fit, on the rest \<open>ns\<close> of a ring that closes at \<open>x\<close>.\<close>

lemma fit_loop_spec:
  "dl_seg (fl_cells a) p n ns l x \<Longrightarrow> ns \<noteq> [] \<Longrightarrow> x \<notin> set (tl ns) \<Longrightarrow> length ns \<le> fuel \<Longrightarrow>
   fit_loop fuel a need x n = Some (first_fit a need ns)"
proof (induction fuel arbitrary: p n ns)
  case (Suc fuel)
  then obtain ms where ns: "ns = n # ms" and tl: "dl_seg (fl_cells a) n (fl_cells a n) ms l x"
    by (cases ns) auto
  show ?case
  proof (cases "node_fits a need n")
    case True
    then show ?thesis by (simp add: ns first_fit_def node_fits_def)
  next
    case False
    show ?thesis
    proof (cases "ms = []")
      case True
      then have "fl_cells a n = x" using tl by simp
      then show ?thesis using False True by (simp add: ns first_fit_def node_fits_def)
    next
      case nonempty: False
      then have h: "fl_cells a n = hd ms" using dl_seg_hd [OF tl] by simp
      then have "fl_cells a n \<noteq> x" using nonempty Suc.prems(3) ns by (metis hd_in_set list.sel(3))
      moreover have "fit_loop fuel a need x (fl_cells a n) = Some (first_fit a need ms)"
        using Suc.prems ns nonempty by (intro Suc.IH [OF tl nonempty]) (auto dest: list.set_sel(2))
      ultimately show ?thesis using False by (simp add: ns first_fit_def node_fits_def)
    qed
  qed
qed simp

text \<open>The choice of best fit among a list of nodes, given the best so far.\<close>

fun best_fit :: "fl_alloc \<Rightarrow> u64 \<Rightarrow> addr list \<Rightarrow> addr \<Rightarrow> u64 \<Rightarrow> addr" where
  "best_fit a need [] best sz = best"
| "best_fit a need (n # ns) best sz =
     (if node_fits a need n \<and> hdr_size a (header_of n) < sz
      then best_fit a need ns n (hdr_size a (header_of n)) else best_fit a need ns best sz)"

lemma best_loop_spec:
  "dl_seg (fl_cells a) p n ns l x \<Longrightarrow> ns \<noteq> [] \<Longrightarrow> x \<notin> set (tl ns) \<Longrightarrow> length ns \<le> fuel \<Longrightarrow>
   best_loop fuel a need x n best sz = Some (best_fit a need ns best sz)"
proof (induction fuel arbitrary: p n ns best sz)
  case (Suc fuel)
  then obtain ms where ns: "ns = n # ms" and tl: "dl_seg (fl_cells a) n (fl_cells a n) ms l x"
    by (cases ns) auto
  show ?case
  proof (cases "ms = []")
    case True
    then have "fl_cells a n = x" using tl by simp
    then show ?thesis using True by (simp add: ns node_fits_def Let_def)
  next
    case nonempty: False
    then have h: "fl_cells a n = hd ms" using dl_seg_hd [OF tl] by simp
    then have "fl_cells a n \<noteq> x" using nonempty Suc.prems(3) ns by (metis hd_in_set list.sel(3))
    moreover have "best_loop fuel a need x (fl_cells a n) b' sz' = Some (best_fit a need ms b' sz')" for b' sz'
      using Suc.prems ns nonempty by (intro Suc.IH [OF tl nonempty]) (auto dest: list.set_sel(2))
    ultimately show ?thesis by (simp add: ns node_fits_def Let_def)
  qed
qed simp

lemma best_fit_least:
  "best_fit a need ns best sz = best \<and> (\<forall>n \<in> set ns. node_fits a need n \<longrightarrow> sz \<le> hdr_size a (header_of n)) \<or>
   (\<exists>m \<in> set ns. best_fit a need ns best sz = m \<and> node_fits a need m \<and> hdr_size a (header_of m) < sz \<and>
      (\<forall>n \<in> set ns. node_fits a need n \<longrightarrow> hdr_size a (header_of m) \<le> hdr_size a (header_of n)))"
proof (induction ns arbitrary: sz best)
  case (Cons n ns)
  show ?case
  proof (cases "node_fits a need n \<and> hdr_size a (header_of n) < sz")
    case True
    then show ?thesis using Cons.IH [of n "hdr_size a (header_of n)"] by fastforce
  next
    case False
    then have "node_fits a need n \<longrightarrow> sz \<le> hdr_size a (header_of n)" by auto
    moreover have "best_fit a need (n # ns) best sz = best_fit a need ns best sz" using False by auto
    ultimately show ?thesis using Cons.IH [of best sz] by fastforce
  qed
qed simp

end
