(* ===== verification/HF_Free_List_Ops.thy ===== *)
theory HF_Free_List_Ops
  imports HF_Free_List_Rep
begin

text \<open>
  Correctness of the boundary-tag allocator: the operations keep the representation, no two
  neighbours are ever both free, every search policy picks the block it promises, and the allocator
  satisfies the allocator and layout contracts.
\<close>

subsection \<open>The search policies\<close>

definition rotate_to :: "addr \<Rightarrow> addr list \<Rightarrow> addr list" where
  "rotate_to x ns = dropWhile (\<lambda>n. n \<noteq> x) ns @ takeWhile (\<lambda>n. n \<noteq> x) ns"

definition fit_choice :: "fl_alloc \<Rightarrow> u64 \<Rightarrow> addr list \<Rightarrow> addr" where
  "fit_choice a need fs =
     (case fl_policy a of
        HF_FIT_FIRST \<Rightarrow> first_fit a need fs
      | HF_FIT_BEST \<Rightarrow> best_fit a need fs NULL (- 1)
      | HF_FIT_NEXT \<Rightarrow> first_fit a need (rotate_to (fl_cursor a) fs))"

lemma set_rotate_to [simp]: "set (rotate_to x ns) = set ns"
proof -
  have "set (rotate_to x ns) = set (takeWhile (\<lambda>n. n \<noteq> x) ns @ dropWhile (\<lambda>n. n \<noteq> x) ns)"
    unfolding rotate_to_def set_append by (rule Un_commute)
  then show ?thesis by simp
qed

lemma rotate_to_hd: "x \<in> set ns \<Longrightarrow> hd (rotate_to x ns) = x"
  unfolding rotate_to_def by (induction ns) auto

lemma dl_ring_rotate_to:
  assumes "dl_ring c fs"
  shows "dl_ring c (rotate_to x fs)"
  unfolding rotate_to_def by (rule dl_ring_rotate) (use assms in simp)

lemma dl_ring_next:
  assumes "dl_ring c fs" and "n \<in> set fs"
  shows "c n \<in> set fs" and "n \<noteq> NULL"
proof -
  have "dl_ring c (rotate_to n fs)" by (rule dl_ring_rotate_to [OF assms(1)])
  moreover obtain ms where ms: "rotate_to n fs = n # ms"
    using rotate_to_hd [OF assms(2)] assms(2) by (metis list.collapse set_rotate_to list.set_cases empty_iff list.set(1))
  ultimately have "c n = hd (ms @ [n])" and "n \<noteq> NULL" using dl_ring_Cons by auto
  moreover have "set fs = set (n # ms)" using ms set_rotate_to by metis
  moreover have "hd (ms @ [n]) \<in> set (n # ms)" by (cases ms) auto
  ultimately show "c n \<in> set fs" and "n \<noteq> NULL" by simp_all
qed

lemma first_fit_cases:
  "first_fit a need ns = NULL \<and> (\<forall>n \<in> set ns. \<not> node_fits a need n) \<or>
   first_fit a need ns \<in> set ns \<and> node_fits a need (first_fit a need ns)"
proof (cases "find (node_fits a need) ns")
  case None
  then show ?thesis using find_None_iff [of "node_fits a need" ns] by (simp add: first_fit_def)
next
  case (Some n)
  then show ?thesis using find_Some_iff [THEN iffD1, OF Some] by (auto simp: first_fit_def)
qed

lemma fit_choice_cases:
  assumes "\<forall>n \<in> set fs. hdr_size a (header_of n) < - 1"
  shows "fit_choice a need fs = NULL \<and> (\<forall>n \<in> set fs. \<not> node_fits a need n) \<or>
    fit_choice a need fs \<in> set fs \<and> node_fits a need (fit_choice a need fs)"
proof (cases "fl_policy a")
  case HF_FIT_FIRST
  then show ?thesis using first_fit_cases [of a need fs] by (simp add: fit_choice_def)
next
  case HF_FIT_BEST
  then show ?thesis
    using best_fit_least [of a need fs NULL "- 1"] assms by (auto simp: fit_choice_def not_le [symmetric])
next
  case HF_FIT_NEXT
  then show ?thesis using first_fit_cases [of a need "rotate_to (fl_cursor a) fs"] by (simp add: fit_choice_def)
qed

lemma fl_free_bounds:
  assumes core: "fl_core a M fs H" and n: "n \<in> set fs"
  obtains b s where "n = fl_at a b + 16" and "header_of n = fl_at a b" and "M b = Some (s, False)" and "b \<notin> H"
    and "hdr_size a (header_of n) = of_nat s" and "unat (of_nat s :: u64) = s" and "s < 2 ^ 63"
proof -
  obtain b s where b: "n = fl_at a b + 16" "M b = Some (s, False)" "b \<notin> H" by (rule fl_node_block [OF core n])
  have h: "header_of n = fl_at a b" by (simp add: b(1) header_of_def FL_HDR_def)
  have "s < 2 ^ 63" using fl_at_block(8) [OF fl_coreD(1,2) [OF core] b(2)] by simp
  then show thesis using that b h fl_core_header(1,3) [OF core b(2)] by simp
qed

lemma fl_fuel_enough:
  assumes core: "fl_core a M fs H"
  shows "length fs \<le> fl_fuel a"
proof -
  note C = fl_coreD [OF core]
  let ?S = "{b. (\<exists>s. M b = Some (s, False)) \<and> b \<notin> H}"
  have fin: "finite ?S"
    by (rule finite_subset [of _ "{..<unat (fl_capacity a)}"]) (use fl_part_below [OF C(2)] in auto)
  have "card ?S * 32 \<le> unat (fl_capacity a)"
  proof (rule packed_ranges [OF fin])
    show "\<forall>x \<in> ?S. x + 32 \<le> unat (fl_capacity a)"
      using fl_partD(2,5) [OF C(2)] by fastforce
    show "\<forall>x \<in> ?S. \<forall>y \<in> ?S. x < y \<longrightarrow> x + 32 \<le> y"
    proof (intro ballI impI)
      fix x y assume "x \<in> ?S" "y \<in> ?S" and lt: "x < y"
      then obtain s t where x: "M x = Some (s, False)" and y: "M y = Some (t, False)" by blast
      show "x + 32 \<le> y" using fl_part_disjoint [OF C(2) x y] fl_partD(2) [OF C(2) x] lt by linarith
    qed
  qed
  moreover have "length fs \<le> card ?S"
  proof -
    have "distinct fs" using C(6) by (cases "fs = []") (auto simp: fl_ring_ok_def dl_ring_def)
    then have "length fs = card (set fs)" by (simp add: distinct_card)
    also have "\<dots> \<le> card ?S" unfolding C(7) by (rule card_image_le [OF fin])
    finally show ?thesis .
  qed
  ultimately show ?thesis unfolding fl_fuel_def by (simp add: less_eq_div_iff_mult_less_eq)
qed

lemma find_fit_ring:
  assumes ring: "fl_ring_ok a fs" and fuel: "length fs \<le> fl_fuel a"
  shows "find_fit a need =
    Some (fit_choice a need fs,
      if fl_policy a = HF_FIT_NEXT \<and> fit_choice a need fs \<noteq> NULL
      then a\<lparr>fl_cursor := fl_cells a (fit_choice a need fs)\<rparr> else a)"
proof (cases "fs = []")
  case True
  then show ?thesis
    using ring by (cases "fl_policy a")
      (simp_all add: fl_ring_ok_def find_fit_def fit_choice_def first_fit_def rotate_to_def)
next
  case False
  then have ok: "dl_ring (fl_cells a) fs" "fl_free_head a = hd fs" "fl_cursor a \<in> set fs"
    using ring by (simp_all add: fl_ring_ok_def)
  have hd0: "fl_free_head a \<noteq> NULL" "fl_cursor a \<noteq> NULL"
    using dl_ring_next(2) [OF ok(1)] ok(2,3) False by simp_all
  have seg: "dl_seg (fl_cells a) (last gs) (hd gs) gs (last gs) (hd gs) \<and> gs \<noteq> [] \<and> hd gs \<notin> set (tl gs)"
    if "dl_ring (fl_cells a) gs" for gs
    using that by (cases gs) (auto simp: dl_ring_def)
  have len: "length (rotate_to x fs) = length fs" for x
    using distinct_card [of "rotate_to x fs"] distinct_card [of fs] dl_ring_rotate_to [OF ok(1)] ok(1)
    by (simp add: dl_ring_def)
  show ?thesis
  proof (cases "fl_policy a")
    case HF_FIT_FIRST
    then show ?thesis
      using fit_loop_spec [of a _ _ fs _ "hd fs"] seg [OF ok(1)] fuel hd0 ok(2)
      by (auto simp: find_fit_def fit_choice_def)
  next
    case HF_FIT_BEST
    then show ?thesis
      using best_loop_spec [of a _ _ fs _ "hd fs"] seg [OF ok(1)] fuel hd0 ok(2)
      by (auto simp: find_fit_def fit_choice_def)
  next
    case HF_FIT_NEXT
    let ?gs = "rotate_to (fl_cursor a) fs"
    have "fit_loop (fl_fuel a) a need (hd ?gs) (hd ?gs) = Some (first_fit a need ?gs)"
      using seg [OF dl_ring_rotate_to [OF ok(1)], of "fl_cursor a"] fuel len by (intro fit_loop_spec) auto
    then show ?thesis
      using HF_FIT_NEXT hd0 rotate_to_hd [OF ok(3)] by (simp add: find_fit_def fit_choice_def Let_def)
  qed
qed


subsection \<open>Cutting a block\<close>

definition fl_coalesced :: "fl_blocks \<Rightarrow> bool" where
  "fl_coalesced M \<longleftrightarrow> (\<forall>b s t. M b = Some (s, False) \<longrightarrow> M (b + s) \<noteq> Some (t, False))"

lemma fl_core_stats [simp]: "fl_core (a\<lparr>fl_stats := st\<rparr>) M fs H = fl_core a M fs H"
  by (simp add: fl_core_def fl_shape_def fl_ring_ok_def fl_at_def)

lemma fl_core_cursor:
  assumes core: "fl_core a M fs H" and "x \<in> set fs"
  shows "fl_core (a\<lparr>fl_cursor := x\<rparr>) M fs H"
proof -
  have "fl_ring_ok (a\<lparr>fl_cursor := x\<rparr>) fs"
    using fl_coreD(6) [OF core] assms(2) by (auto simp: fl_ring_ok_def split: if_splits)
  then show ?thesis using core by (simp add: fl_core_def fl_shape_def fl_at_def)
qed

lemma fl_coalesced_split:
  assumes coal: "fl_coalesced M" and part: "fl_part cap M" and b: "M b = Some (s, False)"
    and n: "32 \<le> n" "n + 32 \<le> s"
  shows "fl_coalesced (M(b \<mapsto> (n, True), b + n \<mapsto> (s - n, False)))" (is "fl_coalesced ?M")
  unfolding fl_coalesced_def
proof (intro allI impI notI)
  fix c t r
  assume c: "?M c = Some (t, False)" and d: "?M (c + t) = Some (r, False)"
  have "c \<noteq> b" using c n by auto
  show False
  proof (cases "c = b + n")
    case True
    then have ct: "c + t = b + s" using c n by simp
    then have "M (b + s) = Some (r, False)" using d n by (auto split: if_splits)
    then show False using coal b by (simp add: fl_coalesced_def)
  next
    case False
    then have Mc: "M c = Some (t, False)" using c \<open>c \<noteq> b\<close> by simp
    have "c + t \<noteq> b + n"
      using fl_part_disjoint [OF part b Mc] \<open>c \<noteq> b\<close> fl_partD(2) [OF part Mc] n by linarith
    moreover have "c + t \<noteq> b" using coal Mc b by (auto simp: fl_coalesced_def)
    ultimately show False using d coal Mc by (auto simp: fl_coalesced_def split: if_splits)
  qed
qed

lemma fl_coalesced_use:
  assumes "fl_coalesced M"
  shows "fl_coalesced (M(b \<mapsto> (s, True)))"
  unfolding fl_coalesced_def
proof (intro allI impI notI)
  fix c t r
  assume "(M(b \<mapsto> (s, True))) c = Some (t, False)" "(M(b \<mapsto> (s, True))) (c + t) = Some (r, False)"
  then have "M c = Some (t, False)" "M (c + t) = Some (r, False)" by (simp_all split: if_splits)
  then show False using assms by (simp add: fl_coalesced_def)
qed

lemma fl_carve_core:
  assumes core: "fl_core a M fs {b}" and b: "M b = Some (s, False)"
    and need: "unat need \<le> s" "32 \<le> unat need" "16 dvd unat need"
  obtains M' fs' t where "fl_core (fl_carve a (fl_at a b) need) M' fs' {}" and "M' b = Some (t, True)"
    and "unat need \<le> t" and "t \<le> s" and "\<And>c r. c \<noteq> b \<Longrightarrow> M' c = Some (r, True) \<longleftrightarrow> M c = Some (r, True)"
    and "fl_coalesced M \<Longrightarrow> fl_coalesced M'" and "fl_static (fl_carve a (fl_at a b) need) a"
proof -
  note C = fl_coreD [OF core]
  define n where "n = unat need"
  have wn: "need = of_nat n" by (simp add: n_def)
  note h = fl_core_header [OF core b]
  have rem: "hdr_size a (fl_at a b) - need = of_nat (s - n)"
    unfolding h(1) wn using need(1) by (simp add: n_def)
  have "unat (of_nat (s - n) :: u64) = s - n"
    using fl_at_block(8) [OF C(1,2) b] by (intro unat_of_nat_small) simp
  then have cond: "(of_nat (s - n) :: u64) \<ge> FL_MIN \<longleftrightarrow> n + 32 \<le> s"
    using need(1) by (auto simp: word_le_nat_alt FL_MIN_def FL_HDR_def n_def)
  show thesis
  proof (cases "n + 32 \<le> s")
    case True
    have n: "32 \<le> n" "n + 32 \<le> s" "16 dvd n" using need True by (simp_all add: n_def)
    let ?split = "fl_at a b + of_nat n"
    let ?a1 = "set_prev_phys ?split (fl_at a b) (hdr_set ?split (of_nat (s - n)) False a)"
    let ?a2 = "if next_phys ?a1 ?split \<noteq> NULL then set_prev_phys (next_phys ?a1 ?split) ?split ?a1 else ?a1"
    let ?a3 = "hdr_set (fl_at a b) (of_nat n) True ?a2"
    let ?M = "M(b \<mapsto> (n, True), b + n \<mapsto> (s - n, False))"
    have core3: "fl_core ?a3 ?M fs {b + n}" using fl_core_split [OF core b _ n] by simp
    have st3: "fl_static ?a3 a"
      by (simp add: fl_static_def set_prev_phys_def hdr_set_def)
    then have at: "fl_at ?a3 (b + n) = ?split" using fl_static_at [OF st3] fl_at_add by simp
    have eq: "fl_carve a (fl_at a b) need = fl_insert ?a3 (fl_at ?a3 (b + n) + 16)"
      unfolding at fl_carve_def Let_def rem cond using True by (simp add: wn payload_node_def FL_HDR_def)
    obtain fs' where "fl_core (fl_carve a (fl_at a b) need) ?M fs' {}"
      unfolding eq using fl_core_insert [OF core3, of "b + n"] by auto
    moreover have "fl_static (fl_carve a (fl_at a b) need) a"
      unfolding eq by (rule fl_static_trans [OF fl_static_ops(1) st3])
    moreover have "?M c = Some (r, True) \<longleftrightarrow> M c = Some (r, True)" if "c \<noteq> b" for c r
      using that fl_part_split(1) [OF C(2) b n] by (cases "c = b + n") simp_all
    moreover have "fl_coalesced ?M" if "fl_coalesced M" by (rule fl_coalesced_split [OF that C(2) b n(1,2)])
    ultimately show thesis using n by (intro that [where M' = ?M and t = n]) (simp_all add: n_def)
  next
    case False
    let ?M = "M(b \<mapsto> (s, True))"
    have eq: "fl_carve a (fl_at a b) need = hdr_set (fl_at a b) (of_nat s) True a"
      unfolding fl_carve_def Let_def rem if_not_P [OF False [folded cond]]
      unfolding h(1) ..
    have "fl_core (fl_carve a (fl_at a b) need) ?M fs {}"
      unfolding eq using fl_core_flag [OF core b, of True] by simp
    moreover have "fl_static (fl_carve a (fl_at a b) need) a" unfolding eq by simp
    moreover have "fl_coalesced ?M" if "fl_coalesced M" by (rule fl_coalesced_use [OF that])
    ultimately show thesis using need(1) by (intro that [where M' = ?M and t = s]) simp_all
  qed
qed


subsection \<open>Allocation\<close>

definition fl_need :: "u64 \<Rightarrow> u64 \<Rightarrow> u64" where
  "fl_need sz al =
     (let sz = (if sz = 0 then 1 else sz); sz = (if al > HF_DEFAULT_ALIGN then sz + al else sz);
          need = hf_align_up (FL_HDR + sz) HF_DEFAULT_ALIGN
      in if need < FL_MIN then FL_MIN else need)"

definition fl_finish :: "fl_alloc \<Rightarrow> addr \<Rightarrow> u64 \<Rightarrow> addr option \<times> fl_alloc" where
  "fl_finish a p al =
     (if al > HF_DEFAULT_ALIGN then
        let aligned = hf_align_up (p + 8) al in (Some aligned, fl_store (aligned - 8) (aligned - p) a)
      else (Some p, a))"

lemma fl_need_bounds:
  fixes al :: u64
  assumes "unat sz + (if al > HF_DEFAULT_ALIGN then unat al else 0) + 32 < 2 ^ 64"
  shows "32 \<le> unat (fl_need sz al)" and "16 dvd unat (fl_need sz al)"
    and "unat sz + (if al > HF_DEFAULT_ALIGN then unat al else 0) + 16 \<le> unat (fl_need sz al)"
proof -
  define z where "z = (if sz = 0 then 1 else sz)"
  define y where "y = (if al > HF_DEFAULT_ALIGN then z + al else z)"
  let ?e = "if al > HF_DEFAULT_ALIGN then unat al else 0"
  have z: "unat z + ?e + 32 \<le> 2 ^ 64" using assms by (auto simp: z_def)
  then have y: "unat y = unat z + ?e" "unat (FL_HDR + y) = unat z + ?e + 16"
    by (auto simp: y_def FL_HDR_def unat_add_nowrap)
  have "unat (hf_align_up (FL_HDR + y) 16) = (unat z + ?e + 31) div 16 * 16"
    using z y(2) by (subst hf_align_up_16) auto
  moreover have "fl_need sz al = (if hf_align_up (FL_HDR + y) 16 < 32 then 32 else hf_align_up (FL_HDR + y) 16)"
    by (simp add: fl_need_def y_def z_def FL_MIN_def FL_HDR_def HF_DEFAULT_ALIGN_def Let_def)
  ultimately have n: "unat (fl_need sz al) = max 32 ((unat z + ?e + 31) div 16 * 16)"
    by (auto simp: word_less_nat_alt max_def)
  show "32 \<le> unat (fl_need sz al)" unfolding n by simp
  show "16 dvd unat (fl_need sz al)" unfolding n by (auto simp: max_def)
  have "unat sz \<le> unat z" by (simp add: z_def)
  then show "unat sz + ?e + 16 \<le> unat (fl_need sz al)" unfolding n by linarith
qed


lemma fl_allocate_eq:
  "fl_allocate a sz al =
     (let a = a\<lparr>fl_stats := count_alloc (fl_stats a)\<rparr>;
          (node, a) = (case find_fit a (fl_need sz al) of None \<Rightarrow> (NULL, a) | Some r \<Rightarrow> r)
      in if node = NULL then (None, a\<lparr>fl_stats := count_failed (fl_stats a)\<rparr>)
         else let h = header_of node; a = fl_carve (fl_unlink a node) h (fl_need sz al)
              in fl_finish (a\<lparr>fl_stats := raise_peak (set_used (hs_used (fl_stats a) + hdr_size a h) (fl_stats a))\<rparr>)
                   (h + FL_HDR) al)"
  unfolding fl_allocate_def fl_need_def fl_finish_def Let_def by (simp split: prod.splits option.splits)

lemma fl_free_size_lt:
  assumes "fl_core a M fs H" and "n \<in> set fs"
  shows "hdr_size a (header_of n) < - 1"
  by (rule fl_free_bounds [OF assms]) (simp add: word_less_nat_alt unsigned_minus_1_eq_mask mask_eq_exp_minus_1)

lemma fl_find_core:
  assumes core: "fl_core a M fs H"
  obtains (none) "find_fit a need = Some (NULL, a)" and "\<forall>b s. M b = Some (s, False) \<longrightarrow> b \<notin> H \<longrightarrow> s < unat need"
  | (found) a' b s where "find_fit a need = Some (fl_at a b + 16, a')" and "M b = Some (s, False)" and "b \<notin> H"
      and "unat need \<le> s" and "fl_core a' M fs H" and "fl_static a' a"
proof -
  note C = fl_coreD [OF core]
  let ?n = "fit_choice a need fs"
  note find = find_fit_ring [OF C(6) fl_fuel_enough [OF core], of need]
  have size: "hdr_size a (header_of n) < - 1" if "n \<in> set fs" for n by (rule fl_free_size_lt [OF core that])
  consider "?n = NULL" "\<forall>n \<in> set fs. \<not> node_fits a need n" | "?n \<in> set fs" "node_fits a need ?n"
    using fit_choice_cases [of fs a need] size by blast
  then show thesis
  proof cases
    case 1
    have "s < unat need" if b: "M b = Some (s, False)" "b \<notin> H" for b s
    proof -
      have n: "fl_at a b + 16 \<in> set fs" using b unfolding C(7) by blast
      have "hdr_size a (header_of (fl_at a b + 16)) = of_nat s"
        using fl_core_header(1) [OF core b(1)] by (simp add: header_of_def FL_HDR_def)
      then show ?thesis
        using 1(2) n fl_core_header(3) [OF core b(1)] by (auto simp: node_fits_def word_le_nat_alt not_le)
    qed
    then show thesis using none find 1(1) by simp
  next
    case 2
    obtain b s where b: "?n = fl_at a b + 16" "M b = Some (s, False)" "b \<notin> H"
        "hdr_size a (header_of ?n) = of_nat s" "unat (of_nat s :: u64) = s"
      using fl_free_bounds [OF core 2(1)] by metis
    have need: "unat need \<le> s" using 2(2) b(4,5) by (simp add: node_fits_def word_le_nat_alt)
    have ring: "dl_ring (fl_cells a) fs" using C(6) 2(1) by (auto simp: fl_ring_ok_def split: if_splits)
    note nx = dl_ring_next [OF ring 2(1)]
    let ?a' = "if fl_policy a = HF_FIT_NEXT \<and> ?n \<noteq> NULL then a\<lparr>fl_cursor := fl_cells a ?n\<rparr> else a"
    have "fl_core ?a' M fs H" using core fl_core_cursor [OF core nx(1)] by simp
    moreover have "fl_static ?a' a" by (simp add: fl_static_def)
    moreover have "find_fit a need = Some (fl_at a b + 16, ?a')" using find unfolding b(1) .
    ultimately show thesis using found b(2,3) need by blast
  qed
qed

lemma fl_allocate_core:
  fixes al :: u64
  assumes core: "fl_core a M fs {}" and coal: "fl_coalesced M"
    and fit: "unat n + (if al > HF_DEFAULT_ALIGN then unat al else 0) + 32 < 2 ^ 64"
  defines "need \<equiv> fl_need n al"
  obtains (refused) a' where "fl_allocate a n al = (None, a')" and "fl_core a' M fs {}"
      and "hs_used (fl_stats a') = hs_used (fl_stats a)" and "fl_mem a' = fl_mem a"
      and "\<forall>b s. M b = Some (s, False) \<longrightarrow> s < unat need"
  | (granted) b s t M' fs' a' where "fl_allocate a n al = fl_finish a' (fl_at a b + 16) al"
      and "fl_core a' M' fs' {}" and "fl_coalesced M'" and "M b = Some (s, False)" and "M' b = Some (t, True)"
      and "unat need \<le> t" and "t \<le> s" and "\<forall>c r. c \<noteq> b \<longrightarrow> M' c = Some (r, True) \<longleftrightarrow> M c = Some (r, True)"
      and "hs_used (fl_stats a') = hs_used (fl_stats a) + of_nat t" and "fl_mem a' = fl_mem a"
proof -
  let ?a = "a\<lparr>fl_stats := count_alloc (fl_stats a)\<rparr>"
  have core1: "fl_core ?a M fs {}" using core by simp
  have at: "fl_at ?a = fl_at a" by (simp add: fl_at_def fun_eq_iff)
  note N = fl_need_bounds [OF fit, folded need_def]
  show thesis
  proof (rule fl_find_core [OF core1, of need], goal_cases)
    case 1
    have "fl_allocate a n al = (None, ?a\<lparr>fl_stats := count_failed (fl_stats ?a)\<rparr>)"
      unfolding fl_allocate_eq need_def [symmetric] Let_def 1(1) by simp
    then show thesis by (rule refused) (use core1 1(2) in simp_all)
  next
    case (2 a' b s)
    let ?n = "fl_at a b + 16"
    have st: "fl_static a' ?a" by (rule 2(6))
    have at': "fl_at a' = fl_at a" using fl_static_at [OF st] at by simp
    have n0: "?n \<noteq> NULL" using fl_at_block(7) [OF fl_coreD(1,2) [OF core] 2(2)] .
    obtain fs2 where core2: "fl_core (fl_unlink a' ?n) M fs2 {b}"
      using fl_core_unlink [OF 2(5) 2(2)] unfolding at' by auto
    let ?u = "fl_unlink a' ?n"
    have st2: "fl_static ?u ?a" by (rule fl_static_trans [OF fl_static_ops(2) st])
    have at2: "fl_at ?u = fl_at a" using fl_static_at [OF st2] at by simp
    obtain M' fs' t where core3: "fl_core (fl_carve ?u (fl_at ?u b) need) M' fs' {}" and M': "M' b = Some (t, True)"
      and t: "unat need \<le> t" "t \<le> s" and used: "\<And>c r. c \<noteq> b \<Longrightarrow> M' c = Some (r, True) \<longleftrightarrow> M c = Some (r, True)"
      and coal': "fl_coalesced M \<Longrightarrow> fl_coalesced M'" and st3: "fl_static (fl_carve ?u (fl_at ?u b) need) ?u"
      using fl_carve_core [OF core2 2(2,4) N(1,2)] by blast
    let ?c = "fl_carve ?u (fl_at a b) need"
    have st4: "fl_static ?c ?a" using fl_static_trans [OF st3 st2] unfolding at2 .
    have hs: "hdr_size ?c (fl_at a b) = of_nat t"
      using fl_core_header(1) [OF core3 M'] fl_static_at [OF st4] at unfolding at2 by simp
    let ?r = "?c\<lparr>fl_stats := raise_peak (set_used (hs_used (fl_stats ?c) + of_nat t) (fl_stats ?c))\<rparr>"
    have "fl_allocate a n al = fl_finish ?r ?n al"
      unfolding fl_allocate_eq need_def [symmetric] Let_def 2(1) at
      using n0 hs by (simp add: header_of_def FL_HDR_def)
    moreover have "fl_core ?r M' fs' {}" using core3 unfolding at2 by simp
    moreover have "hs_used (fl_stats ?r) = hs_used (fl_stats a) + of_nat t" "fl_mem ?r = fl_mem a"
      using st4 by (simp_all add: fl_static_def)
    ultimately show thesis using granted 2(2) M' t used coal' [OF coal] by blast
  qed
qed


subsection \<open>Release\<close>

text \<open>
  The two merging steps take the free neighbour \<open>y\<close> of the held block out of the ring and join the
  blocks at \<open>h\<close> and \<open>k\<close>, of which \<open>y\<close> is one.
\<close>

definition fl_join :: "fl_alloc \<Rightarrow> addr \<Rightarrow> addr \<Rightarrow> addr \<Rightarrow> fl_alloc" where
  "fl_join a y h k =
     (let a = fl_unlink a (payload_node y);
          a = (if fl_cursor a = payload_node y then a\<lparr>fl_cursor := NULL\<rparr> else a);
          a = hdr_set h (hdr_size a h + hdr_size a k) False a;
          nn = next_phys a h
      in if nn \<noteq> NULL then set_prev_phys nn h a else a)"

lemma fl_merge_next_eq:
  "fl_merge_next a h = (let nb = next_phys a h in if nb \<noteq> NULL \<and> \<not> hdr_used a nb then fl_join a nb h nb else a)"
  by (simp add: fl_merge_next_def fl_join_def Let_def)

lemma fl_merge_prev_eq:
  "fl_merge_prev a h =
     (let pb = fl_cells a (h + 8) in if pb \<noteq> NULL \<and> \<not> hdr_used a pb then (pb, fl_join a pb pb h) else (h, a))"
  by (simp add: fl_merge_prev_def fl_join_def Let_def)

lemma fl_join_core:
  assumes core: "fl_core a M fs {x}" and b: "M b = Some (s, False)" and c: "M (b + s) = Some (t, False)"
    and xy: "{x, y} = {b, b + s}" "x \<noteq> y"
  shows "\<exists>fs'. fl_core (fl_join a (fl_at a y) (fl_at a b) (fl_at a (b + s))) (M(b + s := None, b \<mapsto> (s + t, False))) fs' {b}"
    and "fl_static (fl_join a (fl_at a y) (fl_at a b) (fl_at a (b + s))) a"
proof -
  let ?n = "fl_at a y + 16" and ?u = "fl_unlink a (fl_at a y + 16)"
  obtain r where y: "M y = Some (r, False)" using b c xy(1) by (metis insertCI insertE singletonD)
  obtain fs' where core1: "fl_core ?u M fs' {b, b + s}"
    using fl_core_unlink [OF core y] xy by (auto simp: insert_commute)
  note C = fl_coreD [OF core1]
  have st: "fl_static ?u a" by simp
  have at: "fl_at ?u = fl_at a" by (rule fl_static_at [OF st])
  have y': "y \<in> {b, b + s}" using xy(1) by blast
  have "?n \<notin> set fs'"
  proof
    assume "?n \<in> set fs'"
    then obtain d q where "?n = fl_at a d + 16" "M d = Some (q, False)" "d \<notin> {b, b + s}"
      using fl_node_block [OF core1] unfolding at by metis
    then show False using fl_at_inj [OF core y] y' by metis
  qed
  moreover have "?n \<noteq> NULL" using fl_at_block(7) [OF fl_coreD(1,2) [OF core] y] .
  ultimately have cur: "fl_cursor ?u \<noteq> ?n" using C(6) by (auto simp: fl_ring_ok_def split: if_splits)
  have sz: "hdr_size ?u (fl_at a b) = of_nat s" "hdr_size ?u (fl_at a (b + s)) = of_nat t"
    using fl_core_header(1) [OF core1 b] fl_core_header(1) [OF core1 c] unfolding at by simp_all
  let ?a1 = "hdr_set (fl_at a b) (of_nat s + of_nat t) False ?u"
  have join: "fl_join a (fl_at a y) (fl_at a b) (fl_at a (b + s)) =
      (if next_phys ?a1 (fl_at a b) \<noteq> NULL then set_prev_phys (next_phys ?a1 (fl_at a b)) (fl_at a b) ?a1 else ?a1)"
    using cur sz by (simp add: fl_join_def payload_node_def FL_HDR_def Let_def)
  have "s \<noteq> 0" using fl_partD(2) [OF C(2) b] by simp
  then have "{b, b + s} - {b + s} = {b}" by auto
  then have "fl_core (fl_join a (fl_at a y) (fl_at a b) (fl_at a (b + s))) (M(b + s := None, b \<mapsto> (s + t, False))) fs' {b}"
    using fl_core_merge [OF core1 b _ c] unfolding at join by simp
  then show "\<exists>fs'. fl_core (fl_join a (fl_at a y) (fl_at a b) (fl_at a (b + s))) (M(b + s := None, b \<mapsto> (s + t, False))) fs' {b}" ..
  show "fl_static (fl_join a (fl_at a y) (fl_at a b) (fl_at a (b + s))) a"
    unfolding join using fl_static_trans [OF fl_static_ops(3) st] by (simp add: fl_static_trans [OF fl_static_ops(4)])
qed

text \<open>Coalesced but for the block at \<open>b\<close> and its neighbours.\<close>

definition fl_coal_but :: "nat \<Rightarrow> fl_blocks \<Rightarrow> bool" where
  "fl_coal_but b M \<longleftrightarrow> (\<forall>c s t. M c = Some (s, False) \<longrightarrow> c \<noteq> b \<longrightarrow> c + s \<noteq> b \<longrightarrow> M (c + s) \<noteq> Some (t, False))"

lemma fl_merge_next_core:
  assumes core: "fl_core a M fs {b}" and b: "M b = Some (s, False)" and coal: "fl_coal_but b M"
  obtains M' fs' s' where "fl_core (fl_merge_next a (fl_at a b)) M' fs' {b}" and "M' b = Some (s', False)"
    and "fl_coal_but b M'" and "\<forall>t. M' (b + s') \<noteq> Some (t, False)"
    and "\<forall>c r. M' c = Some (r, True) \<longleftrightarrow> M c = Some (r, True)" and "fl_static (fl_merge_next a (fl_at a b)) a"
proof (cases "\<exists>t. M (b + s) = Some (t, False)")
  case True
  then obtain t where c: "M (b + s) = Some (t, False)" by blast
  note C = fl_coreD [OF core]
  have s: "32 \<le> s" and t: "32 \<le> t" using fl_partD(2) [OF C(2) b] fl_partD(2) [OF C(2) c] by simp_all
  have nx: "next_phys a (fl_at a b) = fl_at a (b + s)" using fl_next_phys [OF core b] c by simp
  have "fl_at a (b + s) \<noteq> NULL" "\<not> hdr_used a (fl_at a (b + s))"
    using fl_at_block(6) [OF C(1,2) c] fl_core_header(2) [OF core c] by simp_all
  then have eq: "fl_merge_next a (fl_at a b) = fl_join a (fl_at a (b + s)) (fl_at a b) (fl_at a (b + s))"
    unfolding fl_merge_next_eq nx Let_def by simp
  let ?M = "M(b + s := None, b \<mapsto> (s + t, False))"
  obtain fs' where core': "fl_core (fl_merge_next a (fl_at a b)) ?M fs' {b}"
    and st: "fl_static (fl_merge_next a (fl_at a b)) a"
    unfolding eq using fl_join_core [OF core b c, of "b + s"] s by auto
  have after: "M (b + s + t) \<noteq> Some (r, False)" for r
    using coal c s t by (auto simp: fl_coal_but_def)
  have "fl_coal_but b ?M"
    unfolding fl_coal_but_def
  proof (intro allI impI notI)
    fix d q r
    assume "?M d = Some (q, False)" "d \<noteq> b" "d + q \<noteq> b" "?M (d + q) = Some (r, False)"
    then have "M d = Some (q, False)" "M (d + q) = Some (r, False)" by (simp_all split: if_splits)
    then show False using coal \<open>d \<noteq> b\<close> \<open>d + q \<noteq> b\<close> by (auto simp: fl_coal_but_def)
  qed
  moreover have "?M (b + (s + t)) \<noteq> Some (r, False)" for r
    using after [of r] s t by (simp add: add.assoc)
  moreover have "?M d = Some (r, True) \<longleftrightarrow> M d = Some (r, True)" for d r using b c by auto
  ultimately show thesis using core' st by (intro that [where M' = ?M and s' = "s + t" and fs' = fs']) simp_all
next
  case False
  have "fl_merge_next a (fl_at a b) = a"
    using fl_next_phys [OF core b] False fl_core_header(2) [OF core, of "b + s"]
    by (cases "M (b + s)") (auto simp: fl_merge_next_eq Let_def)
  then show thesis using core b coal False by (intro that [where M' = M and s' = s and fs' = fs]) auto
qed


lemma fl_merge_prev_core:
  assumes core: "fl_core a M fs {b}" and b: "M b = Some (s, False)" and coal: "fl_coal_but b M"
    and succ: "\<forall>t. M (b + s) \<noteq> Some (t, False)"
  obtains a' b' M' fs' where "fl_merge_prev a (fl_at a b) = (fl_at a b', a')" and "fl_core a' M' fs' {b'}"
    and "fl_coalesced M'" and "\<forall>c r. M' c = Some (r, True) \<longleftrightarrow> M c = Some (r, True)" and "fl_static a' a"
proof -
  note C = fl_coreD [OF core]
  have keep: "fl_merge_prev a (fl_at a b) = (fl_at a b, a)" if "\<And>c r. M c = Some (r, False) \<Longrightarrow> c + r \<noteq> b"
  proof (cases "b = 0")
    case True
    then show ?thesis using C(5) by (simp add: fl_merge_prev_eq Let_def)
  next
    case False
    obtain c r u where c: "M c = Some (r, u)" "c + r = b" using fl_part_prev [OF C(2) _ False] b by auto
    then have "fl_cells a (fl_at a b + 8) = fl_at a c" using C(4) [OF c(1)] b by simp
    moreover have u using c \<open>\<And>c r. M c = Some (r, False) \<Longrightarrow> c + r \<noteq> b\<close> by (cases u) auto
    ultimately show ?thesis using fl_core_header(2) [OF core c(1)] by (simp add: fl_merge_prev_eq Let_def)
  qed
  show thesis
  proof (cases "\<exists>c r. M c = Some (r, False) \<and> c + r = b")
    case False
    have "fl_coalesced M"
      unfolding fl_coalesced_def
    proof (intro allI impI notI)
      fix c r t assume "M c = Some (r, False)" "M (c + r) = Some (t, False)"
      then show False using coal succ b False unfolding fl_coal_but_def by (cases "c = b") auto
    qed
    then show thesis using False by (intro that [OF keep core]) auto
  next
    case True
    then obtain c r where c: "M c = Some (r, False)" and cr: "c + r = b" by blast
    have r: "32 \<le> r" and s: "32 \<le> s" using fl_partD(2) [OF C(2) c] fl_partD(2) [OF C(2) b] by simp_all
    have pv: "fl_cells a (fl_at a b + 8) = fl_at a c" using C(4) [OF c] b cr by simp
    have "fl_at a c \<noteq> NULL" "\<not> hdr_used a (fl_at a c)"
      using fl_at_block(6) [OF C(1,2) c] fl_core_header(2) [OF core c] by simp_all
    then have eq: "fl_merge_prev a (fl_at a b) = (fl_at a c, fl_join a (fl_at a c) (fl_at a c) (fl_at a (c + r)))"
      unfolding fl_merge_prev_eq pv Let_def cr by simp
    let ?M = "M(c + r := None, c \<mapsto> (r + s, False))"
    obtain fs' where core': "fl_core (fl_join a (fl_at a c) (fl_at a c) (fl_at a (c + r))) ?M fs' {c}"
      and st: "fl_static (fl_join a (fl_at a c) (fl_at a c) (fl_at a (c + r))) a"
      using fl_join_core [OF core c, of s c] b cr r by auto
    have "fl_coalesced ?M"
      unfolding fl_coalesced_def
    proof (intro allI impI notI)
      fix d q t
      assume d: "?M d = Some (q, False)" and e: "?M (d + q) = Some (t, False)"
      show False
      proof (cases "d = c")
        case True
        then have "d + q = b + s" using d cr by simp
        then show False using e succ r s cr by (auto split: if_splits)
      next
        case False
        then have d': "M d = Some (q, False)" "d \<noteq> b" using d cr by (simp_all split: if_splits)
        have "d + q \<noteq> b" using fl_part_disjoint [OF C(2) d'(1) c] False fl_partD(2) [OF C(2) d'(1)] cr r by linarith
        moreover have "\<exists>t. M (d + q) = Some (t, False)" using e c by (cases "d + q = c") (auto split: if_splits)
        ultimately show False using coal d' by (auto simp: fl_coal_but_def)
      qed
    qed
    moreover have "\<forall>d q. ?M d = Some (q, True) \<longleftrightarrow> M d = Some (q, True)" using b c cr by auto
    ultimately show thesis using eq core' st by (intro that)
  qed
qed

lemma fl_plausible:
  assumes core: "fl_core a M fs H" and b: "M b = Some (s, True)"
  shows "plausible_header a (fl_at a b)"
proof -
  note C = fl_coreD [OF core] and h = fl_core_header [OF core b]
  note B = fl_at_block [OF C(1,2) b] and P = fl_partD(2-5) [OF C(2) b]
  have cap: "unat (fl_mem a + fl_capacity a) = unat (fl_mem a) + unat (fl_capacity a)"
    using C(1) by (simp add: fl_shape_def unat_add_nowrap)
  have size: "(of_nat s :: u64) \<ge> FL_MIN" "(of_nat s :: u64) mod 16 = 0" "unat (fl_at a b + of_nat s) = unat (fl_mem a) + b + s"
  proof -
    show "(of_nat s :: u64) \<ge> FL_MIN" using P(1) h(3) by (simp add: word_le_nat_alt FL_MIN_def FL_HDR_def)
    have "unat ((of_nat s :: u64) mod 16) = 0" using P(2) h(3) by (simp add: unat_mod)
    then show "(of_nat s :: u64) mod 16 = 0" by (simp add: unat_eq_0)
    show "unat (fl_at a b + of_nat s) = unat (fl_mem a) + b + s" using B(1,8) h(3) by (simp add: unat_add_nowrap)
  qed
  show "plausible_header a (fl_at a b)"
    unfolding plausible_header_def Let_def h(1) HF_DEFAULT_ALIGN_def
    using B(1) P cap size h(2) by (auto simp: word_less_nat_alt word_le_nat_alt)
qed

lemma fl_deallocate_core:
  assumes core: "fl_core a M fs {}" and coal: "fl_coalesced M" and b: "M b = Some (s, True)"
  obtains a' M' fs' where "fl_deallocate a (fl_at a b + 16) = Inr a'" and "fl_core a' M' fs' {}"
    and "fl_coalesced M'" and "\<forall>c r. M' c = Some (r, True) \<longleftrightarrow> c \<noteq> b \<and> M c = Some (r, True)"
    and "hs_used (fl_stats a') = hs_used (fl_stats a) - of_nat s" and "fl_mem a' = fl_mem a"
proof -
  let ?c = "a\<lparr>fl_stats := count_free (fl_stats a)\<rparr>"
  let ?a = "a\<lparr>fl_stats := set_used (hs_used (fl_stats a) - of_nat s) (count_free (fl_stats a))\<rparr>"
  have core0: "fl_core ?c M fs {}" and core1: "fl_core ?a M fs {}" using core by simp_all
  have at: "fl_at ?a = fl_at a" "fl_at ?c = fl_at a" by (simp_all add: fl_at_def fun_eq_iff)
  note C = fl_coreD [OF core] and h = fl_core_header [OF core0 b, unfolded at]
  note B = fl_at_block [OF C(1,2) b]
  have plaus: "plausible_header ?c (fl_at a b)" using fl_plausible [OF core0 b] by (simp add: at)
  have null: "fl_at a b + 16 \<noteq> NULL" by (rule B(7))
  let ?M = "M(b \<mapsto> (s, False))"
  let ?f = "hdr_set (fl_at a b) (of_nat s) False ?a"
  have core2: "fl_core ?f ?M fs {b}" using fl_core_flag [OF core1 b, of False] by (simp add: at)
  have st: "fl_static ?f ?a" by simp
  have atf: "fl_at ?f = fl_at a" using fl_static_at [OF st] at by simp
  have but: "fl_coal_but b ?M" using coal unfolding fl_coal_but_def fl_coalesced_def by (auto split: if_splits)
  define m where "m = fl_merge_next ?f (fl_at ?f b)"
  obtain M1 fs1 s1 where core3: "fl_core m M1 fs1 {b}" and b1: "M1 b = Some (s1, False)"
    and but1: "fl_coal_but b M1" and succ: "\<forall>t. M1 (b + s1) \<noteq> Some (t, False)"
    and used1: "\<forall>c r. M1 c = Some (r, True) \<longleftrightarrow> ?M c = Some (r, True)"
    and st1: "fl_static m ?f"
    using fl_merge_next_core [OF core2 fun_upd_same but] unfolding m_def by blast
  obtain a2 b2 M2 fs2 where mp: "fl_merge_prev m (fl_at m b) = (fl_at m b2, a2)" and core4: "fl_core a2 M2 fs2 {b2}"
    and coal2: "fl_coalesced M2" and used2: "\<forall>c r. M2 c = Some (r, True) \<longleftrightarrow> M1 c = Some (r, True)"
    and st2: "fl_static a2 m"
    by (rule fl_merge_prev_core [OF core3 b1 but1 succ]) (rule that)
  obtain fs3 where core5: "fl_core (fl_insert a2 (fl_at a2 b2 + 16)) M2 fs3 {}"
    using fl_core_insert [OF core4, of b2] by auto
  have atm: "fl_at m = fl_at a" "fl_at a2 = fl_at a"
    using fl_static_at [OF st1] fl_static_at [OF st2] atf by simp_all
  have "fl_deallocate a (fl_at a b + 16) = Inr (fl_insert a2 (fl_at a2 b2 + 16))"
  proof -
    have "fl_merge_prev (fl_merge_next ?f (fl_at a b)) (fl_at a b) = (fl_at a b2, a2)"
      using mp unfolding atm unfolding m_def atf .
    then show ?thesis
      using null plaus h(1,2) fl_core_header(1) [OF core1 b]
      by (simp add: fl_deallocate_def Let_def FL_HDR_def payload_node_def at atm)
  qed
  moreover have "fl_static (fl_insert a2 (fl_at a2 b2 + 16)) ?a"
    using fl_static_ops(1) st2 st1 st by (blast intro: fl_static_trans)
  moreover have "\<forall>c r. M2 c = Some (r, True) \<longleftrightarrow> c \<noteq> b \<and> M c = Some (r, True)"
    using used2 used1 by simp
  ultimately show thesis by (intro that [OF _ core5 coal2]) (simp_all add: fl_static_def)
qed

end
