(* ===== verification/HF_Free_List_Correct.thy ===== *)
theory HF_Free_List_Correct
  imports HF_Free_List_Ops
begin

text \<open>
  The boundary-tag allocator as its clients see it: the walk lists exactly the blocks of the
  partition, the live blocks are its used blocks, and the allocator satisfies the allocator and
  layout contracts from its creation on.
\<close>

subsection \<open>The walk\<close>

definition fl_used_set :: "fl_blocks \<Rightarrow> nat set" where
  "fl_used_set M = {x. \<exists>b s. M b = Some (s, True) \<and> b \<le> x \<and> x < b + s}"

definition fl_entry :: "nat \<Rightarrow> nat \<Rightarrow> bool \<Rightarrow> hf_block_info" where
  "fl_entry b s u = \<lparr>bi_offset = of_nat b, bi_size = of_nat s, bi_is_free = (\<not> u)\<rparr>"

lemma fl_used_set_sub:
  assumes "fl_part cap M"
  shows "fl_used_set M \<subseteq> {..<cap}"
proof
  fix x assume "x \<in> fl_used_set M"
  then obtain b s where b: "M b = Some (s, True)" "x < b + s" by (auto simp: fl_used_set_def)
  then show "x \<in> {..<cap}" using fl_partD(5) [OF assms b(1)] by simp
qed

lemma fl_used_set_finite: "fl_part cap M \<Longrightarrow> finite (fl_used_set M)"
  by (rule finite_subset [OF fl_used_set_sub]) simp_all

lemma fl_used_set_block:
  assumes part: "fl_part cap M" and b: "M b = Some (s, u)" and x: "b \<le> x" "x < b + s"
  shows "x \<in> fl_used_set M \<longleftrightarrow> u"
proof
  assume "x \<in> fl_used_set M"
  then obtain c t where c: "M c = Some (t, True)" "c \<le> x" "x < c + t" by (auto simp: fl_used_set_def)
  then have "c = b" using fl_part_disjoint [OF part c(1) b] x by linarith
  then show u using b c by simp
qed (use b x in \<open>auto simp: fl_used_set_def\<close>)

lemma fl_used_from:
  assumes part: "fl_part cap M" and b: "M b = Some (s, u)"
  shows "card {x \<in> fl_used_set M. b \<le> x} = (if u then s else 0) + card {x \<in> fl_used_set M. b + s \<le> x}"
proof -
  let ?I = "if u then {b..<b + s} else {}"
  have "{x \<in> fl_used_set M. b \<le> x} = ?I \<union> {x \<in> fl_used_set M. b + s \<le> x}"
  proof (rule set_eqI)
    fix x
    show "x \<in> {x \<in> fl_used_set M. b \<le> x} \<longleftrightarrow> x \<in> ?I \<union> {x \<in> fl_used_set M. b + s \<le> x}"
      using fl_used_set_block [OF part b, of x] by (cases "b + s \<le> x"; cases "b \<le> x") auto
  qed
  moreover have "?I \<inter> {x \<in> fl_used_set M. b + s \<le> x} = {}" by auto
  ultimately show ?thesis
    using fl_used_set_finite [OF part] by (simp add: card_Un_disjoint)
qed

lemma fl_walk_loop_end:
  assumes core: "fl_core a M fs {}"
  shows "fl_walk_loop fuel a (fl_at a (unat (fl_capacity a))) = Some []"
    and "card {x \<in> fl_used_set M. unat (fl_capacity a) \<le> x} = 0"
    and "unat (fl_capacity a) \<le> c \<Longrightarrow> M c = None"
proof -
  note C = fl_coreD [OF core]
  show "fl_walk_loop fuel a (fl_at a (unat (fl_capacity a))) = Some []"
    by (subst fl_walk_loop.simps) (simp add: fl_at_def)
  have "{x \<in> fl_used_set M. unat (fl_capacity a) \<le> x} = {}" using fl_used_set_sub [OF C(2)] by auto
  then show "card {x \<in> fl_used_set M. unat (fl_capacity a) \<le> x} = 0" by (simp only: card.empty)
  show "M c = None" if "unat (fl_capacity a) \<le> c"
    using fl_part_below [OF C(2), of c] that by (cases "M c") auto
qed

lemma fl_walk_loop_step:
  assumes core: "fl_core a M fs {}" and b: "M b = Some (s, u)"
  shows "fl_walk_loop (Suc fuel) a (fl_at a b) =
    map_option ((#) (fl_entry b s u)) (fl_walk_loop fuel a (fl_at a (b + s)))"
proof -
  note C = fl_coreD [OF core]
  have cap: "unat (fl_mem a + fl_capacity a) = unat (fl_mem a) + unat (fl_capacity a)"
    using C(1) by (simp add: fl_shape_def unat_add_nowrap)
  have "fl_at a b < fl_mem a + fl_capacity a"
    using fl_at_block(1) [OF C(1,2) b] fl_part_below [OF C(2), of b] b cap by (simp add: word_less_nat_alt)
  then show ?thesis
    using fl_core_header(1,2) [OF core b]
    by (subst fl_walk_loop.simps) (simp add: fl_entry_def fl_at_add, simp add: fl_at_def)
qed

lemma fl_walk_loop_spec:
  assumes core: "fl_core a M fs {}"
  defines "cap \<equiv> unat (fl_capacity a)"
  shows "b = cap \<or> M b \<noteq> None \<Longrightarrow> (cap - b) div 32 \<le> fuel \<Longrightarrow>
    \<exists>bs. fl_walk_loop fuel a (fl_at a b) = Some bs \<and> tiles b bs cap \<and>
      used_bytes bs = card {x \<in> fl_used_set M. b \<le> x} \<and>
      set bs = {fl_entry c s u | c s u. b \<le> c \<and> M c = Some (s, u)}"
proof (induction fuel arbitrary: b)
  case 0
  note C = fl_coreD [OF core]
  show ?case
  proof (cases "b = cap")
    case True
    then show ?thesis using fl_walk_loop_end [OF core] by (simp add: cap_def used_bytes_def)
  next
    case False
    then obtain s u where b: "M b = Some (s, u)" using 0 by auto
    have "32 \<le> s" "b + s \<le> cap" using fl_partD(2,5) [OF C(2) b] by (simp_all add: cap_def)
    then show ?thesis using 0 by simp
  qed
next
  case (Suc fuel)
  note C = fl_coreD [OF core]
  show ?case
  proof (cases "b = cap")
    case True
    then show ?thesis using fl_walk_loop_end [OF core] by (simp add: cap_def used_bytes_def)
  next
    case False
    then obtain s u where b: "M b = Some (s, u)" using Suc by auto
    have s: "32 \<le> s" "b + s \<le> cap" "b + s < 2 ^ 63"
      using fl_partD(2,5) [OF C(2) b] C(1) by (auto simp: cap_def fl_shape_def)
    have fuel: "(cap - (b + s)) div 32 \<le> fuel" using Suc.prems(2) s by linarith
    have "b + s = cap \<or> M (b + s) \<noteq> None"
      using fl_partD(6) [OF C(2) b] by (simp add: cap_def)
    from Suc.IH [OF this fuel] obtain bs where
      bs: "fl_walk_loop fuel a (fl_at a (b + s)) = Some bs" "tiles (b + s) bs cap"
        "used_bytes bs = card {x \<in> fl_used_set M. b + s \<le> x}"
        "set bs = {fl_entry c t u | c t u. b + s \<le> c \<and> M c = Some (t, u)}"
      by blast
    have entry: "unat (bi_offset (fl_entry b s u)) = b" "unat (bi_size (fl_entry b s u)) = s"
      using s by (simp_all add: fl_entry_def unat_of_nat_small)
    have "fl_walk_loop (Suc fuel) a (fl_at a b) = Some (fl_entry b s u # bs)"
      using fl_walk_loop_step [OF core b, of fuel] bs(1) by simp
    moreover have "tiles b (fl_entry b s u # bs) cap" using bs(2) entry s(1) by simp
    moreover have "used_bytes (fl_entry b s u # bs) = card {x \<in> fl_used_set M. b \<le> x}"
      using fl_used_from [OF C(2) b] bs(3) entry by (simp add: used_bytes_def fl_entry_def)
    moreover have "set (fl_entry b s u # bs) = {fl_entry c s u | c s u. b \<le> c \<and> M c = Some (s, u)}"
    proof -
      have "b \<le> c \<and> M c = Some (j, t) \<longleftrightarrow> c = b \<and> j = s \<and> t = u \<or> b + s \<le> c \<and> M c = Some (j, t)" for c j t
        using fl_partD(7) [OF C(2) b, of c] b by (cases "c = b"; cases "c < b + s") auto
      then have "{fl_entry c s u | c s u. b \<le> c \<and> M c = Some (s, u)} =
          {fl_entry c j t | c j t. c = b \<and> j = s \<and> t = u \<or> b + s \<le> c \<and> M c = Some (j, t)}"
        by (simp only: )
      also have "\<dots> = insert (fl_entry b s u) {fl_entry c j t | c j t. b + s \<le> c \<and> M c = Some (j, t)}"
        by auto
      finally show ?thesis by (simp only: set_simps bs(4))
    qed
    ultimately show ?thesis by (intro exI [of _ "fl_entry b s u # bs"] conjI)
  qed
qed

lemma fl_walk_core:
  assumes core: "fl_core a M fs {}"
  shows "tiles 0 (fl_walk a) (unat (fl_capacity a))"
    and "used_bytes (fl_walk a) = card (fl_used_set M)"
    and "set (fl_walk a) = {fl_entry c s u | c s u. M c = Some (s, u)}"
proof -
  note C = fl_coreD [OF core]
  have "M 0 \<noteq> None" using fl_partD(1) [OF C(2)] .
  then obtain bs where "fl_walk_loop (fl_fuel a) a (fl_at a 0) = Some bs"
    "tiles 0 bs (unat (fl_capacity a))" "used_bytes bs = card (fl_used_set M)"
    "set bs = {fl_entry c s u | c s u. M c = Some (s, u)}"
    using fl_walk_loop_spec [OF core, of 0 "fl_fuel a"] by (auto simp: fl_fuel_def)
  moreover from this have "fl_walk a = bs" by (simp add: fl_walk_def fl_at_def)
  ultimately show "tiles 0 (fl_walk a) (unat (fl_capacity a))"
    and "used_bytes (fl_walk a) = card (fl_used_set M)"
    and "set (fl_walk a) = {fl_entry c s u | c s u. M c = Some (s, u)}" by simp_all
qed


subsection \<open>Live blocks and the invariant\<close>

definition fl_live :: "fl_alloc \<Rightarrow> addr \<rightharpoonup> nat" where
  "fl_live a =
     map_of (map (\<lambda>e. (fl_mem a + bi_offset e + FL_HDR, unat (bi_size e) - 16))
       (filter (\<lambda>e. \<not> bi_is_free e) (fl_walk a)))"

definition fl_inv :: "fl_alloc \<Rightarrow> bool" where
  "fl_inv a \<longleftrightarrow> (\<exists>M fs. fl_core a M fs {} \<and> fl_coalesced M \<and>
     unat (hs_used (fl_stats a)) = card (fl_used_set M))"

lemma fl_invE:
  assumes "fl_inv a"
  obtains M fs where "fl_core a M fs {}" and "fl_coalesced M" and "unat (hs_used (fl_stats a)) = card (fl_used_set M)"
  using assms unfolding fl_inv_def by blast

lemma fl_invI:
  "fl_core a M fs {} \<Longrightarrow> fl_coalesced M \<Longrightarrow> unat (hs_used (fl_stats a)) = card (fl_used_set M) \<Longrightarrow> fl_inv a"
  unfolding fl_inv_def by blast

lemma fl_live_iff:
  assumes core: "fl_core a M fs {}"
  shows "fl_live a p = Some m \<longleftrightarrow> (\<exists>b s. M b = Some (s, True) \<and> p = fl_at a b + 16 \<and> m = s - 16)"
proof -
  note C = fl_coreD [OF core]
  let ?xs = "map (\<lambda>e. (fl_mem a + bi_offset e + FL_HDR, unat (bi_size e) - 16))
    (filter (\<lambda>e. \<not> bi_is_free e) (fl_walk a))"
  have mem: "(p, m) \<in> set ?xs \<longleftrightarrow> (\<exists>b s. M b = Some (s, True) \<and> p = fl_at a b + 16 \<and> m = s - 16)" for p m
    using fl_core_header(3) [OF core]
    by (auto simp: fl_walk_core(3) [OF core] fl_entry_def fl_at_def FL_HDR_def image_iff; fastforce)
  have "v = w" if "(p, v) \<in> set ?xs" "(p, w) \<in> set ?xs" for v w
  proof -
    from that obtain b s c t where b: "M b = Some (s, True)" "p = fl_at a b + 16" "v = s - 16"
      and c: "M c = Some (t, True)" "p = fl_at a c + 16" "w = t - 16"
      unfolding mem by blast
    then have "b = c" using fl_at_inj [OF core b(1) c(1)] by simp
    then show ?thesis using b c by simp
  qed
  then show ?thesis unfolding fl_live_def mem [symmetric] by (rule map_of_functional)
qed

lemma fl_live_disjoint:
  assumes "fl_inv a"
  shows "blocks_disjoint (fl_live a)"
proof -
  obtain M fs where core: "fl_core a M fs {}" using fl_invE [OF assms] by blast
  note C = fl_coreD [OF core]
  show ?thesis
    unfolding blocks_disjoint_def
  proof (intro allI impI)
    fix p q m l
    assume "fl_live a p = Some m" and "fl_live a q = Some l" and ne: "p \<noteq> q"
    then obtain b s c t where b: "M b = Some (s, True)" "p = fl_at a b + 16" "m = s - 16"
      and c: "M c = Some (t, True)" "q = fl_at a c + 16" "l = t - 16"
      unfolding fl_live_iff [OF core] by blast
    have "b \<noteq> c" using ne b c by auto
    then show "unat p + m \<le> unat q \<or> unat q + l \<le> unat p"
      using fl_part_disjoint [OF C(2) b(1) c(1)] fl_partD(2) [OF C(2) b(1)] fl_partD(2) [OF C(2) c(1)]
      unfolding b c fl_at_block(3) [OF C(1,2) b(1)] fl_at_block(3) [OF C(1,2) c(1)] by linarith
  qed
qed

lemma fl_live_eq:
  assumes "fl_core a M fs {}" and "fl_core a' M' fs' {}" and "fl_mem a' = fl_mem a"
    and used: "\<And>c i. M' c = Some (i, True) \<longleftrightarrow> M c = Some (i, True)"
  shows "fl_live a' = fl_live a"
proof -
  have "fl_live a' p = Some m \<longleftrightarrow> fl_live a p = Some m" for p m
    unfolding fl_live_iff [OF assms(1)] fl_live_iff [OF assms(2)] used by (simp add: fl_at_def assms(3))
  then show ?thesis by (rule map_eqI)
qed

lemma fl_live_upd:
  assumes core: "fl_core a M fs {}" and core': "fl_core a' M' fs' {}" and mem: "fl_mem a' = fl_mem a"
    and b: "M b = Some (s, False)" "M' b = Some (t, True)"
    and used: "\<And>c i. c \<noteq> b \<Longrightarrow> M' c = Some (i, True) \<longleftrightarrow> M c = Some (i, True)"
  shows "fl_live a (fl_at a b + 16) = None"
    and "fl_live a' = (fl_live a)(fl_at a b + 16 \<mapsto> t - 16)"
proof -
  have other: "p \<noteq> fl_at a b + 16" if "M c = Some (i, True)" "p = fl_at a c + 16" for p c i
    using fl_at_inj [OF core that(1) b(1)] that b(1) by auto
  show none: "fl_live a (fl_at a b + 16) = None"
    using fl_live_iff [OF core] other by (metis not_None_eq)
  have all: "M' c = Some (i, True) \<longleftrightarrow> c = b \<and> i = t \<or> M c = Some (i, True)" for c i
    using used b by (cases "c = b") auto
  have "fl_live a' p = Some m \<longleftrightarrow> ((fl_live a)(fl_at a b + 16 \<mapsto> t - 16)) p = Some m" for p m
  proof (cases "p = fl_at a b + 16")
    case True
    then show ?thesis
      unfolding fl_live_iff [OF core'] all using other [of _ _ p] by (auto simp: fl_at_def mem)
  next
    case False
    then show ?thesis
      unfolding fl_live_iff [OF core'] all using fl_live_iff [OF core, of p m] by (auto simp: fl_at_def mem)
  qed
  then show "fl_live a' = (fl_live a)(fl_at a b + 16 \<mapsto> t - 16)" by (rule map_eqI)
qed

text \<open>The used bytes, when a block is carved out of a free one and when a block is released.\<close>

lemma fl_used_set_grow:
  assumes part: "fl_part cap M" and b: "M b = Some (s, False)" "t \<le> s"
    and b': "M' b = Some (t, True)" and rest: "\<And>c i. c \<noteq> b \<Longrightarrow> M' c = Some (i, True) \<longleftrightarrow> M c = Some (i, True)"
  shows "card (fl_used_set M') = card (fl_used_set M) + t"
proof -
  have eq: "M' c = Some (i, True) \<longleftrightarrow> c = b \<and> i = t \<or> M c = Some (i, True)" for c i
    using rest b(1) b' by (cases "c = b") auto
  have "fl_used_set M' = {b..<b + t} \<union> fl_used_set M"
    unfolding fl_used_set_def eq by (auto, rule exI [of _ b], rule exI [of _ t], simp)
  moreover have "{b..<b + t} \<inter> fl_used_set M = {}"
    using fl_used_set_block [OF part b(1)] b(2) by auto
  ultimately show ?thesis using fl_used_set_finite [OF part] by (simp add: card_Un_disjoint)
qed

lemma fl_used_set_shrink:
  assumes part: "fl_part cap M" and b: "M b = Some (s, True)"
    and rest: "\<And>c i. M' c = Some (i, True) \<longleftrightarrow> c \<noteq> b \<and> M c = Some (i, True)"
  shows "card (fl_used_set M) = card (fl_used_set M') + s"
proof -
  let ?N = "M(b \<mapsto> (s, False))"
  have "fl_part cap ?N" by (rule fl_part_flag [OF part b])
  then have "card (fl_used_set M) = card (fl_used_set ?N) + s"
    by (rule fl_used_set_grow [of cap ?N b s]) (use b in auto)
  moreover have "fl_used_set ?N = fl_used_set M'" by (auto simp: fl_used_set_def rest)
  ultimately show ?thesis by simp
qed

lemma fl_card_bound:
  assumes "fl_core a M fs H"
  shows "card (fl_used_set M) < 2 ^ 63"
proof -
  note C = fl_coreD [OF assms]
  have "card (fl_used_set M) \<le> unat (fl_capacity a)"
    using card_mono [OF _ fl_used_set_sub [OF C(2)]] by simp
  also have "\<dots> < 2 ^ 63" using C(1) by (simp add: fl_shape_def)
  finally show ?thesis .
qed

subsection \<open>Writes into used blocks\<close>

lemma fl_core_write:
  assumes core: "fl_core a M fs {}" and b: "M b = Some (s, True)"
    and x: "unat (fl_mem a) + b + 16 \<le> unat x" "unat x < unat (fl_mem a) + b + s"
  shows "fl_core (fl_store x v a) M fs {}"
proof -
  note C = fl_coreD [OF core]
  have out: "x \<noteq> fl_at a c" "x \<noteq> fl_at a c + 8" if c: "M c = Some (t, u)" for c t u
    using x fl_at_block(1,2) [OF C(1,2) c] fl_part_disjoint [OF C(2) b c] fl_partD(2) [OF C(2) c] by auto
  have node: "x \<noteq> fl_at a c + 16" "x \<noteq> fl_at a c + 24" if c: "M c = Some (t, False)" for c t
    using x fl_at_block(3,4) [OF C(1,2) c] fl_part_disjoint [OF C(2) b c] fl_partD(2) [OF C(2) c] b c by auto
  let ?c = "fl_cells (fl_store x v a)"
  have hdr: "?c (fl_at a c) = fl_cells a (fl_at a c)" "?c (fl_at a c + 8) = fl_cells a (fl_at a c + 8)"
    if "M c \<noteq> None" for c
    using that out [of c] by auto
  have lnk: "?c (fl_at a c + 16) = fl_cells a (fl_at a c + 16) \<and> ?c (fl_at a c + 24) = fl_cells a (fl_at a c + 24)"
    if "M c = Some (t, False)" for c t
    using node [OF that] by simp
  show ?thesis
  proof (rule fl_core_headers [OF core])
    show "?c (fl_at a 0 + 8) = NULL" using hdr(2) fl_partD(1) [OF C(2)] C(5) by simp
    show "?c (fl_at a c) = fl_enc t u" if "M c = Some (t, u)" for c t u
      using hdr(1) [of c] C(3) [OF that] that by simp
    show "?c (fl_at a (c + t) + 8) = fl_at a c" if "M c = Some (t, u)" "M (c + t) \<noteq> None" for c t u
      using hdr(2) [of "c + t"] C(4) [OF that] that by simp
  qed (use C(2) lnk in auto)
qed


subsection \<open>The contracts\<close>

definition fl_fits :: "u64 \<Rightarrow> u64 \<Rightarrow> bool" where
  "fl_fits n al \<longleftrightarrow> al \<le> HF_DEFAULT_ALIGN \<and> unat n + 32 < 2 ^ 64"

text \<open>The requests with an alignment above the default one whose size does not wrap.\<close>

definition fl_fits_aligned :: "u64 \<Rightarrow> u64 \<Rightarrow> bool" where
  "fl_fits_aligned n al \<longleftrightarrow> hf_is_pow2 al \<and> al > HF_DEFAULT_ALIGN \<and> unat n + unat al + 32 < 2 ^ 64"

lemma fl_align_payload:
  fixes q al :: u64
  assumes q: "16 dvd unat q" "unat q + 16 < 2 ^ 63" and al: "hf_is_pow2 al" "al > HF_DEFAULT_ALIGN"
  defines "p \<equiv> hf_align_up (q + 8) al"
  shows "unat al dvd unat p" and "unat q + 16 \<le> unat p" and "unat p \<le> unat q + unat al"
proof -
  obtain k where k: "k < 64" "al = 2 ^ k" using al(1) by (auto simp: hf_is_pow2_iff)
  have ak: "unat al = 2 ^ k" using k by simp
  have "(2::nat) ^ 4 < 2 ^ k" using al(2) k by (simp add: HF_DEFAULT_ALIGN_def word_less_nat_alt)
  then have "4 < k" by (rule power_less_imp_less_exp [rotated]) simp
  then have d16: "(16::nat) dvd 2 ^ k" using le_imp_power_dvd [of 4 k "2::nat"] by simp
  have q8: "unat (q + 8) = unat q + 8" using q(2) by (simp add: unat_add_nowrap)
  have "(2::nat) ^ k \<le> 2 ^ 63" using k(1) by (intro power_increasing) simp_all
  then have "unat (q + 8) + 2 ^ k \<le> 2 ^ 64" using q8 q(2) by simp
  note A = hf_align_up_bounds [OF k(1) this, folded k(2), folded p_def]
  show "unat al dvd unat p" using A(3) ak by simp
  then have "16 dvd unat p" using d16 ak by (auto intro: dvd_trans)
  then show "unat q + 16 \<le> unat p" and "unat p \<le> unat q + unat al"
    using A(1,2) q8 q(1) d16 unfolding ak dvd_def by presburger+
qed

lemma fl_finish_aligned:
  assumes core: "fl_core a M fs {}" and b: "M b = Some (t, True)" and fit: "fl_fits_aligned n al"
    and room: "unat n + unat al + 16 \<le> t"
  obtains p where "fl_finish a (fl_at a b + 16) al = (Some p, fl_store (p - 8) (p - (fl_at a b + 16)) a)"
    and "fl_core (fl_store (p - 8) (p - (fl_at a b + 16)) a) M fs {}" and "unat al dvd unat p"
    and "unat (fl_at a b + 16) + 16 \<le> unat p" and "unat p + unat n \<le> unat (fl_at a b + 16) + (t - 16)"
proof -
  note C = fl_coreD [OF core]
  note B = fl_at_block [OF C(1,2) b]
  define p where "p = hf_align_up (fl_at a b + 16 + 8) al"
  have al: "hf_is_pow2 al" "al > HF_DEFAULT_ALIGN" using fit by (simp_all add: fl_fits_aligned_def)
  have "16 dvd unat (fl_mem a) + b" using C(1) fl_partD(4) [OF C(2) b] by (simp add: fl_shape_def)
  then have "16 dvd unat (fl_at a b + 16)" unfolding B(3) by simp
  moreover have "unat (fl_at a b + 16) + 16 < 2 ^ 63" using B(3,8) fl_partD(2) [OF C(2) b] by simp
  ultimately have P: "unat al dvd unat p" "unat (fl_at a b + 16) + 16 \<le> unat p"
      "unat p \<le> unat (fl_at a b + 16) + unat al"
    using fl_align_payload [OF _ _ al] unfolding p_def by blast+
  have "unat (p - 8) = unat p - 8" using P(2) by (subst unat_sub_nowrap) simp_all
  then have "fl_core (fl_store (p - 8) (p - (fl_at a b + 16)) a) M fs {}"
    using P(2,3) room unfolding B(3) by (intro fl_core_write [OF core b]) linarith+
  then show thesis
    using P room al(2) by (intro that [of p]) (simp_all add: fl_finish_def Let_def p_def)
qed

lemma fl_refused_small:
  assumes core: "fl_core a M fs {}" and "\<forall>b s. M b = Some (s, False) \<longrightarrow> s < k"
    and e: "e \<in> set (fl_walk a)" "bi_is_free e"
  shows "unat (bi_size e) < k"
proof -
  from e(1) obtain b s u where b: "M b = Some (s, u)" "e = fl_entry b s u"
    unfolding fl_walk_core(3) [OF core] by blast
  moreover have "\<not> u" using b(2) e(2) by (simp add: fl_entry_def)
  ultimately show ?thesis
    using assms(2) fl_core_header(3) [OF core b(1)] by (auto simp: fl_entry_def)
qed

text \<open>
  A request is refused when no free block is large enough.  Otherwise a new block \<open>q\<close> of \<open>m\<close> usable
  bytes becomes live, and the pointer \<open>p\<close> returned with it lies in that block, with room for the
  request.  Only a request of an alignment above the default one gets a \<open>p\<close> above \<open>q\<close>; the distance
  is then kept in the cell below \<open>p\<close>.
\<close>

lemma fl_allocate_cases:
  assumes inv: "fl_inv a" and fit: "fl_fits n al \<or> fl_fits_aligned n al"
  obtains (refused) a' where "fl_allocate a n al = (None, a')" and "fl_inv a'" and "fl_live a' = fl_live a"
      and "\<forall>e \<in> set (fl_walk a). bi_is_free e \<longrightarrow> unat (bi_size e) < unat (fl_need n al)"
  | (granted) p q m a' where "fl_allocate a n al = (Some p, a')" and "fl_inv a'" and "fl_live a q = None"
      and "fl_live a' = (fl_live a)(q \<mapsto> m)" and "p \<noteq> NULL" and "unat q \<le> unat p"
      and "unat p + unat n \<le> unat q + m" and "fl_fits n al \<Longrightarrow> p = q"
      and "fl_fits_aligned n al \<Longrightarrow> unat al dvd unat p \<and> fl_cells a' (p - 8) = p - q"
proof -
  obtain M fs where core: "fl_core a M fs {}" and coal: "fl_coalesced M"
    and us: "unat (hs_used (fl_stats a)) = card (fl_used_set M)"
    using fl_invE [OF inv] by blast
  note C = fl_coreD [OF core]
  have fit': "unat n + (if al > HF_DEFAULT_ALIGN then unat al else 0) + 32 < 2 ^ 64"
    using fit by (auto simp: fl_fits_def fl_fits_aligned_def)
  show thesis
  proof (rule fl_allocate_core [OF core coal fit'], goal_cases)
    case (1 a')
    have "fl_live a' = fl_live a" by (rule fl_live_eq [OF core 1(2,4)]) simp
    moreover have "fl_inv a'" using 1 coal us by (intro fl_invI [OF 1(2)]) simp_all
    ultimately show thesis using fl_refused_small [OF core 1(5)] by (intro refused [OF 1(1)]) simp_all
  next
    case (2 b s t M' fs' a')
    let ?q = "fl_at a b + 16"
    have at: "fl_at a' = fl_at a" using 2(10) by (simp add: fl_at_def fun_eq_iff)
    note B = fl_at_block [OF C(1,2) 2(4)] and h = fl_core_header(3) [OF 2(2,5)]
    have t: "32 \<le> t" using fl_partD(2) [OF fl_coreD(2) [OF 2(2)] 2(5)] .
    have cd: "card (fl_used_set M') = card (fl_used_set M) + t"
      by (rule fl_used_set_grow [OF C(2) 2(4,7)]) (use 2(5,8) in blast)+
    have us': "unat (hs_used (fl_stats a')) = card (fl_used_set M')"
      unfolding 2(9) using us cd h fl_card_bound [OF 2(2)] by (subst unat_add_nowrap) auto
    have live: "fl_live a ?q = None" "fl_live a' = (fl_live a)(?q \<mapsto> t - 16)"
      using fl_live_upd [OF core 2(2,10,4,5)] 2(8) by blast+
    have need: "unat n + (if al > HF_DEFAULT_ALIGN then unat al else 0) + 16 \<le> t"
      using fl_need_bounds(3) [OF fit'] 2(6) by simp
    show thesis
    proof (cases "al > HF_DEFAULT_ALIGN")
      case False
      then have "fl_allocate a n al = (Some ?q, a')" using 2(1) by (simp add: fl_finish_def)
      then show thesis
        using live need False B(7) fl_invI [OF 2(2,3) us'] t
        by (intro granted [of ?q a' ?q "t - 16"]) (auto simp: fl_fits_aligned_def)
    next
      case True
      then have fa: "fl_fits_aligned n al" using fit by (auto simp: fl_fits_def)
      obtain p where p: "fl_finish a' ?q al = (Some p, fl_store (p - 8) (p - ?q) a')"
        "fl_core (fl_store (p - 8) (p - ?q) a') M' fs' {}" "unat al dvd unat p"
        "unat ?q + 16 \<le> unat p" "unat p + unat n \<le> unat ?q + (t - 16)"
        by (rule fl_finish_aligned [OF 2(2,5) fa, unfolded at]) (use need True in auto)
      let ?a = "fl_store (p - 8) (p - ?q) a'"
      have "fl_live ?a = fl_live a'" by (rule fl_live_eq [OF 2(2) p(2)]) simp_all
      moreover have "fl_inv ?a" using us' by (intro fl_invI [OF p(2) 2(3)]) simp
      moreover have "p \<noteq> NULL" using p(4) by auto
      ultimately show thesis
        using live p 2(1) True by (intro granted [of p ?a ?q "t - 16"]) (auto simp: fl_fits_def)
    qed
  qed
qed

lemma fl_deallocate_live:
  assumes inv: "fl_inv a" and live: "fl_live a p \<noteq> None"
  obtains a' where "fl_deallocate a p = Inr a'" and "fl_inv a'" and "fl_live a' = (fl_live a)(p := None)"
proof -
  obtain M fs where core: "fl_core a M fs {}" and coal: "fl_coalesced M"
    and us: "unat (hs_used (fl_stats a)) = card (fl_used_set M)"
    using fl_invE [OF inv] by blast
  note C = fl_coreD [OF core]
  obtain b s where b: "M b = Some (s, True)" "p = fl_at a b + 16"
    using live unfolding not_None_eq fl_live_iff [OF core] by blast
  show thesis
  proof (rule fl_deallocate_core [OF core coal b(1)], goal_cases)
    case (1 a' M' fs')
    have cd: "card (fl_used_set M) = card (fl_used_set M') + s"
      by (rule fl_used_set_shrink [OF C(2) b(1)]) (use 1(4) in blast)
    have "unat (hs_used (fl_stats a')) = card (fl_used_set M')"
      unfolding 1(5) using us cd fl_core_header(3) [OF core b(1)] by (subst unat_sub_nowrap) auto
    then have "fl_inv a'" by (rule fl_invI [OF 1(2,3)])
    moreover have "fl_live a' = (fl_live a)(p := None)"
    proof -
      have at: "fl_at a' = fl_at a" using 1(6) by (simp add: fl_at_def fun_eq_iff)
      have "fl_live a' q = Some m \<longleftrightarrow> ((fl_live a)(p := None)) q = Some m" for q m
      proof (cases "q = p")
        case True
        have "c = b" if "M c = Some (i, True)" "p = fl_at a c + 16" for c i
          using fl_at_inj [OF core that(1) b(1)] that(2) b(2) by simp
        then show ?thesis
          unfolding fl_live_iff [OF 1(2)] at using 1(4) True by auto
      next
        case False
        then show ?thesis
          unfolding fl_live_iff [OF 1(2)] at using fl_live_iff [OF core, of q m] 1(4) b(2) by auto
      qed
      then show ?thesis by (rule map_eqI)
    qed
    ultimately show thesis using 1(1) b(2) by (intro that) simp_all
  qed
qed


interpretation fl: allocator_contract fl_inv fl_allocate fl_deallocate fl_live fl_fits
    "\<lambda>a p. fl_live a p \<noteq> None" "\<lambda>a x v. fl_store x v a"
proof (unfold_locales, goal_cases)
  case (1 s n al)
  show ?case by (rule fl_allocate_cases [OF 1(1) disjI1 [OF 1(2)]]) simp_all
next
  case (2 s n al s')
  show ?case by (rule fl_allocate_cases [OF 2(1) disjI1 [OF 2(2)]]) (use 2(3) in simp_all)
next
  case (3 s n al p s')
  show ?case
  proof (rule fl_allocate_cases [OF 3(1) disjI1 [OF 3(2)]], goal_cases)
    case (2 p' q m a')
    then have "p' = p" "q = p" "a' = s'" using 3(2,3) by simp_all
    then show ?case using 2(3,4,5,7) by auto
  qed (use 3(3) in simp)
next
  case (4 s)
  then show ?case by (rule fl_live_disjoint)
next
  case (5 s p)
  show ?case by (rule fl_deallocate_live [OF 5]) (use 5 in simp)
next
  case (6 s p x v)
  obtain M fs where core: "fl_core s M fs {}" and coal: "fl_coalesced M"
    and us: "unat (hs_used (fl_stats s)) = card (fl_used_set M)"
    using fl_invE [OF 6(1)] by blast
  from 6(2) obtain m where "fl_live s p = Some m" and x: "unat p \<le> unat x" "unat x < unat p + m"
    by (auto simp: in_block_def split: option.splits)
  then obtain b t where b: "M b = Some (t, True)" "p = fl_at s b + 16" "m = t - 16"
    unfolding fl_live_iff [OF core] by blast
  note B = fl_at_block(3) [OF fl_coreD(1,2) [OF core] b(1)] and t = fl_partD(2) [OF fl_coreD(2) [OF core] b(1)]
  have core': "fl_core (fl_store x v s) M fs {}"
    using x t unfolding b(2,3) B by (intro fl_core_write [OF core b(1)]) linarith+
  then have "fl_inv (fl_store x v s)" using coal us by (intro fl_invI [OF core']) simp_all
  moreover have "fl_live (fl_store x v s) = fl_live s" by (rule fl_live_eq [OF core core']) simp_all
  ultimately show ?case ..
qed

interpretation fl_layout: layout_contract fl_inv fl_walk "\<lambda>a. unat (fl_capacity a)"
    "\<lambda>a. unat (hs_used (fl_stats a))"
proof (unfold_locales, goal_cases)
  case (1 s)
  then show ?case using fl_walk_core(1) by (blast elim: fl_invE)
next
  case (2 s)
  then obtain M fs where "fl_core s M fs {}" "unat (hs_used (fl_stats s)) = card (fl_used_set M)"
    by (blast elim: fl_invE)
  then show ?case using fl_walk_core(2) by simp
qed

text \<open>
  A pointer above the start of its block is released through the distance kept below it, unless the
  two cells below it happen to look like a header.
\<close>

lemma fl_deallocate_aligned:
  assumes inv: "fl_inv a" and live: "fl_live a q \<noteq> None" and p: "p \<noteq> NULL"
    and stash: "fl_cells a (p - 8) = p - q" and stale: "\<not> plausible_header a (p - FL_HDR)"
  shows "fl_deallocate a p = fl_deallocate a q"
proof -
  obtain M fs where core: "fl_core a M fs {}" using fl_invE [OF inv] by blast
  note C = fl_coreD [OF core]
  obtain b s where b: "M b = Some (s, True)" "q = fl_at a b + 16"
    using live unfolding not_None_eq fl_live_iff [OF core] by blast
  have ph: "plausible_header (a\<lparr>fl_stats := st\<rparr>) h = plausible_header a h" for st h
    by (simp add: plausible_header_def hdr_size_def hdr_used_def)
  have "plausible_header a (q - FL_HDR)" using fl_plausible [OF core b(1)] b(2) by (simp add: FL_HDR_def)
  moreover have "q \<noteq> NULL" using fl_at_block(7) [OF C(1,2) b(1)] b(2) by simp
  moreover have "p - (p - q) - FL_HDR = q - FL_HDR" by simp
  ultimately show ?thesis
    using p stash stale unfolding fl_deallocate_def Let_def ph by simp
qed

subsection \<open>Creation\<close>

definition fl_fresh :: "addr \<Rightarrow> u64 \<Rightarrow> hf_fit_policy \<Rightarrow> fl_alloc" where
  "fl_fresh mem cap pol =
     \<lparr>fl_mem = mem, fl_capacity = cap, fl_policy = pol, fl_free_head = mem + 16, fl_cursor = mem + 16,
      fl_cells = (\<lambda>_. 0)(mem := cap, mem + 8 := 0, mem + 24 := mem + 16, mem + 16 := mem + 16),
      fl_stats = stats_zero\<lparr>hs_capacity := cap\<rparr>\<rparr>"

lemma fl_fresh_core:
  assumes "fl_shape (fl_fresh mem cap pol)"
  shows "fl_core (fl_fresh mem cap pol) [0 \<mapsto> (unat cap, False)] [mem + 16] {}"
proof -
  let ?a = "fl_fresh mem cap pol"
  have s: "32 \<le> unat cap" "16 dvd unat cap" using assms by (simp_all add: fl_shape_def fl_fresh_def)
  have part: "fl_part (unat (fl_capacity ?a)) [0 \<mapsto> (unat cap, False)]"
    unfolding fl_part_def using s by (auto simp: fl_fresh_def split: if_splits)
  have at: "fl_at ?a 0 = mem" by (simp add: fl_at_def fl_fresh_def)
  note B = fl_at_block [OF assms part, of 0 "unat cap" False, unfolded at, simplified]
  note N = fl_at_ne [OF assms part, of 0 "unat cap" False 0 "unat cap" False, unfolded at, simplified]
  have "mem + 8 \<noteq> mem + 16" "mem + 8 \<noteq> mem + 24" "mem \<noteq> mem + 8" "mem \<noteq> mem + 16" "mem \<noteq> mem + 24"
    "mem + 16 \<noteq> mem + 24" by simp_all
  moreover have "fl_ring_ok ?a [mem + 16]"
    using dl_ring_single [OF B(5,7), of "fl_cells ?a"] by (simp add: fl_ring_ok_def fl_fresh_def add.assoc)
  ultimately show ?thesis
    using assms part B s unfolding fl_core_def
    by (auto simp: fl_at_def fl_enc_def fl_fresh_def split: if_splits)
qed

lemma hf_free_list_create_Some:
  assumes os: "os_wf os" and ret: "hf_free_list_create os capacity pol = (cs, Some a)"
  obtains mem cap where "a = fl_fresh mem cap pol" and "fl_shape a"
    and "vm_held (cs @ fl_destroy os a) {} = {}"
proof -
  define cap where "cap = hf_align_up (if capacity < FL_MIN * 2 then FL_MIN * 2 else capacity) (os_page_size os)"
  from ret obtain mem where res: "hf_vm_reserve os cap = (cs, Some mem)" and a: "a = fl_fresh mem cap pol"
    unfolding hf_free_list_create_def Let_def cap_def [symmetric]
    by (auto simp: fl_fresh_def hdr_set_def set_prev_phys_def fl_store_def payload_node_def FL_HDR_def add.assoc
        split: if_splits prod.splits option.splits)
  note R = hf_vm_reserve_Some [OF os cap_def res]
  obtain k where k: "12 \<le> k" "k < 32" "os_page_size os = 2 ^ k" using os_wfD [OF os] by metis
  have "(2::nat) ^ 5 dvd 2 ^ k" using k(1) by (intro le_imp_power_dvd) simp
  moreover have "2 ^ k dvd unat cap" unfolding cap_def k(3) by (rule hf_align_up_dvd)
  ultimately have "32 dvd unat cap" using dvd_trans [of "32" "2 ^ k" "unat cap"] by simp
  moreover have "unat cap \<noteq> 0" using R(4) by (simp add: unat_eq_0)
  ultimately have cap: "32 \<le> unat cap" "16 dvd unat cap" by (auto dest: dvd_imp_le)
  have "0 < unat mem" using R(1) by (simp add: unat_gt_0)
  then have "fl_shape a" using R(2,3) cap a by (simp add: fl_shape_def fl_fresh_def)
  moreover have "vm_held (cs @ fl_destroy os a) {} = {}"
    using R(6,7) by (simp add: a fl_destroy_def fl_fresh_def)
  ultimately show thesis using that a by blast
qed

lemma hf_free_list_create_inv:
  assumes "os_wf os" and "hf_free_list_create os capacity pol = (cs, Some a)"
  shows "fl_inv a" and "fl_live a = Map.empty"
proof -
  obtain mem cap where a: "a = fl_fresh mem cap pol" and sh: "fl_shape a"
    using hf_free_list_create_Some [OF assms] by metis
  note core = fl_fresh_core [OF sh [unfolded a], folded a]
  have none: "[0 \<mapsto> (unat cap, False)] c \<noteq> Some (i, True)" for c i by simp
  have "0 < unat cap" using sh by (simp add: a fl_shape_def fl_fresh_def)
  then show "fl_inv a"
    by (intro fl_invI [OF core])
      (use none in \<open>simp_all add: fl_coalesced_def fl_used_set_def a fl_fresh_def stats_zero_def split: if_splits\<close>)
  show "fl_live a = Map.empty" by (rule map_eqI) (use none in \<open>simp add: fl_live_iff [OF core]\<close>)
qed

lemma fl_walk_whole:
  assumes inv: "fl_inv a" and live: "fl_live a = Map.empty"
  shows "fl_walk a = [\<lparr>bi_offset = 0, bi_size = fl_capacity a, bi_is_free = True\<rparr>]"
proof -
  obtain M fs where core: "fl_core a M fs {}" and coal: "fl_coalesced M"
    using fl_invE [OF inv] by blast
  note C = fl_coreD [OF core]
  have none: "M b \<noteq> Some (s, True)" for b s
    using live fl_live_iff [OF core, of "fl_at a b + 16" "s - 16"] by auto
  obtain s u where z: "M 0 = Some (s, u)" using fl_partD(1) [OF C(2)] by auto
  have u: "\<not> u" using none [of 0 s] z by (cases u) simp_all
  have s: "s = unat (fl_capacity a)"
  proof (rule ccontr)
    assume "s \<noteq> unat (fl_capacity a)"
    then obtain t v where t: "M s = Some (t, v)" using fl_partD(6) [OF C(2) z] by auto
    then have "M (0 + s) = Some (t, False)" using none [of s t] by (cases v) simp_all
    moreover have "M 0 = Some (s, False)" using z u by simp
    ultimately show False using coal unfolding fl_coalesced_def by blast
  qed
  obtain k where "fl_fuel a = Suc k"
    using C(1) by (cases "fl_fuel a") (auto simp: fl_fuel_def fl_shape_def)
  moreover have "fl_walk_loop (Suc k) a (fl_at a 0) = Some [fl_entry 0 s False]"
    using fl_walk_loop_step [OF core z, of k] fl_walk_loop_end(1) [OF core, of k] u s by simp
  ultimately show ?thesis using s by (simp add: fl_walk_def fl_at_def fl_entry_def)
qed


lemma fl_walk_free_nodes:
  assumes core: "fl_core a M fs {}"
  shows "set fs = {fl_mem a + bi_offset e + FL_HDR | e. e \<in> set (fl_walk a) \<and> bi_is_free e}"
proof (intro set_eqI iffI)
  fix n assume "n \<in> set fs"
  then obtain b s where b: "M b = Some (s, False)" "n = fl_at a b + 16" unfolding fl_coreD(7) [OF core] by auto
  then have "fl_entry b s False \<in> set (fl_walk a)" unfolding fl_walk_core(3) [OF core] by blast
  then show "n \<in> {fl_mem a + bi_offset e + FL_HDR | e. e \<in> set (fl_walk a) \<and> bi_is_free e}"
    using b(2) by (force simp: fl_entry_def fl_at_def FL_HDR_def)
next
  fix n assume "n \<in> {fl_mem a + bi_offset e + FL_HDR | e. e \<in> set (fl_walk a) \<and> bi_is_free e}"
  then obtain b s u where "M b = Some (s, u)" "\<not> u" "n = fl_at a b + 16"
    unfolding fl_walk_core(3) [OF core] by (auto simp: fl_entry_def fl_at_def FL_HDR_def)
  then show "n \<in> set fs" unfolding fl_coreD(7) [OF core] by auto
qed

subsection \<open>An example allocator\<close>

definition fl_example :: fl_alloc where
  "fl_example = fl_fresh 0x100000 4096 HF_FIT_FIRST"

lemma fl_example_create:
  "hf_free_list_create os_example 4096 HF_FIT_FIRST = ([Vm_reserve 4096 (Some 0x100000)], Some fl_example)"
  by (simp add: hf_free_list_create_def hf_vm_reserve_def os_example_def FL_MIN_def FL_HDR_def fl_example_def
      fl_fresh_def hf_align_up_def hdr_set_def set_prev_phys_def fl_store_def payload_node_def Let_def)

lemmas fl_example_inv = hf_free_list_create_inv [OF os_example_wf fl_example_create]

text \<open>Rules that evaluate the operations on the example.\<close>

lemma fit_loop_numeral:
  "fit_loop (numeral k) a need start n =
     (if hdr_size a (header_of n) \<ge> need then Some n
      else let n = fl_cells a n in if n \<noteq> start then fit_loop (pred_numeral k) a need start n else Some NULL)"
  by (simp add: numeral_eq_Suc Let_def)

lemma fl_walk_loop_numeral:
  "fl_walk_loop (numeral k) a c =
     (if c < fl_mem a + fl_capacity a then
        map_option (\<lambda>bs. \<lparr>bi_offset = c - fl_mem a, bi_size = hdr_size a c, bi_is_free = (\<not> hdr_used a c)\<rparr> # bs)
          (fl_walk_loop (pred_numeral k) a (c + hdr_size a c))
      else Some [])"
  by (subst fl_walk_loop.simps) (simp add: numeral_eq_Suc)

lemmas fl_exec = fl_example_def fl_fresh_def fl_allocate_def find_fit_def fl_fuel_def fit_loop_numeral hdr_size_def
  hdr_used_def header_of_def FL_HDR_def FL_MIN_def hf_align_up_def HF_DEFAULT_ALIGN_def fl_carve_def fl_unlink_def
  hdr_set_def fl_store_def set_prev_phys_def next_phys_def fl_insert_def payload_node_def fl_deallocate_def
  plausible_header_def fl_merge_next_def fl_merge_prev_def fl_walk_def fl_walk_loop_numeral used_bytes_def
  fl_get_stats_def count_alloc_def count_free_def set_used_def raise_peak_def stats_zero_def Let_def

lemma fl_fits_example: "fl_fits 100 16" "fl_fits 8 16" "fl_fits_aligned 100 64"
  by (auto simp: fl_fits_def fl_fits_aligned_def HF_DEFAULT_ALIGN_def hf_is_pow2_iff intro: exI [of _ 6])

lemma fl_example_allocate:
  "fst (fl_allocate fl_example 100 16) = Some 0x100010" "fst (fl_allocate fl_example 100 64) = Some 0x100040"
  by (simp_all add: fl_exec cong: let_weak_cong)

lemma fl_example_aligned:
  "(case fl_allocate fl_example 100 64 of (r, a) \<Rightarrow> \<not> plausible_header a (0x100040 - FL_HDR))"
  by (simp add: fl_exec cong: let_weak_cong)

subsection \<open>Properties\<close>

text \<open>
  C31: \<^verbatim>\<open>fl_allocate\<close> keeps the invariant.  A request whose size computation does not wrap is refused
  only when no free block has the size it needs.  Otherwise a block \<open>q\<close> of \<open>m\<close> bytes that was not live
  becomes live, and the pointer \<open>p\<close> returned lies in it with room for the request: it is \<open>q\<close> itself
  unless the alignment is above 16, and then it is a multiple of that alignment.
\<close>

theorem fl_allocate_correct:
  assumes "fl_inv a" and "fl_fits n al \<or> fl_fits_aligned n al"
  shows "case fl_allocate a n al of
      (None, a') \<Rightarrow> fl_inv a' \<and> fl_live a' = fl_live a \<and>
        (\<forall>e \<in> set (fl_walk a). bi_is_free e \<longrightarrow> unat (bi_size e) < unat (fl_need n al))
    | (Some p, a') \<Rightarrow> fl_inv a' \<and> p \<noteq> NULL \<and>
        (\<exists>q m. fl_live a q = None \<and> fl_live a' = (fl_live a)(q \<mapsto> m) \<and> unat q \<le> unat p \<and>
           unat p + unat n \<le> unat q + m \<and> (fl_fits n al \<longrightarrow> p = q) \<and>
           (fl_fits_aligned n al \<longrightarrow> unat al dvd unat p))"
  by (rule fl_allocate_cases [OF assms]) (simp, simp, blast)

theorem fl_allocate_correct_witness:
  "\<exists>a' q m. fl_allocate fl_example 100 64 = (Some 0x100040, a') \<and> fl_inv a' \<and> fl_live a' = [q \<mapsto> m] \<and>
     unat q \<le> 0x100040 \<and> 0x100040 + 100 \<le> unat q + m"
  using fl_allocate_correct [OF fl_example_inv(1) disjI2 [OF fl_fits_example(3)]] fl_example_allocate(2) fl_example_inv(2)
  by (cases "fl_allocate fl_example 100 64") auto




lemma fl_example_roundtrip:
  "\<exists>a' a''. fl_allocate fl_example 100 16 = (Some 0x100010, a') \<and> fl_live a' 0x100010 \<noteq> None \<and>
     fl_deallocate a' 0x100010 = Inr a'' \<and> fl_live a'' = Map.empty"
proof (rule fl_allocate_cases [OF fl_example_inv(1) disjI1 [OF fl_fits_example(1)]], goal_cases)
  case (1 a')
  then show ?case using fl_example_allocate by simp
next
  case (2 p q m a')
  have p: "p = 0x100010" "q = 0x100010" using 2(1,8) fl_example_allocate(1) fl_fits_example(1) by simp_all
  have "fl_live a' q \<noteq> None" using 2(4) by simp
  then show ?case
    by (rule fl_deallocate_live [OF 2(2)]) (use 2(1,4) p fl_example_inv(2) in auto)
qed





text \<open>
  A pointer of a large alignment can be released: right after the request, \<^verbatim>\<open>fl_deallocate\<close>
  finds the block through the distance kept below the pointer and restores the live blocks, provided
  the two cells below the pointer do not look like the header of a used block.
\<close>

theorem fl_aligned_roundtrip:
  assumes "fl_inv a" and "fl_fits_aligned n al" and "fl_allocate a n al = (Some p, a')"
    and "\<not> plausible_header a' (p - FL_HDR)"
  shows "\<exists>a''. fl_deallocate a' p = Inr a'' \<and> fl_inv a'' \<and> fl_live a'' = fl_live a"
proof (rule fl_allocate_cases [OF assms(1) disjI2 [OF assms(2)]], goal_cases)
  case (1 b')
  then show ?case using assms(3) by simp
next
  case (2 r q m b')
  have e: "r = p" "b' = a'" using 2(1) assms(3) by simp_all
  have live: "fl_live a' q \<noteq> None" and inv: "fl_inv a'" using 2(2,4) e by simp_all
  have "fl_deallocate a' p = fl_deallocate a' q"
    by (rule fl_deallocate_aligned [OF inv live]) (use 2(5,9) assms(2,4) e in simp_all)
  moreover have "(fl_live a')(q := None) = fl_live a" using 2(3,4) e by auto
  ultimately show ?case using fl_deallocate_live [OF inv live] by metis
qed

theorem fl_aligned_roundtrip_witness:
  "\<exists>a' a''. fl_allocate fl_example 100 64 = (Some 0x100040, a') \<and> fl_deallocate a' 0x100040 = Inr a'' \<and>
     fl_live a'' = Map.empty"
proof -
  obtain a' where a': "fl_allocate fl_example 100 64 = (Some 0x100040, a')"
    using fl_example_allocate(2) by (cases "fl_allocate fl_example 100 64") auto
  then have "\<not> plausible_header a' (0x100040 - FL_HDR)" using fl_example_aligned by simp
  then show ?thesis
    using fl_aligned_roundtrip [OF fl_example_inv(1) fl_fits_example(3) a'] a' fl_example_inv(2) by auto
qed

text \<open>
  The proviso is not always met.  A client writes the number 49 into a block of 64 bytes, releases the
  block and asks for one aligned to 64 bytes.  The stale number lies where \<^verbatim>\<open>fl_deallocate\<close> looks
  for a header, and is taken for one of a used block of 48 bytes: the release of the aligned pointer
  does not release its block, which stays in use for ever.
\<close>

theorem fl_stale_header:
  "(case client_run fl_allocate fl_deallocate (\<lambda>a x v. fl_store x v a) fl_example
      [Op_alloc 64 16, Op_write 0x100010 0x100030 49, Op_free 0x100010, Op_alloc 8 64, Op_free 0x100040] of
    Inl _ \<Rightarrow> False
  | Inr a \<Rightarrow> \<lparr>bi_offset = 0, bi_size = 96, bi_is_free = False\<rparr> \<in> set (fl_walk a) \<and>
      used_bytes (fl_walk a) \<noteq> unat (hs_used (fl_get_stats a)))"
  by (simp add: fl_exec cong: let_weak_cong)

text \<open>A request of \<^verbatim>\<open>2^64 - 16\<close> bytes is granted, with a block of 32 bytes: the size computation wraps.\<close>

theorem fl_allocate_wraps:
  "(case fl_allocate fl_example (2 ^ 64 - 16) 16 of (r, a') \<Rightarrow>
      r = Some 0x100010 \<and> \<lparr>bi_offset = 0, bi_size = 32, bi_is_free = False\<rparr> \<in> set (fl_walk a'))"
  by (simp add: fl_exec cong: let_weak_cong)

end
