(* ===== verification/HF_Persistent_Pool.thy ===== *)
theory HF_Persistent_Pool
  imports HF_Allocator
begin

text \<open>
  The file-backed pool of \<^verbatim>\<open>hf_persistent_pool.c\<close> (its POSIX part).  The file is an image: the
  header with its two metadata slots, the ring of log records, and the bitmap.  Every store into the
  mapping and every synchronisation is recorded in a trace, from which the images a crash may leave
  on disk are computed.  The contents of the data area are the client's and are not modelled.
\<close>

subsection \<open>The file\<close>

datatype hf_durability = HF_DURABILITY_FAST | HF_DURABILITY_FULL

record meta_slot =
  ms_seq :: u64
  ms_used_blocks :: u64
  ms_crc :: u64

record wal_entry =
  we_seq :: u64
  we_op :: u32
  we_index :: u32
  we_crc :: u64

record pool_header =
  ph_magic :: u64
  ph_block_size :: u64
  ph_block_count :: u64
  ph_wal_offset :: u64
  ph_bitmap_offset :: u64
  ph_data_offset :: u64
  ph_total_size :: u64
  ph_meta :: "nat \<Rightarrow> meta_slot"

text \<open>The arrays of the file are functions of the index.\<close>

record pool_image =
  pi_hdr :: pool_header
  pi_wal :: "nat \<Rightarrow> wal_entry"
  pi_bitmap :: "nat \<Rightarrow> u8"

definition POOL_MAGIC :: u64 where
  "POOL_MAGIC = 0x4846505043020001"

definition WAL_ENTRIES :: u64 where
  "WAL_ENTRIES = 256"

definition WAL_OP_ALLOC :: u32 where
  "WAL_OP_ALLOC = 1"

definition WAL_OP_FREE :: u32 where
  "WAL_OP_FREE = 2"

text \<open>One constructor for each field that is stored to after the creation of the file.\<close>

datatype pool_store =
    St_wal_seq nat u64 | St_wal_op nat u32 | St_wal_index nat u32 | St_wal_crc nat u64
  | St_bitmap nat u8
  | St_meta_seq nat u64 | St_meta_used nat u64 | St_meta_crc nat u64
  | St_format pool_header

abbreviation upd_wal :: "nat \<Rightarrow> (wal_entry \<Rightarrow> wal_entry) \<Rightarrow> pool_image \<Rightarrow> pool_image" where
  "upd_wal k f img \<equiv> img\<lparr>pi_wal := (pi_wal img)(k := f (pi_wal img k))\<rparr>"

abbreviation upd_meta :: "nat \<Rightarrow> (meta_slot \<Rightarrow> meta_slot) \<Rightarrow> pool_image \<Rightarrow> pool_image" where
  "upd_meta k f img \<equiv>
     img\<lparr>pi_hdr := (pi_hdr img)\<lparr>ph_meta := (ph_meta (pi_hdr img))(k := f (ph_meta (pi_hdr img) k))\<rparr>\<rparr>"

definition meta_zero :: meta_slot where
  "meta_zero = \<lparr>ms_seq = 0, ms_used_blocks = 0, ms_crc = 0\<rparr>"

definition wal_zero :: wal_entry where
  "wal_zero = \<lparr>we_seq = 0, we_op = 0, we_index = 0, we_crc = 0\<rparr>"

fun apply_store :: "pool_store \<Rightarrow> pool_image \<Rightarrow> pool_image" where
  "apply_store (St_wal_seq k v) img = upd_wal k (we_seq_update (\<lambda>_. v)) img"
| "apply_store (St_wal_op k v) img = upd_wal k (we_op_update (\<lambda>_. v)) img"
| "apply_store (St_wal_index k v) img = upd_wal k (we_index_update (\<lambda>_. v)) img"
| "apply_store (St_wal_crc k v) img = upd_wal k (we_crc_update (\<lambda>_. v)) img"
| "apply_store (St_bitmap i v) img = img\<lparr>pi_bitmap := (pi_bitmap img)(i := v)\<rparr>"
| "apply_store (St_meta_seq k v) img = upd_meta k (ms_seq_update (\<lambda>_. v)) img"
| "apply_store (St_meta_used k v) img = upd_meta k (ms_used_blocks_update (\<lambda>_. v)) img"
| "apply_store (St_meta_crc k v) img = upd_meta k (ms_crc_update (\<lambda>_. v)) img"
| "apply_store (St_format h) img = \<lparr>pi_hdr = h, pi_wal = (\<lambda>_. wal_zero), pi_bitmap = (\<lambda>_. 0)\<rparr>"

text \<open>The messages of a recovery.  The message about a bad magic number belongs to no pool and is left out.\<close>

datatype pool_log = Log_replayed u64 | Log_consistent u64

datatype pool_event =
    Ev_store pool_store
  | Ev_msync addr u64
  | Ev_fsync
  | Ev_log pool_log
  | Ev_munmap addr u64
  | Ev_close


subsection \<open>Checksums\<close>

definition bytes_le :: "nat \<Rightarrow> 'a::len word \<Rightarrow> u8 list" where
  "bytes_le n w = map (\<lambda>i. ucast (drop_bit (8 * i) w)) [0..<n]"

definition fnv1a :: "u8 list \<Rightarrow> u64" where
  "fnv1a bs = fold (\<lambda>b h. (h XOR ucast b) * 1099511628211) bs 1469598103934665603"

definition meta_crc :: "meta_slot \<Rightarrow> u64" where
  "meta_crc m = fnv1a (bytes_le 8 (ms_seq m) @ bytes_le 8 (ms_used_blocks m))"

definition wal_crc :: "wal_entry \<Rightarrow> u64" where
  "wal_crc e = fnv1a (bytes_le 8 (we_seq e) @ bytes_le 4 (we_op e) @ bytes_le 4 (we_index e))"


subsection \<open>The open pool\<close>

record hf_persistent_pool =
  p_map :: addr
  p_map_size :: u64
  p_img :: pool_image
  p_wal :: addr
  p_bitmap :: addr
  p_data :: addr
  p_block_size :: u64
  p_block_count :: u64
  p_used_blocks :: u64
  p_next_seq :: u64
  p_active_meta :: nat
  p_dur :: hf_durability
  p_trace :: "pool_event list"

definition emit_event :: "pool_event \<Rightarrow> hf_persistent_pool \<Rightarrow> hf_persistent_pool" where
  "emit_event e p = p\<lparr>p_trace := p_trace p @ [e]\<rparr>"

definition store_to :: "pool_store \<Rightarrow> hf_persistent_pool \<Rightarrow> hf_persistent_pool" where
  "store_to st p = emit_event (Ev_store st) (p\<lparr>p_img := apply_store st (p_img p)\<rparr>)"

definition wal_addr :: "hf_persistent_pool \<Rightarrow> nat \<Rightarrow> addr" where
  "wal_addr p k = p_wal p + of_nat (24 * k)"

definition meta_addr :: "hf_persistent_pool \<Rightarrow> nat \<Rightarrow> addr" where
  "meta_addr p k = p_map p + 56 + of_nat (24 * k)"

definition sync_range :: "os_services \<Rightarrow> hf_persistent_pool \<Rightarrow> addr \<Rightarrow> u64 \<Rightarrow> hf_persistent_pool" where
  "sync_range os p a len =
     (let ps = os_page_size os;
          start = a AND NOT (ps - 1);
          finish = a + len;
          p = emit_event (Ev_msync start (finish - start)) p
      in if p_dur p = HF_DURABILITY_FULL then emit_event Ev_fsync p else p)"

definition bit_test :: "hf_persistent_pool \<Rightarrow> nat \<Rightarrow> bool" where
  "bit_test p i \<longleftrightarrow> drop_bit (i mod 8) (pi_bitmap (p_img p) (i div 8)) AND 1 \<noteq> 0"

definition bit_set :: "hf_persistent_pool \<Rightarrow> nat \<Rightarrow> hf_persistent_pool" where
  "bit_set p i = store_to (St_bitmap (i div 8) (pi_bitmap (p_img p) (i div 8) OR push_bit (i mod 8) 1)) p"

definition bit_clear :: "hf_persistent_pool \<Rightarrow> nat \<Rightarrow> hf_persistent_pool" where
  "bit_clear p i =
     store_to (St_bitmap (i div 8) (pi_bitmap (p_img p) (i div 8) AND NOT (push_bit (i mod 8) 1))) p"

definition wal_append :: "os_services \<Rightarrow> hf_persistent_pool \<Rightarrow> u64 \<Rightarrow> u32 \<Rightarrow> u32 \<Rightarrow> hf_persistent_pool" where
  "wal_append os p seq opc index =
     (let k = unat (seq mod WAL_ENTRIES);
          p = store_to (St_wal_index k index) (store_to (St_wal_op k opc) (store_to (St_wal_seq k seq) p));
          p = store_to (St_wal_crc k (wal_crc (pi_wal (p_img p) k))) p
      in sync_range os p (wal_addr p k) 24)"

definition apply_op :: "hf_persistent_pool \<Rightarrow> u32 \<Rightarrow> u32 \<Rightarrow> hf_persistent_pool" where
  "apply_op p opc index =
     (let i = unat index
      in if opc = WAL_OP_ALLOC then
           if \<not> bit_test p i then (let p = bit_set p i in p\<lparr>p_used_blocks := p_used_blocks p + 1\<rparr>) else p
         else
           if bit_test p i then (let p = bit_clear p i in p\<lparr>p_used_blocks := p_used_blocks p - 1\<rparr>) else p)"

definition meta_commit :: "os_services \<Rightarrow> hf_persistent_pool \<Rightarrow> u64 \<Rightarrow> hf_persistent_pool" where
  "meta_commit os p seq =
     (let nx = (if p_active_meta p = 0 then 1 else 0);
          p = store_to (St_meta_used nx (p_used_blocks p)) (store_to (St_meta_seq nx seq) p);
          p = store_to (St_meta_crc nx (meta_crc (ph_meta (pi_hdr (p_img p)) nx))) p;
          p = sync_range os p (meta_addr p nx) 24
      in p\<lparr>p_active_meta := nx\<rparr>)"

definition commit :: "os_services \<Rightarrow> hf_persistent_pool \<Rightarrow> u32 \<Rightarrow> u32 \<Rightarrow> hf_persistent_pool" where
  "commit os p opc index =
     (let seq = p_next_seq p;
          p = p\<lparr>p_next_seq := p_next_seq p + 1\<rparr>;
          p = wal_append os p seq opc index;
          p = apply_op p opc index;
          p = sync_range os p (p_bitmap p + of_nat (unat index div 8)) 1
      in meta_commit os p seq)"


subsection \<open>Recovery\<close>

definition meta_valid :: "meta_slot \<Rightarrow> bool" where
  "meta_valid m \<longleftrightarrow> ms_crc m = meta_crc m"

definition wal_valid :: "wal_entry \<Rightarrow> u64 \<Rightarrow> bool" where
  "wal_valid e s \<longleftrightarrow> we_seq e = s \<and> we_crc e = wal_crc e"

definition pick_meta :: "(nat \<Rightarrow> meta_slot) \<Rightarrow> nat \<Rightarrow> (nat \<times> u64) option \<Rightarrow> (nat \<times> u64) option" where
  "pick_meta ms i best =
     (if meta_valid (ms i) \<and> (case best of None \<Rightarrow> True | Some (_, best_seq) \<Rightarrow> ms_seq (ms i) \<ge> best_seq)
      then Some (i, ms_seq (ms i)) else best)"

definition best_meta :: "(nat \<Rightarrow> meta_slot) \<Rightarrow> nat \<times> u64" where
  "best_meta ms = (case pick_meta ms 1 (pick_meta ms 0 None) of None \<Rightarrow> (0, 0) | Some b \<Rightarrow> b)"

definition count_bits :: "hf_persistent_pool \<Rightarrow> u64" where
  "count_bits p = fold (\<lambda>i n. if bit_test p i then n + 1 else n) [0..<unat (p_block_count p)] 0"

text \<open>
  The replay loop.  The bound makes at most 256 rounds unless the sequence numbers are about to wrap
  around; \<open>None\<close> stands for a loop that does not end.
\<close>

fun replay ::
    "nat \<Rightarrow> hf_persistent_pool \<Rightarrow> u64 \<Rightarrow> u64 \<Rightarrow> u64 \<Rightarrow> bool \<Rightarrow> (hf_persistent_pool \<times> u64 \<times> bool) option" where
  "replay fuel p s lim max_seq replayed =
     (if s \<le> lim then
        case fuel of
          0 \<Rightarrow> None
        | Suc fuel \<Rightarrow>
            let e = pi_wal (p_img p) (unat (s mod WAL_ENTRIES))
            in if \<not> wal_valid e s then replay fuel p (s + 1) lim max_seq replayed
               else replay fuel (apply_op p (we_op e) (we_index e)) (s + 1) lim
                      (if s > max_seq then s else max_seq) True
      else Some (p, max_seq, replayed))"

declare replay.simps [simp del]

definition recover :: "os_services \<Rightarrow> hf_persistent_pool \<Rightarrow> hf_persistent_pool option" where
  "recover os p =
     (let (best, best_seq) = best_meta (ph_meta (pi_hdr (p_img p)));
          p = p\<lparr>p_active_meta := best\<rparr>;
          p = p\<lparr>p_used_blocks := count_bits p\<rparr>
      in case replay 256 p (best_seq + 1) (best_seq + WAL_ENTRIES) best_seq False of
           None \<Rightarrow> None
         | Some (p, max_seq, replayed) \<Rightarrow>
             let p = p\<lparr>p_next_seq := max_seq + 1\<rparr>
             in if replayed then
                  let p = emit_event (Ev_log (Log_replayed max_seq)) p;
                      p = sync_range os p (p_bitmap p) ((p_block_count p + 7) div 8);
                      p = meta_commit os p max_seq
                  in Some (emit_event (Ev_log (Log_consistent (p_used_blocks p))) p)
                else Some p)"


subsection \<open>Opening and closing\<close>

text \<open>
  The file under the path: absent, present without a valid header (of some length, all zero), or
  formatted.  \<open>fo_open\<close> tells whether \<^verbatim>\<open>open\<close> succeeds on an existing file, \<open>fo_creat\<close> whether it
  succeeds with \<^verbatim>\<open>O_CREAT\<close>.
\<close>

datatype pool_file = Absent | Blank u64 | Formatted pool_image

record file_services =
  fo_open :: bool
  fo_creat :: bool
  fo_ftruncate :: "u64 \<Rightarrow> bool"
  fo_mmap :: "u64 \<Rightarrow> addr option"
  fo_calloc :: bool

definition pool_attach ::
    "addr \<Rightarrow> pool_image \<Rightarrow> u64 \<Rightarrow> u64 \<Rightarrow> u64 \<Rightarrow> u64 \<Rightarrow> u64 \<Rightarrow> u64 \<Rightarrow> hf_durability \<Rightarrow> hf_persistent_pool" where
  "pool_attach mp img total_size wal_off bitmap_off data_off block_size block_count dur =
     \<lparr>p_map = mp, p_map_size = total_size, p_img = img, p_wal = mp + wal_off, p_bitmap = mp + bitmap_off,
      p_data = mp + data_off, p_block_size = block_size, p_block_count = block_count, p_used_blocks = 0,
      p_next_seq = 1, p_active_meta = 0, p_dur = dur, p_trace = []\<rparr>"

definition pool_format :: "u64 \<Rightarrow> u64 \<Rightarrow> u64 \<Rightarrow> u64 \<Rightarrow> u64 \<Rightarrow> u64 \<Rightarrow> pool_header" where
  "pool_format block_size block_count wal_off bitmap_off data_off total_size =
     \<lparr>ph_magic = POOL_MAGIC, ph_block_size = block_size, ph_block_count = block_count,
      ph_wal_offset = wal_off, ph_bitmap_offset = bitmap_off, ph_data_offset = data_off,
      ph_total_size = total_size,
      ph_meta = (\<lambda>_. meta_zero)(0 := meta_zero\<lparr>ms_crc := meta_crc meta_zero\<rparr>)\<rparr>"

definition pool_create ::
    "os_services \<Rightarrow> file_services \<Rightarrow> pool_file \<Rightarrow> u64 \<Rightarrow> u64 \<Rightarrow> hf_durability \<Rightarrow>
     pool_file \<times> hf_persistent_pool option" where
  "pool_create os fo fl block_size block_count dur =
     (if \<not> fo_creat fo then (fl, None)
      else let fl = (case fl of Absent \<Rightarrow> Blank 0 | _ \<Rightarrow> fl);
               ps = os_page_size os
           in if block_size = 0 \<or> block_count = 0 then (fl, None)
              else let block_size = hf_align_up block_size HF_DEFAULT_ALIGN;
                       wal_off = ps;
                       bitmap_off = wal_off + hf_align_up (24 * WAL_ENTRIES) ps;
                       data_off = bitmap_off + hf_align_up ((block_count + 7) div 8) ps;
                       total_size = data_off + hf_align_up (block_size * block_count) ps
                   in if \<not> fo_ftruncate fo total_size then (fl, None)
                      else let fl = (case fl of Blank _ \<Rightarrow> Blank total_size | _ \<Rightarrow> fl)
                           in case fo_mmap fo total_size of
                                None \<Rightarrow> (fl, None)
                              | Some mp \<Rightarrow>
                                  if \<not> fo_calloc fo then (fl, None)
                                  else let h = pool_format block_size block_count wal_off bitmap_off data_off total_size;
                                           img = \<lparr>pi_hdr = h, pi_wal = (\<lambda>_. wal_zero), pi_bitmap = (\<lambda>_. 0)\<rparr>;
                                           p = pool_attach mp img total_size wal_off bitmap_off data_off
                                                 block_size block_count dur;
                                           p = store_to (St_format h) p
                                       in (Formatted img, Some (sync_range os p (p_map p) 104)))"

definition pool_reopen ::
    "os_services \<Rightarrow> file_services \<Rightarrow> pool_image \<Rightarrow> hf_durability \<Rightarrow> hf_persistent_pool option" where
  "pool_reopen os fo img dur =
     (let h = pi_hdr img
      in if ph_magic h \<noteq> POOL_MAGIC then None
         else case fo_mmap fo (ph_total_size h) of
                None \<Rightarrow> None
              | Some mp \<Rightarrow>
                  if \<not> fo_calloc fo then None
                  else recover os (pool_attach mp img (ph_total_size h) (ph_wal_offset h) (ph_bitmap_offset h)
                         (ph_data_offset h) (ph_block_size h) (ph_block_count h) dur))"

text \<open>A blank file is too short for a header or has a zero magic number: it is refused.\<close>

definition hf_pool_open ::
    "os_services \<Rightarrow> file_services \<Rightarrow> pool_file \<Rightarrow> u64 \<Rightarrow> u64 \<Rightarrow> hf_durability \<Rightarrow>
     pool_file \<times> hf_persistent_pool option" where
  "hf_pool_open os fo fl block_size block_count dur =
     (if fl = Absent \<or> \<not> fo_open fo then pool_create os fo fl block_size block_count dur
      else case fl of
             Formatted img \<Rightarrow>
               (case pool_reopen os fo img dur of
                  None \<Rightarrow> (fl, None)
                | Some p \<Rightarrow> (Formatted (p_img p), Some p))
           | _ \<Rightarrow> (fl, None))"

definition hf_pool_flush_all :: "os_services \<Rightarrow> hf_persistent_pool \<Rightarrow> hf_persistent_pool" where
  "hf_pool_flush_all os p =
     (let p = emit_event (Ev_msync (p_map p) (p_map_size p)) p
      in if p_dur p = HF_DURABILITY_FULL then emit_event Ev_fsync p else p)"

definition hf_pool_close :: "os_services \<Rightarrow> hf_persistent_pool option \<Rightarrow> pool_event list" where
  "hf_pool_close os q =
     (case q of None \<Rightarrow> []
      | Some p \<Rightarrow> p_trace (hf_pool_flush_all os p) @ [Ev_munmap (p_map p) (p_map_size p), Ev_close])"


subsection \<open>The operations\<close>

fun first_clear :: "hf_persistent_pool \<Rightarrow> nat list \<Rightarrow> nat option" where
  "first_clear p [] = None"
| "first_clear p (i # js) = (if \<not> bit_test p i then Some i else first_clear p js)"

definition hf_pool_allocate ::
    "os_services \<Rightarrow> hf_persistent_pool \<Rightarrow> (addr \<times> u64) option \<times> hf_persistent_pool" where
  "hf_pool_allocate os p =
     (case first_clear p [0..<unat (p_block_count p)] of
        None \<Rightarrow> (None, p)
      | Some i \<Rightarrow>
          let p = commit os p WAL_OP_ALLOC (of_nat i)
          in (Some (p_data p + of_nat i * p_block_size p, of_nat i), p))"

definition hf_pool_free :: "os_services \<Rightarrow> hf_persistent_pool \<Rightarrow> u64 \<Rightarrow> hf_persistent_pool" where
  "hf_pool_free os p index =
     (if index < p_block_count p \<and> bit_test p (unat index) then commit os p WAL_OP_FREE (ucast index) else p)"

definition hf_pool_at :: "hf_persistent_pool \<Rightarrow> u64 \<Rightarrow> addr" where
  "hf_pool_at p index =
     (if index \<ge> p_block_count p \<or> \<not> bit_test p (unat index) then NULL
      else p_data p + index * p_block_size p)"

definition hf_pool_flush :: "os_services \<Rightarrow> hf_persistent_pool \<Rightarrow> u64 \<Rightarrow> hf_persistent_pool" where
  "hf_pool_flush os p index =
     (if index \<ge> p_block_count p then p
      else sync_range os p (p_data p + index * p_block_size p) (p_block_size p))"

definition hf_pool_block_size :: "hf_persistent_pool \<Rightarrow> u64" where
  "hf_pool_block_size p = p_block_size p"

definition hf_pool_block_count :: "hf_persistent_pool \<Rightarrow> u64" where
  "hf_pool_block_count p = p_block_count p"

definition hf_pool_used_blocks :: "hf_persistent_pool \<Rightarrow> u64" where
  "hf_pool_used_blocks p = p_used_blocks p"

definition hf_pool_debug_wal_only :: "os_services \<Rightarrow> hf_persistent_pool \<Rightarrow> u64 \<Rightarrow> bool \<Rightarrow> hf_persistent_pool" where
  "hf_pool_debug_wal_only os p index alloc =
     (let seq = p_next_seq p;
          p = p\<lparr>p_next_seq := p_next_seq p + 1\<rparr>
      in wal_append os p seq (if alloc then WAL_OP_ALLOC else WAL_OP_FREE) (ucast index))"

definition hf_pool_debug_crash :: "hf_persistent_pool option \<Rightarrow> pool_event list" where
  "hf_pool_debug_crash q =
     (case q of None \<Rightarrow> [] | Some p \<Rightarrow> p_trace p @ [Ev_munmap (p_map p) (p_map_size p), Ev_close])"

end
