(* ===== verification/HF_Pool_Crash.thy ===== *)
theory HF_Pool_Crash
  imports HF_Persistent_Pool
begin

text \<open>
  Crash consistency of the persistent pool.  The images that a crash may leave on disk follow from the
  trace: what was synchronised is durable, of the stores since then any subset may have reached the
  disk.  Whatever the point of the crash, and however often recovery itself is interrupted, reopening
  the file yields the set of allocated blocks from before or from after the interrupted operation.
\<close>

subsection \<open>What a crash leaves on disk\<close>

fun store_addr :: "hf_persistent_pool \<Rightarrow> pool_store \<Rightarrow> addr" where
  "store_addr p (St_wal_seq k _) = wal_addr p k"
| "store_addr p (St_wal_op k _) = wal_addr p k + 8"
| "store_addr p (St_wal_index k _) = wal_addr p k + 12"
| "store_addr p (St_wal_crc k _) = wal_addr p k + 16"
| "store_addr p (St_bitmap i _) = p_bitmap p + of_nat i"
| "store_addr p (St_meta_seq k _) = meta_addr p k"
| "store_addr p (St_meta_used k _) = meta_addr p k + 8"
| "store_addr p (St_meta_crc k _) = meta_addr p k + 16"
| "store_addr p (St_format _) = p_map p"

definition covered :: "hf_persistent_pool \<Rightarrow> addr \<Rightarrow> u64 \<Rightarrow> pool_store \<Rightarrow> bool" where
  "covered p a n st \<longleftrightarrow> a \<le> store_addr p st \<and> store_addr p st < a + n"

text \<open>Each of the stores in \<open>q\<close> reached the disk or did not.\<close>

fun torn_images :: "pool_image \<Rightarrow> pool_store list \<Rightarrow> pool_image set" where
  "torn_images d [] = {d}"
| "torn_images d (st # q) = torn_images d q \<union> torn_images (apply_store st d) q"

text \<open>\<open>d\<close> is durable, \<open>q\<close> are the stores not synchronised yet.\<close>

fun crash_from ::
    "hf_persistent_pool \<Rightarrow> pool_image \<Rightarrow> pool_store list \<Rightarrow> pool_event list \<Rightarrow> pool_image set" where
  "crash_from p d q [] = torn_images d q"
| "crash_from p d q (Ev_store st # es) = torn_images d q \<union> crash_from p d (q @ [st]) es"
| "crash_from p d q (Ev_msync a n # es) =
     torn_images d q \<union>
     crash_from p (fold apply_store (filter (covered p a n) q) d) (filter (\<lambda>st. \<not> covered p a n st) q) es"
| "crash_from p d q (Ev_fsync # es) = crash_from p d q es"
| "crash_from p d q (Ev_log _ # es) = crash_from p d q es"
| "crash_from p d q (Ev_munmap _ _ # es) = crash_from p d q es"
| "crash_from p d q (Ev_close # es) = crash_from p d q es"

text \<open>The images a crash may leave while \<open>p\<close> turns into \<open>p'\<close>, all of \<open>p\<close> being durable.\<close>

definition crash_images :: "hf_persistent_pool \<Rightarrow> hf_persistent_pool \<Rightarrow> pool_image set" where
  "crash_images p p' = crash_from p (p_img p) [] (drop (length (p_trace p)) (p_trace p'))"

lemma torn_images_self: "d \<in> torn_images d q" "fold apply_store q d \<in> torn_images d q"
  by (induction q arbitrary: d) auto

lemma torn_images_prefix: "torn_images d q \<subseteq> torn_images d (q @ r)"
proof (induction q arbitrary: d)
  case Nil
  then show ?case by (simp add: torn_images_self)
next
  case (Cons st q)
  show ?case using Cons [of d] Cons [of "apply_store st d"] by auto
qed

lemma crash_from_stores:
  "crash_from p d q (map Ev_store sts @ es) \<subseteq> torn_images d (q @ sts) \<union> crash_from p d (q @ sts) es"
proof (induction sts arbitrary: q)
  case (Cons st sts)
  have "torn_images d q \<subseteq> torn_images d (q @ st # sts)" by (rule torn_images_prefix)
  then show ?case using Cons [of "q @ [st]"] by auto
qed simp

subsection \<open>The bitmap as a set of blocks\<close>

definition img_blocks :: "nat \<Rightarrow> pool_image \<Rightarrow> nat set" where
  "img_blocks bc img = {i. i < bc \<and> bit (pi_bitmap img (i div 8)) (i mod 8)}"

definition pool_blocks :: "hf_persistent_pool \<Rightarrow> nat set" where
  "pool_blocks p = img_blocks (unat (p_block_count p)) (p_img p)"

text \<open>The image, and the set of blocks, that a logged operation leads to.\<close>

definition op_byte :: "u32 \<Rightarrow> nat \<Rightarrow> u8 \<Rightarrow> u8" where
  "op_byte opc i b = (if opc = WAL_OP_ALLOC then b OR push_bit (i mod 8) 1 else b AND NOT (push_bit (i mod 8) 1))"

definition op_img :: "u32 \<Rightarrow> nat \<Rightarrow> pool_image \<Rightarrow> pool_image" where
  "op_img opc i img = img\<lparr>pi_bitmap := (pi_bitmap img)(i div 8 := op_byte opc i (pi_bitmap img (i div 8)))\<rparr>"

definition op_blocks :: "u32 \<Rightarrow> nat \<Rightarrow> nat set \<Rightarrow> nat set" where
  "op_blocks opc i B = (if opc = WAL_OP_ALLOC then insert i B else B - {i})"

lemma bit_test_iff: "bit_test p i \<longleftrightarrow> bit (pi_bitmap (p_img p) (i div 8)) (i mod 8)"
  by (simp add: bit_test_def and_one_eq bit_iff_odd_drop_bit mod_2_eq_odd)

lemma img_blocks_sub: "img_blocks bc img \<subseteq> {..<bc}" and img_blocks_finite [simp]: "finite (img_blocks bc img)"
proof -
  show "img_blocks bc img \<subseteq> {..<bc}" by (auto simp: img_blocks_def)
  then show "finite (img_blocks bc img)" by (rule finite_subset) simp
qed

lemma bit_op_byte:
  "j < 8 \<Longrightarrow> bit (op_byte opc i b) j \<longleftrightarrow> (if j = i mod 8 then opc = WAL_OP_ALLOC else bit b j)"
  by (auto simp: op_byte_def bit_simps bit_1_iff)

lemma op_img_blocks:
  assumes "i < bc"
  shows "img_blocks bc (op_img opc i img) = op_blocks opc i (img_blocks bc img)"
proof (rule set_eqI)
  fix j
  have "j = i \<longleftrightarrow> j div 8 = i div 8 \<and> j mod 8 = i mod 8" by (metis div_mult_mod_eq)
  then show "j \<in> img_blocks bc (op_img opc i img) \<longleftrightarrow> j \<in> op_blocks opc i (img_blocks bc img)"
    using assms by (auto simp: img_blocks_def op_img_def op_blocks_def bit_op_byte split: if_splits)
qed

lemma op_img_same:
  assumes "bit (pi_bitmap img (i div 8)) (i mod 8) \<longleftrightarrow> opc = WAL_OP_ALLOC"
  shows "op_img opc i img = img"
proof -
  have "op_byte opc i (pi_bitmap img (i div 8)) = pi_bitmap img (i div 8)"
    by (rule bit_word_eqI) (use assms in \<open>auto simp: bit_op_byte\<close>)
  then show ?thesis by (simp add: op_img_def)
qed

lemma op_img_idem [simp]: "op_img opc i (op_img opc i img) = op_img opc i img"
  by (rule op_img_same) (simp add: op_img_def bit_op_byte)

lemma op_blocks_idem [simp]: "op_blocks opc i (op_blocks opc i B) = op_blocks opc i B"
  by (auto simp: op_blocks_def)

lemma count_bits_card: "count_bits p = of_nat (card (pool_blocks p))"
proof -
  have "fold (\<lambda>i n. if bit_test p i then n + 1 else n) [0..<m] c = c + of_nat (card {i. i < m \<and> bit_test p i})" for m and c :: u64
  proof (induction m arbitrary: c)
    case (Suc m)
    have "{i. i < Suc m \<and> bit_test p i} = (if bit_test p m then insert m else id) {i. i < m \<and> bit_test p i}"
      by (auto simp: less_Suc_eq)
    then show ?case using Suc [of c] by simp
  qed simp
  then show ?thesis by (simp add: count_bits_def pool_blocks_def img_blocks_def bit_test_iff)
qed


subsection \<open>The steps of a commit\<close>

definition sync_events :: "os_services \<Rightarrow> hf_durability \<Rightarrow> addr \<Rightarrow> u64 \<Rightarrow> pool_event list" where
  "sync_events os dur a len =
     (let start = a AND NOT (os_page_size os - 1)
      in Ev_msync start (a + len - start) # (if dur = HF_DURABILITY_FULL then [Ev_fsync] else []))"

definition wal_record :: "u64 \<Rightarrow> u32 \<Rightarrow> u32 \<Rightarrow> wal_entry" where
  "wal_record seq opc index =
     (let e = \<lparr>we_seq = seq, we_op = opc, we_index = index, we_crc = 0\<rparr> in e\<lparr>we_crc := wal_crc e\<rparr>)"

definition meta_record :: "u64 \<Rightarrow> u64 \<Rightarrow> meta_slot" where
  "meta_record seq used =
     (let m = \<lparr>ms_seq = seq, ms_used_blocks = used, ms_crc = 0\<rparr> in m\<lparr>ms_crc := meta_crc m\<rparr>)"

definition wal_stores :: "nat \<Rightarrow> wal_entry \<Rightarrow> pool_store list" where
  "wal_stores k e = [St_wal_seq k (we_seq e), St_wal_op k (we_op e), St_wal_index k (we_index e), St_wal_crc k (we_crc e)]"

definition meta_stores :: "nat \<Rightarrow> meta_slot \<Rightarrow> pool_store list" where
  "meta_stores k m = [St_meta_seq k (ms_seq m), St_meta_used k (ms_used_blocks m), St_meta_crc k (ms_crc m)]"

definition op_stores :: "u32 \<Rightarrow> nat \<Rightarrow> pool_image \<Rightarrow> pool_store list" where
  "op_stores opc i img =
     (if bit (pi_bitmap img (i div 8)) (i mod 8) \<longleftrightarrow> opc = WAL_OP_ALLOC then []
      else [St_bitmap (i div 8) (op_byte opc i (pi_bitmap img (i div 8)))])"

definition set_wal :: "nat \<Rightarrow> wal_entry \<Rightarrow> pool_image \<Rightarrow> pool_image" where
  "set_wal k e img = img\<lparr>pi_wal := (pi_wal img)(k := e)\<rparr>"

definition set_meta :: "nat \<Rightarrow> meta_slot \<Rightarrow> pool_image \<Rightarrow> pool_image" where
  "set_meta k m img = img\<lparr>pi_hdr := (pi_hdr img)\<lparr>ph_meta := (ph_meta (pi_hdr img))(k := m)\<rparr>\<rparr>"

definition same_place :: "hf_persistent_pool \<Rightarrow> hf_persistent_pool \<Rightarrow> bool" where
  "same_place p' p \<longleftrightarrow>
     p_map p' = p_map p \<and> p_map_size p' = p_map_size p \<and> p_wal p' = p_wal p \<and> p_bitmap p' = p_bitmap p \<and>
     p_data p' = p_data p \<and> p_block_size p' = p_block_size p \<and> p_block_count p' = p_block_count p \<and> p_dur p' = p_dur p"

lemma same_place_refl [simp]: "same_place p p"
  by (simp add: same_place_def)

lemma same_place_trans: "same_place r q \<Longrightarrow> same_place q p \<Longrightarrow> same_place r p"
  by (simp add: same_place_def)

lemma set_wal_sel [simp]:
  "pi_hdr (set_wal k e img) = pi_hdr img" "pi_wal (set_wal k e img) = (pi_wal img)(k := e)"
  "pi_bitmap (set_wal k e img) = pi_bitmap img"
  by (simp_all add: set_wal_def)

lemma set_meta_sel [simp]:
  "ph_meta (pi_hdr (set_meta k m img)) = (ph_meta (pi_hdr img))(k := m)" "pi_wal (set_meta k m img) = pi_wal img"
  "pi_bitmap (set_meta k m img) = pi_bitmap img" "ph_magic (pi_hdr (set_meta k m img)) = ph_magic (pi_hdr img)"
  "ph_block_size (pi_hdr (set_meta k m img)) = ph_block_size (pi_hdr img)"
  "ph_block_count (pi_hdr (set_meta k m img)) = ph_block_count (pi_hdr img)"
  "ph_wal_offset (pi_hdr (set_meta k m img)) = ph_wal_offset (pi_hdr img)"
  "ph_bitmap_offset (pi_hdr (set_meta k m img)) = ph_bitmap_offset (pi_hdr img)"
  "ph_data_offset (pi_hdr (set_meta k m img)) = ph_data_offset (pi_hdr img)"
  "ph_total_size (pi_hdr (set_meta k m img)) = ph_total_size (pi_hdr img)"
  by (simp_all add: set_meta_def)

lemma op_img_sel [simp]: "pi_hdr (op_img opc i img) = pi_hdr img" "pi_wal (op_img opc i img) = pi_wal img"
  by (simp_all add: op_img_def)

lemma wal_record_sel [simp]:
  "we_seq (wal_record seq opc ix) = seq" "we_op (wal_record seq opc ix) = opc" "we_index (wal_record seq opc ix) = ix"
  "we_crc (wal_record seq opc ix) = wal_crc (wal_record seq opc ix)"
  by (simp_all add: wal_record_def wal_crc_def Let_def)

lemma meta_record_sel [simp]: "ms_seq (meta_record seq u) = seq" "meta_valid (meta_record seq u)"
  by (simp_all add: meta_record_def meta_valid_def meta_crc_def Let_def)

text \<open>Overwriting every field of a record.\<close>

lemma record_full:
  fixes e :: wal_entry and m :: meta_slot
  shows "e\<lparr>we_seq := a, we_op := b, we_index := c, we_crc := d\<rparr> = \<lparr>we_seq = a, we_op = b, we_index = c, we_crc = d\<rparr>"
    and "m\<lparr>ms_seq := a, ms_used_blocks := a', ms_crc := d\<rparr> = \<lparr>ms_seq = a, ms_used_blocks = a', ms_crc = d\<rparr>"
  by (cases e, simp) (cases m, simp)

lemma fold_stores:
  "fold apply_store (wal_stores k e) img = set_wal k e img"
  "fold apply_store (meta_stores k m) img = set_meta k m img"
  "fold apply_store (op_stores opc i img) img = op_img opc i img"
proof -
  show "fold apply_store (wal_stores k e) img = set_wal k e img"
    by (cases e) (simp add: wal_stores_def set_wal_def record_full)
  show "fold apply_store (meta_stores k m) img = set_meta k m img"
    by (cases m) (simp add: meta_stores_def set_meta_def record_full)
  show "fold apply_store (op_stores opc i img) img = op_img opc i img"
    using op_img_same [of img i opc] by (auto simp: op_stores_def op_img_def)
qed

lemma sync_range_eq:
  "sync_range os p a len = p\<lparr>p_trace := p_trace p @ sync_events os (p_dur p) a len\<rparr>"
  by (simp add: sync_range_def sync_events_def emit_event_def Let_def)

lemma wal_append_eq:
  "wal_append os p seq opc ix =
     (let k = unat (seq mod WAL_ENTRIES)
      in p\<lparr>p_img := set_wal k (wal_record seq opc ix) (p_img p),
           p_trace := p_trace p @ map Ev_store (wal_stores k (wal_record seq opc ix)) @
             sync_events os (p_dur p) (wal_addr p k) 24\<rparr>)"
  by (simp add: wal_append_def sync_range_eq store_to_def emit_event_def wal_addr_def wal_record_def wal_stores_def
      set_wal_def wal_crc_def record_full Let_def)

lemma meta_commit_eq:
  "meta_commit os p seq =
     (let k = (if p_active_meta p = 0 then 1 else 0)
      in p\<lparr>p_img := set_meta k (meta_record seq (p_used_blocks p)) (p_img p), p_active_meta := k,
           p_trace := p_trace p @ map Ev_store (meta_stores k (meta_record seq (p_used_blocks p))) @
             sync_events os (p_dur p) (meta_addr p k) 24\<rparr>)"
  by (simp add: meta_commit_def sync_range_eq store_to_def emit_event_def meta_addr_def meta_record_def meta_stores_def
      set_meta_def meta_crc_def record_full Let_def)

definition op_used :: "u32 \<Rightarrow> nat \<Rightarrow> pool_image \<Rightarrow> u64 \<Rightarrow> u64" where
  "op_used opc i img u =
     (if bit (pi_bitmap img (i div 8)) (i mod 8) \<longleftrightarrow> opc = WAL_OP_ALLOC then u
      else if opc = WAL_OP_ALLOC then u + 1 else u - 1)"

lemma apply_op_eq:
  "apply_op p opc ix =
     p\<lparr>p_img := op_img opc (unat ix) (p_img p), p_used_blocks := op_used opc (unat ix) (p_img p) (p_used_blocks p),
       p_trace := p_trace p @ map Ev_store (op_stores opc (unat ix) (p_img p))\<rparr>"
proof (cases "bit (pi_bitmap (p_img p) (unat ix div 8)) (unat ix mod 8) \<longleftrightarrow> opc = WAL_OP_ALLOC")
  case True
  then show ?thesis
    by (auto simp: apply_op_def bit_test_iff op_stores_def op_img_same op_used_def)
next
  case False
  then show ?thesis
    by (intro hf_persistent_pool.equality)
      (auto simp: apply_op_def bit_test_iff op_stores_def op_used_def bit_set_def bit_clear_def store_to_def
        emit_event_def op_img_def op_byte_def Let_def)
qed

lemma op_used_card:
  assumes "i < bc" and "u = of_nat (card (img_blocks bc img))"
  shows "op_used opc i img u = of_nat (card (img_blocks bc (op_img opc i img)))"
proof (cases "bit (pi_bitmap img (i div 8)) (i mod 8) \<longleftrightarrow> opc = WAL_OP_ALLOC")
  case True
  then show ?thesis using assms(2) op_img_same [OF True] by (simp add: op_used_def)
next
  case False
  show ?thesis
  proof (cases "opc = WAL_OP_ALLOC")
    case True
    then have "i \<notin> img_blocks bc img" using False by (simp add: img_blocks_def)
    then show ?thesis
      using True False assms by (simp add: op_used_def op_img_blocks op_blocks_def)
  next
    case free: False
    then have "i \<in> img_blocks bc img" using False assms(1) by (simp add: img_blocks_def)
    then have "card (img_blocks bc img) = Suc (card (img_blocks bc img - {i}))"
      by (rule card.remove [OF img_blocks_finite])
    then show ?thesis
      using free False assms(2) unfolding op_img_blocks [OF assms(1)] by (simp add: op_used_def op_blocks_def)
  qed
qed


subsection \<open>Phases: stores, and a synchronisation that covers them\<close>

lemma sync_covers:
  fixes a x n m :: u64
  assumes "unat a + unat n < 2 ^ 64" and "unat a \<le> unat x" and "unat x < unat a + unat n"
  shows "a AND m \<le> x" and "x < (a AND m) + (a + n - (a AND m))"
proof -
  have "a AND m \<le> a" by (rule word_and_le2)
  then show "a AND m \<le> x" using assms(2) by (simp add: word_le_nat_alt)
  have "unat (a + n) = unat a + unat n" using assms(1) by (simp add: unat_add_nowrap)
  then show "x < (a AND m) + (a + n - (a AND m))" using assms(3) by (simp add: word_less_nat_alt)
qed

lemma crash_from_phase:
  assumes cov: "\<And>st. st \<in> set sts \<Longrightarrow> unat a \<le> unat (store_addr p st) \<and> unat (store_addr p st) < unat a + unat n"
    and fits: "unat a + unat n < 2 ^ 64"
    and pre: "\<And>q es. crash_from p d q (pre @ es) = crash_from p d q es"
  shows "crash_from p d [] (map Ev_store sts @ pre @ sync_events os dur a n @ es) \<subseteq>
    torn_images d sts \<union> crash_from p (fold apply_store sts d) [] es"
proof -
  let ?s = "a AND NOT (os_page_size os - 1)"
  have c: "covered p ?s (a + n - ?s) st" if "st \<in> set sts" for st
    using sync_covers [OF fits, of "store_addr p st"] cov [OF that] by (simp add: covered_def)
  then have "filter (covered p ?s (a + n - ?s)) sts = sts" "filter (\<lambda>st. \<not> covered p ?s (a + n - ?s) st) sts = []"
    by (simp_all add: filter_id_conv filter_empty_conv)
  then have "crash_from p d sts (sync_events os dur a n @ es) = torn_images d sts \<union> crash_from p (fold apply_store sts d) [] es"
    by (simp add: sync_events_def Let_def)
  then show ?thesis using crash_from_stores [of p d "[]" sts "pre @ sync_events os dur a n @ es"] pre by auto
qed

text \<open>
  The parts of the mapping do not wrap around the address space, and block numbers fit the 32 bits
  that the log has for them.
\<close>

definition pool_placed :: "hf_persistent_pool \<Rightarrow> bool" where
  "pool_placed p \<longleftrightarrow> unat (p_block_count p) \<le> 2 ^ 32 \<and> unat (p_map p) + 104 < 2 ^ 64 \<and> unat (p_wal p) + 6144 < 2 ^ 64 \<and>
     unat (p_bitmap p) + (unat (p_block_count p) + 7) div 8 < 2 ^ 64"

lemma pool_placed_wal:
  assumes "pool_placed p" and "k < 256"
  shows "unat (wal_addr p k) + 24 < 2 ^ 64"
    and "st \<in> set (wal_stores k e) \<Longrightarrow> unat (wal_addr p k) \<le> unat (store_addr p st) \<and>
      unat (store_addr p st) < unat (wal_addr p k) + 24"
proof -
  have "unat (of_nat (24 * k) :: u64) = 24 * k" using assms(2) by (intro unat_of_nat_small) simp
  then have a: "unat (wal_addr p k) = unat (p_wal p) + 24 * k"
    using assms unfolding wal_addr_def by (subst unat_add_nowrap) (simp_all add: pool_placed_def)
  show fits: "unat (wal_addr p k) + 24 < 2 ^ 64" using a assms by (simp add: pool_placed_def)
  have "unat (wal_addr p k + 8) = unat (wal_addr p k) + 8" "unat (wal_addr p k + 12) = unat (wal_addr p k) + 12"
    "unat (wal_addr p k + 16) = unat (wal_addr p k) + 16"
    using fits by (simp_all add: unat_add_nowrap)
  then show "st \<in> set (wal_stores k e) \<Longrightarrow> unat (wal_addr p k) \<le> unat (store_addr p st) \<and>
      unat (store_addr p st) < unat (wal_addr p k) + 24"
    by (auto simp: wal_stores_def)
qed

lemma pool_placed_meta:
  assumes "pool_placed p" and "k < 2"
  shows "unat (meta_addr p k) + 24 < 2 ^ 64"
    and "st \<in> set (meta_stores k m) \<Longrightarrow> unat (meta_addr p k) \<le> unat (store_addr p st) \<and>
      unat (store_addr p st) < unat (meta_addr p k) + 24"
proof -
  have m: "unat (p_map p + 56) = unat (p_map p) + 56" using assms(1) by (simp add: pool_placed_def unat_add_nowrap)
  have "unat (of_nat (24 * k) :: u64) = 24 * k" using assms(2) by (intro unat_of_nat_small) simp
  then have a: "unat (meta_addr p k) = unat (p_map p) + 56 + 24 * k"
    using assms m unfolding meta_addr_def by (subst unat_add_nowrap) (simp_all add: pool_placed_def)
  show fits: "unat (meta_addr p k) + 24 < 2 ^ 64" using a assms by (simp add: pool_placed_def)
  have "unat (meta_addr p k + 8) = unat (meta_addr p k) + 8" "unat (meta_addr p k + 16) = unat (meta_addr p k) + 16"
    using fits by (simp_all add: unat_add_nowrap)
  then show "st \<in> set (meta_stores k m) \<Longrightarrow> unat (meta_addr p k) \<le> unat (store_addr p st) \<and>
      unat (store_addr p st) < unat (meta_addr p k) + 24"
    by (auto simp: meta_stores_def)
qed

lemma bit_byte_addr:
  assumes "pool_placed p" and "i < unat (p_block_count p)"
  shows "unat (p_bitmap p + of_nat (i div 8)) = unat (p_bitmap p) + i div 8"
    and "i div 8 < (unat (p_block_count p) + 7) div 8"
proof -
  show 1: "i div 8 < (unat (p_block_count p) + 7) div 8" using assms(2) by linarith
  have "unat (of_nat (i div 8) :: u64) = i div 8"
    using le_less_trans [OF div_le_dividend [of i 8] less_trans [OF assms(2) unat_u64_lt]]
    by (intro unat_of_nat_small) simp
  then show "unat (p_bitmap p + of_nat (i div 8)) = unat (p_bitmap p) + i div 8"
    using assms(1) 1 by (subst unat_add_nowrap) (simp_all add: pool_placed_def)
qed

lemma bit_byte_fits:
  assumes "pool_placed p" and "i < unat (p_block_count p)"
  shows "unat (p_bitmap p + of_nat (i div 8)) + unat (1 :: u64) < 2 ^ 64"
  using bit_byte_addr [OF assms] assms(1) by (simp add: pool_placed_def)

lemma pool_placed_bit:
  assumes "pool_placed p" and "i < unat (p_block_count p)" and "st \<in> set (op_stores opc i img)"
  shows "store_addr p st = p_bitmap p + of_nat (i div 8)"
    and "unat (p_bitmap p + of_nat (i div 8)) = unat (p_bitmap p) + i div 8"
    and "i div 8 < (unat (p_block_count p) + 7) div 8"
  using assms(3) bit_byte_addr [OF assms(1,2)] by (auto simp: op_stores_def split: if_splits)


subsection \<open>The states of the file\<close>

text \<open>
  The next sequence number is \<open>n\<close>: slot \<open>a\<close> holds the watermark \<open>n - 1\<close>.  A pending operation has
  its record \<open>n\<close> in the log; no other record of the log is due for replay.
\<close>

definition img_state :: "nat \<Rightarrow> nat \<Rightarrow> nat \<Rightarrow> (u32 \<times> nat) option \<Rightarrow> pool_image \<Rightarrow> bool" where
  "img_state bc a n pend img \<longleftrightarrow>
     ph_magic (pi_hdr img) = POOL_MAGIC \<and> unat (ph_block_count (pi_hdr img)) = bc \<and> a < 2 \<and>
     n + (if pend = None then 257 else 258) < 2 ^ 64 \<and>
     meta_valid (ph_meta (pi_hdr img) a) \<and> unat (ms_seq (ph_meta (pi_hdr img) a)) + 1 = n \<and>
     unat (ms_seq (ph_meta (pi_hdr img) (1 - a))) \<le> n \<and>
     (meta_valid (ph_meta (pi_hdr img) (1 - a)) \<longrightarrow> unat (ms_seq (ph_meta (pi_hdr img) (1 - a))) < n) \<and>
     (\<forall>s. n \<le> s \<longrightarrow> s < n + 256 \<longrightarrow> (s = n \<longrightarrow> pend = None) \<longrightarrow> \<not> wal_valid (pi_wal img (s mod 256)) (of_nat s)) \<and>
     (case pend of None \<Rightarrow> True
      | Some (opc, i) \<Rightarrow> i < bc \<and> wal_valid (pi_wal img (n mod 256)) (of_nat n) \<and>
          we_op (pi_wal img (n mod 256)) = opc \<and> unat (we_index (pi_wal img (n mod 256))) = i)"

definition settled :: "nat \<Rightarrow> nat set \<Rightarrow> pool_image \<Rightarrow> bool" where
  "settled bc B img \<longleftrightarrow> (\<exists>a n pend. img_state bc a n pend img \<and>
     B = (case pend of None \<Rightarrow> img_blocks bc img | Some (opc, i) \<Rightarrow> op_blocks opc i (img_blocks bc img)))"

definition pool_ok :: "hf_persistent_pool \<Rightarrow> bool" where
  "pool_ok p \<longleftrightarrow> img_state (unat (p_block_count p)) (p_active_meta p) (unat (p_next_seq p)) None (p_img p) \<and>
     p_used_blocks p = of_nat (card (pool_blocks p))"

lemma img_stateI:
  assumes "ph_magic (pi_hdr img) = POOL_MAGIC" and "unat (ph_block_count (pi_hdr img)) = bc" and "a < 2"
    and "n + (if pend = None then 257 else 258) < 2 ^ 64"
    and "meta_valid (ph_meta (pi_hdr img) a)" and "unat (ms_seq (ph_meta (pi_hdr img) a)) + 1 = n"
    and "unat (ms_seq (ph_meta (pi_hdr img) (1 - a))) \<le> n"
    and "meta_valid (ph_meta (pi_hdr img) (1 - a)) \<Longrightarrow> unat (ms_seq (ph_meta (pi_hdr img) (1 - a))) < n"
    and "\<And>s. n \<le> s \<Longrightarrow> s < n + 256 \<Longrightarrow> (s = n \<Longrightarrow> pend = None) \<Longrightarrow> \<not> wal_valid (pi_wal img (s mod 256)) (of_nat s)"
    and "\<And>opc i. pend = Some (opc, i) \<Longrightarrow> i < bc \<and> wal_valid (pi_wal img (n mod 256)) (of_nat n) \<and>
      we_op (pi_wal img (n mod 256)) = opc \<and> unat (we_index (pi_wal img (n mod 256))) = i"
  shows "img_state bc a n pend img"
  unfolding img_state_def using assms by (cases pend) auto

lemma img_stateD:
  assumes "img_state bc a n pend img"
  shows "ph_magic (pi_hdr img) = POOL_MAGIC" and "unat (ph_block_count (pi_hdr img)) = bc" and "a < 2"
    and "n + (if pend = None then 257 else 258) < 2 ^ 64"
    and "meta_valid (ph_meta (pi_hdr img) a)" and "unat (ms_seq (ph_meta (pi_hdr img) a)) + 1 = n"
    and "unat (ms_seq (ph_meta (pi_hdr img) (1 - a))) \<le> n"
    and "meta_valid (ph_meta (pi_hdr img) (1 - a)) \<Longrightarrow> unat (ms_seq (ph_meta (pi_hdr img) (1 - a))) < n"
    and "n \<le> s \<Longrightarrow> s < n + 256 \<Longrightarrow> (s = n \<Longrightarrow> pend = None) \<Longrightarrow> \<not> wal_valid (pi_wal img (s mod 256)) (of_nat s)"
    and "pend = Some (opc, i) \<Longrightarrow> i < bc \<and> wal_valid (pi_wal img (n mod 256)) (of_nat n) \<and>
      we_op (pi_wal img (n mod 256)) = opc \<and> unat (we_index (pi_wal img (n mod 256))) = i"
  using assms unfolding img_state_def by simp_all

lemma img_state_other:
  assumes "img_state bc a n pend img"
  shows "a \<noteq> 1 - a" and "1 - a \<noteq> a" and "1 - (1 - a) = a" and "1 - a < 2"
proof -
  have "a = 0 \<or> a = 1" using img_stateD(3) [OF assms] by auto
  then show "a \<noteq> 1 - a" and "1 - a \<noteq> a" and "1 - (1 - a) = a" and "1 - a < 2" by auto
qed

lemma img_state_seq:
  assumes "img_state bc a n pend img"
  shows "ms_seq (ph_meta (pi_hdr img) a) = of_nat (n - 1)" and "n \<noteq> 0"
proof -
  have "unat (ms_seq (ph_meta (pi_hdr img) a)) = n - 1" "n \<noteq> 0" using assms by (auto simp: img_state_def)
  moreover have "of_nat (unat w) = w" for w :: u64 by simp
  ultimately show "ms_seq (ph_meta (pi_hdr img) a) = of_nat (n - 1)" "n \<noteq> 0" by metis+
qed

lemma best_meta_spec:
  assumes st: "img_state bc a n pend img"
  obtains b where "best_meta (ph_meta (pi_hdr img)) = (b, of_nat (n - 1))" and "img_state bc b n pend img"
proof -
  let ?m = "ph_meta (pi_hdr img)"
  have a: "a < 2" "meta_valid (?m a)" "unat (ms_seq (?m a)) + 1 = n" "meta_valid (?m (1 - a)) \<longrightarrow> unat (ms_seq (?m (1 - a))) < n"
    using st by (auto simp: img_state_def)
  have seq: "ms_seq (?m a) = of_nat (n - 1)" by (rule img_state_seq [OF st])
  show thesis
  proof (cases "meta_valid (?m (1 - a)) \<and> ms_seq (?m (1 - a)) = ms_seq (?m a)")
    case True
    then have "img_state bc (1 - a) n pend img" using st a by (auto simp: img_state_def)
    moreover have "best_meta ?m = (1, of_nat (n - 1))"
    proof -
      have "a = 0 \<or> a = 1" using a(1) by auto
      then show ?thesis using True a(2) seq by (auto simp: best_meta_def pick_meta_def)
    qed
    moreover have "a = 1 \<or> 1 - a = 1" using a(1) by auto
    ultimately show thesis using st that by metis
  next
    case False
    have lt: "ms_seq (?m (1 - a)) < ms_seq (?m a)" if v: "meta_valid (?m (1 - a))"
    proof -
      have "unat (ms_seq (?m (1 - a))) \<noteq> unat (ms_seq (?m a))" using False v word_eq_unatI by blast
      then show ?thesis using a(3,4) v by (auto simp: word_less_nat_alt)
    qed
    have "best_meta ?m = (a, of_nat (n - 1))"
    proof -
      have "a = 0 \<or> a = 1" using a(1) by auto
      then show ?thesis using a(2) seq lt by (auto simp: best_meta_def pick_meta_def not_le split: option.splits)
    qed
    then show thesis using st that by blast
  qed
qed

lemma slot_eq: "s < 2 ^ 64 \<Longrightarrow> unat ((of_nat s :: u64) mod WAL_ENTRIES) = s mod 256"
  by (simp add: WAL_ENTRIES_def unat_mod unat_of_nat_small)

text \<open>Replaying a stretch of the log without due records.\<close>

lemma replay_none:
  assumes "s0 + k = Suc l" and "Suc l < 2 ^ 64" and "k \<le> fuel"
    and "\<And>s. s0 \<le> s \<Longrightarrow> s \<le> l \<Longrightarrow> \<not> wal_valid (pi_wal (p_img p) (s mod 256)) (of_nat s)"
  shows "replay fuel p (of_nat s0) (of_nat l) mx rp = Some (p, mx, rp)"
  using assms
proof (induction k arbitrary: s0 fuel)
  case 0
  then have "unat (of_nat s0 :: u64) = s0" "unat (of_nat l :: u64) = l" by (intro unat_of_nat_small; simp)+
  then have "\<not> (of_nat s0 :: u64) \<le> of_nat l" using 0 by (simp add: word_le_nat_alt)
  then show ?case by (subst replay.simps) simp
next
  case (Suc k)
  obtain f where f: "fuel = Suc f" using Suc.prems(3) by (cases fuel) auto
  have le: "(of_nat s0 :: u64) \<le> of_nat l" using Suc.prems by (simp add: word_le_nat_alt unat_of_nat_small)
  have "\<not> wal_valid (pi_wal (p_img p) (s0 mod 256)) (of_nat s0)" using Suc.prems by simp
  moreover have "replay f p (of_nat (Suc s0)) (of_nat l) mx rp = Some (p, mx, rp)"
    by (rule Suc.IH) (use Suc.prems f in auto)
  ultimately show ?case
    using le f slot_eq [of s0] Suc.prems by (subst replay.simps) (simp add: add.commute)
qed


subsection \<open>Torn log records and torn metadata\<close>

text \<open>
  The one assumption on the checksum: a partly written log record does not verify as the new record.
\<close>

definition tear_safe :: "pool_image \<Rightarrow> nat \<Rightarrow> wal_entry \<Rightarrow> bool" where
  "tear_safe img k e \<longleftrightarrow>
     (\<forall>img' \<in> torn_images img (wal_stores k e). wal_valid (pi_wal img' k) (we_seq e) \<longrightarrow> pi_wal img' k = e)"

lemma set_twice [simp]:
  "set_wal k w' (set_wal k w img) = set_wal k w' img" "set_meta k m' (set_meta k m img) = set_meta k m' img"
  by (simp_all add: set_wal_def set_meta_def)

lemma set_same: "set_wal k (pi_wal img k) img = img" "set_meta k (ph_meta (pi_hdr img) k) img = img"
  by (simp_all add: set_wal_def set_meta_def)

lemma torn_wal_stores:
  assumes "\<And>st img. st \<in> set sts \<Longrightarrow> \<exists>w. apply_store st img = set_wal k w img" and "img' \<in> torn_images img sts"
  shows "\<exists>w. img' = set_wal k w img"
  using assms
proof (induction sts arbitrary: img)
  case Nil
  then show ?case by (metis set_same(1) singletonD torn_images.simps(1))
next
  case (Cons st sts)
  obtain w where w: "apply_store st img = set_wal k w img" using Cons.prems(1) [of st] by auto
  have "img' \<in> torn_images img sts \<or> img' \<in> torn_images (set_wal k w img) sts" using Cons.prems(2) w by simp
  then show ?case using Cons.IH [of img] Cons.IH [of "set_wal k w img"] Cons.prems(1) by auto
qed

lemma torn_wal_shape:
  assumes "img' \<in> torn_images img (wal_stores k e)"
  shows "img' = set_wal k (pi_wal img' k) img"
proof -
  have "\<exists>w. apply_store st img = set_wal k w img" if "st \<in> set (wal_stores k e)" for st img
    using that by (auto simp: wal_stores_def set_wal_def)
  from torn_wal_stores [OF this assms] obtain w where "img' = set_wal k w img" by blast
  then show ?thesis by simp
qed

lemma torn_meta_stores:
  assumes "\<And>st img. st \<in> set sts \<Longrightarrow>
      \<exists>m'. apply_store st img = set_meta k m' img \<and> (ms_seq m' = ms_seq (ph_meta (pi_hdr img) k) \<or> ms_seq m' = v)"
    and "img' \<in> torn_images img sts"
  shows "\<exists>m'. img' = set_meta k m' img \<and> (ms_seq m' = ms_seq (ph_meta (pi_hdr img) k) \<or> ms_seq m' = v)"
  using assms
proof (induction sts arbitrary: img)
  case Nil
  then show ?case using set_same(2) [of k img] by (intro exI [of _ "ph_meta (pi_hdr img) k"]) simp
next
  case (Cons st sts)
  obtain m where m: "apply_store st img = set_meta k m img" "ms_seq m = ms_seq (ph_meta (pi_hdr img) k) \<or> ms_seq m = v"
    using Cons.prems(1) [of st img] by auto
  have "img' \<in> torn_images img sts \<or> img' \<in> torn_images (set_meta k m img) sts" using Cons.prems(2) m(1) by simp
  then show ?case using Cons.IH [of img] Cons.IH [of "set_meta k m img"] Cons.prems(1) m(2) by auto
qed

lemma torn_meta_shape:
  assumes "img' \<in> torn_images img (meta_stores k m)"
  obtains m' where "img' = set_meta k m' img" and "ms_seq m' = ms_seq (ph_meta (pi_hdr img) k) \<or> ms_seq m' = ms_seq m"
proof -
  have "\<exists>m'. apply_store st img = set_meta k m' img \<and>
      (ms_seq m' = ms_seq (ph_meta (pi_hdr img) k) \<or> ms_seq m' = ms_seq m)" if "st \<in> set (meta_stores k m)" for st img
    using that by (auto simp: meta_stores_def set_meta_def)
  from torn_meta_stores [OF this assms] show thesis using that by blast
qed

lemma img_state_op [simp]: "img_state bc a n pend (op_img opc i img) = img_state bc a n pend img"
  unfolding img_state_def op_img_sel ..

lemma mod_256_ne:
  fixes s n :: nat
  assumes "n < s" and "s < n + 256"
  shows "s mod 256 \<noteq> n mod 256"
proof
  assume "s mod 256 = n mod 256"
  then have "256 dvd s - n" using assms(1) by (simp add: mod_eq_dvd_iff_nat)
  then show False using assms dvd_imp_le [of 256 "s - n"] by simp
qed

lemma img_state_set_wal:
  assumes st: "img_state bc a n None img" and room: "n + 258 < 2 ^ 64" and i: "unat ix < bc"
    and w: "wal_valid w (of_nat n) \<Longrightarrow> w = wal_record (of_nat n) opc ix"
  shows "img_state bc a n (if wal_valid w (of_nat n) then Some (opc, unat ix) else None) (set_wal (n mod 256) w img)"
proof -
  note D = img_stateD [OF st]
  have none: "\<not> wal_valid (if s mod 256 = n mod 256 then w else pi_wal img (s mod 256)) (of_nat s)"
    if "n \<le> s" "s < n + 256" "s = n \<Longrightarrow> \<not> wal_valid w (of_nat n)" for s
  proof (cases "s = n")
    case True
    then show ?thesis using that(3) by simp
  next
    case False
    then have "s mod 256 \<noteq> n mod 256" using mod_256_ne [of n s] that(1,2) by simp
    then show ?thesis using D(9) [OF that(1,2)] by simp
  qed
  show ?thesis
  proof (rule img_stateI)
    fix s
    assume "n \<le> s" "s < n + 256" and pend: "s = n \<Longrightarrow> (if wal_valid w (of_nat n) then Some (opc, unat ix) else None) = None"
    moreover have "\<not> wal_valid w (of_nat n)" if "s = n" using pend [OF that] by (simp split: if_splits)
    ultimately show "\<not> wal_valid (pi_wal (set_wal (n mod 256) w img) (s mod 256)) (of_nat s)"
      using none by simp
  qed (use D(1-8) room i w in \<open>simp_all split: if_splits\<close>)
qed

lemma img_state_torn_wal:
  assumes st: "img_state bc a n None img" and room: "n + 258 < 2 ^ 64" and i: "unat ix < bc"
    and safe: "tear_safe img (n mod 256) (wal_record (of_nat n) opc ix)"
    and img': "img' \<in> torn_images img (wal_stores (n mod 256) (wal_record (of_nat n) opc ix))"
  shows "(img_state bc a n None img' \<or> img_state bc a n (Some (opc, unat ix)) img') \<and> pi_bitmap img' = pi_bitmap img"
proof -
  let ?w = "pi_wal img' (n mod 256)"
  have eq: "img' = set_wal (n mod 256) ?w img" by (rule torn_wal_shape [OF img'])
  have "wal_valid ?w (of_nat n) \<Longrightarrow> ?w = wal_record (of_nat n) opc ix"
    using safe img' by (simp add: tear_safe_def)
  from img_state_set_wal [OF st room i this]
  have "img_state bc a n (if wal_valid ?w (of_nat n) then Some (opc, unat ix) else None) img'"
    unfolding eq [symmetric] .
  moreover have "pi_bitmap img' = pi_bitmap img" by (subst eq) simp
  ultimately show ?thesis by (simp split: if_splits)
qed

lemma img_state_set_meta:
  assumes st: "img_state bc a n (Some (opc, i)) img" and v: "meta_valid m'" and s: "unat (ms_seq m') = n"
  shows "img_state bc (1 - a) (n + 1) None (set_meta (1 - a) m' img)"
proof -
  note D = img_stateD [OF st]
  have none: "\<not> wal_valid (pi_wal img (s mod 256)) (of_nat s)" if "n + 1 \<le> s" "s < n + 1 + 256" for s
  proof (cases "s = n + 256")
    case True
    have w: "we_seq (pi_wal img (n mod 256)) = of_nat n" using D(10) by (simp add: wal_valid_def)
    have "unat (of_nat n :: u64) = n" "unat (of_nat s :: u64) = s" using D(4) True by (intro unat_of_nat_small; simp)+
    then have "(of_nat n :: u64) \<noteq> of_nat s" using True by (metis add_eq_self_zero zero_neq_numeral)
    moreover have "s mod 256 = n mod 256" using True by simp
    ultimately show ?thesis using w by (simp add: wal_valid_def)
  next
    case False
    then show ?thesis using D(9) [of s] that by simp
  qed
  show ?thesis
    by (rule img_stateI) (use D(1-6) img_state_other [OF st] v s none in simp_all)
qed

lemma img_state_torn_meta:
  assumes st: "img_state bc a n (Some (opc, i)) img"
    and img': "img' \<in> torn_images img (meta_stores (1 - a) (meta_record (of_nat n) u))"
  shows "(img_state bc a n (Some (opc, i)) img' \<or> img_state bc (1 - a) (n + 1) None img') \<and> pi_bitmap img' = pi_bitmap img"
proof -
  note D = img_stateD [OF st]
  have un: "unat (of_nat n :: u64) = n" using D(4) by (intro unat_of_nat_small) simp
  obtain m' where m': "img' = set_meta (1 - a) m' img" "ms_seq m' \<in> {ms_seq (ph_meta (pi_hdr img) (1 - a)), of_nat n}"
    by (rule torn_meta_shape [OF img']) auto
  have le: "unat (ms_seq m') \<le> n" using m'(2) D(7) un by auto
  show ?thesis
  proof (cases "meta_valid m' \<and> unat (ms_seq m') = n")
    case True
    then show ?thesis using img_state_set_meta [OF st] m'(1) by simp
  next
    case False
    have "img_state bc a n (Some (opc, i)) img'"
      unfolding m'(1) by (rule img_stateI) (use D(1-6,9,10) img_state_other [OF st] le False in auto)
    then show ?thesis using m'(1) by simp
  qed
qed


subsection \<open>Recovery\<close>

lemma recover_eq:
  assumes "best_meta (ph_meta (pi_hdr (p_img p))) = (b, m)"
    and "replay 256 (p\<lparr>p_active_meta := b, p_used_blocks := of_nat (card (pool_blocks p))\<rparr>) (m + 1) (m + WAL_ENTRIES) m False =
      Some (q, mx, r)"
  shows "recover os p = Some (let q = q\<lparr>p_next_seq := mx + 1\<rparr>
     in if r then
          let q = meta_commit os (sync_range os (emit_event (Ev_log (Log_replayed mx)) q) (p_bitmap q) ((p_block_count q + 7) div 8)) mx
          in emit_event (Ev_log (Log_consistent (p_used_blocks q))) q
        else q)"
proof -
  have "count_bits (p\<lparr>p_active_meta := b\<rparr>) = of_nat (card (pool_blocks p))"
    by (simp add: count_bits_card pool_blocks_def)
  then show ?thesis using assms by (simp add: recover_def emit_event_def Let_def)
qed

lemma replay_args:
  assumes "n \<noteq> 0"
  shows "(of_nat (n - 1) :: u64) + 1 = of_nat n" "(of_nat (n - 1) :: u64) + WAL_ENTRIES = of_nat (n + 255)"
  using assms by (simp_all add: WAL_ENTRIES_def of_nat_diff)

lemma recover_none:
  assumes st: "img_state (unat (p_block_count p)) a n None (p_img p)"
  obtains b where "recover os p = Some (p\<lparr>p_active_meta := b, p_used_blocks := of_nat (card (pool_blocks p)), p_next_seq := of_nat n\<rparr>)"
    and "img_state (unat (p_block_count p)) b n None (p_img p)"
proof -
  obtain b where b: "best_meta (ph_meta (pi_hdr (p_img p))) = (b, of_nat (n - 1))"
    and st': "img_state (unat (p_block_count p)) b n None (p_img p)"
    by (rule best_meta_spec [OF st])
  note D = img_stateD [OF st']
  have n: "n \<noteq> 0" by (rule img_state_seq [OF st])
  let ?p = "p\<lparr>p_active_meta := b, p_used_blocks := of_nat (card (pool_blocks p))\<rparr>"
  have "replay 256 ?p (of_nat n) (of_nat (n + 255)) (of_nat (n - 1)) False = Some (?p, of_nat (n - 1), False)"
    by (rule replay_none [where k = 256]) (use D(4,9) in auto)
  from recover_eq [OF b this [folded replay_args [OF n]], of os, unfolded replay_args [OF n]]
  have "recover os p = Some (?p\<lparr>p_next_seq := of_nat n\<rparr>)" by (simp add: Let_def)
  then show thesis using that st' by simp
qed

lemma replay_one:
  assumes st: "img_state (unat (p_block_count p)) b n (Some (opc, i)) (p_img p)"
  shows "\<exists>ix. unat ix = i \<and> replay 256 p (of_nat n) (of_nat (n + 255)) (of_nat (n - 1)) rp =
    Some (apply_op p opc ix, of_nat n, True)"
proof -
  note D = img_stateD [OF st]
  let ?e = "pi_wal (p_img p) (n mod 256)"
  have e: "wal_valid ?e (of_nat n)" "we_op ?e = opc" "unat (we_index ?e) = i" using D(10) by auto
  have n: "n \<noteq> 0" by (rule img_state_seq [OF st])
  have u: "unat (of_nat n :: u64) = n" "unat (of_nat (n - 1) :: u64) = n - 1" "unat (of_nat (n + 255) :: u64) = n + 255"
    using D(4) by (intro unat_of_nat_small; simp)+
  then have le: "(of_nat n :: u64) \<le> of_nat (n + 255)" "(of_nat n :: u64) > of_nat (n - 1)"
    using n by (simp_all add: word_le_nat_alt word_less_nat_alt)
  let ?q = "apply_op p opc (we_index ?e)"
  have "replay 255 ?q (of_nat (n + 1)) (of_nat (n + 255)) (of_nat n) True = Some (?q, of_nat n, True)"
    by (rule replay_none [where k = 255]) (use D(4,9) in \<open>auto simp: apply_op_eq\<close>)
  moreover have "replay (Suc 255) p (of_nat n) (of_nat (n + 255)) (of_nat (n - 1)) rp =
      replay 255 ?q (of_nat n + 1) (of_nat (n + 255)) (of_nat n) True"
    using le e slot_eq [of n] D(4) by (subst replay.simps) (simp add: Let_def)
  moreover have "(of_nat n :: u64) + 1 = of_nat (n + 1)" by simp
  ultimately have "replay 256 p (of_nat n) (of_nat (n + 255)) (of_nat (n - 1)) rp = Some (?q, of_nat n, True)"
    by (simp only: ) simp
  then show ?thesis using e(3) by blast
qed

lemma recover_some:
  assumes st: "img_state (unat (p_block_count p)) a n (Some (opc, i)) (p_img p)"
  defines "img \<equiv> op_img opc i (p_img p)"
  defines "u \<equiv> of_nat (card (img_blocks (unat (p_block_count p)) img))"
  obtains b p' where "recover os p = Some p'" and "p_img p' = set_meta (1 - b) (meta_record (of_nat n) u) img"
    and "p_used_blocks p' = u" and "p_next_seq p' = of_nat (n + 1)" and "p_active_meta p' = 1 - b" and "same_place p' p"
    and "p_trace p' = p_trace p @ map Ev_store (op_stores opc i (p_img p)) @ [Ev_log (Log_replayed (of_nat n))] @
      sync_events os (p_dur p) (p_bitmap p) ((p_block_count p + 7) div 8) @
      map Ev_store (meta_stores (1 - b) (meta_record (of_nat n) u)) @
      [] @ sync_events os (p_dur p) (meta_addr p (1 - b)) 24 @ [Ev_log (Log_consistent u)]"
    and "img_state (unat (p_block_count p)) b n (Some (opc, i)) (p_img p)"
proof -
  obtain b where b: "best_meta (ph_meta (pi_hdr (p_img p))) = (b, of_nat (n - 1))"
    and st': "img_state (unat (p_block_count p)) b n (Some (opc, i)) (p_img p)"
    by (rule best_meta_spec [OF st])
  note D = img_stateD [OF st']
  have n: "n \<noteq> 0" by (rule img_state_seq [OF st])
  let ?p = "p\<lparr>p_active_meta := b, p_used_blocks := of_nat (card (pool_blocks p))\<rparr>"
  obtain ix where ix: "unat ix = i" and re: "replay 256 ?p (of_nat n) (of_nat (n + 255)) (of_nat (n - 1)) False =
      Some (apply_op ?p opc ix, of_nat n, True)"
    using replay_one [of ?p b n opc i False] st' by auto
  have used: "op_used opc i (p_img p) (of_nat (card (pool_blocks p))) = u"
    unfolding u_def img_def pool_blocks_def using D(10) by (intro op_used_card) auto
  have nb: "(if b = 0 then 1 else 0) = 1 - b" using D(3) by auto
  note rec = recover_eq [OF b re [folded replay_args [OF n]], of os, unfolded replay_args [OF n]]
  show thesis
    by (rule that [OF rec _ _ _ _ _ _ st'])
      (simp_all add: apply_op_eq ix used sync_range_eq meta_commit_eq emit_event_def
        same_place_def meta_addr_def nb img_def Let_def)
qed


lemma settledI:
  "img_state bc a n None img \<Longrightarrow> settled bc (img_blocks bc img) img"
  "img_state bc a n (Some (opc, i)) img \<Longrightarrow> settled bc (op_blocks opc i (img_blocks bc img)) img"
  unfolding settled_def by fastforce+

lemma settledE:
  assumes "settled bc B img"
  obtains (quiet) a n where "img_state bc a n None img" and "B = img_blocks bc img"
  | (pending) a n opc i where "img_state bc a n (Some (opc, i)) img" and "B = op_blocks opc i (img_blocks bc img)"
proof -
  from assms obtain a n pend where st: "img_state bc a n pend img"
    and B: "B = (case pend of None \<Rightarrow> img_blocks bc img | Some (opc, i) \<Rightarrow> op_blocks opc i (img_blocks bc img))"
    unfolding settled_def by blast
  show thesis
  proof (cases pend)
    case None
    then show thesis using st B quiet by simp
  next
    case (Some x)
    then show thesis using st B pending by (cases x) simp
  qed
qed

lemma img_state_unat:
  assumes "img_state bc a n pend img"
  shows "unat (of_nat n :: u64) = n" and "unat (of_nat (n + 1) :: u64) = n + 1"
  using img_stateD(4) [OF assms] by (intro unat_of_nat_small; simp split: if_splits)+

lemma recover_settled:
  assumes "settled (unat (p_block_count p)) B (p_img p)"
  obtains p' where "recover os p = Some p'" and "pool_ok p'" and "pool_blocks p' = B" and "same_place p' p"
  using assms
proof (cases rule: settledE)
  case (quiet a n)
  show thesis
  proof (rule recover_none [OF quiet(1), where os = os])
    fix b
    let ?p = "p\<lparr>p_active_meta := b, p_used_blocks := of_nat (card (pool_blocks p)), p_next_seq := of_nat n\<rparr>"
    assume "recover os p = Some ?p" and "img_state (unat (p_block_count p)) b n None (p_img p)"
    then show thesis
      using quiet(2) img_state_unat(1) [OF quiet(1)]
      by (intro that [of ?p]) (auto simp: pool_ok_def pool_blocks_def same_place_def)
  qed
next
  case (pending a n opc i)
  let ?img = "op_img opc i (p_img p)"
  have i: "i < unat (p_block_count p)" using img_stateD(10) [OF pending(1)] by simp
  show thesis
  proof (rule recover_some [OF pending(1), where os = os], goal_cases)
    case (1 b p')
    let ?u = "of_nat (card (img_blocks (unat (p_block_count p)) ?img))"
    have "img_state (unat (p_block_count p)) (1 - b) (n + 1) None (p_img p')"
      unfolding 1(2) by (rule img_state_set_meta) (use 1(8) img_state_unat(1) [OF 1(8)] in simp_all)
    moreover have bc: "p_block_count p' = p_block_count p" using 1(6) by (simp add: same_place_def)
    moreover have "pool_blocks p' = img_blocks (unat (p_block_count p)) ?img"
      unfolding pool_blocks_def bc 1(2) by (simp add: img_blocks_def)
    ultimately show thesis
      using 1(1,3,4,5,6) img_state_unat(2) [OF 1(8)] pending(2) op_img_blocks [OF i]
      by (intro that [of p']) (simp_all add: pool_ok_def)
  qed
qed

lemma img_blocks_bitmap: "pi_bitmap img' = pi_bitmap img \<Longrightarrow> img_blocks bc img' = img_blocks bc img"
  by (simp add: img_blocks_def)

text \<open>
  The last two phases of a commit, which are also those of a replay: the record is in the log, the
  bitmap is brought up to date, then the watermark.
\<close>

lemma crash_finish:
  assumes st: "img_state (unat (p_block_count p)) a n (Some (opc, i)) img" and placed: "pool_placed p"
    and cov: "\<And>st. st \<in> set (op_stores opc i img) \<Longrightarrow> unat sa \<le> unat (store_addr p st) \<and> unat (store_addr p st) < unat sa + unat sn"
    and fits: "unat sa + unat sn < 2 ^ 64"
    and pre: "\<And>d q es. crash_from p d q (pre @ es) = crash_from p d q es"
    and post: "\<And>d. crash_from p d [] post = {d}"
    and img': "img' \<in> crash_from p img [] (map Ev_store (op_stores opc i img) @ pre @ sync_events os dur sa sn @
      map Ev_store (meta_stores (1 - a) (meta_record (of_nat n) u)) @ [] @ sync_events os dur (meta_addr p (1 - a)) 24 @ post)"
  shows "settled (unat (p_block_count p)) (op_blocks opc i (img_blocks (unat (p_block_count p)) img)) img'"
proof -
  let ?bc = "unat (p_block_count p)" and ?m = "meta_record (of_nat n) u" and ?img = "op_img opc i img"
  have i: "i < ?bc" using img_stateD(10) [OF st] by simp
  have k: "1 - a < 2" by (rule img_state_other [OF st])
  note M = pool_placed_meta [OF placed k]
  have ph1: "crash_from p img [] (map Ev_store (op_stores opc i img) @ pre @ sync_events os dur sa sn @ es) \<subseteq>
      torn_images img (op_stores opc i img) \<union> crash_from p ?img [] es" for es
    using crash_from_phase [OF cov fits pre, of "op_stores opc i img" img os dur es] by (simp add: fold_stores)
  have ph2: "crash_from p ?img [] (map Ev_store (meta_stores (1 - a) ?m) @ [] @ sync_events os dur (meta_addr p (1 - a)) 24 @ post) \<subseteq>
      torn_images ?img (meta_stores (1 - a) ?m) \<union> crash_from p (set_meta (1 - a) ?m ?img) [] post"
    unfolding fold_stores(2) [of "1 - a" ?m ?img, symmetric]
    by (rule crash_from_phase) (use M in simp_all)
  have last: "set_meta (1 - a) ?m ?img \<in> torn_images ?img (meta_stores (1 - a) ?m)"
    using torn_images_self(2) [of "meta_stores (1 - a) ?m" ?img] by (simp add: fold_stores)
  have "img' \<in> torn_images img (op_stores opc i img) \<union> torn_images ?img (meta_stores (1 - a) ?m)"
    using subsetD [OF ph1 img'] subsetD [OF ph2, of img'] last unfolding post by blast
  then show ?thesis
  proof
    assume "img' \<in> torn_images img (op_stores opc i img)"
    then have "img' = img \<or> img' = ?img"
      by (auto simp: op_stores_def op_img_def split: if_splits)
    then show ?thesis using settledI(2) [OF st] settledI(2) [of ?bc a n opc i ?img] st op_img_blocks [OF i] by auto
  next
    assume "img' \<in> torn_images ?img (meta_stores (1 - a) ?m)"
    then have t: "(img_state ?bc a n (Some (opc, i)) img' \<or> img_state ?bc (1 - a) (n + 1) None img') \<and> pi_bitmap img' = pi_bitmap ?img"
      by (rule img_state_torn_meta [rotated]) (use st in simp)
    then have "settled ?bc (op_blocks opc i (img_blocks ?bc img')) img' \<or> settled ?bc (img_blocks ?bc img') img'"
      by (blast intro: settledI)
    moreover have "img_blocks ?bc img' = img_blocks ?bc ?img" using t by (intro img_blocks_bitmap) simp
    ultimately show ?thesis by (simp add: op_img_blocks [OF i])
  qed
qed


lemma recover_crash:
  assumes set: "settled (unat (p_block_count p)) B (p_img p)" and placed: "pool_placed p"
    and rec: "recover os p = Some p'" and img': "img' \<in> crash_images p p'"
  shows "settled (unat (p_block_count p)) B img'"
  using set
proof (cases rule: settledE)
  case (quiet a n)
  show ?thesis
  proof (rule recover_none [OF quiet(1), where os = os])
    fix b
    assume "recover os p = Some (p\<lparr>p_active_meta := b, p_used_blocks := of_nat (card (pool_blocks p)), p_next_seq := of_nat n\<rparr>)"
    then have "img' = p_img p" using rec img' by (auto simp: crash_images_def)
    then show ?thesis using set by simp
  qed
next
  case (pending a n opc i)
  let ?len = "(p_block_count p + 7) div 8"
  have i: "i < unat (p_block_count p)" using img_stateD(10) [OF pending(1)] by simp
  have "unat (p_block_count p + 7) = unat (p_block_count p) + 7"
    using placed by (simp add: pool_placed_def unat_add_nowrap)
  then have len: "unat ?len = (unat (p_block_count p) + 7) div 8" by (simp add: unat_div)
  show ?thesis
  proof (rule recover_some [OF pending(1), where os = os], goal_cases)
    case (1 b q)
    have q: "q = p'" using 1(1) rec by simp
    show ?case
      unfolding pending(2)
    proof (rule crash_finish [OF 1(8) placed])
      show "unat (p_bitmap p) \<le> unat (store_addr p st) \<and> unat (store_addr p st) < unat (p_bitmap p) + unat ?len"
        if "st \<in> set (op_stores opc i (p_img p))" for st
        using pool_placed_bit [OF placed i that] len by simp
      show "unat (p_bitmap p) + unat ?len < 2 ^ 64" using placed len by (simp add: pool_placed_def)
      show "img' \<in> crash_from p (p_img p) [] (map Ev_store (op_stores opc i (p_img p)) @ [Ev_log (Log_replayed (of_nat n))] @
          sync_events os (p_dur p) (p_bitmap p) ?len @
          map Ev_store (meta_stores (1 - b) (meta_record (of_nat n)
            (of_nat (card (img_blocks (unat (p_block_count p)) (op_img opc i (p_img p))))))) @
          [] @ sync_events os (p_dur p) (meta_addr p (1 - b)) 24 @
          [Ev_log (Log_consistent (of_nat (card (img_blocks (unat (p_block_count p)) (op_img opc i (p_img p))))))])"
        using img' unfolding crash_images_def q [symmetric] 1(7) by simp
    qed simp_all
  qed
qed


subsection \<open>Commits\<close>

lemma commit_trace:
  fixes opc ix :: u32
  assumes st: "img_state (unat (p_block_count p)) (p_active_meta p) (unat (p_next_seq p)) None (p_img p)"
    and used: "p_used_blocks p = of_nat (card (pool_blocks p))" and i: "unat ix < unat (p_block_count p)"
  defines "n \<equiv> unat (p_next_seq p)" and "a \<equiv> p_active_meta p"
  defines "w \<equiv> wal_record (p_next_seq p) opc ix" and "img1 \<equiv> set_wal (unat (p_next_seq p) mod 256) (wal_record (p_next_seq p) opc ix) (p_img p)"
  defines "u \<equiv> of_nat (card (img_blocks (unat (p_block_count p)) (op_img opc (unat ix) (p_img p))))"
  shows "p_img (commit os p opc ix) = set_meta (1 - a) (meta_record (p_next_seq p) u) (op_img opc (unat ix) img1)"
    and "p_used_blocks (commit os p opc ix) = u" and "p_next_seq (commit os p opc ix) = p_next_seq p + 1"
    and "p_active_meta (commit os p opc ix) = 1 - a" and "same_place (commit os p opc ix) p"
    and "p_trace (commit os p opc ix) = p_trace p @ map Ev_store (wal_stores (n mod 256) w) @
      [] @ sync_events os (p_dur p) (wal_addr p (n mod 256)) 24 @
      map Ev_store (op_stores opc (unat ix) img1) @ [] @ sync_events os (p_dur p) (p_bitmap p + of_nat (unat ix div 8)) 1 @
      map Ev_store (meta_stores (1 - a) (meta_record (p_next_seq p) u)) @
      [] @ sync_events os (p_dur p) (meta_addr p (1 - a)) 24 @ []"
proof -
  have slot: "unat (p_next_seq p mod WAL_ENTRIES) = n mod 256" by (simp add: WAL_ENTRIES_def unat_mod n_def)
  have sl: "(of_nat (n mod 256) :: u64) = p_next_seq p mod WAL_ENTRIES" unfolding slot [symmetric] by simp
  have nb: "(if p_active_meta p = 0 then 1 else 0) = 1 - a" using img_stateD(3) [OF st] by (auto simp: a_def)
  have "op_used opc (unat ix) img1 (p_used_blocks p) = of_nat (card (img_blocks (unat (p_block_count p)) (op_img opc (unat ix) img1)))"
    by (rule op_used_card [OF i]) (simp add: used pool_blocks_def img1_def img_blocks_def)
  moreover have "img_blocks (unat (p_block_count p)) (op_img opc (unat ix) img1) = img_blocks (unat (p_block_count p)) (op_img opc (unat ix) (p_img p))"
    by (rule img_blocks_bitmap) (simp add: op_img_def img1_def)
  ultimately have ou: "op_used opc (unat ix) img1 (p_used_blocks p) = u" by (simp add: u_def)
  note eq = commit_def wal_append_eq slot apply_op_eq sync_range_eq meta_commit_eq Let_def
  show "p_img (commit os p opc ix) = set_meta (1 - a) (meta_record (p_next_seq p) u) (op_img opc (unat ix) img1)"
    and "p_used_blocks (commit os p opc ix) = u" and "p_next_seq (commit os p opc ix) = p_next_seq p + 1"
    and "p_active_meta (commit os p opc ix) = 1 - a" and "same_place (commit os p opc ix) p"
    using ou nb unfolding img1_def n_def [symmetric] w_def by (simp_all add: eq same_place_def)
  show "p_trace (commit os p opc ix) = p_trace p @ map Ev_store (wal_stores (n mod 256) w) @
      [] @ sync_events os (p_dur p) (wal_addr p (n mod 256)) 24 @
      map Ev_store (op_stores opc (unat ix) img1) @ [] @ sync_events os (p_dur p) (p_bitmap p + of_nat (unat ix div 8)) 1 @
      map Ev_store (meta_stores (1 - a) (meta_record (p_next_seq p) u)) @
      [] @ sync_events os (p_dur p) (meta_addr p (1 - a)) 24 @ []"
    using ou nb unfolding img1_def n_def [symmetric] w_def by (simp add: eq wal_addr_def meta_addr_def sl)
qed


lemma commit_ok:
  assumes ok: "pool_ok p" and room: "unat (p_next_seq p) + 258 < 2 ^ 64" and i: "unat ix < unat (p_block_count p)"
  shows "pool_ok (commit os p opc ix)" and "pool_blocks (commit os p opc ix) = op_blocks opc (unat ix) (pool_blocks p)"
proof -
  let ?n = "unat (p_next_seq p)" and ?bc = "unat (p_block_count p)" and ?a = "p_active_meta p"
  let ?c = "commit os p opc ix" and ?w = "wal_record (p_next_seq p) opc ix"
  let ?img1 = "set_wal (?n mod 256) ?w (p_img p)"
  have st: "img_state ?bc ?a ?n None (p_img p)" and used: "p_used_blocks p = of_nat (card (pool_blocks p))"
    using ok by (simp_all add: pool_ok_def)
  note T = commit_trace [OF st used i, where opc = opc and os = os]
  have bc: "p_block_count ?c = p_block_count p" using T(5) by (simp add: same_place_def)
  have v: "wal_valid ?w (of_nat ?n)" by (simp add: wal_valid_def)
  have "img_state ?bc ?a ?n (Some (opc, unat ix)) ?img1"
    using img_state_set_wal [OF st room i, of ?w opc] v by simp
  then have "img_state ?bc (1 - ?a) (?n + 1) None (p_img ?c)"
    unfolding T(1) by (intro img_state_set_meta) simp_all
  moreover have "unat (p_next_seq p + 1) = ?n + 1" using room by (simp add: unat_add_nowrap)
  moreover have blk: "pool_blocks ?c = img_blocks ?bc (op_img opc (unat ix) (p_img p))"
    unfolding pool_blocks_def bc T(1) by (intro img_blocks_bitmap) (simp add: op_img_def)
  ultimately show "pool_ok ?c" unfolding pool_ok_def bc T(2-4) by simp
  show "pool_blocks ?c = op_blocks opc (unat ix) (pool_blocks p)"
    unfolding blk op_img_blocks [OF i] by (simp add: pool_blocks_def)
qed

lemma commit_crash:
  assumes ok: "pool_ok p" and placed: "pool_placed p" and room: "unat (p_next_seq p) + 258 < 2 ^ 64"
    and i: "unat ix < unat (p_block_count p)"
    and safe: "tear_safe (p_img p) (unat (p_next_seq p) mod 256) (wal_record (p_next_seq p) opc ix)"
    and img': "img' \<in> crash_images p (commit os p opc ix)"
  shows "settled (unat (p_block_count p)) (pool_blocks p) img' \<or>
    settled (unat (p_block_count p)) (op_blocks opc (unat ix) (pool_blocks p)) img'"
proof -
  let ?n = "unat (p_next_seq p)" and ?bc = "unat (p_block_count p)" and ?a = "p_active_meta p"
  let ?w = "wal_record (p_next_seq p) opc ix"
  let ?img1 = "set_wal (?n mod 256) ?w (p_img p)"
  have n: "of_nat ?n = p_next_seq p" by simp
  have st: "img_state ?bc ?a ?n None (p_img p)" and used: "p_used_blocks p = of_nat (card (pool_blocks p))"
    using ok by (simp_all add: pool_ok_def)
  note T = commit_trace [OF st used i, where opc = opc and os = os]
  have v: "wal_valid ?w (of_nat ?n)" by (simp add: wal_valid_def)
  have st1: "img_state ?bc ?a ?n (Some (opc, unat ix)) ?img1"
    using img_state_set_wal [OF st room i, of ?w opc] v by simp
  have blk1: "img_blocks ?bc ?img1 = pool_blocks p"
    unfolding pool_blocks_def by (rule img_blocks_bitmap) simp
  have W: "unat (wal_addr p (?n mod 256)) + 24 < 2 ^ 64"
      "st \<in> set (wal_stores (?n mod 256) ?w) \<Longrightarrow> unat (wal_addr p (?n mod 256)) \<le> unat (store_addr p st) \<and>
        unat (store_addr p st) < unat (wal_addr p (?n mod 256)) + 24" for st
    using pool_placed_wal [OF placed, of "?n mod 256"] by simp_all
  define rest where "rest = map Ev_store (op_stores opc (unat ix) ?img1) @ [] @
      sync_events os (p_dur p) (p_bitmap p + of_nat (unat ix div 8)) 1 @
      map Ev_store (meta_stores (1 - ?a) (meta_record (p_next_seq p)
        (of_nat (card (img_blocks ?bc (op_img opc (unat ix) (p_img p))))))) @
      [] @ sync_events os (p_dur p) (meta_addr p (1 - ?a)) 24 @ []"
  have "crash_from p (p_img p) [] (map Ev_store (wal_stores (?n mod 256) ?w) @ [] @
        sync_events os (p_dur p) (wal_addr p (?n mod 256)) 24 @ rest) \<subseteq>
      torn_images (p_img p) (wal_stores (?n mod 256) ?w) \<union> crash_from p ?img1 [] rest"
    unfolding fold_stores(1) [of "?n mod 256" ?w "p_img p", symmetric]
    by (rule crash_from_phase) (use W in simp_all)
  then have "img' \<in> torn_images (p_img p) (wal_stores (?n mod 256) ?w) \<union> crash_from p ?img1 [] rest"
    using img' unfolding crash_images_def T(6) rest_def by auto
  then show ?thesis
  proof
    assume "img' \<in> torn_images (p_img p) (wal_stores (?n mod 256) ?w)"
    then have t: "(img_state ?bc ?a ?n None img' \<or> img_state ?bc ?a ?n (Some (opc, unat ix)) img') \<and> pi_bitmap img' = pi_bitmap (p_img p)"
      using img_state_torn_wal [OF st room i, of opc img'] safe unfolding n by blast
    then have "img_blocks ?bc img' = pool_blocks p" unfolding pool_blocks_def by (intro img_blocks_bitmap) simp
    then show ?thesis using t settledI by metis
  next
    assume r: "img' \<in> crash_from p ?img1 [] rest"
    have "settled ?bc (op_blocks opc (unat ix) (img_blocks ?bc ?img1)) img'"
    proof (rule crash_finish [OF st1 placed, unfolded n])
      let ?b = "p_bitmap p + of_nat (unat ix div 8)"
      show "unat ?b \<le> unat (store_addr p st) \<and> unat (store_addr p st) < unat ?b + unat (1 :: u64)"
        if "st \<in> set (op_stores opc (unat ix) ?img1)" for st
        using pool_placed_bit(1) [OF placed i that] by simp
      show "unat ?b + unat (1 :: u64) < 2 ^ 64" by (rule bit_byte_fits [OF placed i])
      show "img' \<in> crash_from p ?img1 [] (map Ev_store (op_stores opc (unat ix) ?img1) @ [] @ sync_events os (p_dur p) ?b 1 @
          map Ev_store (meta_stores (1 - ?a) (meta_record (p_next_seq p)
            (of_nat (card (img_blocks ?bc (op_img opc (unat ix) (p_img p))))))) @
          [] @ sync_events os (p_dur p) (meta_addr p (1 - ?a)) 24 @ [])"
        using r unfolding rest_def .
    qed simp_all
    then show ?thesis unfolding blk1 ..
  qed
qed

end
