(* ===== verification/HF_Pool_Correct.thy ===== *)
theory HF_Pool_Correct
  imports HF_Pool_Crash
begin

text \<open>
  The persistent pool as its clients see it: a set of allocated blocks.  The operations refine the
  operations on the set, closing and reopening keeps it, and a crash at any point leaves the set from
  before or from after the operation in progress.
\<close>

subsection \<open>The operations on the set of blocks\<close>

datatype pool_op = Do_alloc | Do_free u64

definition pool_do :: "os_services \<Rightarrow> hf_persistent_pool \<Rightarrow> pool_op \<Rightarrow> hf_persistent_pool" where
  "pool_do os p c = (case c of Do_alloc \<Rightarrow> snd (hf_pool_allocate os p) | Do_free index \<Rightarrow> hf_pool_free os p index)"

text \<open>The record that an operation enters into the log, if any.\<close>

definition pool_pending :: "hf_persistent_pool \<Rightarrow> pool_op \<Rightarrow> (u32 \<times> u32) option" where
  "pool_pending p c =
     (case c of
        Do_alloc \<Rightarrow> map_option (\<lambda>i. (WAL_OP_ALLOC, of_nat i)) (first_clear p [0..<unat (p_block_count p)])
      | Do_free index \<Rightarrow>
          if index < p_block_count p \<and> bit_test p (unat index) then Some (WAL_OP_FREE, ucast index) else None)"

text \<open>The abstract pool of \<open>bc\<close> blocks: the least free block is handed out.\<close>

definition set_do :: "nat \<Rightarrow> nat set \<Rightarrow> pool_op \<Rightarrow> nat set" where
  "set_do bc B c =
     (case c of
        Do_alloc \<Rightarrow> if {..<bc} \<subseteq> B then B else insert (LEAST i. i \<notin> B) B
      | Do_free index \<Rightarrow> B - {unat index})"

lemma pool_do_commit:
  "pool_do os p c = (case pool_pending p c of None \<Rightarrow> p | Some (opc, ix) \<Rightarrow> commit os p opc ix)"
  by (auto simp: pool_do_def pool_pending_def hf_pool_allocate_def hf_pool_free_def Let_def
      split: pool_op.splits option.splits)

lemma bit_test_blocks: "i < unat (p_block_count p) \<Longrightarrow> bit_test p i \<longleftrightarrow> i \<in> pool_blocks p"
  by (simp add: bit_test_iff pool_blocks_def img_blocks_def)

lemma first_clear_spec:
  "(case first_clear p [m..<k] of
      None \<Rightarrow> \<forall>i. m \<le> i \<longrightarrow> i < k \<longrightarrow> bit_test p i
    | Some i \<Rightarrow> m \<le> i \<and> i < k \<and> \<not> bit_test p i \<and> (\<forall>j. m \<le> j \<longrightarrow> j < i \<longrightarrow> bit_test p j))"
proof (induction "k - m" arbitrary: m)
  case (Suc d)
  have up: "[m..<k] = m # [Suc m..<k]" using Suc.hyps(2) by (simp add: upt_conv_Cons)
  have IH: "case first_clear p [Suc m..<k] of
      None \<Rightarrow> \<forall>i. Suc m \<le> i \<longrightarrow> i < k \<longrightarrow> bit_test p i
    | Some i \<Rightarrow> Suc m \<le> i \<and> i < k \<and> \<not> bit_test p i \<and> (\<forall>j. Suc m \<le> j \<longrightarrow> j < i \<longrightarrow> bit_test p j)"
    using Suc.hyps(1) [of "Suc m"] Suc.hyps(2) by simp
  show ?case
  proof (cases "bit_test p m")
    case True
    have "bit_test p i" if "\<forall>i. Suc m \<le> i \<longrightarrow> i < l \<longrightarrow> bit_test p i" "m \<le> i" "i < l" for i l
      using that True by (cases "i = m") auto
    then show ?thesis using IH True unfolding up by (auto split: option.splits)
  next
    case False
    then show ?thesis using Suc.hyps(2) unfolding up by simp
  qed
qed simp

lemma first_clear_blocks:
  shows "first_clear p [0..<unat (p_block_count p)] = None \<longleftrightarrow> {..<unat (p_block_count p)} \<subseteq> pool_blocks p"
    and "first_clear p [0..<unat (p_block_count p)] = Some i \<Longrightarrow>
      i < unat (p_block_count p) \<and> i \<notin> pool_blocks p \<and> i = (LEAST i. i \<notin> pool_blocks p)"
proof -
  let ?bc = "unat (p_block_count p)"
  note spec = first_clear_spec [where p = p and m = 0 and k = ?bc]
  show "first_clear p [0..<?bc] = None \<longleftrightarrow> {..<?bc} \<subseteq> pool_blocks p"
    using spec by (auto simp: bit_test_blocks split: option.splits)
  assume "first_clear p [0..<?bc] = Some i"
  then have i: "i < ?bc" "i \<notin> pool_blocks p" "\<And>j. j < i \<Longrightarrow> j \<in> pool_blocks p"
    using spec by (auto simp: bit_test_blocks)
  have "(LEAST i. i \<notin> pool_blocks p) = i"
    by (rule Least_equality) (use i in \<open>auto simp: not_less [symmetric]\<close>)
  then show "i < ?bc \<and> i \<notin> pool_blocks p \<and> i = (LEAST i. i \<notin> pool_blocks p)" using i by simp
qed

lemma pool_pending_spec:
  assumes bc: "unat (p_block_count p) \<le> 2 ^ 32"
  shows "case pool_pending p c of
      None \<Rightarrow> set_do (unat (p_block_count p)) (pool_blocks p) c = pool_blocks p
    | Some (opc, ix) \<Rightarrow> unat ix < unat (p_block_count p) \<and>
        set_do (unat (p_block_count p)) (pool_blocks p) c = op_blocks opc (unat ix) (pool_blocks p)"
proof (cases c)
  case Do_alloc
  show ?thesis
  proof (cases "first_clear p [0..<unat (p_block_count p)]")
    case None
    then show ?thesis using Do_alloc first_clear_blocks(1) [of p] by (simp add: pool_pending_def set_do_def)
  next
    case (Some i)
    note F = first_clear_blocks(2) [OF Some]
    have "unat (of_nat i :: u32) = i" using F bc by (intro unat_of_nat_small) simp
    moreover have "\<not> {..<unat (p_block_count p)} \<subseteq> pool_blocks p" using F by auto
    ultimately show ?thesis
      using Some F Do_alloc by (simp add: pool_pending_def set_do_def op_blocks_def)
  qed
next
  case (Do_free index)
  show ?thesis
  proof (cases "index < p_block_count p \<and> bit_test p (unat index)")
    case True
    then have i: "unat index < unat (p_block_count p)" by (simp add: word_less_nat_alt)
    then have "unat (ucast index :: u32) = unat index"
      using bc by (simp add: unsigned_ucast_eq take_bit_nat_eq_self)
    then show ?thesis
      using True i Do_free by (simp add: pool_pending_def set_do_def op_blocks_def WAL_OP_ALLOC_def WAL_OP_FREE_def)
  next
    case False
    then have "unat index \<notin> pool_blocks p"
      using bit_test_blocks [of "unat index" p] by (auto simp: word_less_nat_alt pool_blocks_def img_blocks_def)
    then show ?thesis using False Do_free by (auto simp: pool_pending_def set_do_def)
  qed
qed

lemma pool_do_ok:
  assumes ok: "pool_ok p" and bc: "unat (p_block_count p) \<le> 2 ^ 32" and room: "unat (p_next_seq p) + 258 < 2 ^ 64"
  shows "pool_ok (pool_do os p c)" and "pool_blocks (pool_do os p c) = set_do (unat (p_block_count p)) (pool_blocks p) c"
    and "p_block_count (pool_do os p c) = p_block_count p"
proof -
  have sp: "p_block_count (commit os p opc ix) = p_block_count p" if "unat ix < unat (p_block_count p)" for opc ix
    using commit_trace(5) [OF _ _ that] ok by (simp add: pool_ok_def same_place_def)
  note spec = pool_pending_spec [OF bc, of c]
  show "pool_ok (pool_do os p c)" and "pool_blocks (pool_do os p c) = set_do (unat (p_block_count p)) (pool_blocks p) c"
    and "p_block_count (pool_do os p c) = p_block_count p"
    using ok spec commit_ok [OF ok room] sp unfolding pool_do_commit by (auto split: option.splits)
qed


subsection \<open>Reopening\<close>

definition pool_view :: "addr \<Rightarrow> pool_image \<Rightarrow> hf_durability \<Rightarrow> hf_persistent_pool" where
  "pool_view mp img dur =
     (let h = pi_hdr img
      in pool_attach mp img (ph_total_size h) (ph_wal_offset h) (ph_bitmap_offset h) (ph_data_offset h)
           (ph_block_size h) (ph_block_count h) dur)"

lemma pool_view_sel [simp]: "p_img (pool_view mp img dur) = img" "p_block_count (pool_view mp img dur) = ph_block_count (pi_hdr img)"
  by (simp_all add: pool_view_def pool_attach_def Let_def)

text \<open>
  Recovery may be interrupted by further crashes: each starts from the image the one before it left,
  mapped at any place.
\<close>

inductive recovery_crash :: "os_services \<Rightarrow> pool_image \<Rightarrow> pool_image \<Rightarrow> bool" for os where
  no_crash: "recovery_crash os img img"
| again: "recovery_crash os img img1 \<Longrightarrow> pool_placed (pool_view mp img1 dur) \<Longrightarrow>
    recover os (pool_view mp img1 dur) = Some p \<Longrightarrow> img2 \<in> crash_images (pool_view mp img1 dur) p \<Longrightarrow>
    recovery_crash os img img2"

lemma settled_hdr: "settled bc B img \<Longrightarrow> unat (ph_block_count (pi_hdr img)) = bc \<and> ph_magic (pi_hdr img) = POOL_MAGIC"
  by (erule settledE) (simp_all add: img_stateD(1,2))

lemma recovery_crash_settled:
  "recovery_crash os img img' \<Longrightarrow> settled bc B img \<Longrightarrow> settled bc B img'"
proof (induction rule: recovery_crash.induct)
  case (again img img1 mp dur p img2)
  then have "settled bc B img1" by simp
  then show ?case
    using recover_crash [of "pool_view mp img1 dur" B os p img2] again.hyps settled_hdr [of bc B img1] by simp
qed

lemma reopen_settled:
  assumes set: "settled bc B img" and "fo_calloc fo" and "fo_mmap fo (ph_total_size (pi_hdr img)) \<noteq> None"
  obtains q where "pool_reopen os fo img dur = Some q" and "pool_ok q" and "pool_blocks q = B" and "unat (p_block_count q) = bc"
proof -
  from assms(3) obtain mp where mp: "fo_mmap fo (ph_total_size (pi_hdr img)) = Some mp" by blast
  note h = settled_hdr [OF set]
  have "settled (unat (p_block_count (pool_view mp img dur))) B (p_img (pool_view mp img dur))" using set h by simp
  then obtain q where q: "recover os (pool_view mp img dur) = Some q" "pool_ok q" "pool_blocks q = B" "same_place q (pool_view mp img dur)"
    by (rule recover_settled)
  have "pool_reopen os fo img dur = Some q"
    using q(1) mp assms(2) h by (simp add: pool_reopen_def pool_view_def Let_def)
  moreover have "unat (p_block_count q) = bc" using q(4) h by (simp add: same_place_def)
  ultimately show thesis using q that by blast
qed

lemma pool_ok_settled: "pool_ok p \<Longrightarrow> settled (unat (p_block_count p)) (pool_blocks p) (p_img p)"
  unfolding pool_ok_def pool_blocks_def by (auto intro: settledI)

subsection \<open>Creation\<close>

lemma pool_create_Some:
  assumes "hf_pool_open os fo Absent bs bc dur = (fl, Some p)"
  shows "pool_ok p" and "pool_blocks p = {}" and "p_block_count p = bc" and "fl = Formatted (p_img p)"
    and "unat (p_next_seq p) = 1"
proof -
  obtain mp wo bo dt sz bs' where fl: "fl = Formatted \<lparr>pi_hdr = pool_format bs' bc wo bo dt sz, pi_wal = (\<lambda>_. wal_zero), pi_bitmap = (\<lambda>_. 0)\<rparr>"
    and p: "p = sync_range os (store_to (St_format (pool_format bs' bc wo bo dt sz))
      (pool_attach mp \<lparr>pi_hdr = pool_format bs' bc wo bo dt sz, pi_wal = (\<lambda>_. wal_zero), pi_bitmap = (\<lambda>_. 0)\<rparr> sz wo bo dt bs' bc dur)) mp 104"
    using assms by (auto simp: hf_pool_open_def pool_create_def store_to_def emit_event_def pool_attach_def Let_def
        split: if_splits option.splits)
  show "p_block_count p = bc" and "unat (p_next_seq p) = 1"
    by (simp_all add: p sync_range_eq store_to_def emit_event_def pool_attach_def)
  have img: "p_img p = \<lparr>pi_hdr = pool_format bs' bc wo bo dt sz, pi_wal = (\<lambda>_. wal_zero), pi_bitmap = (\<lambda>_. 0)\<rparr>"
    by (simp add: p sync_range_eq store_to_def emit_event_def)
  then show "fl = Formatted (p_img p)" using fl by simp
  show blk: "pool_blocks p = {}" by (simp add: pool_blocks_def img_blocks_def img)
  have "\<not> wal_valid wal_zero (of_nat s)" if "1 \<le> s" "s < 1 + 256" for s
  proof -
    have "unat (of_nat s :: u64) = s" using that by (intro unat_of_nat_small) simp
    then have "(of_nat s :: u64) \<noteq> 0" using that by auto
    then show ?thesis by (simp add: wal_valid_def wal_zero_def)
  qed
  then have "img_state (unat bc) 0 1 None (p_img p)"
    by (intro img_stateI) (auto simp: img pool_format_def meta_zero_def meta_valid_def meta_crc_def)
  then show "pool_ok p"
    using blk by (simp add: pool_ok_def p sync_range_eq store_to_def emit_event_def pool_attach_def)
qed

lemma pool_create_placed:
  assumes os: "os_wf os" and op: "hf_pool_open os fo Absent bs bc dur = (fl, Some p)"
    and mm: "\<And>n mp. fo_mmap fo n = Some mp \<Longrightarrow> unat mp + unat n < 2 ^ 63"
    and bc: "unat bc \<le> 2 ^ 32" and bs: "unat bs \<le> 2 ^ 24"
  shows "pool_placed p"
proof -
  obtain k where k: "12 \<le> k" "k < 32" "os_page_size os = 2 ^ k" using os_wfD [OF os] by metis
  have k2: "(2::nat) ^ k \<le> 2 ^ 32" using k(2) by (intro power_increasing) simp_all
  have k12: "(2::nat) ^ 12 \<le> 2 ^ k" using k(1) by (intro power_increasing) simp_all
  let ?ps = "2 ^ k :: u64" and ?bm = "(bc + 7) div 8"
  define b' where "b' = hf_align_up bs HF_DEFAULT_ALIGN"
  define w where "w = hf_align_up (24 * WAL_ENTRIES) ?ps"
  define m where "m = hf_align_up ?bm ?ps"
  define d where "d = hf_align_up (b' * bc) ?ps"
  have "unat (hf_align_up bs 16) \<le> 2 ^ 24 + 16" using hf_align_up_16 [of bs] bs by simp
  then have "unat b' * unat bc \<le> (2 ^ 24 + 16) * 2 ^ 32" using bc unfolding b'_def HF_DEFAULT_ALIGN_def by (intro mult_le_mono)
  then have pr: "unat (b' * bc) \<le> 2 ^ 60" by (subst unat_mult_nowrap) simp_all
  have ub: "unat ?bm = (unat bc + 7) div 8" using bc by (simp add: unat_div unat_add_nowrap)
  have W: "unat w \<ge> 6144" "unat w < 6144 + 2 ^ k"
    using hf_align_up_bounds [of k "24 * WAL_ENTRIES"] k(2) k2 by (simp_all add: w_def WAL_ENTRIES_def)
  have M: "unat m \<ge> (unat bc + 7) div 8" "unat m < (unat bc + 7) div 8 + 2 ^ k"
    using hf_align_up_bounds [of k ?bm] k(2) k2 bc by (simp_all add: m_def ub)
  have D: "unat d < 2 ^ 60 + 2 ^ k" using hf_align_up_bounds [of k "b' * bc"] k(2) k2 pr by (simp add: d_def)
  have bl: "(unat bc + 7) div 8 \<le> 2 ^ 32" using bc by simp
  have ups: "unat ?ps = 2 ^ k" using k(2) by simp
  have s1: "unat (?ps + w) = 2 ^ k + unat w" using W k2 ups by (subst unat_add_nowrap) simp_all
  have s2: "unat (?ps + w + m) = 2 ^ k + unat w + unat m" using W M k2 s1 bl by (subst unat_add_nowrap) simp_all
  have s3: "unat (?ps + w + m + d) = 2 ^ k + unat w + unat m + unat d" using W M D k2 s2 bl by (subst unat_add_nowrap) simp_all
  obtain mp where mp: "fo_mmap fo (?ps + w + m + d) = Some mp" and p: "p_map p = mp" "p_wal p = mp + ?ps" "p_bitmap p = mp + (?ps + w)"
    using op by (auto simp: hf_pool_open_def pool_create_def store_to_def emit_event_def pool_attach_def sync_range_eq k(3)
        w_def m_def d_def b'_def Let_def split: if_splits option.splits)
  note tot = mm [OF mp, unfolded s3]
  have "unat (mp + ?ps) = unat mp + 2 ^ k" using tot ups by (subst unat_add_nowrap) simp_all
  moreover have "unat (mp + (?ps + w)) = unat mp + (2 ^ k + unat w)" using tot s1 by (subst unat_add_nowrap) simp_all
  ultimately show ?thesis
    using tot W M k12 bc pool_create_Some(3) [OF op] unfolding pool_placed_def p by simp
qed


lemma pool_do_seq:
  assumes "unat (p_next_seq p) + 258 < 2 ^ 64"
  shows "unat (p_next_seq (pool_do os p c)) \<le> unat (p_next_seq p) + 1"
proof -
  have "p_next_seq (pool_do os p c) = p_next_seq p \<or> p_next_seq (pool_do os p c) = p_next_seq p + 1"
    unfolding pool_do_commit
    by (auto simp: commit_def wal_append_eq apply_op_eq sync_range_eq meta_commit_eq Let_def split: option.splits)
  moreover have "unat (p_next_seq p + 1) = unat (p_next_seq p) + 1" using assms by (simp add: unat_add_nowrap)
  ultimately show ?thesis by auto
qed

lemma pool_run:
  "pool_ok p \<Longrightarrow> unat (p_block_count p) \<le> 2 ^ 32 \<Longrightarrow> unat (p_next_seq p) + length cs + 258 < 2 ^ 64 \<Longrightarrow>
   pool_ok (foldl (pool_do os) p cs) \<and>
   pool_blocks (foldl (pool_do os) p cs) = foldl (set_do (unat (p_block_count p))) (pool_blocks p) cs \<and>
   p_block_count (foldl (pool_do os) p cs) = p_block_count p"
proof (induction cs arbitrary: p)
  case (Cons c cs)
  let ?q = "pool_do os p c"
  have room: "unat (p_next_seq p) + 258 < 2 ^ 64" using Cons.prems(3) by simp
  note Q = pool_do_ok [OF Cons.prems(1,2) room, where os = os and c = c]
  have "unat (p_next_seq ?q) + length cs + 258 < 2 ^ 64"
    using Cons.prems(3) pool_do_seq [OF room, of os c] by simp
  from Cons.IH [of ?q, unfolded Q(3), OF Q(1) Cons.prems(2) this] show ?case using Q(2) by simp
qed simp

subsection \<open>An example pool\<close>

definition fo_example :: file_services where
  "fo_example = \<lparr>fo_open = True, fo_creat = True, fo_ftruncate = (\<lambda>_. True), fo_mmap = (\<lambda>_. Some 0x200000), fo_calloc = True\<rparr>"

definition pool_example :: hf_persistent_pool where
  "pool_example = the (snd (hf_pool_open os_example fo_example Absent 64 16 HF_DURABILITY_FAST))"

lemma pool_example_open:
  "hf_pool_open os_example fo_example Absent 64 16 HF_DURABILITY_FAST = (Formatted (p_img pool_example), Some pool_example)"
proof -
  obtain fl p where "hf_pool_open os_example fo_example Absent 64 16 HF_DURABILITY_FAST = (fl, Some p)"
    by (simp add: hf_pool_open_def pool_create_def fo_example_def Let_def)
  then show ?thesis using pool_create_Some(4) by (simp add: pool_example_def)
qed

lemmas pool_example_ok = pool_create_Some [OF pool_example_open]

lemma pool_example_placed: "pool_placed pool_example"
  by (simp add: pool_placed_def pool_example_def hf_pool_open_def pool_create_def fo_example_def os_example_def
      sync_range_eq store_to_def emit_event_def pool_attach_def WAL_ENTRIES_def HF_DEFAULT_ALIGN_def hf_align_up_def Let_def)

lemma pool_example_slot: "pi_wal (p_img pool_example) k = wal_zero"
  by (simp add: pool_example_def hf_pool_open_def pool_create_def fo_example_def sync_range_eq store_to_def emit_event_def Let_def)

lemma pool_example_pending: "pool_pending pool_example Do_alloc = Some (WAL_OP_ALLOC, 0)"
proof -
  have "first_clear pool_example [0..<unat (p_block_count pool_example)] = Some 0"
  proof (cases "first_clear pool_example [0..<unat (p_block_count pool_example)]")
    case None
    then have "0 \<in> {..<unat (p_block_count pool_example)} \<Longrightarrow> False"
      using first_clear_blocks(1) [of pool_example] pool_example_ok(2) by auto
    then show ?thesis using pool_example_ok(3) by simp
  next
    case (Some i)
    then show ?thesis using first_clear_blocks(2) [OF Some] pool_example_ok(2) by simp
  qed
  then show ?thesis by (simp add: pool_pending_def)
qed

lemma torn_wal_fields:
  assumes "img' \<in> torn_images img (wal_stores k e)"
  shows "we_op (pi_wal img' k) \<in> {we_op (pi_wal img k), we_op e}"
    and "we_index (pi_wal img' k) \<in> {we_index (pi_wal img k), we_index e}"
    and "we_crc (pi_wal img' k) \<in> {we_crc (pi_wal img k), we_crc e}"
  using assms by (auto simp: wal_stores_def)

lemma wal_crc_fields: "wal_crc w = wal_crc \<lparr>we_seq = we_seq w, we_op = we_op w, we_index = we_index w, we_crc = 0\<rparr>"
  by (simp add: wal_crc_def)

lemma example_crcs:
  "wal_crc \<lparr>we_seq = 1, we_op = 0, we_index = 0, we_crc = 0\<rparr> \<noteq> 0"
  "wal_crc \<lparr>we_seq = 1, we_op = 1, we_index = 0, we_crc = 0\<rparr> \<noteq> 0"
  "wal_crc \<lparr>we_seq = 1, we_op = 0, we_index = 0, we_crc = 0\<rparr> \<noteq> wal_crc \<lparr>we_seq = 1, we_op = 1, we_index = 0, we_crc = 0\<rparr>"
  by code_simp+

lemma pool_example_tear_safe: "tear_safe (p_img pool_example) 1 (wal_record 1 WAL_OP_ALLOC 0)"
  unfolding tear_safe_def
proof (intro ballI impI)
  fix img' assume t: "img' \<in> torn_images (p_img pool_example) (wal_stores 1 (wal_record 1 WAL_OP_ALLOC 0))"
    and v: "wal_valid (pi_wal img' 1) (we_seq (wal_record 1 WAL_OP_ALLOC 0))"
  let ?w = "pi_wal img' 1"
  note F = torn_wal_fields [OF t, unfolded pool_example_slot]
  have s: "we_seq ?w = 1" and c: "we_crc ?w = wal_crc ?w" using v by (simp_all add: wal_valid_def)
  have i: "we_index ?w = 0" and o': "we_op ?w = 0 \<or> we_op ?w = 1" using F by (auto simp: wal_zero_def WAL_OP_ALLOC_def)
  have e: "wal_record 1 WAL_OP_ALLOC 0 =
      \<lparr>we_seq = 1, we_op = 1, we_index = 0, we_crc = wal_crc \<lparr>we_seq = 1, we_op = 1, we_index = 0, we_crc = 0\<rparr>\<rparr>"
    by (simp add: wal_record_def WAL_OP_ALLOC_def Let_def)
  have "we_crc ?w = 0 \<or> we_crc ?w = wal_crc \<lparr>we_seq = 1, we_op = 1, we_index = 0, we_crc = 0\<rparr>"
    using F(3) by (auto simp: e wal_zero_def)
  then have "we_op ?w = 1" "we_crc ?w = wal_crc \<lparr>we_seq = 1, we_op = 1, we_index = 0, we_crc = 0\<rparr>"
    using c wal_crc_fields [of ?w] s i o' example_crcs by auto
  then show "?w = wal_record 1 WAL_OP_ALLOC 0" unfolding e using s i by (intro wal_entry.equality) simp_all
qed

lemma crash_from_start: "d \<in> crash_from p d [] es"
proof (induction es)
  case (Cons e es)
  then show ?case by (cases e) simp_all
qed simp

subsection \<open>Properties\<close>



text \<open>
  C2: refinement.  On a consistent pool of at most \<^verbatim>\<open>2^32\<close> blocks, \<^verbatim>\<open>hf_pool_allocate\<close> and \<^verbatim>\<open>hf_pool_free\<close>
  implement the operations of the abstract pool: the least free block is handed out, a release removes
  the block, the counter is the size of the set.  \<^verbatim>\<open>hf_pool_at\<close> finds an allocated block where it was
  handed out.
\<close>

theorem pool_ops_refine:
  assumes ok: "pool_ok p" and bc: "unat (p_block_count p) \<le> 2 ^ 32" and room: "unat (p_next_seq p) + 258 < 2 ^ 64"
  shows "pool_ok (pool_do os p c) \<and> pool_blocks (pool_do os p c) = set_do (unat (p_block_count p)) (pool_blocks p) c \<and>
    hf_pool_used_blocks (pool_do os p c) = of_nat (card (set_do (unat (p_block_count p)) (pool_blocks p) c)) \<and>
    (\<forall>ptr i p'. hf_pool_allocate os p = (Some (ptr, i), p') \<longrightarrow>
       unat i \<notin> pool_blocks p \<and> unat i \<in> pool_blocks p' \<and> hf_pool_at p' i = ptr)"
proof -
  note Q = pool_do_ok [OF ok bc room, where os = os]
  have "unat i \<notin> pool_blocks p \<and> unat i \<in> pool_blocks p' \<and> hf_pool_at p' i = ptr"
    if al: "hf_pool_allocate os p = (Some (ptr, i), p')" for ptr i p'
  proof -
    obtain j where j: "first_clear p [0..<unat (p_block_count p)] = Some j" "i = of_nat j"
      and p': "p' = pool_do os p Do_alloc" "ptr = p_data p' + i * p_block_size p'"
      using al by (auto simp: hf_pool_allocate_def pool_do_def Let_def split: option.splits)
    note F = first_clear_blocks(2) [OF j(1)]
    have u: "unat i = j" unfolding j(2) using F bc by (intro unat_of_nat_small) simp
    have "set_do (unat (p_block_count p)) (pool_blocks p) Do_alloc = insert j (pool_blocks p)"
      using F by (auto simp: set_do_def)
    then have b: "pool_blocks p' = insert j (pool_blocks p)" using Q(2) [of Do_alloc] p' by simp
    have c: "p_block_count p' = p_block_count p" using Q(3) [of Do_alloc] p' by simp
    then have "bit_test p' j" using b F bit_test_blocks [of j p'] by simp
    then have "hf_pool_at p' i = ptr"
      using u F c p'(2) by (simp add: hf_pool_at_def word_le_nat_alt not_le)
    then show ?thesis unfolding u b using F by blast
  qed
  then show ?thesis
    using Q(1) [of c] Q(2) [of c] unfolding hf_pool_used_blocks_def pool_ok_def by metis
qed

theorem pool_ops_refine_witness:
  "pool_blocks (pool_do os_example pool_example Do_alloc) = set_do 16 {} Do_alloc"
  using pool_ops_refine [OF pool_example_ok(1), of os_example Do_alloc] pool_example_ok(2,3,5) by simp

text \<open>
  C3: persistence.  Create a pool, run any sequence of allocations and releases, and open the file again
  later: the allocated blocks are those of the abstract pool after the sequence, and the counter is
  their number.
\<close>

theorem pool_reopen_roundtrip:
  assumes op: "hf_pool_open os fo Absent bs bc dur = (fl, Some p)" and bc: "unat bc \<le> 2 ^ 32"
    and len: "length cs < 2 ^ 63"
    and fo: "fo_open fo'" "fo_calloc fo'" "fo_mmap fo' (ph_total_size (pi_hdr (p_img (foldl (pool_do os) p cs)))) \<noteq> None"
  shows "\<exists>q. hf_pool_open os fo' (Formatted (p_img (foldl (pool_do os) p cs))) bs' bc' dur' = (Formatted (p_img q), Some q) \<and>
    pool_ok q \<and> p_block_count q = bc \<and> pool_blocks q = foldl (set_do (unat bc)) {} cs \<and>
    hf_pool_used_blocks q = of_nat (card (foldl (set_do (unat bc)) {} cs))"
proof -
  note P = pool_create_Some [OF op]
  let ?r = "foldl (pool_do os) p cs"
  have R: "pool_ok ?r" "pool_blocks ?r = foldl (set_do (unat bc)) {} cs" "p_block_count ?r = bc"
    using pool_run [OF P(1), of cs os] P bc len by simp_all
  obtain q where q: "pool_reopen os fo' (p_img ?r) dur' = Some q" "pool_ok q" "pool_blocks q = pool_blocks ?r"
    "unat (p_block_count q) = unat (p_block_count ?r)"
    by (rule reopen_settled [OF pool_ok_settled [OF R(1)] fo(2,3)])
  have "p_block_count q = bc" using q(4) R(3) word_eq_unatI by metis
  then show ?thesis
    using q R fo(1) by (intro exI [of _ q]) (auto simp: hf_pool_open_def hf_pool_used_blocks_def pool_ok_def)
qed

theorem pool_reopen_roundtrip_witness:
  "\<exists>q. hf_pool_open os_example fo_example (Formatted (p_img (foldl (pool_do os_example) pool_example [Do_alloc, Do_free 0]))) 0 0
      HF_DURABILITY_FULL = (Formatted (p_img q), Some q) \<and> pool_blocks q = foldl (set_do 16) {} [Do_alloc, Do_free 0]"
  using pool_reopen_roundtrip [OF pool_example_open, of "[Do_alloc, Do_free 0]" fo_example 0 0 HF_DURABILITY_FULL]
  by (auto simp: fo_example_def)

text \<open>
  C4: a logged operation takes effect.  After \<^verbatim>\<open>hf_pool_debug_wal_only\<close>, which stops a commit right after
  its log record, and \<^verbatim>\<open>hf_pool_debug_crash\<close>, opening the file replays the record: the block is
  allocated, or released, as logged.
\<close>

theorem pool_logged_replayed:
  assumes ok: "pool_ok p" and bc: "unat (p_block_count p) \<le> 2 ^ 32" and room: "unat (p_next_seq p) + 258 < 2 ^ 64"
    and i: "index < p_block_count p"
    and fo: "fo_calloc fo" "fo_mmap fo (ph_total_size (pi_hdr (p_img p))) \<noteq> None"
  shows "\<exists>q. pool_reopen os fo (p_img (hf_pool_debug_wal_only os p index alloc)) dur = Some q \<and> pool_ok q \<and>
    pool_blocks q = (if alloc then insert (unat index) (pool_blocks p) else pool_blocks p - {unat index})"
proof -
  let ?bc = "unat (p_block_count p)" and ?n = "unat (p_next_seq p)"
  let ?opc = "if alloc then WAL_OP_ALLOC else WAL_OP_FREE" and ?ix = "ucast index :: u32"
  let ?w = "wal_record (p_next_seq p) ?opc ?ix"
  let ?img = "set_wal (?n mod 256) ?w (p_img p)"
  have i': "unat index < ?bc" using i by (simp add: word_less_nat_alt)
  have ix: "unat ?ix = unat index" using i' bc by (simp add: unsigned_ucast_eq take_bit_nat_eq_self)
  have "unat (p_next_seq p mod WAL_ENTRIES) = ?n mod 256" by (simp add: WAL_ENTRIES_def unat_mod)
  then have img: "p_img (hf_pool_debug_wal_only os p index alloc) = ?img"
    by (simp add: hf_pool_debug_wal_only_def wal_append_eq Let_def)
  have st: "img_state ?bc (p_active_meta p) ?n None (p_img p)" using ok by (simp add: pool_ok_def)
  have "wal_valid ?w (of_nat ?n)" by (simp add: wal_valid_def)
  then have "img_state ?bc (p_active_meta p) ?n (Some (?opc, unat index)) ?img"
    using img_state_set_wal [OF st room, of ?ix ?w ?opc] i' ix by simp
  then have "settled ?bc (op_blocks ?opc (unat index) (img_blocks ?bc ?img)) ?img" by (rule settledI)
  moreover have "img_blocks ?bc ?img = pool_blocks p" unfolding pool_blocks_def by (rule img_blocks_bitmap) simp
  moreover have "op_blocks ?opc (unat index) B = (if alloc then insert (unat index) B else B - {unat index})" for B
    by (simp add: op_blocks_def WAL_OP_ALLOC_def WAL_OP_FREE_def)
  ultimately have s: "settled ?bc (if alloc then insert (unat index) (pool_blocks p) else pool_blocks p - {unat index}) ?img"
    by (simp only:)
  show ?thesis unfolding img by (rule reopen_settled [OF s fo(1)]) (use fo(2) in simp, blast)
qed

theorem pool_logged_replayed_witness:
  "\<exists>q. pool_reopen os_example fo_example (p_img (hf_pool_debug_wal_only os_example pool_example 3 True)) HF_DURABILITY_FAST = Some q \<and>
     pool_blocks q = {3}"
  using pool_logged_replayed [OF pool_example_ok(1), of 3 fo_example os_example True HF_DURABILITY_FAST] pool_example_ok(2,3,5)
  by (auto simp: fo_example_def)

text \<open>
  Block numbers are cut to 32 bits on their way into the log.  In a pool of more than \<^verbatim>\<open>2^32\<close> blocks
  whose first \<^verbatim>\<open>2^32\<close> blocks are in use, \<^verbatim>\<open>hf_pool_allocate\<close> hands out the next block without marking
  it, and hands it out again at the next call.
\<close>

lemma pool_index_truncated:
  assumes "first_clear p [0..<unat (p_block_count p)] = Some (2 ^ 32)"
  shows "\<exists>ptr p'. hf_pool_allocate os p = (Some (ptr, 2 ^ 32), p') \<and> p_block_count p' = p_block_count p \<and>
    first_clear p' [0..<unat (p_block_count p')] = Some (2 ^ 32)"
proof -
  let ?p = "commit os p WAL_OP_ALLOC 0"
  note clear = first_clear_spec [where p = p and m = 0 and k = "unat (p_block_count p)"]
  have b0: "bit (pi_bitmap (p_img p) 0) 0" using clear assms by (fastforce simp: bit_test_iff dest: spec [of _ 0])
  have "pi_bitmap (p_img ?p) = pi_bitmap (p_img p)" and bc: "p_block_count ?p = p_block_count p"
    using b0 by (simp_all add: commit_def wal_append_eq apply_op_eq sync_range_eq meta_commit_eq op_img_same Let_def)
  then have "bit_test ?p = bit_test p" by (simp add: bit_test_iff fun_eq_iff)
  then have "first_clear ?p js = first_clear p js" for js by (induction js) simp_all
  moreover have z: "(4294967296 :: u32) = 0" by simp
  ultimately show ?thesis using assms bc by (simp add: hf_pool_allocate_def Let_def z)
qed

text \<open>
  A creation that fails once the file exists leaves a file without a header, which every later open
  refuses.
\<close>

lemma pool_failed_create_blocks:
  "\<exists>fl. hf_pool_open os_example (fo_example\<lparr>fo_calloc := False\<rparr>) Absent 64 16 dur = (fl, None) \<and> fl \<noteq> Absent \<and>
     hf_pool_open os_example fo_example fl bs bc dur' = (fl, None)"
  by (simp add: hf_pool_open_def pool_create_def fo_example_def Let_def)

text \<open>
  Any failure of the first \<^verbatim>\<open>open\<close> is taken for a missing file: if the second succeeds, an existing pool
  is formatted anew, and its blocks are free again.
\<close>

lemma pool_unreadable_reformatted:
  assumes "img = p_img (pool_do os_example pool_example Do_alloc)"
  shows "\<exists>q. hf_pool_open os_example (fo_example\<lparr>fo_open := False\<rparr>) (Formatted img) 64 16 dur = (Formatted (p_img q), Some q) \<and>
     pool_blocks q = {}"
  by (simp add: hf_pool_open_def pool_create_def fo_example_def Let_def pool_blocks_def img_blocks_def
      store_to_def emit_event_def sync_range_eq pool_attach_def)

text \<open>With the watermark at \<^verbatim>\<open>2^64 - 257\<close> the bound of the replay loop is the largest number: no fuel suffices.\<close>

lemma replay_endless: "replay fuel p s (- 1) max_seq replayed = None"
  by (induction fuel arbitrary: p s max_seq replayed) (simp_all add: replay.simps Let_def)

end
