(* ===== verification/HF_Printf.thy ===== *)
theory HF_Printf
  imports HF_Prelude
begin

text \<open>
  The formatted output of the C standard library, as far as the logger and the analyzer use it: the
  conversions \<^verbatim>\<open>%zu\<close>, \<^verbatim>\<open>%llu\<close>, \<^verbatim>\<open>%d\<close> with a zero-padded width, and \<^verbatim>\<open>%x\<close> digits, together with the
  readers that undo them, and the truncation of \<^verbatim>\<open>snprintf\<close>.  A C string is the list of its bytes
  without the terminator.
\<close>

definition digit :: "nat \<Rightarrow> char" where
  "digit d = char_of (if d < 10 then 48 + d else 87 + d)"

definition digit_value :: "char \<Rightarrow> nat" where
  "digit_value c = (if of_char c < (58 :: nat) then of_char c - 48 else of_char c - 87)"

fun print_base :: "nat \<Rightarrow> nat \<Rightarrow> string" where
  "print_base b n = (if b < 2 \<or> n < b then [digit n] else print_base b (n div b) @ [digit (n mod b)])"

declare print_base.simps [simp del]

definition fmt_u :: "nat \<Rightarrow> string" where
  "fmt_u n = print_base 10 n"

definition fmt_0d :: "nat \<Rightarrow> int \<Rightarrow> string" where
  "fmt_0d w n =
     (let s = fmt_u (nat \<bar>n\<bar>)
      in if n < 0 then ''-'' @ replicate (w - 1 - length s) (CHR ''0'') @ s
         else replicate (w - length s) (CHR ''0'') @ s)"

definition read_base :: "nat \<Rightarrow> string \<Rightarrow> nat" where
  "read_base b s = foldl (\<lambda>n c. n * b + digit_value c) 0 s"

definition snprintf :: "nat \<Rightarrow> string \<Rightarrow> string" where
  "snprintf n s = take (n - 1) s"

definition is_dec :: "char \<Rightarrow> bool" where
  "is_dec c \<longleftrightarrow> 48 \<le> (of_char c :: nat) \<and> (of_char c :: nat) \<le> 57"


subsection \<open>Reading back\<close>

lemma digit_value_digit [simp]: "d < 16 \<Longrightarrow> digit_value (digit d) = d"
  by (simp add: digit_def digit_value_def)

lemma read_base_Nil [simp]: "read_base b [] = 0"
  by (simp add: read_base_def)

lemma read_base_snoc [simp]: "read_base b (s @ [c]) = read_base b s * b + digit_value c"
  by (simp add: read_base_def)

lemma read_base_print_base:
  "2 \<le> b \<Longrightarrow> b \<le> 16 \<Longrightarrow> read_base b (print_base b n) = n"
proof (induction b n rule: print_base.induct)
  case (1 b n)
  show ?case
  proof (cases "n < b")
    case True
    have "read_base b [digit n] = n" using True "1.prems" read_base_snoc [of b "[]" "digit n"] by simp
    then show ?thesis using True by (simp add: print_base.simps [of b n])
  next
    case False
    have "n mod b < b" using "1.prems" by simp
    then have "\<not> (b < 2 \<or> n < b)" and "n mod b < 16" using False "1.prems" by linarith+
    then show ?thesis using "1.IH" "1.prems" by (simp add: print_base.simps [of b n])
  qed
qed

lemma print_base_ne [simp]: "print_base b n \<noteq> []"
  by (subst print_base.simps) simp

lemma print_base_length: "2 \<le> b \<Longrightarrow> n < b ^ Suc k \<Longrightarrow> length (print_base b n) \<le> Suc k"
proof (induction k arbitrary: n)
  case 0
  then show ?case by (subst print_base.simps) simp
next
  case (Suc k)
  have "n div b < b ^ Suc k" using Suc.prems by (simp add: less_mult_imp_div_less mult.commute)
  from Suc.IH [OF Suc.prems(1) this] show ?case by (subst print_base.simps) simp
qed

lemma is_dec_digit [simp]: "d < 10 \<Longrightarrow> is_dec (digit d)"
  by (simp add: is_dec_def digit_def)

lemma fmt_u_dec: "c \<in> set (fmt_u n) \<Longrightarrow> is_dec c"
  unfolding fmt_u_def
proof (induction "10 :: nat" n rule: print_base.induct)
  case (1 n)
  show ?case using 1 by (cases "n < 10") (auto simp: print_base.simps [of 10 n])
qed

lemma fmt_u_ne [simp]: "fmt_u n \<noteq> []"
  by (simp add: fmt_u_def)

lemma read_fmt_u [simp]: "read_base 10 (fmt_u n) = n"
  by (simp add: fmt_u_def read_base_print_base)

lemma fmt_u_length: "n < 10 ^ Suc k \<Longrightarrow> length (fmt_u n) \<le> Suc k"
  unfolding fmt_u_def by (rule print_base_length) simp_all

text \<open>Leading zeros do not change the number that is read.\<close>

lemma read_base_append: "read_base b (s @ t) = read_base b s * b ^ length t + read_base b t"
proof (induction t rule: rev_induct)
  case (snoc c t)
  show ?case unfolding append_assoc [symmetric] read_base_snoc snoc.IH by (simp add: algebra_simps)
qed simp

lemma read_base_zeros [simp]: "read_base b (replicate k (CHR ''0'')) = 0"
proof (induction k)
  case (Suc k)
  have "replicate (Suc k) (CHR ''0'') = replicate k (CHR ''0'') @ [CHR ''0'']" by (simp add: replicate_append_same)
  then show ?case using Suc read_base_snoc [of b "replicate k (CHR ''0'')"] by (simp add: digit_value_def)
qed simp

lemma read_fmt_0d: "0 \<le> n \<Longrightarrow> read_base 10 (fmt_0d w n) = nat n"
  by (simp add: fmt_0d_def read_base_append Let_def)

lemma length_fmt_0d: "0 \<le> n \<Longrightarrow> n < 10 ^ Suc w \<Longrightarrow> length (fmt_0d (Suc w) n) = Suc w"
  using fmt_u_length [of "nat n" w] by (simp add: fmt_0d_def nat_less_iff Let_def)

lemma fmt_0d_dec: "0 \<le> n \<Longrightarrow> c \<in> set (fmt_0d w n) \<Longrightarrow> is_dec c"
  by (auto simp: fmt_0d_def is_dec_def Let_def dest: fmt_u_dec)

lemma snprintf_fits: "length s < n \<Longrightarrow> snprintf n s = s"
  by (simp add: snprintf_def)

end
