(* ===== verification/HF_Logger.thy ===== *)
theory HF_Logger
  imports HF_Printf "HOL-Library.Sublist"
begin

text \<open>
  The logger of \<^verbatim>\<open>hf_logger.c\<close>: its global variables as a state, the time stamp, the level filter, the
  two event channels, and the line that reaches the log file and the standard error stream.  The
  mutex makes one \<^verbatim>\<open>emit\<close> atomic.  The wall clock, as broken down by \<^verbatim>\<open>localtime_r\<close>, and the answer of
  \<^verbatim>\<open>fopen\<close> are arguments; the formatted text of a message is an argument too, since the format string
  and its arguments come from the caller.  Writes to an open stream are taken to succeed: the code
  ignores their result.
\<close>

datatype hf_log_level = HF_LOG_DEBUG | HF_LOG_INFO | HF_LOG_WARN | HF_LOG_ERROR | HF_LOG_OFF

primrec level_int :: "hf_log_level \<Rightarrow> nat" where
  "level_int HF_LOG_DEBUG = 0"
| "level_int HF_LOG_INFO = 1"
| "level_int HF_LOG_WARN = 2"
| "level_int HF_LOG_ERROR = 3"
| "level_int HF_LOG_OFF = 4"

record log_clock =
  tm_year :: int
  tm_mon :: int
  tm_mday :: int
  tm_hour :: int
  tm_min :: int
  tm_sec :: int
  tv_nsec :: int

text \<open>The disk maps a path to the bytes of the file; \<open>lg_file\<close> is the path of the open stream.\<close>

record hf_logger =
  lg_file :: "string option"
  lg_level :: hf_log_level
  lg_mirror :: bool
  lg_mu_ready :: bool
  lg_disk :: "string \<Rightarrow> string"
  lg_stderr :: string

definition lg_init :: "(string \<Rightarrow> string) \<Rightarrow> hf_logger" where
  "lg_init disk =
     \<lparr>lg_file = None, lg_level = HF_LOG_DEBUG, lg_mirror = True, lg_mu_ready = False, lg_disk = disk, lg_stderr = []\<rparr>"

definition ensure_mutex :: "hf_logger \<Rightarrow> hf_logger" where
  "ensure_mutex lg = (if \<not> lg_mu_ready lg then lg\<lparr>lg_mu_ready := True\<rparr> else lg)"

definition timestamp :: "log_clock \<Rightarrow> nat \<Rightarrow> string" where
  "timestamp clk n =
     (let ms = tv_nsec clk div 1000000
      in snprintf n
           (fmt_0d 4 (tm_year clk + 1900) @ ''-'' @ fmt_0d 2 (tm_mon clk + 1) @ ''-'' @ fmt_0d 2 (tm_mday clk) @ '' '' @
            fmt_0d 2 (tm_hour clk) @ '':'' @ fmt_0d 2 (tm_min clk) @ '':'' @ fmt_0d 2 (tm_sec clk) @ ''.'' @ fmt_0d 3 ms))"

definition log_line :: "string \<Rightarrow> string \<Rightarrow> string \<Rightarrow> string \<Rightarrow> string" where
  "log_line ts channel reason msg =
     ''['' @ ts @ ''] ['' @ channel @ ''] ['' @ reason @ ''] '' @ msg @ [CHR 0x0A]"

definition emit :: "log_clock \<Rightarrow> string \<Rightarrow> string \<Rightarrow> string \<Rightarrow> hf_logger \<Rightarrow> hf_logger" where
  "emit clk channel reason msg lg =
     (let ts = timestamp clk 40;
          lg = ensure_mutex lg;
          line = log_line ts channel reason msg;
          lg = (case lg_file lg of
                  None \<Rightarrow> lg
                | Some path \<Rightarrow> lg\<lparr>lg_disk := (lg_disk lg)(path := lg_disk lg path @ line)\<rparr>)
      in if lg_mirror lg \<or> lg_file lg = None then lg\<lparr>lg_stderr := lg_stderr lg @ line\<rparr> else lg)"

text \<open>\<^verbatim>\<open>fopen(path, "a")\<close> keeps the contents of the file; \<open>opened\<close> says whether it succeeds.\<close>

definition hf_log_set_file :: "bool \<Rightarrow> string \<Rightarrow> hf_logger \<Rightarrow> bool \<times> hf_logger" where
  "hf_log_set_file opened path lg =
     (let lg = ensure_mutex lg
      in (opened, lg\<lparr>lg_file := if opened then Some path else None\<rparr>))"

definition hf_log_set_level :: "hf_log_level \<Rightarrow> hf_logger \<Rightarrow> hf_logger" where
  "hf_log_set_level level lg = lg\<lparr>lg_level := level\<rparr>"

definition hf_log_set_mirror_stderr :: "bool \<Rightarrow> hf_logger \<Rightarrow> hf_logger" where
  "hf_log_set_mirror_stderr on lg = lg\<lparr>lg_mirror := on\<rparr>"

definition hf_log_close :: "hf_logger \<Rightarrow> hf_logger" where
  "hf_log_close lg = (ensure_mutex lg)\<lparr>lg_file := None\<rparr>"

fun level_name :: "hf_log_level \<Rightarrow> string" where
  "level_name HF_LOG_DEBUG = ''DEBUG''"
| "level_name HF_LOG_INFO = ''INFO ''"
| "level_name HF_LOG_WARN = ''WARN ''"
| "level_name _ = ''ERROR''"

definition hf_log_write :: "log_clock \<Rightarrow> hf_log_level \<Rightarrow> string \<Rightarrow> string \<Rightarrow> hf_logger \<Rightarrow> hf_logger" where
  "hf_log_write clk level tag text lg =
     (if level_int level < level_int (lg_level lg) then lg
      else emit clk (level_name level) tag (snprintf 1024 text) lg)"

definition hf_log_bug :: "log_clock \<Rightarrow> string \<Rightarrow> string \<Rightarrow> hf_logger \<Rightarrow> hf_logger" where
  "hf_log_bug clk reason text lg =
     (if level_int HF_LOG_ERROR < level_int (lg_level lg) then lg
      else emit clk ''bug'' reason (snprintf 1024 text) lg)"

definition hf_log_dbg :: "log_clock \<Rightarrow> string \<Rightarrow> string \<Rightarrow> hf_logger \<Rightarrow> hf_logger" where
  "hf_log_dbg clk reason text lg =
     (if level_int HF_LOG_DEBUG < level_int (lg_level lg) then lg
      else emit clk ''debug'' reason (snprintf 1024 text) lg)"


subsection \<open>Histories\<close>

datatype log_op =
    Log_set_file bool string
  | Log_set_level hf_log_level
  | Log_set_mirror bool
  | Log_close
  | Log_write log_clock hf_log_level string string
  | Log_bug log_clock string string
  | Log_dbg log_clock string string

fun log_step :: "hf_logger \<Rightarrow> log_op \<Rightarrow> hf_logger" where
  "log_step lg (Log_set_file opened path) = snd (hf_log_set_file opened path lg)"
| "log_step lg (Log_set_level level) = hf_log_set_level level lg"
| "log_step lg (Log_set_mirror on) = hf_log_set_mirror_stderr on lg"
| "log_step lg Log_close = hf_log_close lg"
| "log_step lg (Log_write clk level tag text) = hf_log_write clk level tag text lg"
| "log_step lg (Log_bug clk reason text) = hf_log_bug clk reason text lg"
| "log_step lg (Log_dbg clk reason text) = hf_log_dbg clk reason text lg"

text \<open>Everything written so far stays where it is.\<close>

definition log_extends :: "hf_logger \<Rightarrow> hf_logger \<Rightarrow> bool" where
  "log_extends lg lg' \<longleftrightarrow> (\<forall>path. prefix (lg_disk lg path) (lg_disk lg' path)) \<and> prefix (lg_stderr lg) (lg_stderr lg')"

lemma log_extends_refl [simp]: "log_extends lg lg"
  by (simp add: log_extends_def)

lemma log_extends_trans: "log_extends a b \<Longrightarrow> log_extends b c \<Longrightarrow> log_extends a c"
  unfolding log_extends_def by (meson prefix_order.trans)

lemma ensure_mutex_fields [simp]:
  "lg_file (ensure_mutex lg) = lg_file lg" "lg_level (ensure_mutex lg) = lg_level lg"
  "lg_mirror (ensure_mutex lg) = lg_mirror lg" "lg_disk (ensure_mutex lg) = lg_disk lg"
  "lg_stderr (ensure_mutex lg) = lg_stderr lg"
  by (simp_all add: ensure_mutex_def)

lemma emit_fields [simp]:
  "lg_file (emit clk ch r m lg) = lg_file lg" "lg_level (emit clk ch r m lg) = lg_level lg"
  by (simp_all add: emit_def Let_def split: option.split)

lemma emit_disk:
  "lg_disk (emit clk ch r m lg) path =
     lg_disk lg path @ (if lg_file lg = Some path then log_line (timestamp clk 40) ch r m else [])"
  by (simp add: emit_def Let_def split: option.split)

lemma emit_stderr:
  "lg_stderr (emit clk ch r m lg) =
     lg_stderr lg @ (if lg_mirror lg \<or> lg_file lg = None then log_line (timestamp clk 40) ch r m else [])"
  by (simp add: emit_def Let_def split: option.split)

lemma emit_extends [simp]: "log_extends lg (emit clk ch r m lg)"
  by (simp add: log_extends_def emit_disk emit_stderr)

lemma log_step_extends: "log_extends lg (log_step lg c)"
  by (cases c) (simp_all add: hf_log_write_def hf_log_bug_def hf_log_dbg_def hf_log_set_file_def hf_log_set_level_def
      hf_log_set_mirror_stderr_def hf_log_close_def Let_def, simp_all add: log_extends_def)

lemma log_run_extends: "log_extends lg (foldl log_step lg cs)"
  by (induction cs arbitrary: lg) (auto intro: log_extends_trans log_step_extends)

lemma prefix_append_sublist: "prefix (xs @ line) ys \<Longrightarrow> sublist line ys"
  unfolding prefix_def sublist_def by (metis append.assoc)


subsection \<open>Time stamps\<close>

definition clock_wf :: "log_clock \<Rightarrow> bool" where
  "clock_wf clk \<longleftrightarrow> 0 \<le> tm_year clk + 1900 \<and> tm_year clk + 1900 \<le> 9999 \<and> 0 \<le> tm_mon clk \<and> tm_mon clk \<le> 11 \<and>
     1 \<le> tm_mday clk \<and> tm_mday clk \<le> 31 \<and> 0 \<le> tm_hour clk \<and> tm_hour clk \<le> 23 \<and> 0 \<le> tm_min clk \<and> tm_min clk \<le> 59 \<and>
     0 \<le> tm_sec clk \<and> tm_sec clk \<le> 60 \<and> 0 \<le> tv_nsec clk \<and> tv_nsec clk < 1000000000"

definition ts_field :: "nat \<Rightarrow> nat \<Rightarrow> string \<Rightarrow> nat" where
  "ts_field from len s = read_base 10 (take len (drop from s))"

definition clock_example :: log_clock where
  "clock_example = \<lparr>tm_year = 126, tm_mon = 10, tm_mday = 5, tm_hour = 7, tm_min = 3, tm_sec = 9, tv_nsec = 41000000\<rparr>"


subsection \<open>Properties\<close>

text \<open>
  C40: the log is append-only and no report is lost.  Once \<^verbatim>\<open>hf_log_bug\<close> has been called at a level
  other than \<open>HF_LOG_OFF\<close>, its line, cut at 1023 bytes of text, stays in the log file that was open at
  that moment, or on the standard error stream if there was none or mirroring was on, whatever is
  logged, reopened or reconfigured afterwards.
\<close>

theorem log_bug_not_lost:
  assumes "lg_level lg \<noteq> HF_LOG_OFF"
  shows "let line = log_line (timestamp clk 40) ''bug'' reason (take 1023 text);
             lg' = foldl log_step (hf_log_bug clk reason text lg) cs
    in (case lg_file lg of
          None \<Rightarrow> sublist line (lg_stderr lg')
        | Some path \<Rightarrow> sublist line (lg_disk lg' path) \<and> (lg_mirror lg \<longrightarrow> sublist line (lg_stderr lg'))) \<and>
       (\<forall>path. prefix (lg_disk lg path) (lg_disk lg' path))"
proof -
  let ?m = "hf_log_bug clk reason text lg"
  have "level_int (lg_level lg) \<le> 3" using assms by (cases "lg_level lg") simp_all
  then have m: "?m = emit clk ''bug'' reason (take 1023 text) lg" by (simp add: hf_log_bug_def snprintf_def)
  have "log_extends ?m (foldl log_step ?m cs)" by (rule log_run_extends)
  then have d: "prefix (lg_disk ?m path) (lg_disk (foldl log_step ?m cs) path)"
    and e: "prefix (lg_stderr ?m) (lg_stderr (foldl log_step ?m cs))" for path
    by (simp_all add: log_extends_def)
  have "prefix (lg_disk lg path) (lg_disk (foldl log_step ?m cs) path)" for path
    using d [of path] unfolding m emit_disk by (rule append_prefixD)
  moreover have "sublist (log_line (timestamp clk 40) ''bug'' reason (take 1023 text)) (lg_disk (foldl log_step ?m cs) path)"
    if "lg_file lg = Some path" for path
    using d [of path] that unfolding m emit_disk by (intro prefix_append_sublist) simp
  moreover have "sublist (log_line (timestamp clk 40) ''bug'' reason (take 1023 text)) (lg_stderr (foldl log_step ?m cs))"
    if "lg_mirror lg \<or> lg_file lg = None"
    using e that unfolding m emit_stderr by (intro prefix_append_sublist) simp
  ultimately show ?thesis unfolding Let_def by (auto split: option.split)
qed

theorem log_bug_not_lost_witness:
  "sublist (log_line (timestamp clock_example 40) ''bug'' ''leak'' ''block'')
     (lg_disk (foldl log_step (hf_log_bug clock_example ''leak'' ''block'' ((lg_init (\<lambda>_. []))\<lparr>lg_file := Some ''a.log''\<rparr>))
        [Log_set_level HF_LOG_OFF, Log_close]) ''a.log'')"
  using log_bug_not_lost [of "(lg_init (\<lambda>_. []))\<lparr>lg_file := Some ''a.log''\<rparr>" clock_example "''leak''" "''block''"
      "[Log_set_level HF_LOG_OFF, Log_close]"]
  by (simp add: lg_init_def Let_def)

text \<open>
  The time stamp of a well-formed clock has 23 characters, so that the buffer of 40 bytes never
  cuts it, and every field can be read back at its place.
\<close>

theorem timestamp_decodes:
  assumes "clock_wf clk"
  shows "length (timestamp clk 40) = 23 \<and>
    int (ts_field 0 4 (timestamp clk 40)) = tm_year clk + 1900 \<and> int (ts_field 5 2 (timestamp clk 40)) = tm_mon clk + 1 \<and>
    int (ts_field 8 2 (timestamp clk 40)) = tm_mday clk \<and> int (ts_field 11 2 (timestamp clk 40)) = tm_hour clk \<and>
    int (ts_field 14 2 (timestamp clk 40)) = tm_min clk \<and> int (ts_field 17 2 (timestamp clk 40)) = tm_sec clk \<and>
    int (ts_field 20 3 (timestamp clk 40)) = tv_nsec clk div 1000000"
proof -
  have ms: "0 \<le> tv_nsec clk div 1000000" "tv_nsec clk div 1000000 < 1000" using assms by (auto simp: clock_wf_def)
  have len: "length (fmt_0d 4 (tm_year clk + 1900)) = 4" "length (fmt_0d 2 (tm_mon clk + 1)) = 2"
    "length (fmt_0d 2 (tm_mday clk)) = 2" "length (fmt_0d 2 (tm_hour clk)) = 2" "length (fmt_0d 2 (tm_min clk)) = 2"
    "length (fmt_0d 2 (tm_sec clk)) = 2" "length (fmt_0d 3 (tv_nsec clk div 1000000)) = 3"
    using assms ms length_fmt_0d [of _ 3] length_fmt_0d [of _ 1] length_fmt_0d [of _ 2]
    by (simp_all add: clock_wf_def eval_nat_numeral)
  have rd: "int (read_base 10 (fmt_0d w n)) = n" if "0 \<le> n" for w n using that by (simp add: read_fmt_0d)
  have "0 \<le> tm_mday clk" "0 \<le> tm_mon clk + 1" using assms by (simp_all add: clock_wf_def)
  then show ?thesis
    using assms ms unfolding timestamp_def Let_def snprintf_def ts_field_def by (simp add: len rd clock_wf_def)
qed

theorem timestamp_decodes_witness:
  "clock_wf clock_example \<and> int (ts_field 0 4 (timestamp clock_example 40)) = 2026 \<and> length (timestamp clock_example 40) = 23"
  using timestamp_decodes [of clock_example] by (simp add: clock_wf_def clock_example_def)

end
