(* ===== verification/HF_Double.thy ===== *)
theory HF_Double
  imports HF_Printf Complex_Main
begin

text \<open>
  The C type \<^verbatim>\<open>double\<close> as the analyzer uses it.  A double is the rational number it stands for; every
  operation rounds its exact result to 53 significant bits, to nearest with ties to even.  The
  analyzer computes with zero and with numbers between \<open>2 ^ -64\<close> and \<open>2 ^ 71\<close>, so that neither overflow
  nor the subnormal range occurs.  The conversion \<^verbatim>\<open>%.nf\<close> rounds the exact value to \<open>n\<close> decimals in the
  same mode.
\<close>

fun ilog2 :: "nat \<Rightarrow> nat" where
  "ilog2 n = (if n < 2 then 0 else Suc (ilog2 (n div 2)))"

declare ilog2.simps [simp del]

definition clog2 :: "nat \<Rightarrow> nat" where
  "clog2 n = (if n \<le> 1 then 0 else Suc (ilog2 (n - 1)))"

text \<open>The exponent of the leading bit of \<open>a / b\<close>.\<close>

definition lead_exp :: "nat \<Rightarrow> nat \<Rightarrow> int" where
  "lead_exp a b = (if b \<le> a then int (ilog2 (a div b)) else - int (clog2 ((b + a - 1) div a)))"

definition pow2 :: "int \<Rightarrow> rat" where
  "pow2 e = (if 0 \<le> e then 2 ^ nat e else 1 / 2 ^ nat (- e))"

definition round_even :: "rat \<Rightarrow> int" where
  "round_even q =
     (let f = \<lfloor>q\<rfloor>; r = q - of_int f
      in if r < 1 / 2 \<or> r = 1 / 2 \<and> even f then f else f + 1)"

definition rat_exp :: "rat \<Rightarrow> int" where
  "rat_exp x = (let (a, b) = quotient_of x in lead_exp (nat a) (nat b))"

definition dbl :: "rat \<Rightarrow> rat" where
  "dbl x = (if x \<le> 0 then 0 else let s = 52 - rat_exp x in of_int (round_even (x * pow2 s)) * pow2 (- s))"

definition dbl_of_u64 :: "u64 \<Rightarrow> rat" where
  "dbl_of_u64 n = dbl (of_nat (unat n))"

definition fmt_f :: "nat \<Rightarrow> rat \<Rightarrow> string" where
  "fmt_f k x =
     (let n = nat (round_even (x * 10 ^ k))
      in fmt_u (n div 10 ^ k) @ ''.'' @ fmt_0d k (int (n mod 10 ^ k)))"


subsection \<open>Rounding to an integer\<close>

lemma round_even_bounds: "\<bar>of_int (round_even q) - q\<bar> \<le> 1 / 2"
proof -
  have f: "of_int \<lfloor>q\<rfloor> \<le> q" "q < of_int \<lfloor>q\<rfloor> + 1" by linarith+
  then show ?thesis by (auto simp: round_even_def Let_def abs_le_iff)
qed

lemma round_even_of_int [simp]: "round_even (of_int n) = n"
  by (simp add: round_even_def)

lemma round_even_mono: assumes "p \<le> q" shows "round_even p \<le> round_even q"
proof (cases "\<lfloor>p\<rfloor> = \<lfloor>q\<rfloor>")
  case True
  then show ?thesis using assms by (auto simp: round_even_def Let_def)
next
  case False
  moreover have "\<lfloor>p\<rfloor> \<le> \<lfloor>q\<rfloor>" using assms by (rule floor_mono)
  ultimately have "\<lfloor>p\<rfloor> + 1 \<le> \<lfloor>q\<rfloor>" by simp
  moreover have "round_even p \<le> \<lfloor>p\<rfloor> + 1" "\<lfloor>q\<rfloor> \<le> round_even q" by (auto simp: round_even_def Let_def)
  ultimately show ?thesis by linarith
qed


subsection \<open>The leading exponent\<close>

lemma ilog2_bounds: "0 < n \<Longrightarrow> 2 ^ ilog2 n \<le> n \<and> n < 2 ^ Suc (ilog2 n)"
proof (induction n rule: ilog2.induct)
  case (1 n)
  show ?case
  proof (cases "n < 2")
    case True
    then show ?thesis using "1.prems" by (simp add: ilog2.simps [of n])
  next
    case False
    then have "2 ^ ilog2 (n div 2) \<le> n div 2 \<and> n div 2 < 2 ^ Suc (ilog2 (n div 2))" using "1.IH" by simp
    then have "2 ^ Suc (ilog2 (n div 2)) \<le> n \<and> n < 2 ^ Suc (Suc (ilog2 (n div 2)))" by simp linarith
    then show ?thesis using False by (simp add: ilog2.simps [of n])
  qed
qed

lemma clog2_bounds: "1 < n \<Longrightarrow> 2 ^ (clog2 n - 1) < n \<and> n \<le> 2 ^ clog2 n \<and> 0 < clog2 n"
proof -
  assume n: "1 < n"
  then have c: "clog2 n = Suc (ilog2 (n - 1))" by (simp add: clog2_def)
  have "2 ^ ilog2 (n - 1) \<le> n - 1 \<and> n - 1 < 2 ^ Suc (ilog2 (n - 1))" using n by (intro ilog2_bounds) simp
  then have "2 ^ ilog2 (n - 1) < n \<and> n \<le> 2 ^ Suc (ilog2 (n - 1))" using n by linarith
  then show ?thesis unfolding c by simp
qed

lemma pow2_pos [simp]: "0 < pow2 e"
  by (simp add: pow2_def)

lemma pow2_power_int: "pow2 e = 2 powi e"
  by (simp only: pow2_def power_int_def power_inverse divide_inverse mult_1_left)

lemma pow2_add: "pow2 (a + b) = pow2 a * pow2 b"
  by (simp add: pow2_power_int power_int_add)

lemma pow2_0 [simp]: "pow2 0 = 1"
  by (simp add: pow2_def)

lemma pow2_inverse [simp]: "pow2 (- s) * pow2 s = 1" "pow2 s * pow2 (- s) = 1"
  by (simp_all flip: pow2_add)

lemma pow2_mono: "a \<le> b \<Longrightarrow> pow2 a \<le> pow2 b"
  by (simp add: pow2_power_int power_int_increasing)

lemma pow2_lessD: "pow2 a < pow2 b \<Longrightarrow> a < b"
  using pow2_mono [of b a] by linarith

lemma lead_exp_bounds:
  assumes "0 < a" and "0 < b"
  shows "pow2 (lead_exp a b) \<le> of_nat a / of_nat b \<and> of_nat a / of_nat b < pow2 (lead_exp a b + 1)"
proof (cases "b \<le> a")
  case True
  let ?k = "ilog2 (a div b)"
  have "0 < a div b" using True assms by (simp add: div_greater_zero_iff)
  note k = ilog2_bounds [OF this]
  have "2 ^ ?k * b \<le> a" using k by (metis assms(2) less_eq_div_iff_mult_less_eq)
  moreover have "a < 2 ^ Suc ?k * b" using k assms(2) by (metis div_less_iff_less_mult)
  ultimately have "(of_nat (2 ^ ?k * b) :: rat) \<le> of_nat a" and "(of_nat a :: rat) < of_nat (2 ^ Suc ?k * b)"
    by (simp_all only: of_nat_le_iff of_nat_less_iff)
  then show ?thesis using True assms by (simp add: lead_exp_def pow2_def field_simps nat_add_distrib)
next
  case False
  let ?n = "(b + a - 1) div a" and ?k = "clog2 ((b + a - 1) div a)"
  have r: "b \<le> ?n * a" "?n * a < b + a" using round_up_bounds [of a b] assms by simp_all
  have "1 < ?n" using r(1) False by (cases "?n = 0 \<or> ?n = 1") auto
  note k = clog2_bounds [OF this]
  have up: "b \<le> 2 ^ ?k * a" using r(1) k by (metis le_trans mult_le_mono1)
  have lo: "2 ^ (?k - 1) * a < b"
  proof -
    have "(2 ^ (?k - 1) + 1) * a \<le> ?n * a" using k by (intro mult_le_mono1) simp
    then show ?thesis using r(2) by simp
  qed
  have "(of_nat b :: rat) \<le> of_nat (2 ^ ?k * a)" and "(of_nat (2 ^ (?k - 1) * a) :: rat) < of_nat b"
    using up lo by (simp_all only: of_nat_le_iff of_nat_less_iff)
  moreover obtain j where "?k = Suc j" using k by (cases ?k) simp_all
  moreover have "nat (1 + int j) = Suc j" by simp
  ultimately show ?thesis using False assms by (simp add: lead_exp_def pow2_def field_simps)
qed

lemma rat_exp_bounds:
  assumes "0 < x"
  shows "pow2 (rat_exp x) \<le> x" and "x < pow2 (rat_exp x + 1)"
proof -
  obtain a b where ab: "quotient_of x = (a, b)" by (cases "quotient_of x")
  have b: "0 < b" using quotient_of_denom_pos [OF ab] .
  have x: "x = of_int a / of_int b" using quotient_of_div [OF ab] .
  have a: "0 < a" using assms b unfolding x by (simp add: zero_less_divide_iff)
  have "x = of_nat (nat a) / of_nat (nat b)" using a b x by simp
  moreover have "rat_exp x = lead_exp (nat a) (nat b)" by (simp add: rat_exp_def ab)
  ultimately show "pow2 (rat_exp x) \<le> x" and "x < pow2 (rat_exp x + 1)"
    using lead_exp_bounds [of "nat a" "nat b"] a b by simp_all
qed

lemma rat_exp_mono: assumes "0 < x" and "x \<le> y" shows "rat_exp x \<le> rat_exp y"
proof -
  have "pow2 (rat_exp x) < pow2 (rat_exp y + 1)"
    using rat_exp_bounds [of x] rat_exp_bounds [of y] assms by linarith
  from pow2_lessD [OF this] show ?thesis by simp
qed

subsection \<open>Rounding to 53 bits\<close>

lemma pow2_scale: "2 ^ 52 * pow2 (e - 52) = pow2 e" "2 ^ 53 * pow2 (e - 52) = pow2 (e + 1)"
proof -
  have "pow2 52 = 2 ^ 52" "pow2 53 = 2 ^ 53" by (simp_all add: pow2_def)
  then show "2 ^ 52 * pow2 (e - 52) = pow2 e" "2 ^ 53 * pow2 (e - 52) = pow2 (e + 1)"
    using pow2_add [of 52 "e - 52"] pow2_add [of 53 "e - 52"] by (simp_all add: algebra_simps)
qed

lemma pow2_nonneg [simp]: "0 \<le> pow2 e" "\<bar>pow2 e\<bar> = pow2 e"
  by (rule less_imp_le [OF pow2_pos], rule abs_of_pos [OF pow2_pos])

lemma scaled_bounds:
  assumes "0 < x"
  shows "2 ^ 52 \<le> x * pow2 (52 - rat_exp x)" and "x * pow2 (52 - rat_exp x) < 2 ^ 53"
proof -
  let ?e = "rat_exp x"
  have "pow2 ?e * pow2 (52 - ?e) \<le> x * pow2 (52 - ?e)"
    using rat_exp_bounds(1) [OF assms] by (intro mult_right_mono) simp_all
  moreover have "pow2 ?e * pow2 (52 - ?e) = 2 ^ 52" by (simp flip: pow2_add) (simp add: pow2_def)
  ultimately show "2 ^ 52 \<le> x * pow2 (52 - ?e)" by simp
  have "x * pow2 (52 - ?e) < pow2 (?e + 1) * pow2 (52 - ?e)"
    using rat_exp_bounds(2) [OF assms] by (intro mult_strict_right_mono) simp_all
  moreover have "pow2 (?e + 1) * pow2 (52 - ?e) = 2 ^ 53" by (simp flip: pow2_add) (simp add: pow2_def)
  ultimately show "x * pow2 (52 - ?e) < 2 ^ 53" by simp
qed

lemma dbl_pos_eq: "0 < x \<Longrightarrow> dbl x = of_int (round_even (x * pow2 (52 - rat_exp x))) * pow2 (rat_exp x - 52)"
  by (simp add: dbl_def Let_def)

lemma dbl_zero [simp]: "dbl 0 = 0"
  by (simp add: dbl_def)

lemma dbl_between:
  assumes "0 < x"
  shows "pow2 (rat_exp x) \<le> dbl x" and "dbl x \<le> pow2 (rat_exp x + 1)"
proof -
  let ?e = "rat_exp x" and ?m = "round_even (x * pow2 (52 - rat_exp x))"
  note b = scaled_bounds [OF assms]
  have "round_even (of_int (2 ^ 52)) \<le> ?m" using b by (intro round_even_mono) simp
  then have "2 ^ 52 \<le> ?m" unfolding round_even_of_int .
  then have "(2 :: rat) ^ 52 \<le> of_int ?m" by (metis of_int_le_iff of_int_numeral of_int_power)
  then have "2 ^ 52 * pow2 (?e - 52) \<le> dbl x" unfolding dbl_pos_eq [OF assms]
    by (intro mult_right_mono) simp_all
  then show "pow2 ?e \<le> dbl x" unfolding pow2_scale .
  have "?m \<le> round_even (of_int (2 ^ 53))" using b by (intro round_even_mono) simp
  then have "?m \<le> 2 ^ 53" unfolding round_even_of_int .
  then have "of_int ?m \<le> (2 :: rat) ^ 53" by (metis of_int_le_iff of_int_numeral of_int_power)
  then have "dbl x \<le> 2 ^ 53 * pow2 (?e - 52)" unfolding dbl_pos_eq [OF assms]
    by (intro mult_right_mono) simp_all
  then show "dbl x \<le> pow2 (?e + 1)" unfolding pow2_scale .
qed

lemma dbl_pos: "0 < x \<Longrightarrow> 0 < dbl x"
  using dbl_between(1) pow2_pos less_le_trans by blast

lemma dbl_nonneg [simp]: "0 \<le> dbl x"
  using dbl_pos [of x] by (cases "0 < x") (simp_all add: dbl_def)

lemma dbl_mono:
  assumes "x \<le> y"
  shows "dbl x \<le> dbl y"
proof (cases "0 < x")
  case True
  then have y: "0 < y" using assms by simp
  consider "rat_exp x = rat_exp y" | "rat_exp x + 1 \<le> rat_exp y" using rat_exp_mono [OF True assms] by linarith
  then show ?thesis
  proof cases
    case 1
    have "x * pow2 (52 - rat_exp x) \<le> y * pow2 (52 - rat_exp x)"
      using assms by (intro mult_right_mono) simp_all
    from round_even_mono [OF this] show ?thesis
      unfolding dbl_pos_eq [OF True] dbl_pos_eq [OF y] 1 by (intro mult_right_mono) simp_all
  next
    case 2
    have "dbl x \<le> pow2 (rat_exp x + 1)" by (rule dbl_between(2) [OF True])
    also have "\<dots> \<le> pow2 (rat_exp y)" using 2 by (rule pow2_mono)
    also have "\<dots> \<le> dbl y" by (rule dbl_between(1) [OF y])
    finally show ?thesis .
  qed
next
  case False
  then have "dbl x = 0" by (simp add: dbl_def)
  then show ?thesis by simp
qed

text \<open>The relative error of one rounding is at most \<open>2 ^ -53\<close>.\<close>

lemma dbl_error:
  assumes "0 \<le> x"
  shows "\<bar>dbl x - x\<bar> \<le> x / 2 ^ 53"
proof (cases "x = 0")
  case False
  then have x: "0 < x" using assms by simp
  let ?s = "52 - rat_exp x" and ?t = "rat_exp x - 52"
  have st: "pow2 ?s * pow2 ?t = 1" by (simp flip: pow2_add)
  have "dbl x - x = (of_int (round_even (x * pow2 ?s)) - x * pow2 ?s) * pow2 ?t"
    unfolding dbl_pos_eq [OF x] left_diff_distrib using st by (simp add: mult.assoc)
  then have "\<bar>dbl x - x\<bar> = \<bar>of_int (round_even (x * pow2 ?s)) - x * pow2 ?s\<bar> * pow2 ?t" by (simp add: abs_mult)
  also have "\<dots> \<le> 1 / 2 * pow2 ?t" by (intro mult_right_mono round_even_bounds) simp
  also have "\<dots> \<le> x / 2 ^ 53"
  proof -
    have "2 ^ 52 * pow2 ?t \<le> x" unfolding pow2_scale by (rule rat_exp_bounds(1) [OF x])
    then show ?thesis by simp
  qed
  finally show ?thesis .
qed simp

lemma dbl_one [simp]: "dbl 1 = 1"
proof -
  have "rat_exp 1 = 0" by (simp add: rat_exp_def lead_exp_def ilog2.simps)
  then show ?thesis by (simp add: dbl_def pow2_def Let_def round_even_def)
qed

lemma dbl_of_u64_pos: "n \<noteq> 0 \<Longrightarrow> 0 < dbl_of_u64 n"
  unfolding dbl_of_u64_def by (rule dbl_pos) (simp only: of_nat_0_less_iff unat_gt_0 not_False_eq_True)

lemma dbl_of_u64_mono: "m \<le> n \<Longrightarrow> dbl_of_u64 m \<le> dbl_of_u64 n"
  unfolding dbl_of_u64_def by (rule dbl_mono) (simp only: of_nat_le_iff word_le_nat_alt)

lemma dbl_of_u64_error: "\<bar>dbl_of_u64 n - of_nat (unat n)\<bar> \<le> of_nat (unat n) / 2 ^ 53"
  unfolding dbl_of_u64_def by (rule dbl_error) (simp only: of_nat_0_le_iff)

lemma dbl_le_double: "0 \<le> x \<Longrightarrow> dbl x \<le> 2 * x"
proof -
  assume x: "0 \<le> x"
  have "x / 2 ^ 53 \<le> x" using x by (simp add: divide_le_eq)
  then show ?thesis using dbl_error [OF x] by linarith
qed

lemma dbl_of_u64_bounds: "dbl_of_u64 n \<le> 2 ^ 65" "n \<noteq> 0 \<Longrightarrow> 1 \<le> dbl_of_u64 n"
proof -
  have "of_nat (unat n) \<le> (of_nat (2 ^ 64) :: rat)" by (simp only: of_nat_le_iff) (simp add: less_imp_le)
  then have "(of_nat (unat n) :: rat) \<le> 2 ^ 64" by (simp only: of_nat_power of_nat_numeral)
  moreover have "dbl_of_u64 n \<le> 2 * of_nat (unat n)"
    unfolding dbl_of_u64_def by (rule dbl_le_double) (simp only: of_nat_0_le_iff)
  moreover have "(2 :: rat) ^ 65 = 2 * 2 ^ 64" by simp
  ultimately show "dbl_of_u64 n \<le> 2 ^ 65" by linarith
  show "1 \<le> dbl_of_u64 n" if "n \<noteq> 0"
  proof -
    have "1 \<le> n" using that by (simp add: word_le_nat_alt Suc_le_eq unat_gt_0)
    from dbl_of_u64_mono [OF this] show ?thesis by (simp add: dbl_of_u64_def)
  qed
qed

lemma fmt_f_length:
  assumes "0 \<le> x" and "x \<le> 10 ^ j"
  shows "length (fmt_f (Suc k) x) \<le> j + k + 3"
proof -
  let ?n = "nat (round_even (x * 10 ^ Suc k))"
  have "x * 10 ^ Suc k \<le> 10 ^ j * 10 ^ Suc k" using assms(2) by (intro mult_right_mono) simp_all
  also have "\<dots> = of_int (10 ^ (j + Suc k))" by (simp add: power_add)
  finally have "round_even (x * 10 ^ Suc k) \<le> 10 ^ (j + Suc k)" using round_even_mono round_even_of_int by metis
  then have "?n \<le> 10 ^ (j + Suc k)" by (simp add: nat_le_iff)
  then have "?n div 10 ^ Suc k \<le> 10 ^ (j + Suc k) div 10 ^ Suc k" by (rule div_le_mono)
  also have "\<dots> = 10 ^ j" by (simp add: power_add)
  also have "\<dots> < (10 :: nat) ^ Suc j" by simp
  finally have "length (fmt_u (?n div 10 ^ Suc k)) \<le> Suc j" by (rule fmt_u_length)
  moreover have "length (fmt_0d (Suc k) (int (?n mod 10 ^ Suc k))) = Suc k"
    by (rule length_fmt_0d) (simp_all add: zmod_int)
  ultimately show ?thesis by (simp add: fmt_f_def Let_def)
qed

end
