(* ===== verification/HF_Analyzer.thy ===== *)
theory HF_Analyzer
  imports HF_Allocator HF_Double
begin

text \<open>
  The heap analyzer of \<^verbatim>\<open>hf_analyzer.c\<close>: the snapshot of a layout, the growable string buffer, and the
  three exports.  \<open>heap_ok n\<close> says whether \<^verbatim>\<open>realloc\<close> or \<^verbatim>\<open>malloc\<close> grants \<open>n\<close> bytes.  A computation on the
  buffer may fail to end, which is \<open>None\<close>, or store through a null pointer, which is \<open>Inl Null_deref\<close>.
\<close>

subsection \<open>Collection\<close>

record blk_vec =
  bv_v :: "hf_block_info list"
  bv_cap :: u64

definition vec_push :: "(u64 \<Rightarrow> bool) \<Rightarrow> blk_vec \<Rightarrow> hf_block_info \<Rightarrow> blk_vec" where
  "vec_push heap_ok bv b =
     (if of_nat (length (bv_v bv)) = bv_cap bv then
        let nc = (if bv_cap bv \<noteq> 0 then bv_cap bv * 2 else 32)
        in if \<not> heap_ok (nc * 24) then bv
           else \<lparr>bv_v = bv_v bv @ [b], bv_cap = nc\<rparr>
      else bv\<lparr>bv_v := bv_v bv @ [b]\<rparr>)"

definition collect_cb :: "(u64 \<Rightarrow> bool) \<Rightarrow> hf_block_info \<Rightarrow> blk_vec \<Rightarrow> blk_vec" where
  "collect_cb heap_ok b ctx = vec_push heap_ok ctx b"

record hf_snapshot =
  sn_name :: string
  sn_capacity :: u64
  sn_used :: u64
  sn_free_bytes :: u64
  sn_block_count :: u64
  sn_free_block_count :: u64
  sn_largest_free :: u64
  sn_external_fragmentation :: rat
  sn_blocks :: "hf_block_info list"

definition tally :: "hf_block_info \<Rightarrow> hf_snapshot \<Rightarrow> hf_snapshot" where
  "tally b out =
     (let out = out\<lparr>sn_block_count := sn_block_count out + 1\<rparr>
      in if bi_is_free b then
           let out = out\<lparr>sn_free_block_count := sn_free_block_count out + 1\<rparr>;
               out = out\<lparr>sn_free_bytes := sn_free_bytes out + bi_size b\<rparr>
           in if bi_size b > sn_largest_free out then out\<lparr>sn_largest_free := bi_size b\<rparr> else out
         else out)"

definition hf_snapshot_take :: "(u64 \<Rightarrow> bool) \<Rightarrow> 's hf_allocator_vtable \<Rightarrow> 's \<Rightarrow> hf_snapshot" where
  "hf_snapshot_take heap_ok vt a =
     (let nm = hf_name vt a;
          st = hf_get_stats vt a;
          bv = fold (collect_cb heap_ok) (hf_walk vt a) \<lparr>bv_v = [], bv_cap = 0\<rparr>;
          out = \<lparr>sn_name = take 31 nm, sn_capacity = hs_capacity st, sn_used = hs_used st, sn_free_bytes = 0,
                 sn_block_count = 0, sn_free_block_count = 0, sn_largest_free = 0, sn_external_fragmentation = 0,
                 sn_blocks = bv_v bv\<rparr>;
          out = fold tally (bv_v bv) out
      in out\<lparr>sn_external_fragmentation :=
           if sn_free_bytes out > 0 then
             dbl (1 - dbl (dbl_of_u64 (sn_largest_free out) / dbl_of_u64 (sn_free_bytes out)))
           else 0\<rparr>)"

definition hf_snapshot_free :: "hf_snapshot \<Rightarrow> hf_snapshot" where
  "hf_snapshot_free s = s\<lparr>sn_blocks := []\<rparr>"


subsection \<open>The growable string\<close>

record strbuf =
  sb_s :: string
  sb_cap :: u64

definition sb_zero :: strbuf where
  "sb_zero = \<lparr>sb_s = [], sb_cap = 0\<rparr>"

partial_function (option) sb_grow :: "u64 \<Rightarrow> u64 \<Rightarrow> u64 option" where
  "sb_grow nc need = (if nc < need then sb_grow (nc * 2) need else Some nc)"

text \<open>
  The result of \<^verbatim>\<open>realloc\<close> is not tested: when it fails, the store that follows every call of
  \<^verbatim>\<open>sb_ensure\<close> goes through a null pointer.
\<close>

definition sb_ensure :: "(u64 \<Rightarrow> bool) \<Rightarrow> strbuf \<Rightarrow> u64 \<Rightarrow> strbuf run" where
  "sb_ensure heap_ok b extra =
     (let len = of_nat (length (sb_s b))
      in if len + extra + 1 > sb_cap b then
           case sb_grow (if sb_cap b \<noteq> 0 then sb_cap b * 2 else 1024) (len + extra + 1) of
             None \<Rightarrow> None
           | Some nc \<Rightarrow> if heap_ok nc then Some (Inr (b\<lparr>sb_cap := nc\<rparr>)) else Some (Inl Null_deref)
         else Some (Inr b))"

definition sb_puts :: "(u64 \<Rightarrow> bool) \<Rightarrow> strbuf \<Rightarrow> string \<Rightarrow> strbuf run" where
  "sb_puts heap_ok b s =
     run_bind (sb_ensure heap_ok b (of_nat (length s))) (\<lambda>b. Some (Inr (b\<lparr>sb_s := sb_s b @ s\<rparr>)))"

text \<open>\<open>s\<close> is the text the format and its arguments stand for.\<close>

definition sb_printf :: "(u64 \<Rightarrow> bool) \<Rightarrow> strbuf \<Rightarrow> string \<Rightarrow> strbuf run" where
  "sb_printf heap_ok b s =
     (if length s < 256 then sb_puts heap_ok b (snprintf 256 s)
      else if \<not> heap_ok (of_nat (length s + 1)) then Some (Inl Null_deref)
      else sb_puts heap_ok b (snprintf (length s + 1) s))"

text \<open>The exporters are sequences of calls on one buffer.\<close>

datatype sb_call = Puts string | Printf string

fun sb_run :: "(u64 \<Rightarrow> bool) \<Rightarrow> strbuf \<Rightarrow> sb_call list \<Rightarrow> strbuf run" where
  "sb_run heap_ok b [] = Some (Inr b)"
| "sb_run heap_ok b (c # cs) =
     run_bind (case c of Puts s \<Rightarrow> sb_puts heap_ok b s | Printf s \<Rightarrow> sb_printf heap_ok b s)
       (\<lambda>b. sb_run heap_ok b cs)"

definition sb_text :: "strbuf run \<Rightarrow> string run" where
  "sb_text r = run_bind r (\<lambda>b. Some (Inr (sb_s b)))"


subsection \<open>The exports\<close>

abbreviation nl :: string where
  "nl \<equiv> [CHR 0x0A]"

abbreviation fmt_zu :: "u64 \<Rightarrow> string" where
  "fmt_zu n \<equiv> fmt_u (unat n)"

definition json_block :: "hf_block_info list \<Rightarrow> nat \<Rightarrow> sb_call" where
  \<open>json_block bs i =
     Printf (''    {"offset": '' @ fmt_zu (bi_offset (bs ! i)) @ '', "size": '' @ fmt_zu (bi_size (bs ! i)) @
       '', "free": '' @ (if bi_is_free (bs ! i) then ''true'' else ''false'') @ ''}'' @
       (if i + 1 < length bs then '','' else []) @ nl)\<close>

definition json_calls :: "hf_snapshot \<Rightarrow> sb_call list" where
  \<open>json_calls s =
     [Printf (''{'' @ nl @ ''  "allocator": "'' @ sn_name s @ ''",'' @ nl),
      Printf (''  "capacity": '' @ fmt_zu (sn_capacity s) @ '','' @ nl @ ''  "used": '' @ fmt_zu (sn_used s) @ '','' @ nl),
      Printf (''  "free_bytes": '' @ fmt_zu (sn_free_bytes s) @ '','' @ nl @
              ''  "block_count": '' @ fmt_zu (sn_block_count s) @ '','' @ nl),
      Printf (''  "free_block_count": '' @ fmt_zu (sn_free_block_count s) @ '','' @ nl @
              ''  "largest_free": '' @ fmt_zu (sn_largest_free s) @ '','' @ nl),
      Printf (''  "external_fragmentation": '' @ fmt_f 4 (sn_external_fragmentation s) @ '','' @ nl),
      Puts (''  "blocks": ['' @ nl)] @
     map (json_block (sn_blocks s)) [0..<length (sn_blocks s)] @
     [Puts (''  ]'' @ nl @ ''}'' @ nl)]\<close>

definition hf_snapshot_to_json :: "(u64 \<Rightarrow> bool) \<Rightarrow> hf_snapshot \<Rightarrow> string run" where
  "hf_snapshot_to_json heap_ok s = sb_text (sb_run heap_ok sb_zero (json_calls s))"

definition csv_row :: "hf_block_info \<Rightarrow> string" where
  "csv_row b =
     fmt_zu (bi_offset b) @ '','' @ fmt_zu (bi_size b) @ '','' @ (if bi_is_free b then ''free'' else ''used'') @ nl"

definition csv_calls :: "hf_snapshot \<Rightarrow> sb_call list" where
  "csv_calls s = Puts (''offset,size,state'' @ nl) # map (\<lambda>b. Printf (csv_row b)) (sn_blocks s)"

definition hf_snapshot_to_csv :: "(u64 \<Rightarrow> bool) \<Rightarrow> hf_snapshot \<Rightarrow> string run" where
  "hf_snapshot_to_csv heap_ok s = sb_text (sb_run heap_ok sb_zero (csv_calls s))"

definition html_style :: string where
  "html_style =
     ''<style>body{font-family:monospace;background:#111;color:#eee;padding:16px}'' @
     ''.bar{display:flex;height:40px;border:1px solid #444;margin:8px 0}'' @
     ''.seg{height:100%}'' @
     ''.u{background:#e5534b}.f{background:#2ea043}'' @
     ''table{border-collapse:collapse}td,th{border:1px solid #444;padding:4px 8px}'' @
     ''</style></head><body>''"

definition html_seg :: "rat \<Rightarrow> hf_block_info \<Rightarrow> sb_call" where
  \<open>html_seg width b =
     (let pct = dbl (dbl (100 * dbl_of_u64 (bi_size b)) / width)
      in Printf (''<div class="seg '' @ (if bi_is_free b then ''f'' else ''u'') @ ''" style="width:'' @ fmt_f 4 pct @
           ''%" title="off '' @ fmt_zu (bi_offset b) @ '' size '' @ fmt_zu (bi_size b) @ ''"></div>''))\<close>

definition html_calls :: "hf_snapshot \<Rightarrow> sb_call list" where
  \<open>html_calls s =
     (let width = (if sn_capacity s \<noteq> 0 then dbl_of_u64 (sn_capacity s) else 1)
      in [Puts ''<!doctype html><html><head><meta charset="utf-8">'',
          Printf (''<title>HeapForge '' @ sn_name s @ ''</title>''),
          Puts html_style,
          Printf (''<h2>HeapForge &mdash; '' @ sn_name s @ ''</h2>''),
          Printf (''<table><tr><th>capacity</th><td>'' @ fmt_zu (sn_capacity s) @ ''</td></tr>'' @
                  ''<tr><th>used</th><td>'' @ fmt_zu (sn_used s) @ ''</td></tr>'' @
                  ''<tr><th>free</th><td>'' @ fmt_zu (sn_free_bytes s) @ ''</td></tr>'' @
                  ''<tr><th>largest free</th><td>'' @ fmt_zu (sn_largest_free s) @ ''</td></tr>'' @
                  ''<tr><th>ext. fragmentation</th><td>'' @ fmt_f 2 (dbl (sn_external_fragmentation s * 100)) @
                  ''%</td></tr></table>''),
          Puts ''<div class="bar">''] @
         map (html_seg width) (sn_blocks s) @
         [Puts (''</div><p>red = used, green = free</p></body></html>'' @ nl)])\<close>

definition hf_snapshot_to_html :: "(u64 \<Rightarrow> bool) \<Rightarrow> hf_snapshot \<Rightarrow> string run" where
  "hf_snapshot_to_html heap_ok s = sb_text (sb_run heap_ok sb_zero (html_calls s))"

text \<open>
  \<open>opened\<close> and \<open>w\<close> are the answers of \<^verbatim>\<open>fopen\<close> and \<^verbatim>\<open>fwrite\<close>; the second result is the contents of the file,
  if it was opened.
\<close>

definition hf_save_text :: "bool \<Rightarrow> nat \<Rightarrow> string \<Rightarrow> bool \<times> string option" where
  "hf_save_text opened w text =
     (if \<not> opened then (False, None) else (w = length text, Some (take w text)))"


subsection \<open>The buffer always has room\<close>

text \<open>The reallocation size stays within twice the text, so that no doubling wraps around.\<close>

lemma sb_grow_ok:
  assumes "0 < nc" and "unat need \<le> 2 ^ 63"
  shows "\<exists>r. sb_grow nc need = Some r \<and> need \<le> r \<and> (r = nc \<or> unat r < 2 * unat need)"
  using assms(1)
proof (induction "unat need - unat nc" arbitrary: nc rule: less_induct)
  case less
  show ?case
  proof (cases "nc < need")
    case True
    then have lt: "unat nc < unat need" by (simp add: word_less_nat_alt)
    have pos: "0 < unat nc" using less.prems by (simp add: word_less_nat_alt)
    have d: "unat (nc * 2) = 2 * unat nc" using lt assms(2) by (simp add: unat_mult_nowrap)
    then have "0 < nc * 2" using pos by (simp add: word_less_nat_alt)
    moreover have "unat need - unat (nc * 2) < unat need - unat nc" using d pos lt by simp
    ultimately obtain r where "sb_grow (nc * 2) need = Some r" "need \<le> r" "r = nc * 2 \<or> unat r < 2 * unat need"
      using less.hyps [of "nc * 2"] by blast
    then show ?thesis using True d lt by (subst sb_grow.simps) auto
  qed (simp add: sb_grow.simps)
qed

definition sb_wf :: "strbuf \<Rightarrow> bool" where
  "sb_wf b \<longleftrightarrow> unat (sb_cap b) \<le> max 1024 (2 * (length (sb_s b) + 1)) \<and>
     (sb_cap b = 0 \<and> sb_s b = [] \<or> length (sb_s b) < unat (sb_cap b))"

lemma sb_puts_ok:
  assumes wf: "sb_wf b" and len: "length (sb_s b) + length s < 2 ^ 61" and heap: "\<forall>n. heap_ok n"
  shows "\<exists>b'. sb_puts heap_ok b s = Some (Inr b') \<and> sb_s b' = sb_s b @ s \<and> sb_wf b'"
proof -
  let ?need = "of_nat (length (sb_s b)) + of_nat (length s) + 1 :: u64"
  have eq: "?need = of_nat (length (sb_s b) + length s + 1)" by simp
  have need: "unat ?need = length (sb_s b) + length s + 1" unfolding eq using len by (intro unat_of_nat_small) simp
  show ?thesis
  proof (cases "?need > sb_cap b")
    case True
    let ?nc = "if sb_cap b \<noteq> 0 then sb_cap b * 2 else 1024"
    have cap: "unat (sb_cap b) < unat ?need" using True by (simp add: word_less_nat_alt)
    have d: "unat (sb_cap b * 2) = 2 * unat (sb_cap b)" using cap need len by (simp add: unat_mult_nowrap)
    then have pos: "0 < ?nc" using unat_gt_0 [of "sb_cap b"] by (simp add: word_less_nat_alt)
    obtain r where r: "sb_grow ?nc ?need = Some r" "?need \<le> r" "r = ?nc \<or> unat r < 2 * unat ?need"
      using sb_grow_ok [OF pos, of ?need] need len by auto
    have "unat r \<le> max 1024 (2 * unat ?need)" using r(3) d cap by (auto split: if_splits)
    moreover have "length (sb_s b) + length s < unat r" using r(2) need by (simp add: word_le_nat_alt)
    moreover have "sb_puts heap_ok b s = Some (Inr (b\<lparr>sb_cap := r, sb_s := sb_s b @ s\<rparr>))"
      using True r(1) heap unfolding sb_puts_def sb_ensure_def Let_def by simp
    ultimately show ?thesis using need by (intro exI [of _ "b\<lparr>sb_cap := r, sb_s := sb_s b @ s\<rparr>"]) (simp add: sb_wf_def)
  next
    case False
    then have "length (sb_s b) + length s < unat (sb_cap b)" using need by (simp add: word_less_nat_alt)
    moreover have "sb_puts heap_ok b s = Some (Inr (b\<lparr>sb_s := sb_s b @ s\<rparr>))"
      using False unfolding sb_puts_def sb_ensure_def Let_def by simp
    ultimately show ?thesis using wf by (intro exI [of _ "b\<lparr>sb_s := sb_s b @ s\<rparr>"]) (auto simp: sb_wf_def)
  qed
qed

primrec call_text :: "sb_call \<Rightarrow> string" where
  "call_text (Puts s) = s"
| "call_text (Printf s) = s"

lemma sb_call_eq:
  assumes "\<forall>n. heap_ok n"
  shows "(case c of Puts s \<Rightarrow> sb_puts heap_ok b s | Printf s \<Rightarrow> sb_printf heap_ok b s) = sb_puts heap_ok b (call_text c)"
  using assms by (cases c) (simp_all add: sb_printf_def snprintf_def)

lemma sb_run_ok:
  assumes "\<forall>n. heap_ok n"
  shows "sb_wf b \<Longrightarrow> length (sb_s b) + length (concat (map call_text cs)) < 2 ^ 61 \<Longrightarrow>
    \<exists>b'. sb_run heap_ok b cs = Some (Inr b') \<and> sb_s b' = sb_s b @ concat (map call_text cs)"
proof (induction cs arbitrary: b)
  case (Cons c cs)
  have "length (sb_s b) + length (call_text c) < 2 ^ 61" using Cons.prems(2) by simp
  from sb_puts_ok [OF Cons.prems(1) this assms] obtain m
    where m: "sb_puts heap_ok b (call_text c) = Some (Inr m)" "sb_s m = sb_s b @ call_text c" "sb_wf m" by blast
  then show ?case using Cons.IH [OF m(3)] Cons.prems(2) by (simp add: sb_call_eq [OF assms] add.assoc)
qed simp

lemma sb_text_ok:
  assumes "\<forall>n. heap_ok n" and "length (concat (map call_text cs)) < 2 ^ 61"
  shows "sb_text (sb_run heap_ok sb_zero cs) = Some (Inr (concat (map call_text cs)))"
proof -
  have "sb_wf sb_zero" by (simp add: sb_wf_def sb_zero_def)
  from sb_run_ok [OF assms(1) this, of cs] show ?thesis using assms(2) by (auto simp: sb_text_def sb_zero_def)
qed


subsection \<open>Reading the CSV export\<close>

definition cut_at :: "char \<Rightarrow> string \<Rightarrow> string \<times> string" where
  "cut_at c s = (takeWhile (\<lambda>x. x \<noteq> c) s, drop 1 (dropWhile (\<lambda>x. x \<noteq> c) s))"

definition parse_row :: "string \<Rightarrow> hf_block_info" where
  "parse_row s =
     (let (x, s) = cut_at (CHR '','') s; (y, s) = cut_at (CHR '','') s
      in \<lparr>bi_offset = of_nat (read_base 10 x), bi_size = of_nat (read_base 10 y), bi_is_free = (s = ''free'')\<rparr>)"

lemma cut_shorter: "s \<noteq> [] \<Longrightarrow> length (snd (cut_at c s)) < length s"
  using length_dropWhile_le [of "\<lambda>x. x \<noteq> c" s] by (cases s) (auto simp: cut_at_def less_Suc_eq_le intro: le_trans)

function parse_rows :: "string \<Rightarrow> hf_block_info list" where
  "parse_rows s = (if s = [] then [] else parse_row (fst (cut_at (CHR 0x0A) s)) # parse_rows (snd (cut_at (CHR 0x0A) s)))"
  by pat_completeness auto
termination
  by (relation "measure length") (simp_all add: cut_shorter)

declare parse_rows.simps [simp del]

definition parse_csv :: "string \<Rightarrow> hf_block_info list" where
  "parse_csv s = parse_rows (snd (cut_at (CHR 0x0A) s))"

lemma cut_append: "c \<notin> set x \<Longrightarrow> cut_at c (x @ c # y) = (x, y)"
proof -
  assume "c \<notin> set x"
  then have "\<forall>a \<in> set x. a \<noteq> c" by blast
  then show ?thesis unfolding cut_at_def by (simp add: takeWhile_append2 dropWhile_append2)
qed

lemma fmt_u_no_sep: "CHR '','' \<notin> set (fmt_u n)" "CHR 0x0A \<notin> set (fmt_u n)"
  using fmt_u_dec [of "CHR '',''" n] fmt_u_dec [of "CHR 0x0A" n] by (auto simp: is_dec_def)

lemma parse_row_csv_row:
  "parse_row (fmt_zu (bi_offset b) @ '','' @ fmt_zu (bi_size b) @ '','' @ (if bi_is_free b then ''free'' else ''used'')) = b"
  by (simp add: parse_row_def cut_append fmt_u_no_sep)

lemma parse_rows_csv: "parse_rows (concat (map csv_row bs)) = bs"
proof (induction bs)
  case (Cons b bs)
  let ?r = "fmt_zu (bi_offset b) @ '','' @ fmt_zu (bi_size b) @ '','' @ (if bi_is_free b then ''free'' else ''used'')"
  have "CHR 0x0A \<notin> set ?r" using fmt_u_no_sep by auto
  note cut = cut_append [OF this, of "concat (map csv_row bs)"]
  have row: "concat (map csv_row (b # bs)) = ?r @ CHR 0x0A # concat (map csv_row bs)" by (simp add: csv_row_def)
  show ?case unfolding row by (subst parse_rows.simps) (simp only: cut fst_conv snd_conv parse_row_csv_row Cons.IH append_is_Nil_conv list.distinct simp_thms if_False)
qed (simp add: parse_rows.simps)

lemma csv_row_length: "length (csv_row b) \<le> 47"
proof -
  have "length (fmt_zu n) \<le> 20" for n :: u64
    using fmt_u_length [of "unat n" 19] unat_u64_lt [of n] by simp
  from this [of "bi_offset b"] this [of "bi_size b"] show ?thesis by (simp add: csv_row_def)
qed


subsection \<open>The snapshot\<close>

lemma collect_all:
  assumes "\<forall>n. heap_ok n"
  shows "bv_v (fold (collect_cb heap_ok) bs bv) = bv_v bv @ bs"
  using assms by (induction bs arbitrary: bv) (simp_all add: collect_cb_def vec_push_def Let_def)

lemma tally_keeps [simp]:
  "sn_blocks (tally b out) = sn_blocks out" "sn_capacity (tally b out) = sn_capacity out"
  "sn_used (tally b out) = sn_used out" "sn_block_count (tally b out) = sn_block_count out + 1"
  by (simp_all add: tally_def Let_def)

lemma tally_free [simp]:
  "sn_free_bytes (tally b out) = sn_free_bytes out + (if bi_is_free b then bi_size b else 0)"
  "sn_largest_free (tally b out) = (if bi_is_free b then max (sn_largest_free out) (bi_size b) else sn_largest_free out)"
  by (auto simp: tally_def Let_def max_def)

lemma fold_tally_keeps [simp]:
  "sn_blocks (fold tally bs out) = sn_blocks out" "sn_capacity (fold tally bs out) = sn_capacity out"
  "sn_used (fold tally bs out) = sn_used out" "sn_block_count (fold tally bs out) = sn_block_count out + of_nat (length bs)"
  by (induction bs arbitrary: out) simp_all

lemma free_bytes_Cons: "free_bytes (b # bs) = (if bi_is_free b then unat (bi_size b) else 0) + free_bytes bs"
  by (simp add: free_bytes_def)

lemma fold_tally_free_bytes:
  "unat (sn_free_bytes out) + free_bytes bs < 2 ^ 64 \<Longrightarrow>
   unat (sn_free_bytes (fold tally bs out)) = unat (sn_free_bytes out) + free_bytes bs"
proof (induction bs arbitrary: out)
  case (Cons b bs)
  have "unat (sn_free_bytes (tally b out)) = unat (sn_free_bytes out) + (if bi_is_free b then unat (bi_size b) else 0)"
    using Cons.prems by (auto simp: free_bytes_Cons unat_add_nowrap)
  then show ?case using Cons by (simp add: free_bytes_Cons add.assoc)
qed (simp add: free_bytes_def)

lemma fold_tally_largest:
  "sn_largest_free out \<le> sn_largest_free (fold tally bs out) \<and>
   (\<forall>b \<in> set bs. bi_is_free b \<longrightarrow> bi_size b \<le> sn_largest_free (fold tally bs out)) \<and>
   (sn_largest_free (fold tally bs out) = sn_largest_free out \<or>
    (\<exists>b \<in> set bs. bi_is_free b \<and> bi_size b = sn_largest_free (fold tally bs out)))"
proof (induction bs arbitrary: out)
  case (Cons b bs)
  have "sn_largest_free (tally b out) = sn_largest_free out \<or> bi_is_free b \<and> sn_largest_free (tally b out) = bi_size b"
    by (simp add: max_def)
  moreover have "sn_largest_free out \<le> sn_largest_free (tally b out)" "bi_is_free b \<longrightarrow> bi_size b \<le> sn_largest_free (tally b out)"
    by simp_all
  ultimately show ?case using Cons.IH [of "tally b out"] by (auto simp del: tally_free intro: order_trans)
qed simp

lemma free_block_le: "b \<in> set bs \<Longrightarrow> bi_is_free b \<Longrightarrow> unat (bi_size b) \<le> free_bytes bs"
  by (induction bs) (auto simp: free_bytes_Cons)

lemma snapshot_parts:
  assumes heap: "\<forall>n. heap_ok n" and small: "free_bytes (hf_walk vt a) < 2 ^ 64"
  defines "s \<equiv> hf_snapshot_take heap_ok vt a"
  shows "sn_blocks s = hf_walk vt a" and "unat (sn_free_bytes s) = free_bytes (hf_walk vt a)"
    and "\<forall>b \<in> set (hf_walk vt a). bi_is_free b \<longrightarrow> bi_size b \<le> sn_largest_free s"
    and "sn_largest_free s = 0 \<or> (\<exists>b \<in> set (hf_walk vt a). bi_is_free b \<and> bi_size b = sn_largest_free s)"
    and "sn_largest_free s \<le> sn_free_bytes s"
    and "sn_external_fragmentation s = (if sn_free_bytes s > 0
      then dbl (1 - dbl (dbl_of_u64 (sn_largest_free s) / dbl_of_u64 (sn_free_bytes s))) else 0)"
    and "sn_capacity s = hs_capacity (hf_get_stats vt a)" and "sn_used s = hs_used (hf_get_stats vt a)"
proof -
  note take = hf_snapshot_take_def [of heap_ok vt a, folded s_def, unfolded Let_def collect_all [OF heap]]
  show "sn_blocks s = hf_walk vt a" "sn_capacity s = hs_capacity (hf_get_stats vt a)" "sn_used s = hs_used (hf_get_stats vt a)"
    "sn_external_fragmentation s = (if sn_free_bytes s > 0
      then dbl (1 - dbl (dbl_of_u64 (sn_largest_free s) / dbl_of_u64 (sn_free_bytes s))) else 0)"
    by (simp_all add: take)
  show f: "unat (sn_free_bytes s) = free_bytes (hf_walk vt a)" using small by (simp add: take fold_tally_free_bytes)
  show "\<forall>b \<in> set (hf_walk vt a). bi_is_free b \<longrightarrow> bi_size b \<le> sn_largest_free s"
    by (simp add: take fold_tally_largest)
  show l: "sn_largest_free s = 0 \<or> (\<exists>b \<in> set (hf_walk vt a). bi_is_free b \<and> bi_size b = sn_largest_free s)"
    unfolding take using fold_tally_largest [of "\<lparr>sn_name = take 31 (hf_name vt a),
      sn_capacity = hs_capacity (hf_get_stats vt a), sn_used = hs_used (hf_get_stats vt a), sn_free_bytes = 0,
      sn_block_count = 0, sn_free_block_count = 0, sn_largest_free = 0, sn_external_fragmentation = 0,
      sn_blocks = hf_walk vt a\<rparr>" "hf_walk vt a"] by simp
  show "sn_largest_free s \<le> sn_free_bytes s"
    using l free_block_le [of _ "hf_walk vt a"] f by (metis word_le_nat_alt word_zero_le)
qed

text \<open>The quotient of two rounded integers is off by little more than two roundings.\<close>

lemma quotient_error:
  fixes l f L F u :: rat
  assumes "0 \<le> l" "l \<le> f" "0 < f" "\<bar>L - l\<bar> \<le> l * u" "\<bar>F - f\<bar> \<le> f * u" "0 < F" "0 \<le> u" "u \<le> 1 / 2"
  shows "\<bar>L / F - l / f\<bar> \<le> 4 * u"
proof -
  have "f * u \<le> f * (1 / 2)" using assms(3,8) by (intro mult_left_mono) simp_all
  then have F: "f \<le> 2 * F" using assms(5) by linarith
  have "\<bar>L * f - l * F\<bar> = \<bar>(L - l) * f - l * (F - f)\<bar>" by (simp add: algebra_simps)
  also have "\<dots> \<le> \<bar>(L - l) * f\<bar> + \<bar>l * (F - f)\<bar>" by (rule abs_triangle_ineq4)
  also have "\<dots> = \<bar>L - l\<bar> * f + l * \<bar>F - f\<bar>" using assms(1,3) by (simp add: abs_mult)
  also have "\<dots> \<le> l * u * f + l * (f * u)"
    using assms by (intro add_mono mult_right_mono mult_left_mono) simp_all
  also have "\<dots> = l * (2 * u * f)" by (simp add: algebra_simps)
  also have "\<dots> \<le> 2 * F * (2 * u * f)" using assms F by (intro mult_right_mono) simp_all
  finally have "\<bar>L * f - l * F\<bar> \<le> 4 * u * (F * f)" by (simp add: algebra_simps)
  moreover have "L / F - l / f = (L * f - l * F) / (F * f)" using assms(3,6) by (simp add: field_simps)
  then have "\<bar>L / F - l / f\<bar> = \<bar>L * f - l * F\<bar> / (F * f)" using assms(3,6) by (simp add: abs_mult)
  moreover have "0 < F * f" using assms(3,6) by simp
  ultimately show ?thesis by (simp only: divide_le_eq if_True simp_thms)
qed

lemma fragmentation_error:
  fixes l f :: u64
  assumes "l \<le> f" and "0 < f"
  shows "0 \<le> dbl (1 - dbl (dbl_of_u64 l / dbl_of_u64 f))" and "dbl (1 - dbl (dbl_of_u64 l / dbl_of_u64 f)) \<le> 1"
    and "\<bar>dbl (1 - dbl (dbl_of_u64 l / dbl_of_u64 f)) - (1 - of_nat (unat l) / of_nat (unat f))\<bar> \<le> 1 / 2 ^ 50"
    and "l = f \<Longrightarrow> dbl (1 - dbl (dbl_of_u64 l / dbl_of_u64 f)) = 0"
proof -
  let ?L = "dbl_of_u64 l" and ?F = "dbl_of_u64 f" and ?l = "of_nat (unat l) :: rat" and ?f = "of_nat (unat f) :: rat"
  have F: "0 < ?F" using assms(2) by (intro dbl_of_u64_pos) auto
  have LF: "?L \<le> ?F" using assms(1) by (rule dbl_of_u64_mono)
  have L: "0 \<le> ?L" unfolding dbl_of_u64_def by (rule dbl_nonneg)
  then have q: "0 \<le> ?L / ?F" "?L / ?F \<le> 1" using F LF by (simp_all add: divide_le_eq)
  have d: "0 \<le> dbl (?L / ?F)" "dbl (?L / ?F) \<le> 1" using dbl_mono [OF q(2)] by simp_all
  show "0 \<le> dbl (1 - dbl (?L / ?F))" by simp
  show "dbl (1 - dbl (?L / ?F)) \<le> 1" using dbl_mono [of "1 - dbl (?L / ?F)" 1] d by simp
  show "dbl (1 - dbl (?L / ?F)) = 0" if "l = f" using that F by simp
  have f: "0 < ?f" using assms(2) by (simp only: of_nat_0_less_iff word_less_nat_alt unat_0)
  have lf: "?l \<le> ?f" using assms(1) by (simp only: of_nat_le_iff word_le_nat_alt)
  have l0: "0 \<le> ?l" by (simp only: of_nat_0_le_iff)
  define u :: rat where "u = 1 / 2 ^ 53"
  have u: "0 \<le> u" "u \<le> 1 / 2" "8 * u = 1 / 2 ^ 50" by (simp_all add: u_def)
  have ol: "\<bar>?L - ?l\<bar> \<le> ?l * u" and of': "\<bar>?F - ?f\<bar> \<le> ?f * u"
    using dbl_of_u64_error [of l] dbl_of_u64_error [of f] by (simp_all add: u_def)
  have e1: "\<bar>?L / ?F - ?l / ?f\<bar> \<le> 4 * u" by (rule quotient_error [OF l0 lf f ol of' F u(1,2)])
  have one: "\<bar>dbl x - x\<bar> \<le> u" if "0 \<le> x" "x \<le> 1" for x
    using dbl_error [OF that(1)] that(2) by (simp add: u_def)
  have "\<bar>dbl (?L / ?F) - ?L / ?F\<bar> \<le> u" "\<bar>dbl (1 - dbl (?L / ?F)) - (1 - dbl (?L / ?F))\<bar> \<le> u"
    using one q d by simp_all
  then show "\<bar>dbl (1 - dbl (?L / ?F)) - (1 - ?l / ?f)\<bar> \<le> 1 / 2 ^ 50"
    unfolding u(3) [symmetric] using e1 u(1) by linarith
qed


subsection \<open>The size of the exports\<close>

lemma fmt_zu_length: "length (fmt_zu n) \<le> 20" for n :: u64
  using fmt_u_length [of "unat n" 19] unat_u64_lt [of n] by simp

definition sn_wf :: "hf_snapshot \<Rightarrow> bool" where
  "sn_wf s \<longleftrightarrow> length (sn_name s) \<le> 31 \<and> length (sn_blocks s) < 2 ^ 50 \<and>
     0 \<le> sn_external_fragmentation s \<and> sn_external_fragmentation s \<le> 1"

lemma calls_length:
  assumes "\<forall>c \<in> set cs. length (call_text c) \<le> m"
  shows "length (concat (map call_text cs)) \<le> m * length cs"
  using assms by (induction cs) (auto simp: add_mono)

lemma json_block_length: "length (call_text (json_block bs i)) \<le> 200"
  using fmt_zu_length [of "bi_offset (bs ! i)"] fmt_zu_length [of "bi_size (bs ! i)"] by (simp add: json_block_def)

lemma html_seg_length:
  assumes "1 \<le> width"
  shows "length (call_text (html_seg width b)) \<le> 200"
proof -
  let ?x = "100 * dbl_of_u64 (bi_size b)"
  have x: "0 \<le> ?x" by (simp add: dbl_of_u64_def)
  have "?x \<le> 100 * 2 ^ 65" using dbl_of_u64_bounds(1) by (intro mult_left_mono) simp_all
  then have d: "dbl ?x \<le> 200 * 2 ^ 65" using dbl_le_double [OF x] by linarith
  have q: "0 \<le> dbl ?x / width" "dbl ?x / width \<le> dbl ?x"
    using assms mult_left_mono [OF assms dbl_nonneg [of ?x]] by (simp_all add: divide_le_eq)
  have "dbl (dbl ?x / width) \<le> 2 * (dbl ?x / width)" by (rule dbl_le_double [OF q(1)])
  also have "\<dots> \<le> 2 * (200 * 2 ^ 65)" using q(2) d by linarith
  also have "\<dots> \<le> 10 ^ 23" by simp
  finally have "length (fmt_f (Suc 3) (dbl (dbl ?x / width))) \<le> 23 + 3 + 3" by (intro fmt_f_length) simp_all
  then show ?thesis
    using fmt_zu_length [of "bi_offset b"] fmt_zu_length [of "bi_size b"] by (simp add: html_seg_def Let_def eval_nat_numeral)
qed

lemma export_lengths:
  assumes "sn_wf s"
  shows "length (concat (map call_text (json_calls s))) < 2 ^ 61" and "length (concat (map call_text (csv_calls s))) < 2 ^ 61"
    and "length (concat (map call_text (html_calls s))) < 2 ^ 61"
proof -
  let ?n = "length (sn_blocks s)"
  note zu = fmt_zu_length [of "sn_capacity s"] fmt_zu_length [of "sn_used s"] fmt_zu_length [of "sn_free_bytes s"]
    fmt_zu_length [of "sn_block_count s"] fmt_zu_length [of "sn_free_block_count s"] fmt_zu_length [of "sn_largest_free s"]
  have wf: "length (sn_name s) \<le> 31" "?n < 2 ^ 50" "0 \<le> sn_external_fragmentation s" "sn_external_fragmentation s \<le> 1"
    using assms by (simp_all add: sn_wf_def)
  have f4: "length (fmt_f 4 (sn_external_fragmentation s)) \<le> 6"
    using fmt_f_length [of "sn_external_fragmentation s" 0 3] wf(3,4) by (simp add: eval_nat_numeral)
  have x: "0 \<le> sn_external_fragmentation s * 100" using wf(3) by simp
  have "dbl (sn_external_fragmentation s * 100) \<le> 10 ^ 3" using dbl_le_double [OF x] wf(4) by simp
  then have f2: "length (fmt_f 2 (dbl (sn_external_fragmentation s * 100))) \<le> 7"
    using fmt_f_length [of "dbl (sn_external_fragmentation s * 100)" 3 1] by (simp add: eval_nat_numeral)
  have "length (concat (map call_text (map (json_block (sn_blocks s)) [0..<?n]))) \<le> 200 * length (map (json_block (sn_blocks s)) [0..<?n])"
    by (rule calls_length) (auto simp: json_block_length)
  then show "length (concat (map call_text (json_calls s))) < 2 ^ 61"
    using zu wf f4 by (simp add: json_calls_def)
  have "length (concat (map call_text (map (\<lambda>b. Printf (csv_row b)) (sn_blocks s)))) \<le> 200 * length (map (\<lambda>b. Printf (csv_row b)) (sn_blocks s))"
    by (rule calls_length) (simp add: order_trans [OF csv_row_length])
  then show "length (concat (map call_text (csv_calls s))) < 2 ^ 61"
    using wf by (simp add: csv_calls_def)
  define width where "width = (if sn_capacity s \<noteq> 0 then dbl_of_u64 (sn_capacity s) else 1)"
  have "1 \<le> width" using dbl_of_u64_bounds(2) by (simp add: width_def)
  then have "length (concat (map call_text (map (html_seg width) (sn_blocks s)))) \<le> 200 * length (map (html_seg width) (sn_blocks s))"
    by (intro calls_length) (auto simp: html_seg_length)
  then show "length (concat (map call_text (html_calls s))) < 2 ^ 61"
    using zu wf f2 unfolding html_calls_def Let_def width_def [symmetric] by (simp add: html_style_def)
qed


subsection \<open>Properties\<close>

definition sn_example :: hf_snapshot where
  "sn_example = \<lparr>sn_name = ''FreeList'', sn_capacity = 4096, sn_used = 4000, sn_free_bytes = 96, sn_block_count = 2,
     sn_free_block_count = 1, sn_largest_free = 96, sn_external_fragmentation = 0,
     sn_blocks = [\<lparr>bi_offset = 0, bi_size = 4000, bi_is_free = False\<rparr>, \<lparr>bi_offset = 4000, bi_size = 96, bi_is_free = True\<rparr>]\<rparr>"

text \<open>
  C37: the three exporters end, and return exactly the text of their calls in order, for every snapshot of
  fewer than \<open>2 ^ 50\<close> blocks whose name and fragmentation are in the range \<^verbatim>\<open>hf_snapshot_take\<close> gives them, as
  long as memory is granted: no doubling of the buffer wraps around, no byte is dropped or written twice.
\<close>

theorem exports_return:
  assumes "\<forall>n. heap_ok n" and "sn_wf s"
  shows "hf_snapshot_to_json heap_ok s = Some (Inr (concat (map call_text (json_calls s)))) \<and>
    hf_snapshot_to_csv heap_ok s = Some (Inr (concat (map call_text (csv_calls s)))) \<and>
    hf_snapshot_to_html heap_ok s = Some (Inr (concat (map call_text (html_calls s))))"
  unfolding hf_snapshot_to_json_def hf_snapshot_to_csv_def hf_snapshot_to_html_def
  using export_lengths [OF assms(2)] by (simp only: sb_text_ok [OF assms(1)] simp_thms)

theorem exports_return_witness:
  "sn_wf sn_example \<and>
   hf_snapshot_to_json (\<lambda>_. True) sn_example = Some (Inr (concat (map call_text (json_calls sn_example))))"
proof -
  have "sn_wf sn_example" by (simp add: sn_wf_def sn_example_def)
  then show ?thesis using exports_return [of "\<lambda>_. True" sn_example] by simp
qed

text \<open>
  C38: the CSV export of a snapshot of fewer than \<open>2 ^ 55\<close> blocks can be read back: it determines offset,
  size and state of every block, in order.
\<close>

theorem csv_roundtrip:
  assumes "\<forall>n. heap_ok n" and "length (sn_blocks s) < 2 ^ 55"
  shows "\<exists>text. hf_snapshot_to_csv heap_ok s = Some (Inr text) \<and> parse_csv text = sn_blocks s"
proof -
  let ?rows = "concat (map csv_row (sn_blocks s))"
  have "length (concat (map csv_row bs)) \<le> 47 * length bs" for bs
    by (induction bs) (use csv_row_length in \<open>simp_all add: add_mono\<close>)
  then have "length ?rows \<le> 47 * length (sn_blocks s)" .
  moreover have "concat (map call_text (csv_calls s)) = ''offset,size,state'' @ CHR 0x0A # ?rows"
    by (simp add: csv_calls_def comp_def)
  ultimately have "hf_snapshot_to_csv heap_ok s = Some (Inr (''offset,size,state'' @ CHR 0x0A # ?rows))"
    unfolding hf_snapshot_to_csv_def using assms by (subst sb_text_ok) simp_all
  moreover have "parse_csv (''offset,size,state'' @ CHR 0x0A # ?rows) = sn_blocks s"
    unfolding parse_csv_def by (subst cut_append) (simp_all add: parse_rows_csv)
  ultimately show ?thesis by blast
qed

theorem csv_roundtrip_witness:
  "\<exists>text. hf_snapshot_to_csv (\<lambda>_. True) sn_example = Some (Inr text) \<and> parse_csv text = sn_blocks sn_example"
  using csv_roundtrip [of "\<lambda>_. True" sn_example] by (simp add: sn_example_def)

text \<open>
  A refused reallocation goes unnoticed: the next store is through a null pointer.  A refused growth of
  the block vector silently drops the block.
\<close>

lemma sb_realloc_unchecked: "sb_puts (\<lambda>_. False) sb_zero ''x'' = Some (Inl Null_deref)"
  by (simp add: sb_puts_def sb_ensure_def sb_zero_def sb_grow.simps Let_def)

lemma vec_push_drops: "vec_push (\<lambda>_. False) \<lparr>bv_v = [], bv_cap = 0\<rparr> b = \<lparr>bv_v = [], bv_cap = 0\<rparr>"
  by (simp add: vec_push_def Let_def)

end
