(* ===== verification/HF_Debug_Heap.thy ===== *)
theory HF_Debug_Heap
  imports HF_Allocator
begin

text \<open>
  The debugging decorator of \<^verbatim>\<open>hf_debug_heap.c\<close>: canaries around every block, an open-addressing hash
  table of all blocks ever handed out, poisoning on release, and the reports.  The decorated allocator
  is a virtual table over a state \<open>'s\<close>, as in the C code.  \<open>dh_mem\<close> are the bytes of the memory that
  clients and the decorator write; the bytes of a block in the hands of a client are touched by
  nobody else.  \<open>calloc_ok n\<close> says whether a table of \<open>n\<close> entries is granted.  The mutex is omitted because
  every access to the table runs under it.  The messages for the logger are recorded as events.
\<close>

definition DH_CANARY :: u32 where
  "DH_CANARY = 0xDEADBEEF"

definition DH_POISON :: u8 where
  "DH_POISON = 0xCD"

definition DH_FILL :: u8 where
  "DH_FILL = 0xAB"

record dh_entry =
  de_user :: addr
  de_raw :: addr
  de_size :: u64
  de_freed :: bool

definition de_zero :: dh_entry where
  "de_zero = \<lparr>de_user = NULL, de_raw = NULL, de_size = 0, de_freed = False\<rparr>"

record hf_debug_report =
  dr_active_allocs :: u64
  dr_total_allocs :: u64
  dr_total_frees :: u64
  dr_canary_violations :: u64
  dr_double_frees :: u64
  dr_invalid_frees :: u64
  dr_leaked_blocks :: u64
  dr_leaked_bytes :: u64

datatype dh_event =
    Bug_head_canary addr u64
  | Bug_tail_canary addr u64
  | Bug_invalid_free addr
  | Bug_double_free addr
  | Bug_leak addr u64
  | Dbg_intact addr
  | Dbg_reclaimed addr
  | Dbg_returned addr

record 's dh_heap =
  dh_backend :: 's
  dh_table :: "dh_entry list"
  dh_count :: u64
  dh_rep :: hf_debug_report
  dh_mem :: "addr \<Rightarrow> u8"
  dh_log :: "dh_event list"

abbreviation dh_cap :: "'s dh_heap \<Rightarrow> u64" where
  "dh_cap h \<equiv> of_nat (length (dh_table h))"

definition dh_say :: "dh_event \<Rightarrow> 's dh_heap \<Rightarrow> 's dh_heap" where
  "dh_say ev h = h\<lparr>dh_log := dh_log h @ [ev]\<rparr>"


subsection \<open>Bytes\<close>

type_synonym bytes = "addr \<Rightarrow> u8"

definition load32 :: "bytes \<Rightarrow> addr \<Rightarrow> u32" where
  "load32 m a =
     ucast (m a) OR push_bit 8 (ucast (m (a + 1))) OR push_bit 16 (ucast (m (a + 2))) OR push_bit 24 (ucast (m (a + 3)))"

definition store32 :: "addr \<Rightarrow> u32 \<Rightarrow> bytes \<Rightarrow> bytes" where
  "store32 a v m =
     m(a := ucast v, a + 1 := ucast (drop_bit 8 v), a + 2 := ucast (drop_bit 16 v), a + 3 := ucast (drop_bit 24 v))"

definition store64 :: "addr \<Rightarrow> u64 \<Rightarrow> bytes \<Rightarrow> bytes" where
  "store64 a v m = store32 (a + 4) (ucast (drop_bit 32 v)) (store32 a (ucast v) m)"

definition memset :: "addr \<Rightarrow> u8 \<Rightarrow> u64 \<Rightarrow> bytes \<Rightarrow> bytes" where
  "memset a v n m = (\<lambda>x. if x - a < n then v else m x)"


subsection \<open>The layout of a block\<close>

definition DH_HEAD :: u64 where
  "DH_HEAD = 12"

definition DH_TAIL :: u64 where
  "DH_TAIL = 4"

definition head_canary :: "bytes \<Rightarrow> addr \<Rightarrow> u32" where
  "head_canary m raw = load32 m raw"

definition tail_canary :: "bytes \<Rightarrow> addr \<Rightarrow> u64 \<Rightarrow> u32" where
  "tail_canary m raw sz = load32 m (raw + DH_HEAD + sz)"


subsection \<open>The hash table\<close>

definition dh_hash :: "addr \<Rightarrow> u64 \<Rightarrow> u64" where
  "dh_hash p cap =
     (let x = p;
          x = x XOR drop_bit 33 x;
          x = x * 0xff51afd7ed558ccd;
          x = x XOR drop_bit 33 x
      in x AND (cap - 1))"

fun dh_find_loop :: "nat \<Rightarrow> dh_entry list \<Rightarrow> addr \<Rightarrow> u64 \<Rightarrow> nat option" where
  "dh_find_loop 0 T user i = None"
| "dh_find_loop (Suc n) T user i =
     (let e = T ! unat i
      in if de_user e = NULL \<and> \<not> de_freed e then None
         else if de_user e = user then Some (unat i)
         else dh_find_loop n T user ((i + 1) AND (of_nat (length T) - 1)))"

definition dh_find :: "'s dh_heap \<Rightarrow> addr \<Rightarrow> nat option" where
  "dh_find h user = dh_find_loop (length (dh_table h)) (dh_table h) user (dh_hash user (dh_cap h))"

text \<open>
  The insertion loop \<^verbatim>\<open>for (;;)\<close> comes back to its first slot after one round, so that a table without a
  usable slot keeps it running for ever: \<open>None\<close>.
\<close>

fun dh_slot_loop :: "nat \<Rightarrow> dh_entry list \<Rightarrow> addr \<Rightarrow> u64 \<Rightarrow> nat option" where
  "dh_slot_loop 0 T user i = None"
| "dh_slot_loop (Suc n) T user i =
     (let e = T ! unat i
      in if de_user e = NULL \<or> de_user e = user then Some (unat i)
         else dh_slot_loop n T user ((i + 1) AND (of_nat (length T) - 1)))"

definition dh_insert :: "'s dh_heap \<Rightarrow> addr \<Rightarrow> addr \<Rightarrow> u64 \<Rightarrow> 's dh_heap run" where
  "dh_insert h user raw sz =
     (case dh_slot_loop (length (dh_table h)) (dh_table h) user (dh_hash user (dh_cap h)) of
        None \<Rightarrow> None
      | Some i \<Rightarrow>
          let e = dh_table h ! i;
              h = (if de_user e = NULL \<and> \<not> de_freed e then h\<lparr>dh_count := dh_count h + 1\<rparr> else h);
              e = \<lparr>de_user = user, de_raw = raw, de_size = sz, de_freed = False\<rparr>
          in Some (Inr (h\<lparr>dh_table := (dh_table h)[i := e]\<rparr>)))"

text \<open>
  \<^verbatim>\<open>dh_rehash\<close> calls \<^verbatim>\<open>dh_put\<close> for every old entry, here its argument \<open>put\<close>.  The result of its \<^verbatim>\<open>calloc\<close> is not
  tested; the table is full enough to hold an entry, whose insertion then goes through a null pointer.
\<close>

fun dh_put_all :: "('s dh_heap \<Rightarrow> addr \<Rightarrow> addr \<Rightarrow> u64 \<Rightarrow> 's dh_heap run) \<Rightarrow> 's dh_heap \<Rightarrow> dh_entry list \<Rightarrow> 's dh_heap run" where
  "dh_put_all put h [] = Some (Inr h)"
| "dh_put_all put h (e # es) =
     (if de_user e \<noteq> NULL then run_bind (put h (de_user e) (de_raw e) (de_size e)) (\<lambda>h. dh_put_all put h es)
      else dh_put_all put h es)"

definition dh_rehash ::
    "(u64 \<Rightarrow> bool) \<Rightarrow> ('s dh_heap \<Rightarrow> addr \<Rightarrow> addr \<Rightarrow> u64 \<Rightarrow> 's dh_heap run) \<Rightarrow> 's dh_heap \<Rightarrow> u64 \<Rightarrow> 's dh_heap run" where
  "dh_rehash calloc_ok put h ncap =
     (let old = dh_table h
      in if \<not> calloc_ok ncap then Some (Inl Null_deref)
         else dh_put_all put (h\<lparr>dh_table := replicate (unat ncap) de_zero, dh_count := 0\<rparr>) old)"

text \<open>The first argument bounds the nesting of \<^verbatim>\<open>dh_put\<close> in \<^verbatim>\<open>dh_rehash\<close> in \<^verbatim>\<open>dh_put\<close>.\<close>

primrec dh_put_nested ::
    "nat \<Rightarrow> (u64 \<Rightarrow> bool) \<Rightarrow> 's dh_heap \<Rightarrow> addr \<Rightarrow> addr \<Rightarrow> u64 \<Rightarrow> 's dh_heap run" where
  "dh_put_nested 0 calloc_ok h user raw sz =
     (if (dh_count h + 1) * 10 \<ge> dh_cap h * 7 then None else dh_insert h user raw sz)"
| "dh_put_nested (Suc d) calloc_ok h user raw sz =
     (if (dh_count h + 1) * 10 \<ge> dh_cap h * 7 then
        run_bind (dh_rehash calloc_ok (dh_put_nested d calloc_ok) h (dh_cap h * 2)) (\<lambda>h. dh_insert h user raw sz)
      else dh_insert h user raw sz)"

definition dh_put :: "(u64 \<Rightarrow> bool) \<Rightarrow> 's dh_heap \<Rightarrow> addr \<Rightarrow> addr \<Rightarrow> u64 \<Rightarrow> 's dh_heap run" where
  "dh_put calloc_ok h user raw sz = dh_put_nested 1 calloc_ok h user raw sz"


subsection \<open>The operations\<close>

definition write_guards :: "addr \<Rightarrow> u64 \<Rightarrow> bytes \<Rightarrow> bytes" where
  "write_guards raw sz m = store32 (raw + DH_HEAD + sz) DH_CANARY (store64 (raw + 4) sz (store32 raw DH_CANARY m))"

definition dh_allocate ::
    "'s hf_allocator_vtable \<Rightarrow> (u64 \<Rightarrow> bool) \<Rightarrow> 's dh_heap \<Rightarrow> u64 \<Rightarrow> u64 \<Rightarrow> (addr option \<times> 's dh_heap) run" where
  "dh_allocate vt calloc_ok h sz alignment =
     (let request = DH_HEAD + sz + DH_TAIL;
          (r, b) = hf_allocate_aligned vt (dh_backend h) request alignment;
          h = h\<lparr>dh_backend := b\<rparr>
      in case r of
           None \<Rightarrow> Some (Inr (None, h))
         | Some raw \<Rightarrow>
             let user = raw + DH_HEAD;
                 h = h\<lparr>dh_mem := memset user DH_FILL sz (write_guards raw sz (dh_mem h))\<rparr>
             in run_bind (dh_put calloc_ok h user raw sz)
                  (\<lambda>h. let rep = dh_rep h;
                           rep = rep\<lparr>dr_total_allocs := dr_total_allocs rep + 1\<rparr>;
                           rep = rep\<lparr>dr_active_allocs := dr_active_allocs rep + 1\<rparr>
                       in Some (Inr (Some user, h\<lparr>dh_rep := rep\<rparr>))))"

text \<open>The canaries of a block whose \<open>raw\<close> pointer is null are read through it.\<close>

definition verify_block :: "'s dh_heap \<Rightarrow> addr \<Rightarrow> u64 \<Rightarrow> addr \<Rightarrow> (bool \<times> 's dh_heap) outcome" where
  "verify_block h raw sz user =
     (if raw = NULL then Inl Null_deref
      else let hd_ok = (head_canary (dh_mem h) raw = DH_CANARY);
               h = (if hd_ok then h else dh_say (Bug_head_canary user sz) h);
               tl_ok = (tail_canary (dh_mem h) raw sz = DH_CANARY);
               h = (if tl_ok then h else dh_say (Bug_tail_canary user sz) h)
           in if hd_ok \<and> tl_ok then Inr (True, h)
              else Inr (False, h\<lparr>dh_rep := (dh_rep h)\<lparr>dr_canary_violations := dr_canary_violations (dh_rep h) + 1\<rparr>\<rparr>))"

definition dh_deallocate :: "'s hf_allocator_vtable \<Rightarrow> 's dh_heap \<Rightarrow> addr \<Rightarrow> 's dh_heap outcome" where
  "dh_deallocate vt h ptr =
     (if ptr = NULL then Inr h
      else case dh_find h ptr of
        None \<Rightarrow>
          Inr (dh_say (Bug_invalid_free ptr)
            (h\<lparr>dh_rep := (dh_rep h)\<lparr>dr_invalid_frees := dr_invalid_frees (dh_rep h) + 1\<rparr>\<rparr>))
      | Some i \<Rightarrow>
          let e = dh_table h ! i
          in if de_freed e then
               Inr (dh_say (Bug_double_free ptr)
                 (h\<lparr>dh_rep := (dh_rep h)\<lparr>dr_double_frees := dr_double_frees (dh_rep h) + 1\<rparr>\<rparr>))
             else let raw = de_raw e; sz = de_size e
             in case verify_block h raw sz ptr of
                  Inl err \<Rightarrow> Inl err
                | Inr (ok, h) \<Rightarrow>
                    let h = dh_say (if ok then Dbg_intact ptr else Dbg_reclaimed ptr) h;
                        h = h\<lparr>dh_mem := memset ptr DH_POISON sz (dh_mem h)\<rparr>;
                        h = h\<lparr>dh_table := (dh_table h)[i := e\<lparr>de_freed := True, de_raw := NULL\<rparr>]\<rparr>;
                        rep = dh_rep h;
                        rep = rep\<lparr>dr_total_frees := dr_total_frees rep + 1\<rparr>;
                        rep = rep\<lparr>dr_active_allocs := dr_active_allocs rep - 1\<rparr>;
                        h = h\<lparr>dh_rep := rep\<rparr>
                    in case hf_deallocate vt (dh_backend h) raw of
                         Inl err \<Rightarrow> Inl err
                       | Inr b \<Rightarrow> Inr (h\<lparr>dh_backend := b\<rparr>))"

definition de_leaked :: "dh_entry \<Rightarrow> bool" where
  "de_leaked e \<longleftrightarrow> de_user e \<noteq> NULL \<and> \<not> de_freed e \<and> de_raw e \<noteq> NULL"

fun dh_check_loop :: "'s dh_heap \<Rightarrow> dh_entry list \<Rightarrow> u64 \<Rightarrow> (u64 \<times> 's dh_heap) outcome" where
  "dh_check_loop h [] bad = Inr (bad, h)"
| "dh_check_loop h (e # es) bad =
     (if de_leaked e then
        case verify_block h (de_raw e) (de_size e) (de_user e) of
          Inl err \<Rightarrow> Inl err
        | Inr (ok, h) \<Rightarrow> dh_check_loop h es (if ok then bad else bad + 1)
      else dh_check_loop h es bad)"

definition hf_debug_heap_check :: "'s dh_heap \<Rightarrow> (u64 \<times> 's dh_heap) outcome" where
  "hf_debug_heap_check h = dh_check_loop h (dh_table h) 0"

definition dh_name :: "'s dh_heap \<Rightarrow> string" where
  "dh_name h = ''DebugHeap''"

definition dh_get_stats :: "'s hf_allocator_vtable \<Rightarrow> 's dh_heap \<Rightarrow> hf_stats" where
  "dh_get_stats vt h = hf_get_stats vt (dh_backend h)"

definition dh_walk :: "'s hf_allocator_vtable \<Rightarrow> 's dh_heap \<Rightarrow> hf_block_info list" where
  "dh_walk vt h = hf_walk vt (dh_backend h)"

definition hf_debug_heap_report :: "'s dh_heap \<Rightarrow> hf_debug_report" where
  "hf_debug_heap_report h =
     fold (\<lambda>e out.
         if de_leaked e then
           out\<lparr>dr_leaked_blocks := dr_leaked_blocks out + 1, dr_leaked_bytes := dr_leaked_bytes out + de_size e\<rparr>
         else out)
       (dh_table h) ((dh_rep h)\<lparr>dr_leaked_blocks := 0, dr_leaked_bytes := 0\<rparr>)"

text \<open>What remains when the heap is destroyed: the decorated allocator and the messages.\<close>

fun dh_reclaim :: "'s hf_allocator_vtable \<Rightarrow> 's \<Rightarrow> dh_event list \<Rightarrow> dh_entry list \<Rightarrow> ('s \<times> dh_event list) outcome" where
  "dh_reclaim vt b log [] = Inr (b, log)"
| "dh_reclaim vt b log (e # es) =
     (if de_leaked e then
        case hf_deallocate vt b (de_raw e) of
          Inl err \<Rightarrow> Inl err
        | Inr b \<Rightarrow> dh_reclaim vt b (log @ [Bug_leak (de_user e) (de_size e), Dbg_returned (de_user e)]) es
      else dh_reclaim vt b log es)"

definition dh_destroy :: "'s hf_allocator_vtable \<Rightarrow> 's dh_heap \<Rightarrow> ('s \<times> dh_event list) outcome" where
  "dh_destroy vt h = dh_reclaim vt (dh_backend h) (dh_log h) (dh_table h)"

definition dr_zero :: hf_debug_report where
  "dr_zero = \<lparr>dr_active_allocs = 0, dr_total_allocs = 0, dr_total_frees = 0, dr_canary_violations = 0,
     dr_double_frees = 0, dr_invalid_frees = 0, dr_leaked_blocks = 0, dr_leaked_bytes = 0\<rparr>"

definition hf_debug_heap_create :: "os_services \<Rightarrow> bytes \<Rightarrow> 's option \<Rightarrow> 's dh_heap option" where
  "hf_debug_heap_create os mem backend =
     (case backend of
        None \<Rightarrow> None
      | Some b \<Rightarrow>
          if \<not> os_calloc os 0 then None
          else if \<not> os_calloc os 1 then None
          else Some \<lparr>dh_backend = b, dh_table = replicate 64 de_zero, dh_count = 0, dh_rep = dr_zero, dh_mem = mem, dh_log = []\<rparr>)"

end
