(* ===== verification/HF_Debug_Table.thy ===== *)
theory HF_Debug_Table
  imports HF_Debug_Heap
begin

text \<open>
  The hash table of the debugging heap: an invariant of open addressing with linear probing, and the
  finite map the table stands for.  \<^verbatim>\<open>dh_find\<close> looks up the map, \<^verbatim>\<open>dh_put\<close> updates it and always ends, and
  \<^verbatim>\<open>dh_rehash\<close> keeps it except that it forgets which blocks were released.
\<close>

subsection \<open>Probe sequences\<close>

definition dh_start :: "dh_entry list \<Rightarrow> addr \<Rightarrow> nat" where
  "dh_start T u = unat (dh_hash u (of_nat (length T)))"

definition probe :: "dh_entry list \<Rightarrow> addr \<Rightarrow> nat \<Rightarrow> nat" where
  "probe T u j = (dh_start T u + j) mod length T"

definition pow2_len :: "dh_entry list \<Rightarrow> bool" where
  "pow2_len T \<longleftrightarrow> (\<exists>k. 6 \<le> k \<and> k < 60 \<and> length T = 2 ^ k)"

lemma and_len_mask:
  assumes "pow2_len T"
  shows "unat ((x :: u64) AND (of_nat (length T) - 1)) = unat x mod length T"
proof -
  obtain k where k: "length T = 2 ^ k" using assms by (auto simp: pow2_len_def)
  have "(of_nat (length T) - 1 :: u64) = mask k" by (simp add: k mask_eq_exp_minus_1)
  then have "x AND (of_nat (length T) - 1) = take_bit k x" by (simp add: take_bit_eq_mask)
  then have "unat (x AND (of_nat (length T) - 1)) = take_bit k (unat x)" by (simp only: unsigned_take_bit_eq)
  then show ?thesis by (simp only: k take_bit_eq_mod)
qed

lemma pow2_len_pos: "pow2_len T \<Longrightarrow> 0 < length T"
  by (auto simp: pow2_len_def)

lemma pow2_len_bounds: "pow2_len T \<Longrightarrow> 64 \<le> length T \<and> length T < 2 ^ 60"
proof -
  assume "pow2_len T"
  then obtain k where k: "6 \<le> k" "k < 60" "length T = 2 ^ k" by (auto simp: pow2_len_def)
  have "(2 :: nat) ^ 6 \<le> 2 ^ k" "(2 :: nat) ^ k < 2 ^ 60" using k by (intro power_increasing power_strict_increasing; simp)+
  then show ?thesis using k by simp
qed

lemma dh_start_lt: "pow2_len T \<Longrightarrow> dh_start T u < length T"
  using and_len_mask [of T] pow2_len_pos [of T] by (simp add: dh_start_def dh_hash_def Let_def)

lemma probe_lt: "pow2_len T \<Longrightarrow> probe T u j < length T"
  using pow2_len_pos [of T] by (simp add: probe_def)

lemma probe_0: "pow2_len T \<Longrightarrow> probe T u 0 = unat (dh_hash u (of_nat (length T)))"
  using dh_start_lt [of T u] by (simp add: probe_def dh_start_def)

lemma probe_Suc:
  assumes "pow2_len T" and "unat i = probe T u j"
  shows "unat ((i + 1 :: u64) AND (of_nat (length T) - 1)) = probe T u (Suc j)"
proof -
  have "unat i < 2 ^ 60" using probe_lt [OF assms(1), of u j] pow2_len_bounds [OF assms(1)] assms(2) by simp
  then have "unat (i + 1) = unat i + 1" by (subst unat_add_nowrap) simp_all
  then show ?thesis using assms by (simp add: and_len_mask probe_def mod_Suc_eq)
qed

lemma probe_reaches:
  assumes "pow2_len T" and "i < length T"
  obtains j where "j < length T" and "probe T u j = i"
proof -
  let ?n = "length T" and ?s = "dh_start T u"
  have s: "?s < ?n" by (rule dh_start_lt [OF assms(1)])
  show ?thesis
  proof (cases "?s \<le> i")
    case True
    then show ?thesis using that [of "i - ?s"] assms(2) by (simp add: probe_def)
  next
    case False
    then have "?s + (?n - ?s + i) = ?n + i" using s by simp
    then have "probe T u (?n - ?s + i) = i" using assms(2) by (simp add: probe_def)
    moreover have "?n - ?s + i < ?n" using False s by simp
    ultimately show ?thesis using that by blast
  qed
qed

text \<open>The two loops, started at the \<open>j\<close>-th probe.\<close>

lemma find_loop_hit:
  assumes T: "pow2_len T" and u: "u \<noteq> NULL"
  shows "unat i = probe T u j \<Longrightarrow> d < m \<Longrightarrow> de_user (T ! probe T u (j + d)) = u \<Longrightarrow>
    (\<forall>d' < d. de_user (T ! probe T u (j + d')) \<noteq> NULL \<and> de_user (T ! probe T u (j + d')) \<noteq> u) \<Longrightarrow>
    dh_find_loop m T u i = Some (probe T u (j + d))"
proof (induction m arbitrary: i j d)
  case (Suc m)
  show ?case
  proof (cases d)
    case 0
    then show ?thesis using Suc.prems u by (simp add: Let_def)
  next
    case (Suc d')
    then show ?thesis
      using Suc.prems Suc.IH [OF probe_Suc [OF T Suc.prems(1)], of d'] by (simp add: Let_def All_less_Suc2)
  qed
qed simp

lemma slot_loop_hit:
  assumes T: "pow2_len T"
  shows "unat i = probe T u j \<Longrightarrow> d < m \<Longrightarrow> de_user (T ! probe T u (j + d)) = NULL \<or> de_user (T ! probe T u (j + d)) = u \<Longrightarrow>
    (\<forall>d' < d. de_user (T ! probe T u (j + d')) \<noteq> NULL \<and> de_user (T ! probe T u (j + d')) \<noteq> u) \<Longrightarrow>
    dh_slot_loop m T u i = Some (probe T u (j + d))"
proof (induction m arbitrary: i j d)
  case (Suc m)
  show ?case
  proof (cases d)
    case 0
    then show ?thesis using Suc.prems by (simp add: Let_def)
  next
    case (Suc d')
    then show ?thesis
      using Suc.prems Suc.IH [OF probe_Suc [OF T Suc.prems(1)], of d'] by (simp add: Let_def All_less_Suc2)
  qed
qed simp

lemma find_loop_miss:
  assumes T: "pow2_len T" and "\<forall>i < length T. de_user (T ! i) \<noteq> u"
  shows "unat i < length T \<Longrightarrow> dh_find_loop m T u i = None"
proof (induction m arbitrary: i)
  case (Suc m)
  have "unat ((i + 1) AND (of_nat (length T) - 1)) < length T" using pow2_len_pos [OF T] by (simp add: and_len_mask [OF T])
  then show ?case using Suc assms(2) by (simp add: Let_def)
qed simp


subsection \<open>The invariant and the map\<close>

text \<open>\<open>settled_at\<close>: the entry of slot \<open>i\<close> is found on its probe sequence before any empty slot.\<close>

definition settled_at :: "dh_entry list \<Rightarrow> addr \<Rightarrow> nat \<Rightarrow> bool" where
  "settled_at T u i \<longleftrightarrow>
     (\<exists>j < length T. probe T u j = i \<and>
        (\<forall>j' < j. de_user (T ! probe T u j') \<noteq> NULL \<and> de_user (T ! probe T u j') \<noteq> u))"

definition entry_ok :: "dh_entry \<Rightarrow> bool" where
  "entry_ok e \<longleftrightarrow> (de_freed e \<longrightarrow> de_user e \<noteq> NULL \<and> de_raw e = NULL)"

definition tab_ok :: "dh_entry list \<Rightarrow> bool" where
  "tab_ok T \<longleftrightarrow> pow2_len T \<and> (\<forall>e \<in> set T. entry_ok e) \<and>
     (\<forall>i < length T. de_user (T ! i) \<noteq> NULL \<longrightarrow> settled_at T (de_user (T ! i)) i)"

definition used_slots :: "dh_entry list \<Rightarrow> nat" where
  "used_slots T = card {i. i < length T \<and> de_user (T ! i) \<noteq> NULL}"

definition dh_map :: "dh_entry list \<Rightarrow> addr \<rightharpoonup> dh_entry" where
  "dh_map T = map_of (map (\<lambda>e. (de_user e, e)) (filter (\<lambda>e. de_user e \<noteq> NULL) T))"

lemma tab_okD:
  assumes "tab_ok T"
  shows "pow2_len T" and "e \<in> set T \<Longrightarrow> entry_ok e"
    and "i < length T \<Longrightarrow> de_user (T ! i) \<noteq> NULL \<Longrightarrow> settled_at T (de_user (T ! i)) i"
  using assms by (auto simp: tab_ok_def)

lemma settled_unique:
  assumes "settled_at T u i" and "settled_at T u i'" and "de_user (T ! i) = u" and "de_user (T ! i') = u"
  shows "i = i'"
proof -
  obtain j where j: "probe T u j = i" "\<forall>j' < j. de_user (T ! probe T u j') \<noteq> u" using assms(1) by (auto simp: settled_at_def)
  obtain k where k: "probe T u k = i'" "\<forall>j' < k. de_user (T ! probe T u j') \<noteq> u" using assms(2) by (auto simp: settled_at_def)
  have "j = k" using j k assms(3,4) by (metis linorder_neqE_nat)
  then show ?thesis using j k by simp
qed

lemma tab_unique:
  assumes "tab_ok T" and "i < length T" "i' < length T" and "de_user (T ! i) = de_user (T ! i')" "de_user (T ! i) \<noteq> NULL"
  shows "i = i'"
  using tab_okD(3) [OF assms(1,2,5)] tab_okD(3) [OF assms(1,3), folded assms(4), OF assms(5)] refl assms(4) [symmetric]
  by (rule settled_unique)

lemma dh_map_iff:
  assumes "tab_ok T"
  shows "dh_map T u = Some e \<longleftrightarrow> u \<noteq> NULL \<and> (\<exists>i < length T. T ! i = e \<and> de_user e = u)"
proof -
  have "dh_map T u = Some e \<longleftrightarrow> (u, e) \<in> set (map (\<lambda>e. (de_user e, e)) (filter (\<lambda>e. de_user e \<noteq> NULL) T))"
    unfolding dh_map_def
  proof (rule map_of_functional)
    fix v w assume "(u, v) \<in> set (map (\<lambda>e. (de_user e, e)) (filter (\<lambda>e. de_user e \<noteq> NULL) T))"
      and "(u, w) \<in> set (map (\<lambda>e. (de_user e, e)) (filter (\<lambda>e. de_user e \<noteq> NULL) T))"
    then show "v = w" using tab_unique [OF assms] by (auto simp: in_set_conv_nth)
  qed
  then show ?thesis by (auto simp: in_set_conv_nth)
qed

lemma dh_map_slot: "tab_ok T \<Longrightarrow> i < length T \<Longrightarrow> de_user (T ! i) \<noteq> NULL \<Longrightarrow> dh_map T (de_user (T ! i)) = Some (T ! i)"
  unfolding dh_map_iff by blast

lemma dh_map_None: "tab_ok T \<Longrightarrow> u \<noteq> NULL \<Longrightarrow> dh_map T u = None \<longleftrightarrow> (\<forall>i < length T. de_user (T ! i) \<noteq> u)"
  unfolding not_Some_eq [symmetric] dh_map_iff by blast

lemma dh_find_map:
  assumes ok: "tab_ok (dh_table h)" and u: "u \<noteq> NULL"
  shows "case dh_find h u of
      None \<Rightarrow> dh_map (dh_table h) u = None
    | Some i \<Rightarrow> i < length (dh_table h) \<and> de_user (dh_table h ! i) = u \<and> dh_map (dh_table h) u = Some (dh_table h ! i)"
proof -
  let ?T = "dh_table h"
  note T = tab_okD(1) [OF ok]
  show ?thesis
  proof (cases "dh_map ?T u")
    case None
    then have "\<forall>i < length ?T. de_user (?T ! i) \<noteq> u" using dh_map_None [OF ok u] by simp
    then have "dh_find h u = None"
      unfolding dh_find_def using T probe_lt [OF T, of u 0] by (intro find_loop_miss) (simp_all add: probe_0)
    then show ?thesis using None by simp
  next
    case (Some e)
    then obtain i where i: "i < length ?T" "?T ! i = e" "de_user e = u" using dh_map_iff [OF ok] by blast
    then obtain j where j: "j < length ?T" "probe ?T u j = i"
      "\<forall>j' < j. de_user (?T ! probe ?T u j') \<noteq> NULL \<and> de_user (?T ! probe ?T u j') \<noteq> u"
      using tab_okD(3) [OF ok i(1)] u by (auto simp: settled_at_def)
    have "dh_find h u = Some (probe ?T u (0 + j))"
      unfolding dh_find_def using j i by (intro find_loop_hit [OF T u]) (simp_all add: probe_0 [OF T])
    then show ?thesis using i j Some by simp
  qed
qed


subsection \<open>Updates of a slot\<close>

lemma probe_cong: "length T' = length T \<Longrightarrow> probe T' = probe T"
  by (simp add: probe_def dh_start_def fun_eq_iff)

lemma tab_same_users:
  assumes ok: "tab_ok T" and i: "i < length T" and u: "de_user (T ! i) = de_user e" and e: "entry_ok e"
  shows "tab_ok (T[i := e])" and "used_slots (T[i := e]) = used_slots T"
proof -
  have us: "de_user (T[i := e] ! k) = de_user (T ! k)" for k using u i by (cases "k = i") simp_all
  note p = probe_cong [of "T[i := e]" T, simplified]
  show "tab_ok (T[i := e])"
    using ok e by (auto simp: tab_ok_def settled_at_def us p pow2_len_def dest!: set_update_subset_insert [THEN subsetD])
  show "used_slots (T[i := e]) = used_slots T" by (simp add: used_slots_def us)
qed

lemma tab_new_user:
  assumes ok: "tab_ok T" and u: "de_user e \<noteq> NULL" and e: "entry_ok e" and new: "\<forall>k < length T. de_user (T ! k) \<noteq> de_user e"
    and j: "j < length T" "de_user (T ! probe T (de_user e) j) = NULL"
      "\<forall>j' < j. de_user (T ! probe T (de_user e) j') \<noteq> NULL"
  defines "i \<equiv> probe T (de_user e) j"
  shows "tab_ok (T[i := e])" and "used_slots (T[i := e]) = Suc (used_slots T)"
proof -
  note T = tab_okD(1) [OF ok] and p = probe_cong [of "T[i := e]" T, simplified]
  have i: "i < length T" unfolding i_def by (rule probe_lt [OF T])
  have us: "de_user (T[i := e] ! k) = (if k = i then de_user e else de_user (T ! k))" for k using i by simp
  have "settled_at (T[i := e]) (de_user (T ! k)) k" if k: "k < length T" "de_user (T ! k) \<noteq> NULL" for k
  proof -
    obtain m where m: "m < length T" "probe T (de_user (T ! k)) m = k"
      "\<forall>m' < m. de_user (T ! probe T (de_user (T ! k)) m') \<noteq> NULL \<and> de_user (T ! probe T (de_user (T ! k)) m') \<noteq> de_user (T ! k)"
      using tab_okD(3) [OF ok k] by (auto simp: settled_at_def)
    moreover have "probe T (de_user (T ! k)) m' \<noteq> i" if "m' < m" for m' using m(3) that j(2) unfolding i_def by metis
    ultimately show ?thesis unfolding settled_at_def p us by auto
  qed
  moreover have "settled_at (T[i := e]) (de_user e) i"
  proof -
    have "probe T (de_user e) j' \<noteq> i \<and> de_user (T ! probe T (de_user e) j') \<noteq> de_user e" if "j' < j" for j'
      using j(2,3) that new probe_lt [OF T] unfolding i_def by metis
    then show ?thesis unfolding settled_at_def p us using j(1,3) by (intro exI [of _ j]) (simp add: i_def)
  qed
  moreover have "entry_ok d" if "d \<in> set (T[i := e])" for d
    using that e tab_okD(2) [OF ok] set_update_subset_insert [of T i e] by blast
  ultimately show "tab_ok (T[i := e])" using T by (auto simp: tab_ok_def us pow2_len_def)
  have "{k. k < length (T[i := e]) \<and> de_user (T[i := e] ! k) \<noteq> NULL} = insert i {k. k < length T \<and> de_user (T ! k) \<noteq> NULL}"
    using i u by (auto simp: us)
  moreover have "i \<notin> {k. k < length T \<and> de_user (T ! k) \<noteq> NULL}" using j(2) by (simp add: i_def)
  ultimately show "used_slots (T[i := e]) = Suc (used_slots T)" unfolding used_slots_def by simp
qed

lemma dh_map_upd:
  assumes ok: "tab_ok T" "tab_ok (T[i := e])" and i: "i < length T" and u: "de_user e \<noteq> NULL"
    and old: "de_user (T ! i) = NULL \<or> de_user (T ! i) = de_user e"
  shows "dh_map (T[i := e]) = (dh_map T)(de_user e \<mapsto> e)"
proof (rule map_eqI)
  fix k v
  have "dh_map (T[i := e]) (de_user e) = Some e" using dh_map_slot [OF ok(2), of i] i u by simp
  moreover have "dh_map (T[i := e]) k = Some v \<longleftrightarrow> dh_map T k = Some v" if "k \<noteq> de_user e"
    unfolding dh_map_iff [OF ok(1)] dh_map_iff [OF ok(2)] using that old i by (auto simp: nth_list_update)
  ultimately show "dh_map (T[i := e]) k = Some v \<longleftrightarrow> ((dh_map T)(de_user e \<mapsto> e)) k = Some v" by (cases "k = de_user e") auto
qed


subsection \<open>Insertion\<close>

definition dh_count_ok :: "'s dh_heap \<Rightarrow> bool" where
  "dh_count_ok h \<longleftrightarrow> tab_ok (dh_table h) \<and> unat (dh_count h) = used_slots (dh_table h)"

definition new_entry :: "addr \<Rightarrow> addr \<Rightarrow> u64 \<Rightarrow> dh_entry" where
  "new_entry user raw sz = \<lparr>de_user = user, de_raw = raw, de_size = sz, de_freed = False\<rparr>"

text \<open>The table code touches only the table and its counter.\<close>

definition same_but_table :: "'s dh_heap \<Rightarrow> 's dh_heap \<Rightarrow> bool" where
  "same_but_table h h' \<longleftrightarrow> dh_backend h' = dh_backend h \<and> dh_rep h' = dh_rep h \<and> dh_mem h' = dh_mem h \<and> dh_log h' = dh_log h"

lemma same_but_table_trans: "same_but_table a b \<Longrightarrow> same_but_table b c \<Longrightarrow> same_but_table a c"
  by (simp add: same_but_table_def)

lemma used_slots_le: "used_slots T \<le> length T"
  unfolding used_slots_def using card_mono [of "{..<length T}" "{i. i < length T \<and> de_user (T ! i) \<noteq> NULL}"] by auto

lemma empty_slot:
  assumes "used_slots T < length T"
  obtains i where "i < length T" and "de_user (T ! i) = NULL"
proof -
  have "{i. i < length T \<and> de_user (T ! i) \<noteq> NULL} \<noteq> {..<length T}" using assms unfolding used_slots_def by (metis card_lessThan less_irrefl)
  then show ?thesis using that by blast
qed

lemma slot_found:
  assumes ok: "tab_ok T" and u: "u \<noteq> NULL" and room: "used_slots T < length T"
  obtains i j where "dh_slot_loop (length T) T u (dh_hash u (of_nat (length T))) = Some i" and "i < length T"
    and "de_user (T ! i) = u \<and> dh_map T u \<noteq> None \<or>
      dh_map T u = None \<and> i = probe T u j \<and> j < length T \<and> de_user (T ! i) = NULL \<and> (\<forall>j' < j. de_user (T ! probe T u j') \<noteq> NULL)"
proof -
  note T = tab_okD(1) [OF ok]
  let ?P = "\<lambda>j. de_user (T ! probe T u j) = NULL \<or> de_user (T ! probe T u j) = u"
  obtain e where "e < length T" "de_user (T ! e) = NULL" using room by (rule empty_slot)
  then obtain j0 where j0: "j0 < length T" "?P j0" using probe_reaches [OF T, of e u] by metis
  define j where "j = (LEAST j. ?P j)"
  have j: "?P j" "j \<le> j0" unfolding j_def using LeastI [of ?P j0] Least_le [of ?P j0] j0(2) by blast+
  have before: "\<forall>j' < j. de_user (T ! probe T u j') \<noteq> NULL \<and> de_user (T ! probe T u j') \<noteq> u"
    using not_less_Least [of _ ?P] unfolding j_def by blast
  have jl: "j < length T" using j(2) j0(1) by simp
  have sl: "dh_slot_loop (length T) T u (dh_hash u (of_nat (length T))) = Some (probe T u (0 + j))"
    using jl j before by (intro slot_loop_hit [OF T]) (simp_all add: probe_0 [OF T])
  have i: "probe T u j < length T" by (rule probe_lt [OF T])
  show ?thesis
  proof (cases "de_user (T ! probe T u j) = u")
    case True
    then have "dh_map T u \<noteq> None" using dh_map_slot [OF ok i] u by simp
    then show ?thesis using that [of "probe T u j" j] sl i True by simp
  next
    case False
    then have null: "de_user (T ! probe T u j) = NULL" using j(1) by simp
    have "dh_map T u = None"
    proof (rule ccontr)
      assume "dh_map T u \<noteq> None"
      then obtain k where k: "k < length T" "de_user (T ! k) = u" unfolding dh_map_None [OF ok u] by blast
      then obtain m where m: "probe T u m = k" "\<forall>m' < m. de_user (T ! probe T u m') \<noteq> NULL"
        using tab_okD(3) [OF ok k(1)] u by (auto simp: settled_at_def)
      have "\<not> m < j" using before m(1) k(2) by blast
      moreover have "\<not> j < m" using m(2) null by blast
      ultimately show False using False m(1) k(2) by simp
    qed
    then show ?thesis using that [of "probe T u j" j] sl i null jl before by simp
  qed
qed

lemma dh_insert_spec:
  assumes ok: "dh_count_ok h" and u: "u \<noteq> NULL" and room: "used_slots (dh_table h) < length (dh_table h)"
  obtains h' where "dh_insert h u r n = Some (Inr h')" and "dh_count_ok h'" and "same_but_table h h'"
    and "dh_map (dh_table h') = (dh_map (dh_table h))(u \<mapsto> new_entry u r n)" and "length (dh_table h') = length (dh_table h)"
    and "used_slots (dh_table h') = used_slots (dh_table h) + (if dh_map (dh_table h) u = None then 1 else 0)"
proof -
  let ?T = "dh_table h" and ?e = "new_entry u r n"
  have tab: "tab_ok ?T" and cnt: "unat (dh_count h) = used_slots ?T" using ok by (simp_all add: dh_count_ok_def)
  have e: "entry_ok ?e" "de_user ?e = u" by (simp_all add: entry_ok_def new_entry_def)
  have "unat (dh_count h) < 2 ^ 60" using cnt used_slots_le [of ?T] pow2_len_bounds [OF tab_okD(1) [OF tab]] by simp
  then have up: "unat (dh_count h + 1) = Suc (used_slots ?T)" using cnt by (subst unat_add_nowrap) simp_all
  obtain i j where i: "dh_slot_loop (length ?T) ?T u (dh_hash u (of_nat (length ?T))) = Some i" "i < length ?T"
    and alt: "de_user (?T ! i) = u \<and> dh_map ?T u \<noteq> None \<or>
      dh_map ?T u = None \<and> i = probe ?T u j \<and> j < length ?T \<and> de_user (?T ! i) = NULL \<and> (\<forall>j' < j. de_user (?T ! probe ?T u j') \<noteq> NULL)"
    by (rule slot_found [OF tab u room])
  have nf: "\<not> de_freed (?T ! i)" if "de_user (?T ! i) = NULL" using tab_okD(2) [OF tab nth_mem [OF i(2)]] that by (simp add: entry_ok_def)
  have ins: "dh_insert h u r n = Some (Inr (h\<lparr>dh_count := dh_count h + (if de_user (?T ! i) = NULL then 1 else 0), dh_table := ?T[i := ?e]\<rparr>))"
    using i nf by (simp add: dh_insert_def Let_def new_entry_def)
  from alt have "tab_ok (?T[i := ?e]) \<and> used_slots (?T[i := ?e]) = used_slots ?T + (if dh_map ?T u = None then 1 else 0) \<and>
    (de_user (?T ! i) = NULL \<longleftrightarrow> dh_map ?T u = None)"
  proof
    assume "de_user (?T ! i) = u \<and> dh_map ?T u \<noteq> None"
    then show ?thesis using tab_same_users [OF tab i(2), of ?e] e u by auto
  next
    assume a: "dh_map ?T u = None \<and> i = probe ?T u j \<and> j < length ?T \<and> de_user (?T ! i) = NULL \<and> (\<forall>j' < j. de_user (?T ! probe ?T u j') \<noteq> NULL)"
    then have "\<forall>k < length ?T. de_user (?T ! k) \<noteq> de_user ?e" "de_user (?T ! probe ?T (de_user ?e) j) = NULL"
      "\<forall>j' < j. de_user (?T ! probe ?T (de_user ?e) j') \<noteq> NULL" unfolding e(2) dh_map_None [OF tab u] by blast+
    from tab_new_user [OF tab _ e(1) this(1) _ this(2,3)] show ?thesis using a e(2) u by auto
  qed
  then have new: "tab_ok (?T[i := ?e])" "used_slots (?T[i := ?e]) = used_slots ?T + (if dh_map ?T u = None then 1 else 0)"
    "de_user (?T ! i) = NULL \<longleftrightarrow> dh_map ?T u = None" by blast+
  have map: "dh_map (?T[i := ?e]) = (dh_map ?T)(u \<mapsto> ?e)"
    using dh_map_upd [OF tab new(1) i(2)] alt e u by auto
  show ?thesis
    by (rule that [OF ins]) (simp_all add: dh_count_ok_def same_but_table_def new map up cnt)
qed


subsection \<open>Growing the table\<close>

text \<open>What \<^verbatim>\<open>dh_rehash\<close> makes of an entry: the released mark is lost.\<close>

definition revive :: "dh_entry \<Rightarrow> dh_entry" where
  "revive e = e\<lparr>de_freed := False\<rparr>"

lemma new_entry_revive: "new_entry (de_user e) (de_raw e) (de_size e) = revive e"
  by (simp add: new_entry_def revive_def)

abbreviation occupied :: "dh_entry list \<Rightarrow> dh_entry list" where
  "occupied T \<equiv> filter (\<lambda>e. de_user e \<noteq> NULL) T"

lemma used_slots_occupied: "used_slots T = length (occupied T)"
  by (simp add: used_slots_def length_filter_conv_card)

lemma occupied_distinct:
  "(\<forall>i < length T. \<forall>j < length T. de_user (T ! i) \<noteq> NULL \<longrightarrow> de_user (T ! i) = de_user (T ! j) \<longrightarrow> i = j) \<Longrightarrow>
   distinct (map de_user (occupied T))"
proof (induction T)
  case (Cons a T)
  have "\<forall>i < length T. \<forall>j < length T. de_user (T ! i) \<noteq> NULL \<longrightarrow> de_user (T ! i) = de_user (T ! j) \<longrightarrow> i = j"
    using Cons.prems by (metis Suc_less_eq length_Cons nat.inject nth_Cons_Suc)
  moreover have "de_user a \<notin> de_user ` set (occupied T)" if "de_user a \<noteq> NULL"
  proof
    assume "de_user a \<in> de_user ` set (occupied T)"
    then obtain j where "j < length T" "de_user (T ! j) = de_user a" by (auto simp: in_set_conv_nth)
    then show False using Cons.prems [rule_format, of 0 "Suc j"] that by simp
  qed
  ultimately show ?case using Cons.IH by simp
qed simp

lemma no_rehash:
  assumes ok: "dh_count_ok h" and room: "(used_slots (dh_table h) + 1) * 10 < length (dh_table h) * 7"
  shows "dh_put_nested d calloc_ok h u r n = dh_insert h u r n"
proof -
  have tab: "tab_ok (dh_table h)" and cnt: "unat (dh_count h) = used_slots (dh_table h)" using ok by (simp_all add: dh_count_ok_def)
  have l: "length (dh_table h) < 2 ^ 60" using pow2_len_bounds [OF tab_okD(1) [OF tab]] by simp
  then have cap: "unat (dh_cap h * 7) = length (dh_table h) * 7"
    by (subst unat_mult_nowrap) (simp_all add: unat_of_nat_small)
  have c: "unat (dh_count h + 1) = used_slots (dh_table h) + 1" using cnt l used_slots_le [of "dh_table h"] by (subst unat_add_nowrap) simp_all
  then have "unat ((dh_count h + 1) * 10) = (used_slots (dh_table h) + 1) * 10"
    using l used_slots_le [of "dh_table h"] by (subst unat_mult_nowrap) simp_all
  then have "\<not> (dh_count h + 1) * 10 \<ge> dh_cap h * 7" using cap room by (simp add: word_le_nat_alt)
  then show ?thesis by (cases d) simp_all
qed

lemma put_all_spec:
  "dh_count_ok h \<Longrightarrow> distinct (map de_user (occupied es)) \<Longrightarrow> \<forall>e \<in> set (occupied es). dh_map (dh_table h) (de_user e) = None \<Longrightarrow>
   (used_slots (dh_table h) + length (occupied es)) * 10 < length (dh_table h) * 7 \<Longrightarrow>
   \<exists>h'. dh_put_all (dh_put_nested d calloc_ok) h es = Some (Inr h') \<and> dh_count_ok h' \<and> same_but_table h h' \<and>
     length (dh_table h') = length (dh_table h) \<and> used_slots (dh_table h') = used_slots (dh_table h) + length (occupied es) \<and>
     dh_map (dh_table h') = dh_map (dh_table h) ++ (map_option revive \<circ> dh_map es)"
proof (induction es arbitrary: h)
  case Nil
  then show ?case by (simp add: dh_map_def same_but_table_def comp_def map_add_def)
next
  case (Cons e es)
  show ?case
  proof (cases "de_user e = NULL")
    case True
    then show ?thesis using Cons by (simp add: dh_map_def)
  next
    case False
    let ?T = "dh_table h"
    have room: "(used_slots ?T + 1) * 10 < length ?T * 7" using Cons.prems(4) False by simp
    obtain h1 where h1: "dh_insert h (de_user e) (de_raw e) (de_size e) = Some (Inr h1)" "dh_count_ok h1" "same_but_table h h1"
      "dh_map (dh_table h1) = (dh_map ?T)(de_user e \<mapsto> new_entry (de_user e) (de_raw e) (de_size e))"
      "length (dh_table h1) = length ?T" "used_slots (dh_table h1) = used_slots ?T + (if dh_map ?T (de_user e) = None then 1 else 0)"
      by (rule dh_insert_spec [OF Cons.prems(1) False]) (use room in simp)
    have fresh: "dh_map ?T (de_user e) = None" using Cons.prems(3) False by simp
    have notin: "dh_map es (de_user e) = None"
      using Cons.prems(2) False by (auto simp: dh_map_def map_of_eq_None_iff image_iff)
    have "\<forall>d \<in> set (occupied es). dh_map (dh_table h1) (de_user d) = None"
      using Cons.prems(2,3) False unfolding h1(4) by (auto simp: image_iff)
    moreover have "distinct (map de_user (occupied es))" using Cons.prems(2) False by simp
    moreover have "(used_slots (dh_table h1) + length (occupied es)) * 10 < length (dh_table h1) * 7"
      using Cons.prems(4) False h1(5,6) fresh by simp
    ultimately obtain h' where h': "dh_put_all (dh_put_nested d calloc_ok) h1 es = Some (Inr h')" "dh_count_ok h'" "same_but_table h1 h'"
      "length (dh_table h') = length (dh_table h1)" "used_slots (dh_table h') = used_slots (dh_table h1) + length (occupied es)"
      "dh_map (dh_table h') = dh_map (dh_table h1) ++ (map_option revive \<circ> dh_map es)" using Cons.IH [OF h1(2)] by blast
    have "dh_map (e # es) = (dh_map es)(de_user e \<mapsto> e)" using False by (simp add: dh_map_def)
    then have "dh_map (dh_table h') = dh_map ?T ++ (map_option revive \<circ> dh_map (e # es))"
      unfolding h'(6) h1(4) new_entry_revive using notin by (auto simp: map_add_def fun_eq_iff split: option.split)
    moreover have "same_but_table h h'" using h1(3) h'(3) by (rule same_but_table_trans)
    ultimately show ?thesis
      using h' h1(5,6) fresh False no_rehash [OF Cons.prems(1) room] h1(1) by (simp add: comp_def)
  qed
qed

lemma de_zero_table:
  assumes "6 \<le> k" "k < 60"
  shows "tab_ok (replicate (2 ^ k) de_zero)" and "used_slots (replicate (2 ^ k) de_zero) = 0"
  using assms by (auto simp: tab_ok_def pow2_len_def entry_ok_def de_zero_def used_slots_def)

lemma dh_map_zero [simp]: "dh_map (replicate n de_zero) = Map.empty"
  by (simp add: dh_map_def de_zero_def)

lemma dh_rehash_spec:
  assumes ok: "tab_ok (dh_table h)" and small: "length (dh_table h) < 2 ^ 58" and calloc: "\<forall>n. calloc_ok n"
  obtains h' where "dh_rehash calloc_ok (dh_put_nested d calloc_ok) h (dh_cap h * 2) = Some (Inr h')" and "dh_count_ok h'"
    and "same_but_table h h'" and "length (dh_table h') = 2 * length (dh_table h)"
    and "used_slots (dh_table h') = used_slots (dh_table h)"
    and "dh_map (dh_table h') = map_option revive \<circ> dh_map (dh_table h)"
proof -
  let ?T = "dh_table h"
  obtain k where k: "6 \<le> k" "length ?T = 2 ^ k" using tab_okD(1) [OF ok] by (auto simp: pow2_len_def)
  then have "(2 :: nat) ^ k < 2 ^ 58" using small by simp
  then have k58: "k < 58" by (rule power_less_imp_less_exp [rotated]) simp
  have "dh_cap h * 2 = 2 ^ Suc k" by (simp add: k(2))
  moreover have "unat (2 ^ Suc k :: u64) = 2 ^ Suc k" using k58 by (intro unat_pow2) simp
  ultimately have "unat (dh_cap h * 2) = 2 ^ Suc k" by (simp only:)
  then have tbl: "replicate (unat (dh_cap h * 2)) de_zero = replicate (2 ^ Suc k) de_zero" by simp
  let ?h = "h\<lparr>dh_table := replicate (2 ^ Suc k) de_zero, dh_count := 0\<rparr>"
  have Z: "tab_ok (replicate (2 ^ Suc k) de_zero)" "used_slots (replicate (2 ^ Suc k) de_zero) = 0"
    by (rule de_zero_table; use k k58 in simp)+
  then have "dh_count_ok ?h" by (simp add: dh_count_ok_def)
  moreover have "distinct (map de_user (occupied ?T))" using tab_unique [OF ok] by (intro occupied_distinct) blast
  moreover have "(used_slots (dh_table ?h) + length (occupied ?T)) * 10 < length (dh_table ?h) * 7"
  proof -
    have s0: "used_slots (dh_table ?h) = 0" and ln: "length (dh_table ?h) = 2 * length ?T" using Z(2) k(2) by simp_all
    have "length (occupied ?T) \<le> length ?T" and "0 < length ?T"
      using used_slots_le [of ?T] pow2_len_pos [OF tab_okD(1) [OF ok]] by (simp_all add: used_slots_occupied)
    then have "length (occupied ?T) * 10 \<le> length ?T * 10" "length ?T * 10 < 2 * length ?T * 7" by simp_all
    then show ?thesis unfolding s0 ln add_0 by (rule le_less_trans)
  qed
  ultimately obtain h' where h': "dh_put_all (dh_put_nested d calloc_ok) ?h ?T = Some (Inr h')" "dh_count_ok h'"
    "same_but_table ?h h'" "length (dh_table h') = length (dh_table ?h)"
    "used_slots (dh_table h') = used_slots (dh_table ?h) + length (occupied ?T)"
    "dh_map (dh_table h') = dh_map (dh_table ?h) ++ (map_option revive \<circ> dh_map ?T)"
    using put_all_spec [of ?h ?T] by auto
  have "dh_rehash calloc_ok (dh_put_nested d calloc_ok) h (dh_cap h * 2) = Some (Inr h')"
    unfolding dh_rehash_def Let_def tbl using h'(1) calloc by simp
  moreover have "same_but_table h h'" using h'(3) by (simp add: same_but_table_def)
  ultimately show ?thesis
    using that [of h'] h' k(2) Z(2) by (simp add: used_slots_occupied)
qed


subsection \<open>The live blocks\<close>

definition dh_tab :: "'s dh_heap \<Rightarrow> bool" where
  "dh_tab h \<longleftrightarrow> dh_count_ok h \<and> used_slots (dh_table h) * 10 < length (dh_table h) * 7 \<and>
     (length (dh_table h) = 64 \<or> length (dh_table h) * 7 \<le> (used_slots (dh_table h) + 1) * 20)"

text \<open>The blocks the heap takes for live: the entries that \<^verbatim>\<open>hf_debug_heap_check\<close> and the reports look at.\<close>

definition dh_live :: "'s dh_heap \<Rightarrow> addr \<rightharpoonup> dh_entry" where
  "dh_live h u = (case dh_map (dh_table h) u of None \<Rightarrow> None | Some e \<Rightarrow> if de_leaked e then Some e else None)"

lemma dh_live_iff: "dh_live h u = Some e \<longleftrightarrow> dh_map (dh_table h) u = Some e \<and> de_leaked e"
  by (auto simp: dh_live_def split: option.split)

lemma entry_ok_map: "tab_ok T \<Longrightarrow> dh_map T u = Some e \<Longrightarrow> entry_ok e"
  using tab_okD(2) dh_map_iff by (metis nth_mem)

text \<open>A revived entry is never live, because a released block has lost its \<open>raw\<close> pointer.\<close>

lemma leaked_revive: "entry_ok e \<Longrightarrow> de_leaked (revive e) = de_leaked e"
  by (auto simp: entry_ok_def de_leaked_def revive_def)

lemma revive_leaked: "de_leaked e \<Longrightarrow> revive e = e"
  by (cases e) (simp add: de_leaked_def revive_def)

lemma dh_live_revive:
  assumes "tab_ok (dh_table h)" and "dh_map (dh_table h') = map_option revive \<circ> dh_map (dh_table h)"
  shows "dh_live h' = dh_live h"
proof (rule ext)
  fix u
  show "dh_live h' u = dh_live h u"
    using entry_ok_map [OF assms(1), of u] leaked_revive revive_leaked
    unfolding dh_live_def assms(2) by (auto split: option.split)
qed

lemma dh_put_spec:
  assumes ok: "dh_tab h" and u: "u \<noteq> NULL" and r: "r \<noteq> NULL" and small: "used_slots (dh_table h) < 2 ^ 50" and calloc: "\<forall>n. calloc_ok n"
  obtains h' where "dh_put calloc_ok h u r n = Some (Inr h')" and "dh_tab h'" and "same_but_table h h'"
    and "dh_live h' = (dh_live h)(u \<mapsto> new_entry u r n)" and "used_slots (dh_table h') \<le> used_slots (dh_table h) + 1"
    and "dh_map (dh_table h') = (if (used_slots (dh_table h) + 1) * 10 < length (dh_table h) * 7 then dh_map (dh_table h)
      else map_option revive \<circ> dh_map (dh_table h))(u \<mapsto> new_entry u r n)"
proof -
  let ?T = "dh_table h" and ?e = "new_entry u r n"
  have cnt: "dh_count_ok h" and tab: "tab_ok ?T" and load: "used_slots ?T * 10 < length ?T * 7"
    and len: "length ?T = 64 \<or> length ?T * 7 \<le> (used_slots ?T + 1) * 20"
    using ok by (auto simp: dh_tab_def dh_count_ok_def)
  have e: "de_leaked ?e" using u r by (simp add: de_leaked_def new_entry_def)
  have l58: "length ?T < 2 ^ 58" using len small by auto
  define again where "again = (\<not> (used_slots ?T + 1) * 10 < length ?T * 7)"
  obtain m where m: "dh_count_ok m" "same_but_table h m" "dh_live m = dh_live h" "used_slots (dh_table m) = used_slots ?T"
      "dh_map (dh_table m) = (if again then map_option revive \<circ> dh_map ?T else dh_map ?T)"
    and put: "dh_put calloc_ok h u r n = dh_insert m u r n" and room: "(used_slots ?T + 1) * 10 < length (dh_table m) * 7"
    and grown: "length (dh_table m) = 64 \<or> length (dh_table m) * 7 \<le> (used_slots ?T + 1) * 20"
  proof (cases again)
    case False
    then have room: "(used_slots ?T + 1) * 10 < length ?T * 7" by (simp add: again_def)
    show ?thesis
      by (rule that [of h]) (use cnt room len no_rehash [OF cnt room, of 1] in \<open>simp_all add: same_but_table_def dh_put_def again_def\<close>)
  next
    case True
    obtain m where m: "dh_rehash calloc_ok (dh_put_nested 0 calloc_ok) h (dh_cap h * 2) = Some (Inr m)" "dh_count_ok m"
      "same_but_table h m" "length (dh_table m) = 2 * length ?T" "used_slots (dh_table m) = used_slots ?T"
      "dh_map (dh_table m) = map_option revive \<circ> dh_map ?T" by (rule dh_rehash_spec [OF tab l58 calloc])
    have "unat (dh_cap h * 7) = length ?T * 7" using l58 by (subst unat_mult_nowrap) (simp_all add: unat_of_nat_small)
    moreover have "unat (dh_count h + 1) = used_slots ?T + 1" using cnt small by (subst unat_add_nowrap) (simp_all add: dh_count_ok_def)
    then have "unat ((dh_count h + 1) * 10) = (used_slots ?T + 1) * 10" using small by (subst unat_mult_nowrap) simp_all
    ultimately have "(dh_count h + 1) * 10 \<ge> dh_cap h * 7" using True by (simp add: again_def word_le_nat_alt)
    then have "dh_put calloc_ok h u r n = dh_insert m u r n" using m(1) by (simp add: dh_put_def)
    then show ?thesis
      using that [OF m(2,3) dh_live_revive [OF tab m(6)] m(5)] m(4,6) load True pow2_len_bounds [OF tab_okD(1) [OF tab]]
      by (simp add: again_def)
  qed
  obtain h' where h': "dh_insert m u r n = Some (Inr h')" "dh_count_ok h'" "same_but_table m h'"
    "dh_map (dh_table h') = (dh_map (dh_table m))(u \<mapsto> ?e)" "length (dh_table h') = length (dh_table m)"
    "used_slots (dh_table h') = used_slots (dh_table m) + (if dh_map (dh_table m) u = None then 1 else 0)"
    by (rule dh_insert_spec [OF m(1) u]) (use room m(4) in simp)
  have "dh_live h' = (dh_live m)(u \<mapsto> ?e)" using e by (auto simp: dh_live_def h'(4) fun_eq_iff)
  moreover have "used_slots (dh_table h') = used_slots ?T \<or> used_slots (dh_table h') = used_slots ?T + 1" using h'(6) m(4) by simp
  moreover have "used_slots ?T \<le> used_slots (dh_table h')" using h'(6) m(4) by simp
  then have "(used_slots ?T + 1) * 20 \<le> (used_slots (dh_table h') + 1) * 20" by simp
  ultimately show ?thesis
    using h' m put room grown same_but_table_trans [OF m(2) h'(3)]
    by (intro that [of h']) (auto simp: dh_tab_def again_def)
qed

text \<open>Releases of pointers that are not live: a foreign one, a released one, and a released one a rehash has revived.\<close>

lemma dh_deallocate_not_live:
  assumes tab: "dh_tab h" and u: "u \<noteq> NULL"
  shows "dh_map (dh_table h) u = None \<Longrightarrow> dh_deallocate vt h u =
      Inr (dh_say (Bug_invalid_free u) (h\<lparr>dh_rep := (dh_rep h)\<lparr>dr_invalid_frees := dr_invalid_frees (dh_rep h) + 1\<rparr>\<rparr>))"
    and "dh_map (dh_table h) u = Some e \<Longrightarrow> de_freed e \<Longrightarrow> dh_deallocate vt h u =
      Inr (dh_say (Bug_double_free u) (h\<lparr>dh_rep := (dh_rep h)\<lparr>dr_double_frees := dr_double_frees (dh_rep h) + 1\<rparr>\<rparr>))"
    and "dh_map (dh_table h) u = Some e \<Longrightarrow> \<not> de_freed e \<Longrightarrow> de_raw e = NULL \<Longrightarrow> dh_deallocate vt h u = Inl Null_deref"
proof -
  have "tab_ok (dh_table h)" using tab by (simp add: dh_tab_def dh_count_ok_def)
  note f = dh_find_map [OF this u]
  show "dh_map (dh_table h) u = None \<Longrightarrow> dh_deallocate vt h u =
      Inr (dh_say (Bug_invalid_free u) (h\<lparr>dh_rep := (dh_rep h)\<lparr>dr_invalid_frees := dr_invalid_frees (dh_rep h) + 1\<rparr>\<rparr>))"
    using f u by (cases "dh_find h u") (simp_all add: dh_deallocate_def)
  show "dh_map (dh_table h) u = Some e \<Longrightarrow> de_freed e \<Longrightarrow> dh_deallocate vt h u =
      Inr (dh_say (Bug_double_free u) (h\<lparr>dh_rep := (dh_rep h)\<lparr>dr_double_frees := dr_double_frees (dh_rep h) + 1\<rparr>\<rparr>))"
    using f u by (cases "dh_find h u") (simp_all add: dh_deallocate_def Let_def)
  show "dh_map (dh_table h) u = Some e \<Longrightarrow> \<not> de_freed e \<Longrightarrow> de_raw e = NULL \<Longrightarrow> dh_deallocate vt h u = Inl Null_deref"
    using f u by (cases "dh_find h u") (simp_all add: dh_deallocate_def verify_block_def Let_def)
qed


subsection \<open>The table as a map\<close>

text \<open>The live entry \<^verbatim>\<open>dh_find\<close> leads to, as the release and the scans use it.\<close>

definition dh_lookup :: "'s dh_heap \<Rightarrow> addr \<rightharpoonup> dh_entry" where
  "dh_lookup h u = (case dh_find h u of None \<Rightarrow> None | Some i \<Rightarrow> if de_leaked (dh_table h ! i) then Some (dh_table h ! i) else None)"

lemma dh_lookup_live:
  assumes "dh_tab h" and "u \<noteq> NULL"
  shows "dh_lookup h u = dh_live h u"
proof -
  have "tab_ok (dh_table h)" using assms(1) by (simp add: dh_tab_def dh_count_ok_def)
  from dh_find_map [OF this assms(2)] show ?thesis
    by (cases "dh_find h u") (simp_all add: dh_lookup_def dh_live_def)
qed


definition dh_blank :: "unit dh_heap" where
  "dh_blank = \<lparr>dh_backend = (), dh_table = replicate 64 de_zero, dh_count = 0, dh_rep = dr_zero, dh_mem = (\<lambda>_. 0), dh_log = []\<rparr>"

lemma dh_blank_tab: "dh_tab dh_blank" "used_slots (dh_table dh_blank) = 0" "length (dh_table dh_blank) = 64"
  "dh_map (dh_table dh_blank) = Map.empty"
  using de_zero_table [of 6] by (simp_all add: dh_blank_def dh_tab_def dh_count_ok_def)


text \<open>
  A table that grows forgets which blocks were released.  When the load factor makes an insertion
  double the table, an entry marked released is inserted again as a live one with a null block; a
  second release of that pointer is then not reported but reads a canary through the null pointer.
\<close>

theorem dh_rehash_forgets:
  assumes "dh_tab h" and "w \<noteq> NULL" and "r \<noteq> NULL" and "used_slots (dh_table h) < 2 ^ 50" and "\<forall>n. calloc_ok n"
    and "(used_slots (dh_table h) + 1) * 10 \<ge> length (dh_table h) * 7"
    and "dh_map (dh_table h) u = Some e" and "de_freed e" and "u \<noteq> w"
  shows "dh_deallocate vt h u =
      Inr (dh_say (Bug_double_free u) (h\<lparr>dh_rep := (dh_rep h)\<lparr>dr_double_frees := dr_double_frees (dh_rep h) + 1\<rparr>\<rparr>)) \<and>
    (\<exists>h'. dh_put calloc_ok h w r n = Some (Inr h') \<and> dh_deallocate vt h' u = Inl Null_deref)"
proof
  have T: "tab_ok (dh_table h)" using assms(1) by (simp add: dh_tab_def dh_count_ok_def)
  have raw: "de_raw e = NULL" using entry_ok_map [OF T assms(7)] assms(8) by (simp add: entry_ok_def)
  have u: "u \<noteq> NULL" using assms(7) by (simp add: dh_map_iff [OF T])
  show "dh_deallocate vt h u = Inr (dh_say (Bug_double_free u) (h\<lparr>dh_rep := (dh_rep h)\<lparr>dr_double_frees := dr_double_frees (dh_rep h) + 1\<rparr>\<rparr>))"
    by (rule dh_deallocate_not_live(2) [OF assms(1) u assms(7,8)])
  show "\<exists>h'. dh_put calloc_ok h w r n = Some (Inr h') \<and> dh_deallocate vt h' u = Inl Null_deref"
  proof (rule dh_put_spec [where n = n, OF assms(1-5)], goal_cases)
    case (1 h')
    have "dh_map (dh_table h') u = Some (revive e)" using 1(6) assms(6,7,9) by simp
    then have "dh_deallocate vt h' u = Inl Null_deref"
      by (rule dh_deallocate_not_live(3) [OF 1(2) u]) (simp_all add: revive_def raw)
    then show ?case using 1(1) by blast
  qed
qed

text \<open>Such a state: 44 insertions into a fresh table, the first of them released.\<close>

lemma dh_filled:
  "n \<le> 44 \<Longrightarrow> \<exists>h :: unit dh_heap. dh_count_ok h \<and> length (dh_table h) = 64 \<and> used_slots (dh_table h) = n \<and>
     (\<forall>u. dh_map (dh_table h) u \<noteq> None \<longleftrightarrow> 1 \<le> unat u \<and> unat u \<le> n)"
proof (induction n)
  case 0
  show ?case by (rule exI [of _ dh_blank]) (use dh_blank_tab in \<open>auto simp: dh_tab_def\<close>)
next
  case (Suc n)
  then obtain h :: "unit dh_heap" where h: "dh_count_ok h" "length (dh_table h) = 64" "used_slots (dh_table h) = n"
    "\<forall>u. dh_map (dh_table h) u \<noteq> None \<longleftrightarrow> 1 \<le> unat u \<and> unat u \<le> n" by auto
  define u :: addr where "u = of_nat (Suc n)"
  have u: "unat u = Suc n" using Suc.prems unfolding u_def by (intro unat_of_nat_small) simp
  then have "u \<noteq> NULL" by (intro notI) simp
  moreover have "used_slots (dh_table h) < length (dh_table h)" using h Suc.prems by simp
  ultimately obtain h' :: "unit dh_heap" where h': "dh_count_ok h'" "dh_map (dh_table h') = (dh_map (dh_table h))(u \<mapsto> new_entry u 16 1)"
      "length (dh_table h') = length (dh_table h)"
      "used_slots (dh_table h') = used_slots (dh_table h) + (if dh_map (dh_table h) u = None then 1 else 0)"
    by (rule dh_insert_spec [where r = 16 and n = 1, OF h(1)])
  have "dh_map (dh_table h) u = None" using h(4) u by (metis Suc_n_not_le_n)
  then have "used_slots (dh_table h') = Suc n" using h'(4) h(3) by simp
  moreover have "dh_map (dh_table h') v \<noteq> None \<longleftrightarrow> 1 \<le> unat v \<and> unat v \<le> Suc n" for v
    using h(4) u unfolding h'(2) by (cases "v = u") (auto simp: le_Suc_eq word_unat_eq_iff)
  ultimately show ?case using h'(1,3) h(2) by auto
qed

theorem dh_rehash_forgets_witness:
  "\<exists>(h :: unit dh_heap) u. \<forall>vt. \<exists>h'. dh_put (\<lambda>_. True) h 0x100 16 1 = Some (Inr h') \<and> dh_deallocate vt h' u = Inl Null_deref"
proof -
  obtain h :: "unit dh_heap" where h: "dh_count_ok h" "length (dh_table h) = 64" "used_slots (dh_table h) = 44"
    "\<forall>u. dh_map (dh_table h) u \<noteq> None \<longleftrightarrow> 1 \<le> unat u \<and> unat u \<le> 44" using dh_filled [of 44] by auto
  then have T: "tab_ok (dh_table h)" by (simp add: dh_count_ok_def)
  have "dh_map (dh_table h) 1 \<noteq> None" using h(4) by simp
  then obtain i where i: "i < length (dh_table h)" "de_user (dh_table h ! i) = 1" by (auto simp: dh_map_iff [OF T])
  define e where "e = (dh_table h ! i)\<lparr>de_freed := True, de_raw := NULL\<rparr>"
  define g where "g = h\<lparr>dh_table := (dh_table h)[i := e]\<rparr>"
  have e: "entry_ok e" "de_user (dh_table h ! i) = de_user e" "de_user e = 1" "de_freed e" by (simp_all add: e_def entry_ok_def i(2))
  note S = tab_same_users [OF T i(1) e(2,1)]
  have "dh_map (dh_table g) 1 = Some e" using dh_map_upd [OF T S(1) i(1)] e i(2) by (simp add: g_def)
  moreover have "dh_tab g" using S h by (simp add: g_def dh_tab_def dh_count_ok_def)
  ultimately have "\<exists>h'. dh_put (\<lambda>_. True) g 0x100 16 1 = Some (Inr h') \<and> dh_deallocate vt h' 1 = Inl Null_deref" for vt
    using dh_rehash_forgets [where h = g and w = "0x100" and r = 16 and calloc_ok = "\<lambda>_. True" and u = 1 and e = e and n = 1 and vt = vt]
      S(2) h(2,3) e(4) by (simp add: g_def)
  then show ?thesis by blast
qed

end
