(* ===== verification/HF_Debug_Correct.thy ===== *)
theory HF_Debug_Correct
  imports HF_Debug_Table HF_Free_List_Correct HF_Block_Pool
begin

text \<open>
  The debugging heap over an allocator that satisfies the contract: a client that respects its blocks
  sees an allocator with disjoint blocks and gets no report; a client that overruns a block, releases a
  block twice or releases a foreign pointer gets the report the code promises; and destroying the heap
  returns every leaked block.
\<close>

subsection \<open>Bytes and guards\<close>

definition guarded :: "bytes \<Rightarrow> addr \<Rightarrow> u64 \<Rightarrow> bool" where
  "guarded m raw sz \<longleftrightarrow> head_canary m raw = DH_CANARY \<and> tail_canary m raw sz = DH_CANARY"

lemma load32_store32 [simp]: "load32 (store32 a v m) a = v"
proof (rule bit_word_eqI)
  fix n assume "n < LENGTH(32)"
  then consider "n < 8" | "8 \<le> n \<and> n < 16" | "16 \<le> n \<and> n < 24" | k where "n = 24 + k" "k < 8"
    using le_Suc_ex [of 24 n] by fastforce
  then show "bit (load32 (store32 a v m) a) n = bit v n"
    by cases (auto simp: load32_def store32_def bit_simps)
qed

lemma load32_cong:
  "m' a = m a \<Longrightarrow> m' (a + 1) = m (a + 1) \<Longrightarrow> m' (a + 2) = m (a + 2) \<Longrightarrow> m' (a + 3) = m (a + 3) \<Longrightarrow> load32 m' a = load32 m a"
  by (simp add: load32_def)

lemma store32_other:
  "x \<noteq> a \<Longrightarrow> x \<noteq> a + 1 \<Longrightarrow> x \<noteq> a + 2 \<Longrightarrow> x \<noteq> a + 3 \<Longrightarrow> store32 a v m x = m x"
  by (simp add: store32_def)

text \<open>Addresses are compared through their offsets from the start of a block.\<close>

lemma offset_ne: "unat (x - a) \<noteq> unat c \<Longrightarrow> x \<noteq> a + (c :: u64)"
  by auto

lemma guard_offsets:
  fixes sz :: u64
  assumes "unat sz + 16 \<le> 2 ^ 64"
  shows "unat (12 + sz) = unat sz + 12" "unat (12 + sz + 1) = unat sz + 13" "unat (12 + sz + 2) = unat sz + 14"
    "unat (12 + sz + 3) = unat sz + 15"
proof -
  show a: "unat (12 + sz) = unat sz + 12" using assms by (subst unat_add_nowrap) simp_all
  show "unat (12 + sz + 1) = unat sz + 13" "unat (12 + sz + 2) = unat sz + 14" "unat (12 + sz + 3) = unat sz + 15"
    using assms a by (subst unat_add_nowrap; simp)+
qed

lemma write_guards_other:
  assumes sz: "unat sz + 16 \<le> 2 ^ 64" and out: "12 \<le> unat (x - raw)" "unat (x - raw) < unat sz + 12 \<or> unat sz + 16 \<le> unat (x - raw)"
  shows "write_guards raw sz m x = m x"
proof -
  note g = guard_offsets [OF sz]
  have "x \<noteq> raw + c" if "unat c < 12" for c using offset_ne [of x raw c] out that by auto
  from this [of 0] this [of 1] this [of 2] this [of 3] this [of 4] this [of 5] this [of 6] this [of 7] this [of 8]
    this [of 9] this [of 10] this [of 11]
  have low: "x \<noteq> raw" "x \<noteq> raw + 1" "x \<noteq> raw + 2" "x \<noteq> raw + 3" "x \<noteq> raw + 4" "x \<noteq> raw + 5" "x \<noteq> raw + 6"
    "x \<noteq> raw + 7" "x \<noteq> raw + 8" "x \<noteq> raw + 9" "x \<noteq> raw + 10" "x \<noteq> raw + 11" by simp_all
  have "x \<noteq> raw + c" if "unat sz + 12 \<le> unat c" "unat c < unat sz + 16" for c using offset_ne [of x raw c] out that by auto
  from this [of "12 + sz"] this [of "12 + sz + 1"] this [of "12 + sz + 2"] this [of "12 + sz + 3"]
  have high: "x \<noteq> raw + 12 + sz" "x \<noteq> raw + 12 + sz + 1" "x \<noteq> raw + 12 + sz + 2" "x \<noteq> raw + 12 + sz + 3"
    unfolding g by (simp_all add: add.assoc)
  show ?thesis
    unfolding write_guards_def store64_def DH_HEAD_def using low high by (simp add: store32_other add.assoc)
qed

lemma offset_memset:
  assumes "unat (x - raw) < 12 \<or> unat sz + 12 \<le> unat (x - raw)" and "unat sz + 12 \<le> 2 ^ 64"
  shows "memset (raw + DH_HEAD) v sz m x = m x"
proof -
  have eq: "x - (raw + DH_HEAD) = (x - raw) - 12" by (simp add: DH_HEAD_def)
  have "unat sz \<le> unat ((x - raw) - 12)"
  proof (cases "unat (x - raw) < 12")
    case True
    then have "unat ((x - raw) - 12) = 2 ^ 64 + unat (x - raw) - 12" by (simp add: unat_sub_if')
    then show ?thesis using assms(2) by simp
  next
    case False
    then have "unat ((x - raw) - 12) = unat (x - raw) - 12" by (simp add: unat_sub_nowrap)
    then show ?thesis using False assms(1) by simp
  qed
  then show ?thesis by (simp add: memset_def eq word_less_nat_alt)
qed

text \<open>The guards of a block depend on the first 12 and the last 4 of its bytes only.\<close>

lemma guarded_cong:
  assumes sz: "unat sz + 16 \<le> 2 ^ 64"
    and same: "\<And>x. unat (x - raw) < 12 \<or> unat sz + 12 \<le> unat (x - raw) \<and> unat (x - raw) < unat sz + 16 \<Longrightarrow> m' x = m x"
  shows "guarded m' raw sz = guarded m raw sz"
proof -
  note g = guard_offsets [OF sz]
  have "m' (raw + c) = m (raw + c)" if "unat c < 12 \<or> unat sz + 12 \<le> unat c \<and> unat c < unat sz + 16" for c
    using same [of "raw + c"] that by simp
  from this [of 0] this [of 1] this [of 2] this [of 3]
    this [of "12 + sz"] this [of "12 + sz + 1"] this [of "12 + sz + 2"] this [of "12 + sz + 3"]
  have b: "m' raw = m raw" "m' (raw + 1) = m (raw + 1)" "m' (raw + 2) = m (raw + 2)" "m' (raw + 3) = m (raw + 3)"
    "m' (raw + DH_HEAD + sz) = m (raw + DH_HEAD + sz)" "m' (raw + DH_HEAD + sz + 1) = m (raw + DH_HEAD + sz + 1)"
    "m' (raw + DH_HEAD + sz + 2) = m (raw + DH_HEAD + sz + 2)" "m' (raw + DH_HEAD + sz + 3) = m (raw + DH_HEAD + sz + 3)"
    unfolding g by (simp_all add: DH_HEAD_def add.assoc)
  show ?thesis unfolding guarded_def head_canary_def tail_canary_def load32_cong [OF b(1-4)] load32_cong [OF b(5-8)] ..
qed

lemma guarded_memset:
  assumes sz: "unat sz + 16 \<le> 2 ^ 64"
  shows "guarded (memset (raw + DH_HEAD) v sz m) raw sz = guarded m raw sz"
  using sz by (intro guarded_cong [OF sz] offset_memset) auto

lemma guards_written:
  assumes sz: "unat sz + 16 \<le> 2 ^ 64"
  shows "guarded (memset (raw + DH_HEAD) v sz (write_guards raw sz m)) raw sz"
proof -
  note g = guard_offsets [OF sz]
  let ?m = "store32 raw DH_CANARY m"
  have ne: "raw + d \<noteq> raw + c" if "unat d \<noteq> unat c" for c d :: u64 using that by auto
  have "load32 (store32 (raw + (12 + sz)) DH_CANARY (store32 (raw + 8) p (store32 (raw + 4) q ?m))) raw = load32 ?m raw" for p q
  proof (rule load32_cong)
    have t: "raw + d \<noteq> raw + (12 + sz)" "raw + d \<noteq> raw + (12 + sz + 1)" "raw + d \<noteq> raw + (12 + sz + 2)" "raw + d \<noteq> raw + (12 + sz + 3)"
      if "unat d < 4" for d using that g by (intro ne; simp)+
    have "store32 (raw + (12 + sz)) DH_CANARY (store32 (raw + 8) p (store32 (raw + 4) q ?m)) (raw + d) = ?m (raw + d)" if "d \<in> {0, 1, 2, 3}" for d
    proof -
      have "unat d < 4" using that by auto
      from t [OF this] show ?thesis using that by (subst store32_other) (auto simp: add.assoc store32_other)
    qed
    from this [of 0] this [of 1] this [of 2] this [of 3]
    show "store32 (raw + (12 + sz)) DH_CANARY (store32 (raw + 8) p (store32 (raw + 4) q ?m)) raw = ?m raw"
      "store32 (raw + (12 + sz)) DH_CANARY (store32 (raw + 8) p (store32 (raw + 4) q ?m)) (raw + 1) = ?m (raw + 1)"
      "store32 (raw + (12 + sz)) DH_CANARY (store32 (raw + 8) p (store32 (raw + 4) q ?m)) (raw + 2) = ?m (raw + 2)"
      "store32 (raw + (12 + sz)) DH_CANARY (store32 (raw + 8) p (store32 (raw + 4) q ?m)) (raw + 3) = ?m (raw + 3)" by simp_all
  qed
  then have "guarded (write_guards raw sz m) raw sz"
    by (simp add: guarded_def head_canary_def tail_canary_def write_guards_def store64_def DH_HEAD_def add.assoc)
  then show ?thesis using guarded_memset [OF sz] by simp
qed

lemma guarded_frame:
  assumes sz: "unat sz + 16 \<le> 2 ^ 64" and same: "\<forall>x. unat (x - raw) < unat sz + 16 \<longrightarrow> m' x = m x"
  shows "guarded m' raw sz = guarded m raw sz"
  using same by (intro guarded_cong [OF sz]) auto

text \<open>Changing any single guard byte is noticed.\<close>

lemma load32_bytes:
  "load32 m a = load32 m' a \<Longrightarrow> m a = m' a \<and> m (a + 1) = m' (a + 1) \<and> m (a + 2) = m' (a + 2) \<and> m (a + 3) = m' (a + 3)"
proof -
  assume eq: "load32 m a = load32 m' a"
  have b0: "bit (load32 m a) n = bit (m a) n" if "n < 8" for m n using that by (simp add: load32_def bit_simps)
  have b1: "bit (load32 m a) (n + 8) = bit (m (a + 1)) n" if "n < 8" for m n using that by (auto simp: load32_def bit_simps dest: bit_imp_le_length)
  have b2: "bit (load32 m a) (n + 16) = bit (m (a + 2)) n" if "n < 8" for m n using that by (auto simp: load32_def bit_simps dest: bit_imp_le_length)
  have b3: "bit (load32 m a) (n + 24) = bit (m (a + 3)) n" if "n < 8" for m n using that by (auto simp: load32_def bit_simps dest: bit_imp_le_length)
  show ?thesis using b0 [of _ m] b0 [of _ m'] b1 [of _ m] b1 [of _ m'] b2 [of _ m] b2 [of _ m'] b3 [of _ m] b3 [of _ m'] eq
    by (intro conjI bit_word_eqI) simp_all
qed

lemma guard_change:
  assumes sz: "unat sz + 16 \<le> 2 ^ 64" and g: "guarded m raw sz" and v: "v \<noteq> m x"
    and x: "unat (x - raw) < 4 \<or> unat sz + 12 \<le> unat (x - raw) \<and> unat (x - raw) < unat sz + 16"
  shows "\<not> guarded (m(x := v)) raw sz"
proof
  assume g': "guarded (m(x := v)) raw sz"
  note G = guard_offsets [OF sz]
  note hd = load32_bytes [of "m(x := v)" raw m] and tl = load32_bytes [of "m(x := v)" "raw + DH_HEAD + sz" m]
  from x show False
  proof
    assume "unat (x - raw) < 4"
    then have "unat (x - raw) = unat (0 :: u64) \<or> unat (x - raw) = unat (1 :: u64) \<or> unat (x - raw) = unat (2 :: u64) \<or> unat (x - raw) = unat (3 :: u64)" by simp linarith
    then have "x - raw = 0 \<or> x - raw = 1 \<or> x - raw = 2 \<or> x - raw = 3" by (simp only: word_unat_eq_iff)
    then have "x = raw \<or> x = raw + 1 \<or> x = raw + 2 \<or> x = raw + 3" by (auto simp: diff_eq_eq ac_simps)
    then show False using hd g g' v by (auto simp: guarded_def head_canary_def split: if_splits)
  next
    assume "unat sz + 12 \<le> unat (x - raw) \<and> unat (x - raw) < unat sz + 16"
    then have "unat (x - raw) = unat (12 + sz) \<or> unat (x - raw) = unat (12 + sz + 1) \<or> unat (x - raw) = unat (12 + sz + 2) \<or> unat (x - raw) = unat (12 + sz + 3)"
      unfolding G by linarith
    then have "x - raw = 12 + sz \<or> x - raw = 12 + sz + 1 \<or> x - raw = 12 + sz + 2 \<or> x - raw = 12 + sz + 3" by (simp only: word_unat_eq_iff)
    then have "x = raw + DH_HEAD + sz \<or> x = raw + DH_HEAD + sz + 1 \<or> x = raw + DH_HEAD + sz + 2 \<or> x = raw + DH_HEAD + sz + 3"
      by (auto simp: DH_HEAD_def diff_eq_eq ac_simps)
    then show False using tl g g' v by (auto simp: guarded_def tail_canary_def split: if_splits)
  qed
qed

lemma foreign_offset:
  fixes a b x :: u64
  assumes "unat a + n \<le> unat b \<or> unat b + k \<le> unat a" and "unat a + n \<le> 2 ^ 64" "unat b + k \<le> 2 ^ 64" and "unat (x - b) < k"
  shows "n \<le> unat (x - a)"
proof -
  have "unat (b + (x - b)) = unat b + unat (x - b)" using assms(3,4) by (subst unat_add_nowrap) simp_all
  then have x: "unat x = unat b + unat (x - b)" by simp
  show ?thesis
  proof (cases "unat a \<le> unat x")
    case True
    then have "unat (x - a) = unat x - unat a" by (rule unat_sub_nowrap)
    then show ?thesis using assms x True by linarith
  next
    case False
    then have "unat (x - a) = 2 ^ 64 + unat x - unat a" by (simp add: unat_sub_if')
    then show ?thesis using assms(2) False by simp
  qed
qed


subsection \<open>The invariant over a backend\<close>

definition dh_inv :: "('s \<Rightarrow> bool) \<Rightarrow> ('s \<Rightarrow> addr \<rightharpoonup> nat) \<Rightarrow> 's dh_heap \<Rightarrow> bool" where
  "dh_inv invar live h \<longleftrightarrow> invar (dh_backend h) \<and> dh_tab h \<and>
     (\<forall>u e. dh_live h u = Some e \<longrightarrow>
        u = de_raw e + DH_HEAD \<and> (\<exists>m. live (dh_backend h) (de_raw e) = Some m \<and> unat (de_size e) + 16 \<le> m)) \<and>
     (\<forall>p. live (dh_backend h) p \<noteq> None \<longrightarrow> dh_live h (p + DH_HEAD) \<noteq> None) \<and>
     unat (dr_active_allocs (dh_rep h)) = card (dom (dh_live h))"

text \<open>All guards are intact.\<close>

definition dh_intact :: "'s dh_heap \<Rightarrow> bool" where
  "dh_intact h \<longleftrightarrow> (\<forall>u e. dh_live h u = Some e \<longrightarrow> guarded (dh_mem h) (de_raw e) (de_size e))"

lemma dh_invD:
  assumes "dh_inv invar live h"
  shows "invar (dh_backend h)" and "dh_tab h"
    and "dh_live h u = Some e \<Longrightarrow> u = de_raw e + DH_HEAD"
    and "dh_live h u = Some e \<Longrightarrow> \<exists>m. live (dh_backend h) (de_raw e) = Some m \<and> unat (de_size e) + 16 \<le> m"
    and "live (dh_backend h) p \<noteq> None \<Longrightarrow> dh_live h (p + DH_HEAD) \<noteq> None"
    and "unat (dr_active_allocs (dh_rep h)) = card (dom (dh_live h))"
  using assms by (auto simp: dh_inv_def)

lemma dh_invI:
  assumes "invar (dh_backend h)" and "dh_tab h" and "\<forall>u e. dh_live h u = Some e \<longrightarrow> u = de_raw e + DH_HEAD"
    and "\<forall>u e. dh_live h u = Some e \<longrightarrow> (\<exists>m. live (dh_backend h) (de_raw e) = Some m \<and> unat (de_size e) + 16 \<le> m)"
    and "\<forall>p. live (dh_backend h) p \<noteq> None \<longrightarrow> dh_live h (p + DH_HEAD) \<noteq> None"
    and "unat (dr_active_allocs (dh_rep h)) = card (dom (dh_live h))"
  shows "dh_inv invar live h"
  using assms by (auto simp: dh_inv_def)

lemma dh_live_user: "dh_tab h \<Longrightarrow> dh_live h u = Some e \<Longrightarrow> de_user e = u"
  by (auto simp: dh_live_iff dh_tab_def dh_count_ok_def dh_map_iff)

lemma dom_dh_map: "finite (dom (dh_map T))" "card (dom (dh_map T)) \<le> used_slots T"
proof -
  have d: "dom (dh_map T) = de_user ` set (occupied T)" unfolding dh_map_def dom_map_of_conv_image_fst by force
  show "finite (dom (dh_map T))" unfolding d by simp
  show "card (dom (dh_map T)) \<le> used_slots T"
    unfolding d used_slots_occupied using card_length [of "map de_user (occupied T)"] by simp
qed

lemma dom_dh_live: "finite (dom (dh_live h))" "card (dom (dh_live h)) \<le> used_slots (dh_table h)"
proof -
  have sub: "dom (dh_live h) \<subseteq> dom (dh_map (dh_table h))" by (auto simp: dh_live_iff)
  show "finite (dom (dh_live h))" using sub dom_dh_map(1) by (rule finite_subset)
  show "card (dom (dh_live h)) \<le> used_slots (dh_table h)"
    using card_mono [OF dom_dh_map(1) sub] dom_dh_map(2) [of "dh_table h"] by simp
qed

lemma dh_live_cong: "dh_table h' = dh_table h \<Longrightarrow> dh_live h' = dh_live h"
  by (simp add: dh_live_def fun_eq_iff)

lemma dh_tab_cong: "dh_table h' = dh_table h \<Longrightarrow> dh_count h' = dh_count h \<Longrightarrow> dh_tab h' = dh_tab h"
  by (simp add: dh_tab_def dh_count_ok_def)


subsection \<open>Verification and release on the table\<close>

definition canary_events :: "bytes \<Rightarrow> addr \<Rightarrow> u64 \<Rightarrow> addr \<Rightarrow> dh_event list" where
  "canary_events m raw sz user =
     (if head_canary m raw = DH_CANARY then [] else [Bug_head_canary user sz]) @
     (if tail_canary m raw sz = DH_CANARY then [] else [Bug_tail_canary user sz])"

definition count_violation :: "bool \<Rightarrow> hf_debug_report \<Rightarrow> hf_debug_report" where
  "count_violation ok rep = (if ok then rep else rep\<lparr>dr_canary_violations := dr_canary_violations rep + 1\<rparr>)"

lemma canary_events_Nil [simp]: "canary_events m raw sz user = [] \<longleftrightarrow> guarded m raw sz"
  by (simp add: canary_events_def guarded_def)

lemma verify_block_eq:
  assumes "raw \<noteq> NULL"
  shows "verify_block h raw sz user = Inr (guarded (dh_mem h) raw sz,
    h\<lparr>dh_log := dh_log h @ canary_events (dh_mem h) raw sz user, dh_rep := count_violation (guarded (dh_mem h) raw sz) (dh_rep h)\<rparr>)"
  using assms by (simp add: verify_block_def guarded_def dh_say_def canary_events_def count_violation_def Let_def)

text \<open>A release of the live block in slot \<open>i\<close>, with the backend's new state \<open>b\<close>.\<close>

definition dh_released :: "'s dh_heap \<Rightarrow> addr \<Rightarrow> dh_entry \<Rightarrow> nat \<Rightarrow> 's \<Rightarrow> 's dh_heap" where
  "dh_released h u e i b =
     (let ok = guarded (dh_mem h) (de_raw e) (de_size e); rep = count_violation ok (dh_rep h)
      in h\<lparr>dh_backend := b, dh_table := (dh_table h)[i := e\<lparr>de_freed := True, de_raw := NULL\<rparr>],
           dh_rep := rep\<lparr>dr_total_frees := dr_total_frees rep + 1, dr_active_allocs := dr_active_allocs rep - 1\<rparr>,
           dh_mem := memset u DH_POISON (de_size e) (dh_mem h),
           dh_log := dh_log h @ canary_events (dh_mem h) (de_raw e) (de_size e) u @ [if ok then Dbg_intact u else Dbg_reclaimed u]\<rparr>)"

lemma dh_deallocate_live:
  assumes tab: "dh_tab h" and live: "dh_live h u = Some e"
  obtains i where "i < length (dh_table h)" and "dh_table h ! i = e"
    and "dh_deallocate vt h u = (case hf_deallocate vt (dh_backend h) (de_raw e) of Inl err \<Rightarrow> Inl err | Inr b \<Rightarrow> Inr (dh_released h u e i b))"
proof -
  have m: "dh_map (dh_table h) u = Some e" and l: "de_user e \<noteq> NULL" "\<not> de_freed e" "de_raw e \<noteq> NULL"
    using live by (simp_all add: dh_live_iff de_leaked_def)
  have u: "u \<noteq> NULL" using l(1) dh_live_user [OF tab live] by simp
  have "tab_ok (dh_table h)" using tab by (simp add: dh_tab_def dh_count_ok_def)
  from dh_find_map [OF this u] obtain i where i: "dh_find h u = Some i" "i < length (dh_table h)" "dh_table h ! i = e"
    using m by (cases "dh_find h u") simp_all
  show ?thesis
  proof (rule that [OF i(2,3)], goal_cases)
    case 1
    show ?case
      using i l u by (simp add: dh_deallocate_def dh_released_def verify_block_eq dh_say_def Let_def count_violation_def split: sum.split)
  qed
qed

lemma freed_table:
  assumes tab: "dh_tab h" and i: "i < length (dh_table h)" "dh_table h ! i = e" and live: "dh_live h u = Some e"
    and h': "dh_table h' = (dh_table h)[i := e\<lparr>de_freed := True, de_raw := NULL\<rparr>]" "dh_count h' = dh_count h"
  shows "dh_tab h'" and "dh_live h' = (dh_live h)(u := None)" and "used_slots (dh_table h') = used_slots (dh_table h)"
    and "dh_map (dh_table h') = (dh_map (dh_table h))(u \<mapsto> e\<lparr>de_freed := True, de_raw := NULL\<rparr>)"
proof -
  let ?e = "e\<lparr>de_freed := True, de_raw := NULL\<rparr>"
  have T: "tab_ok (dh_table h)" using tab by (simp add: dh_tab_def dh_count_ok_def)
  have ue: "de_user e = u" by (rule dh_live_user [OF tab live])
  have u: "u \<noteq> NULL" using live ue by (simp add: dh_live_iff de_leaked_def)
  have ok: "entry_ok ?e" using ue u by (simp add: entry_ok_def)
  have us: "de_user (dh_table h ! i) = de_user ?e" using i by simp
  note S = tab_same_users [OF T i(1) us ok, folded h'(1)]
  show "dh_tab h'" using tab S h' by (simp add: dh_tab_def dh_count_ok_def)
  show "used_slots (dh_table h') = used_slots (dh_table h)" by (rule S(2))
  show m: "dh_map (dh_table h') = (dh_map (dh_table h))(u \<mapsto> ?e)"
    using dh_map_upd [OF T S(1) [unfolded h'(1)] i(1)] us ue u by (simp add: h'(1))
  show "dh_live h' = (dh_live h)(u := None)"
    by (rule ext) (simp add: dh_live_def m de_leaked_def)
qed


subsection \<open>The scans over the table\<close>

text \<open>Each live block is in exactly one slot, so that the scans over the table see every live block once.\<close>

lemma live_slots:
  assumes "dh_tab h"
  shows "distinct (map de_user (filter (\<lambda>e. de_leaked e \<and> P e) (dh_table h)))"
    and "de_user ` set (filter (\<lambda>e. de_leaked e \<and> P e) (dh_table h)) = {u. \<exists>e. dh_live h u = Some e \<and> P e}"
proof -
  let ?T = "dh_table h"
  have T: "tab_ok ?T" using assms by (simp add: dh_tab_def dh_count_ok_def)
  have occ: "filter (\<lambda>e. de_leaked e \<and> P e) ?T = filter (\<lambda>e. de_leaked e \<and> P e) (occupied ?T)"
    unfolding filter_filter by (rule filter_cong) (auto simp: de_leaked_def)
  have "distinct (map de_user (occupied ?T))" using tab_unique [OF T] by (intro occupied_distinct) blast
  then show "distinct (map de_user (filter (\<lambda>e. de_leaked e \<and> P e) ?T))" unfolding occ by (rule distinct_map_filter)
  show "de_user ` set (filter (\<lambda>e. de_leaked e \<and> P e) ?T) = {u. \<exists>e. dh_live h u = Some e \<and> P e}"
    by (auto simp: dh_live_iff dh_map_iff [OF T] in_set_conv_nth de_leaked_def)
qed

lemma live_count:
  assumes "dh_tab h"
  shows "length (filter (\<lambda>e. de_leaked e \<and> P e) (dh_table h)) = card {u. \<exists>e. dh_live h u = Some e \<and> P e}"
  using distinct_card [OF live_slots(1) [OF assms, of P]] unfolding set_map live_slots(2) [OF assms] by simp

lemma check_loop_spec:
  "\<exists>log rep. dh_check_loop h es bad =
     Inr (bad + of_nat (length (filter (\<lambda>e. de_leaked e \<and> \<not> guarded (dh_mem h) (de_raw e) (de_size e)) es)), h\<lparr>dh_log := log, dh_rep := rep\<rparr>)"
proof (induction es arbitrary: h bad)
  case Nil
  show ?case by (intro exI [of _ "dh_log h"] exI [of _ "dh_rep h"]) simp
next
  case (Cons e es)
  show ?case
  proof (cases "de_leaked e")
    case True
    let ?ok = "guarded (dh_mem h) (de_raw e) (de_size e)"
    let ?h = "h\<lparr>dh_log := dh_log h @ canary_events (dh_mem h) (de_raw e) (de_size e) (de_user e), dh_rep := count_violation ?ok (dh_rep h)\<rparr>"
    obtain log rep where IH: "dh_check_loop ?h es (if ?ok then bad else bad + 1) = Inr ((if ?ok then bad else bad + 1) +
        of_nat (length (filter (\<lambda>e. de_leaked e \<and> \<not> guarded (dh_mem h) (de_raw e) (de_size e)) es)), h\<lparr>dh_log := log, dh_rep := rep\<rparr>)"
      using Cons.IH [of ?h "if ?ok then bad else bad + 1"] by auto
    have "de_raw e \<noteq> NULL" using True by (simp add: de_leaked_def)
    from verify_block_eq [OF this, of h "de_size e" "de_user e"] IH True show ?thesis
      by (intro exI [of _ log] exI [of _ rep]) simp
  qed (use Cons.IH [of h bad] in auto)
qed

lemma report_leaks:
  assumes "dh_tab h"
  shows "dr_leaked_blocks (hf_debug_heap_report h) = of_nat (card (dom (dh_live h)))"
proof -
  have *: "dr_leaked_blocks (fold (\<lambda>e out. if de_leaked e then
       out\<lparr>dr_leaked_blocks := dr_leaked_blocks out + 1, dr_leaked_bytes := dr_leaked_bytes out + de_size e\<rparr> else out) es out)
     = dr_leaked_blocks out + of_nat (length (filter de_leaked es))" for es out
    by (induction es arbitrary: out) simp_all
  have "{u. \<exists>e. dh_live h u = Some e} = dom (dh_live h)" by auto
  then show ?thesis using live_count [OF assms, of "\<lambda>_. True"] by (simp add: hf_debug_heap_report_def *)
qed

definition leak_events :: "dh_entry \<Rightarrow> dh_event list" where
  "leak_events e = [Bug_leak (de_user e) (de_size e), Dbg_returned (de_user e)]"


subsection \<open>Clients\<close>

text \<open>
  A client of the debug heap requests, releases and writes bytes.  Its releases may be wrong: only a
  pointer whose entry a rehash has revived is excluded.  Its writes stay in the user bytes of its blocks.
\<close>

datatype dh_op = Dh_alloc u64 u64 | Dh_free addr | Dh_write addr u8

fun dh_step :: "'s hf_allocator_vtable \<Rightarrow> (u64 \<Rightarrow> bool) \<Rightarrow> 's dh_heap \<Rightarrow> dh_op \<Rightarrow> 's dh_heap run" where
  "dh_step vt calloc_ok h (Dh_alloc n al) = run_bind (dh_allocate vt calloc_ok h n al) (\<lambda>(r, h). Some (Inr h))"
| "dh_step vt calloc_ok h (Dh_free p) = Some (dh_deallocate vt h p)"
| "dh_step vt calloc_ok h (Dh_write x v) = Some (Inr (h\<lparr>dh_mem := (dh_mem h)(x := v)\<rparr>))"

definition dh_writable :: "'s dh_heap \<Rightarrow> addr \<Rightarrow> bool" where
  "dh_writable h x \<longleftrightarrow> (\<exists>e \<in> set (dh_table h). de_leaked e \<and> x - de_user e < de_size e)"

definition dh_free_safe :: "'s dh_heap \<Rightarrow> addr \<Rightarrow> bool" where
  "dh_free_safe h p \<longleftrightarrow> p = NULL \<or>
     (case dh_map (dh_table h) p of None \<Rightarrow> True | Some e \<Rightarrow> de_freed e \<or> de_raw e \<noteq> NULL)"

fun dh_polite :: "(u64 \<Rightarrow> u64 \<Rightarrow> bool) \<Rightarrow> 's dh_heap \<Rightarrow> dh_op \<Rightarrow> bool" where
  "dh_polite fits h (Dh_alloc n al) \<longleftrightarrow> fits (n + 16) al \<and> unat n + 16 < 2 ^ 64"
| "dh_polite fits h (Dh_free p) \<longleftrightarrow> dh_free_safe h p"
| "dh_polite fits h (Dh_write x v) \<longleftrightarrow> dh_writable h x"

fun dh_run :: "'s hf_allocator_vtable \<Rightarrow> (u64 \<Rightarrow> bool) \<Rightarrow> 's dh_heap \<Rightarrow> dh_op list \<Rightarrow> 's dh_heap run" where
  "dh_run vt calloc_ok h [] = Some (Inr h)"
| "dh_run vt calloc_ok h (c # cs) = run_bind (dh_step vt calloc_ok h c) (\<lambda>h. dh_run vt calloc_ok h cs)"

fun dh_polite_run :: "'s hf_allocator_vtable \<Rightarrow> (u64 \<Rightarrow> bool) \<Rightarrow> (u64 \<Rightarrow> u64 \<Rightarrow> bool) \<Rightarrow> 's dh_heap \<Rightarrow> dh_op list \<Rightarrow> bool" where
  "dh_polite_run vt calloc_ok fits h [] \<longleftrightarrow> True"
| "dh_polite_run vt calloc_ok fits h (c # cs) \<longleftrightarrow> dh_polite fits h c \<and>
     (case dh_step vt calloc_ok h c of Some (Inr h) \<Rightarrow> dh_polite_run vt calloc_ok fits h cs | _ \<Rightarrow> True)"


subsection \<open>The decorator over the allocator contract\<close>

text \<open>
  What the decorator needs beyond the contract: the virtual table holds the operations, blocks stay in
  the lower half of the address space, and every live block may be released.
\<close>

locale debug_backend = allocator_contract invar allocate deallocate live fits freeable store
  for invar :: "'s \<Rightarrow> bool" and allocate deallocate live fits freeable store +
  fixes vt :: "'s hf_allocator_vtable"
  assumes vt_ops: "vt_allocate vt = allocate" "vt_deallocate vt = deallocate"
    and live_range: "invar s \<Longrightarrow> live s p = Some m \<Longrightarrow> p \<noteq> NULL \<and> unat p + m \<le> 2 ^ 63"
    and live_freeable: "invar s \<Longrightarrow> live s p \<noteq> None \<Longrightarrow> freeable s p"
begin

lemma dh_block_range:
  assumes inv: "dh_inv invar live h" and e: "dh_live h u = Some e"
  shows "unat (de_raw e) + unat (de_size e) + 16 \<le> 2 ^ 63" and "de_raw e \<noteq> NULL"
    and "unat u = unat (de_raw e) + 12" and "u \<noteq> NULL"
proof -
  obtain m where m: "live (dh_backend h) (de_raw e) = Some m" "unat (de_size e) + 16 \<le> m" using dh_invD(4) [OF inv e] by blast
  note r = live_range [OF dh_invD(1) [OF inv] m(1)]
  show "unat (de_raw e) + unat (de_size e) + 16 \<le> 2 ^ 63" and "de_raw e \<noteq> NULL" using r m(2) by simp_all
  show u: "unat u = unat (de_raw e) + 12"
    using r m(2) dh_invD(3) [OF inv e] by (simp add: unat_add_nowrap DH_HEAD_def)
  then show "u \<noteq> NULL" by (intro notI) simp
qed

text \<open>Two live blocks with their guards do not overlap.\<close>

lemma dh_blocks_apart:
  assumes inv: "dh_inv invar live h" and e: "dh_live h u = Some e" and d: "dh_live h v = Some d" and "u \<noteq> v"
  shows "unat (de_raw e) + (unat (de_size e) + 16) \<le> unat (de_raw d) \<or> unat (de_raw d) + (unat (de_size d) + 16) \<le> unat (de_raw e)"
proof -
  obtain m where m: "live (dh_backend h) (de_raw e) = Some m" "unat (de_size e) + 16 \<le> m" using dh_invD(4) [OF inv e] by blast
  obtain k where k: "live (dh_backend h) (de_raw d) = Some k" "unat (de_size d) + 16 \<le> k" using dh_invD(4) [OF inv d] by blast
  have "de_raw e \<noteq> de_raw d" using dh_invD(3) [OF inv e] dh_invD(3) [OF inv d] \<open>u \<noteq> v\<close> by auto
  then have "unat (de_raw e) + m \<le> unat (de_raw d) \<or> unat (de_raw d) + k \<le> unat (de_raw e)"
    using live_disjoint [OF dh_invD(1) [OF inv]] m(1) k(1) by (auto simp: blocks_disjoint_def)
  then show ?thesis using m(2) k(2) by linarith
qed

text \<open>A change of memory inside one live block leaves the guards of the other blocks alone.\<close>

lemma other_guards:
  assumes inv: "dh_inv invar live h" and e: "dh_live h u = Some e" and d: "dh_live h v = Some d" and "v \<noteq> u"
    and same: "\<forall>x. unat (de_size e) + 16 \<le> unat (x - de_raw e) \<longrightarrow> m' x = m x"
  shows "guarded m' (de_raw d) (de_size d) = guarded m (de_raw d) (de_size d)"
proof (rule guarded_frame)
  note re = dh_block_range(1) [OF inv e] and rd = dh_block_range(1) [OF inv d]
  show "unat (de_size d) + 16 \<le> 2 ^ 64" using rd by simp
  show "\<forall>x. unat (x - de_raw d) < unat (de_size d) + 16 \<longrightarrow> m' x = m x"
  proof (intro allI impI)
    fix x assume x: "unat (x - de_raw d) < unat (de_size d) + 16"
    have "unat (de_size e) + 16 \<le> unat (x - de_raw e)"
      using foreign_offset [OF dh_blocks_apart [OF inv e d] _ _ x] \<open>v \<noteq> u\<close> re rd by simp
    then show "m' x = m x" using same by blast
  qed
qed

lemma dh_release:
  assumes inv: "dh_inv invar live h" and e: "dh_live h u = Some e"
  defines "ok \<equiv> guarded (dh_mem h) (de_raw e) (de_size e)"
  obtains h' where "dh_deallocate vt h u = Inr h'" and "dh_inv invar live h'" and "dh_live h' = (dh_live h)(u := None)"
    and "dh_map (dh_table h') = (dh_map (dh_table h))(u \<mapsto> e\<lparr>de_freed := True, de_raw := NULL\<rparr>)"
    and "\<forall>v d. dh_live h' v = Some d \<longrightarrow> guarded (dh_mem h') (de_raw d) (de_size d) = guarded (dh_mem h) (de_raw d) (de_size d)"
    and "dh_log h' = dh_log h @ canary_events (dh_mem h) (de_raw e) (de_size e) u @ [if ok then Dbg_intact u else Dbg_reclaimed u]"
    and "dr_canary_violations (dh_rep h') = dr_canary_violations (dh_rep h) + (if ok then 0 else 1)"
    and "dr_double_frees (dh_rep h') = dr_double_frees (dh_rep h)" and "dr_invalid_frees (dh_rep h') = dr_invalid_frees (dh_rep h)"
    and "used_slots (dh_table h') = used_slots (dh_table h)"
proof -
  note D = dh_invD [OF inv] and R = dh_block_range [OF inv e]
  have "live (dh_backend h) (de_raw e) \<noteq> None" using D(4) [OF e] by auto
  from deallocate_ok [OF D(1) live_freeable [OF D(1) this]] obtain b
    where b: "deallocate (dh_backend h) (de_raw e) = Inr b" "invar b" "live b = (live (dh_backend h))(de_raw e := None)" by blast
  obtain i where i: "i < length (dh_table h)" "dh_table h ! i = e"
    and dealloc: "dh_deallocate vt h u = (case hf_deallocate vt (dh_backend h) (de_raw e) of Inl err \<Rightarrow> Inl err | Inr b \<Rightarrow> Inr (dh_released h u e i b))"
    by (rule dh_deallocate_live [OF D(2) e])
  define h' where "h' = dh_released h u e i b"
  note h'_eq = h'_def [unfolded dh_released_def Let_def, folded ok_def]
  have run: "dh_deallocate vt h u = Inr h'"
    unfolding dealloc using b(1) by (simp add: hf_deallocate_def vt_ops h'_def)
  have tab: "dh_tab h'" "dh_live h' = (dh_live h)(u := None)" "used_slots (dh_table h') = used_slots (dh_table h)"
    "dh_map (dh_table h') = (dh_map (dh_table h))(u \<mapsto> e\<lparr>de_freed := True, de_raw := NULL\<rparr>)"
    using freed_table [OF D(2) i e, of h'] by (simp_all add: h'_eq)
  have frame: "\<forall>x. unat (de_size e) + 16 \<le> unat (x - de_raw e) \<longrightarrow> dh_mem h' x = dh_mem h x"
    using R(1) D(3) [OF e] offset_memset [of _ "de_raw e" "de_size e"] by (simp add: h'_eq)
  have "dr_active_allocs (dh_rep h') = dr_active_allocs (dh_rep h) - 1" by (simp add: h'_eq count_violation_def)
  moreover have "0 < card (dom (dh_live h))" using e dom_dh_live(1) by (auto simp: card_gt_0_iff)
  ultimately have "unat (dr_active_allocs (dh_rep h')) = card (dom (dh_live h)) - 1" using D(6) by (simp add: unat_sub_nowrap)
  moreover have "card (dom (dh_live h')) = card (dom (dh_live h)) - 1" using e dom_dh_live(1) [of h] by (simp add: tab(2) dom_def [symmetric] domI)
  ultimately have act: "unat (dr_active_allocs (dh_rep h')) = card (dom (dh_live h'))" by simp
  have bk: "dh_backend h' = b" and ue: "u = de_raw e + DH_HEAD" using D(3) [OF e] by (simp_all add: h'_eq)
  have inv': "dh_inv invar live h'"
  proof (rule dh_invI)
    show "\<forall>v d. dh_live h' v = Some d \<longrightarrow> (\<exists>m. live (dh_backend h') (de_raw d) = Some m \<and> unat (de_size d) + 16 \<le> m)"
    proof (intro allI impI)
      fix v d assume "dh_live h' v = Some d"
      then have v: "dh_live h v = Some d" "v \<noteq> u" by (auto simp: tab(2) split: if_splits)
      then show "\<exists>m. live (dh_backend h') (de_raw d) = Some m \<and> unat (de_size d) + 16 \<le> m"
        using D(3) [OF v(1)] D(4) [OF v(1)] ue unfolding bk b(3) by auto
    qed
    show "\<forall>p. live (dh_backend h') p \<noteq> None \<longrightarrow> dh_live h' (p + DH_HEAD) \<noteq> None"
      using D(5) ue unfolding tab(2) bk b(3) by (auto split: if_splits)
  qed (use tab(1) act bk b(2) D(3) in \<open>auto simp: tab(2)\<close>)
  show ?thesis
    using run inv' tab other_guards [OF inv e _ _ frame]
    by (intro that [of h']) (auto simp: h'_eq count_violation_def)
qed

lemma dh_inv_grant:
  assumes inv: "dh_inv invar live h" and b: "invar b" "live (dh_backend h) raw = None" "live b = (live (dh_backend h))(raw \<mapsto> m)"
      "unat sz + 16 \<le> m"
    and h': "dh_backend h' = b" "dh_tab h'" "dh_live h' = (dh_live h)(raw + DH_HEAD \<mapsto> new_entry (raw + DH_HEAD) raw sz)"
    and fresh: "dh_live h (raw + DH_HEAD) = None" and act: "dr_active_allocs (dh_rep h') = dr_active_allocs (dh_rep h) + 1"
    and small: "used_slots (dh_table h) < 2 ^ 50"
  shows "dh_inv invar live h'"
proof (rule dh_invI)
  note D = dh_invD [OF inv]
  show "\<forall>v d. dh_live h' v = Some d \<longrightarrow> (\<exists>m. live (dh_backend h') (de_raw d) = Some m \<and> unat (de_size d) + 16 \<le> m)"
  proof (intro allI impI)
    fix v d assume v: "dh_live h' v = Some d"
    consider "d = new_entry (raw + DH_HEAD) raw sz" | "dh_live h v = Some d"
      using v unfolding h'(3) fun_upd_apply by (cases "v = raw + DH_HEAD") simp_all
    then show "\<exists>m. live (dh_backend h') (de_raw d) = Some m \<and> unat (de_size d) + 16 \<le> m"
    proof cases
      case 2
      from D(4) [OF this] obtain k where "live (dh_backend h) (de_raw d) = Some k" "unat (de_size d) + 16 \<le> k" by blast
      then show ?thesis using b(2) by (auto simp: h'(1) b(3))
    qed (use b(4) in \<open>simp add: h'(1) b(3) new_entry_def\<close>)
  qed
  show "\<forall>v d. dh_live h' v = Some d \<longrightarrow> v = de_raw d + DH_HEAD" using D(3) by (simp add: h'(3) new_entry_def)
  show "\<forall>p. live (dh_backend h') p \<noteq> None \<longrightarrow> dh_live h' (p + DH_HEAD) \<noteq> None"
  proof (intro allI impI)
    fix p assume "live (dh_backend h') p \<noteq> None"
    then have "p = raw \<or> live (dh_backend h) p \<noteq> None" by (simp add: h'(1) b(3) split: if_splits)
    then show "dh_live h' (p + DH_HEAD) \<noteq> None"
    proof
      assume "live (dh_backend h) p \<noteq> None"
      then have "dh_live h (p + DH_HEAD) \<noteq> None" by (rule D(5))
      then show ?thesis unfolding h'(3) fun_upd_apply by simp
    qed (simp add: h'(3))
  qed
  have "card (dom (dh_live h)) < 2 ^ 50" using dom_dh_live(2) [of h] small by simp
  moreover have "raw + DH_HEAD \<notin> dom (dh_live h)" using fresh by auto
  ultimately show "unat (dr_active_allocs (dh_rep h')) = card (dom (dh_live h'))"
    using D(6) dom_dh_live(1) [of h] by (simp add: act h'(3) unat_add_nowrap)
qed (simp_all add: h' b(1))

lemma dh_grant:
  assumes inv: "dh_inv invar live h" and fit: "fits (sz + 16) al" "unat sz + 16 < 2 ^ 64"
    and small: "used_slots (dh_table h) < 2 ^ 50" and calloc: "\<forall>n. calloc_ok n"
  obtains (refused) h' where "dh_allocate vt calloc_ok h sz al = Some (Inr (None, h'))" and "dh_inv invar live h'"
      and "dh_live h' = dh_live h" and "dh_rep h' = dh_rep h" and "dh_mem h' = dh_mem h" and "dh_log h' = dh_log h"
      and "dh_table h' = dh_table h"
  | (granted) u e h' where "dh_allocate vt calloc_ok h sz al = Some (Inr (Some u, h'))" and "dh_inv invar live h'"
      and "dh_live h u = None" and "dh_live h' = (dh_live h)(u \<mapsto> e)" and "de_size e = sz" and "u \<noteq> NULL"
      and "guarded (dh_mem h') (de_raw e) sz"
      and "\<forall>v d. dh_live h v = Some d \<longrightarrow> guarded (dh_mem h') (de_raw d) (de_size d) = guarded (dh_mem h) (de_raw d) (de_size d)"
      and "dh_rep h' = (dh_rep h)\<lparr>dr_total_allocs := dr_total_allocs (dh_rep h) + 1, dr_active_allocs := dr_active_allocs (dh_rep h) + 1\<rparr>"
      and "dh_log h' = dh_log h" and "used_slots (dh_table h') \<le> used_slots (dh_table h) + 1"
proof -
  note D = dh_invD [OF inv]
  have req: "DH_HEAD + sz + DH_TAIL = sz + 16" by (simp add: DH_HEAD_def DH_TAIL_def)
  obtain r b where al: "allocate (dh_backend h) (sz + 16) al = (r, b)" by (cases "allocate (dh_backend h) (sz + 16) al")
  note invb = allocate_invar [OF D(1) fit(1), unfolded al snd_conv]
  let ?h0 = "h\<lparr>dh_backend := b\<rparr>"
  have l0: "dh_live ?h0 = dh_live h" by (rule dh_live_cong) simp
  show ?thesis
  proof (cases r)
    case None
    have "live b = live (dh_backend h)" using allocate_None [OF D(1) fit(1)] al None by blast
    then have "dh_inv invar live ?h0" using D invb l0 dh_tab_cong [of ?h0 h] by (intro dh_invI) auto
    then show ?thesis
      using al None l0 by (intro refused [of ?h0]) (simp_all add: dh_allocate_def hf_allocate_aligned_def vt_ops req Let_def)
  next
    case (Some raw)
    obtain m where m: "raw \<noteq> NULL" "live (dh_backend h) raw = None" "unat (sz + 16) \<le> m" "live b = (live (dh_backend h))(raw \<mapsto> m)"
      using allocate_Some [OF D(1) fit(1)] al Some by blast
    have room: "unat sz + 16 \<le> m" using m(3) fit(2) by (simp add: unat_add_nowrap)
    have rng: "unat raw + m \<le> 2 ^ 63" using live_range [OF invb, of raw m] m(4) by simp
    let ?u = "raw + DH_HEAD" and ?mem = "memset (raw + DH_HEAD) DH_FILL sz (write_guards raw sz (dh_mem h))"
    have "unat ?u = unat raw + 12" using rng room by (simp add: DH_HEAD_def unat_add_nowrap)
    then have u: "?u \<noteq> NULL" by (intro notI) simp
    have "False" if e: "dh_live h ?u = Some e" for e using D(3) [OF e] D(4) [OF e] m(2) by auto
    then have fresh: "dh_live h ?u = None" by (cases "dh_live h ?u") auto
    let ?h1 = "h\<lparr>dh_backend := b, dh_mem := ?mem\<rparr>"
    have t1: "dh_tab ?h1" using D(2) dh_tab_cong [of ?h1 h] by simp
    obtain h2 where h2: "dh_put calloc_ok ?h1 ?u raw sz = Some (Inr h2)" "dh_tab h2" "same_but_table ?h1 h2"
      "dh_live h2 = (dh_live ?h1)(?u \<mapsto> new_entry ?u raw sz)" "used_slots (dh_table h2) \<le> used_slots (dh_table ?h1) + 1"
      by (rule dh_put_spec [OF t1 u m(1) _ calloc]) (use small in simp)
    define h' where "h' = h2\<lparr>dh_rep := (dh_rep h)\<lparr>dr_total_allocs := dr_total_allocs (dh_rep h) + 1, dr_active_allocs := dr_active_allocs (dh_rep h) + 1\<rparr>\<rparr>"
    have f: "dh_backend h' = b" "dh_mem h' = ?mem" "dh_log h' = dh_log h" "dh_table h' = dh_table h2" "dh_count h' = dh_count h2"
      "dh_rep h' = (dh_rep h)\<lparr>dr_total_allocs := dr_total_allocs (dh_rep h) + 1, dr_active_allocs := dr_active_allocs (dh_rep h) + 1\<rparr>"
      using h2(3) by (simp_all add: h'_def same_but_table_def)
    have run: "dh_allocate vt calloc_ok h sz al = Some (Inr (Some ?u, h'))"
      using al Some h2(1,3)
      by (simp add: dh_allocate_def hf_allocate_aligned_def vt_ops req Let_def h'_def same_but_table_def)
    have live': "dh_live h' = (dh_live h)(?u \<mapsto> new_entry ?u raw sz)"
      using h2(4) dh_live_cong [of h' h2] dh_live_cong [of ?h1 h] f(4) by simp
    have tab': "dh_tab h'" using h2(2) dh_tab_cong [of h' h2] f(4,5) by simp
    have inv': "dh_inv invar live h'"
      using f(1,6) by (intro dh_inv_grant [OF inv invb m(2,4) room _ tab' live' fresh _ small]) simp_all
    show ?thesis
    proof (rule granted [OF run inv' fresh live'])
      show "guarded (dh_mem h') (de_raw (new_entry ?u raw sz)) sz" using fit(2) by (simp add: f(2) new_entry_def guards_written)
      have e: "dh_live h' ?u = Some (new_entry ?u raw sz)" by (simp add: live')
      have "dh_mem h' x = dh_mem h x" if "unat sz + 16 \<le> unat (x - raw)" for x
        unfolding f(2) using that fit(2) by (subst offset_memset) (auto intro: write_guards_other)
      then have fr: "\<forall>x. unat (de_size (new_entry ?u raw sz)) + 16 \<le> unat (x - de_raw (new_entry ?u raw sz)) \<longrightarrow> dh_mem h' x = dh_mem h x"
        by (simp add: new_entry_def)
      show "\<forall>v d. dh_live h v = Some d \<longrightarrow> guarded (dh_mem h') (de_raw d) (de_size d) = guarded (dh_mem h) (de_raw d) (de_size d)"
      proof (intro allI impI)
        fix v d assume d: "dh_live h v = Some d"
        then have "v \<noteq> ?u" using fresh by auto
        with d show "guarded (dh_mem h') (de_raw d) (de_size d) = guarded (dh_mem h) (de_raw d) (de_size d)"
          by (intro other_guards [OF inv' e _ _ fr]) (simp_all add: live')
      qed
    qed (use u f h2(5) in \<open>simp_all add: new_entry_def\<close>)
  qed
qed

text \<open>A client byte: a write into the user bytes of a live block.\<close>

lemma dh_inv_cong:
  assumes "dh_inv invar live h" and "dh_backend h' = dh_backend h" "dh_table h' = dh_table h" "dh_count h' = dh_count h"
    and "dr_active_allocs (dh_rep h') = dr_active_allocs (dh_rep h)"
  shows "dh_inv invar live h'"
  using assms dh_live_cong [OF assms(3)] dh_tab_cong [OF assms(3,4)] by (simp add: dh_inv_def)

lemma dh_inv_mem: "dh_inv invar live h \<Longrightarrow> dh_inv invar live (h\<lparr>dh_mem := m\<rparr>)"
  by (erule dh_inv_cong) simp_all

lemma dh_inv_log:
  "dh_inv invar live h \<Longrightarrow> dr_active_allocs r = dr_active_allocs (dh_rep h) \<Longrightarrow> dh_inv invar live (h\<lparr>dh_rep := r, dh_log := l\<rparr>)"
  by (erule dh_inv_cong) simp_all

lemma dh_user_write:
  assumes inv: "dh_inv invar live h" and e: "dh_live h u = Some e" and x: "x - u < de_size e" and d: "dh_live h v = Some d"
  shows "guarded ((dh_mem h)(x := b)) (de_raw d) (de_size d) = guarded (dh_mem h) (de_raw d) (de_size d)"
proof -
  note R = dh_block_range [OF inv e]
  have xo: "x - de_raw e = (x - u) + 12" using dh_invD(3) [OF inv e] by (simp add: DH_HEAD_def)
  have "unat (x - u) < unat (de_size e)" using x by (simp add: word_less_nat_alt)
  then have off: "12 \<le> unat (x - de_raw e)" "unat (x - de_raw e) < unat (de_size e) + 12"
    unfolding xo using R(1) by (simp_all add: unat_add_nowrap)
  show ?thesis
  proof (cases "v = u")
    case True
    then have "d = e" using e d by simp
    then show ?thesis using off R(1) by (auto intro!: guarded_cong)
  next
    case False
    show ?thesis by (rule other_guards [OF inv e d False]) (use off in auto)
  qed
qed

text \<open>The destructor gives every live block back.\<close>

lemma dh_reclaim_spec:
  "invar b \<Longrightarrow> (\<forall>e \<in> set (filter de_leaked es). live b (de_raw e) \<noteq> None) \<Longrightarrow> distinct (map de_raw (filter de_leaked es)) \<Longrightarrow>
   \<exists>b'. dh_reclaim vt b log es = Inr (b', log @ concat (map leak_events (filter de_leaked es)))
     \<and> invar b' \<and> live b' = (\<lambda>p. if p \<in> de_raw ` set (filter de_leaked es) then None else live b p)"
proof (induction es arbitrary: b log)
  case (Cons e es)
  show ?case
  proof (cases "de_leaked e")
    case True
    then have l: "live b (de_raw e) \<noteq> None" and n: "de_raw e \<noteq> NULL" using Cons.prems by (auto simp: de_leaked_def)
    from deallocate_ok [OF Cons.prems(1) live_freeable [OF Cons.prems(1) l]] obtain b'
      where b': "deallocate b (de_raw e) = Inr b'" "invar b'" "live b' = (live b)(de_raw e := None)" by blast
    have "\<forall>d \<in> set (filter de_leaked es). live b' (de_raw d) \<noteq> None"
      using Cons.prems(2,3) True unfolding b'(3) by (auto simp: image_iff)
    moreover have dist: "distinct (map de_raw (filter de_leaked es))" using Cons.prems(3) True by simp
    ultimately obtain b'' where b'': "dh_reclaim vt b' (log @ leak_events e) es =
          Inr (b'', (log @ leak_events e) @
             concat (map leak_events (filter de_leaked es)))"
        "invar b''" "live b'' = (\<lambda>p. if p \<in> de_raw ` set (filter de_leaked es) then None else live b' p)"
      using Cons.IH [OF b'(2) _ dist, of "log @ leak_events e"] by blast
    show ?thesis using b'' b' True n by (intro exI [of _ b'']) (auto simp: hf_deallocate_def vt_ops leak_events_def [of e])
  qed (use Cons in auto)
qed simp

lemma dh_destroy_spec:
  assumes inv: "dh_inv invar live h"
  obtains b log where "dh_destroy vt h = Inr (b, dh_log h @ log)" and "invar b" and "live b = Map.empty"
    and "\<forall>u n. Bug_leak u n \<in> set log \<longleftrightarrow> (\<exists>e. dh_live h u = Some e \<and> de_size e = n)"
proof -
  note D = dh_invD [OF inv]
  let ?L = "filter de_leaked (dh_table h)"
  have users: "de_user ` set ?L = dom (dh_live h)" "distinct (map de_user ?L)"
    using live_slots [OF D(2), of "\<lambda>_. True"] by (simp_all add: dom_def)
  have ent: "dh_live h (de_user e) = Some e" if "e \<in> set ?L" for e
    using that D(2) by (auto simp: dh_live_iff dh_tab_def dh_count_ok_def dh_map_iff in_set_conv_nth de_leaked_def)
  have raw: "de_user e = de_raw e + DH_HEAD" if "e \<in> set ?L" for e using D(3) [OF ent [OF that]] .
  have "map de_user ?L = map (\<lambda>r. r + DH_HEAD) (map de_raw ?L)" using raw by simp
  then have dist: "distinct (map de_raw ?L)" using users(2) distinct_map by metis
  have "\<forall>e \<in> set ?L. live (dh_backend h) (de_raw e) \<noteq> None" using D(4) [OF ent] by auto
  from dh_reclaim_spec [OF D(1) this dist, of "dh_log h"] obtain b where b: "dh_destroy vt h = Inr (b, dh_log h @
      concat (map leak_events ?L))" "invar b"
    "live b = (\<lambda>p. if p \<in> de_raw ` set ?L then None else live (dh_backend h) p)" unfolding dh_destroy_def by blast
  have "live b p = None" for p
  proof (rule ccontr)
    assume "live b p \<noteq> None"
    then have n: "p \<notin> de_raw ` set ?L" and "live (dh_backend h) p \<noteq> None" by (auto simp: b(3) split: if_splits)
    from D(5) [OF this(2)] have "p + DH_HEAD \<in> de_user ` set ?L" unfolding users(1) by auto
    then show False using n raw by auto
  qed
  then have "live b = Map.empty" by (simp add: fun_eq_iff)
  moreover have "(\<exists>e \<in> set ?L. de_user e = u \<and> de_size e = n) \<longleftrightarrow> (\<exists>e. dh_live h u = Some e \<and> de_size e = n)" for u n
  proof
    assume "\<exists>e. dh_live h u = Some e \<and> de_size e = n"
    then obtain e where e: "dh_live h u = Some e" "de_size e = n" by blast
    then have "u \<in> de_user ` set ?L" unfolding users(1) by auto
    then obtain d where "d \<in> set ?L" "de_user d = u" by auto
    then show "\<exists>e \<in> set ?L. de_user e = u \<and> de_size e = n" using ent e by fastforce
  qed (use ent in auto)
  moreover have "Bug_leak u n \<in> set (concat (map leak_events ?L)) \<longleftrightarrow> (\<exists>e \<in> set ?L. de_user e = u \<and> de_size e = n)" for u n
    by (auto simp: leak_events_def)
  ultimately show ?thesis using b(1,2) by (intro that) blast+
qed

text \<open>Clients: no abort, every operation ends, and no guard is ever found damaged.\<close>

lemma dh_free_step:
  assumes inv: "dh_inv invar live h" and ok: "dh_intact h" and p: "dh_free_safe h p"
  obtains h' where "dh_deallocate vt h p = Inr h'" and "dh_inv invar live h'" and "dh_intact h'"
    and "used_slots (dh_table h') = used_slots (dh_table h)"
    and "dr_canary_violations (dh_rep h') = dr_canary_violations (dh_rep h)"
proof (cases "dh_live h p")
  case (Some e)
  have g: "guarded (dh_mem h) (de_raw e) (de_size e)" using ok Some by (simp add: dh_intact_def)
  show ?thesis
  proof (rule dh_release [OF inv Some], goal_cases)
    case (1 h')
    have "dh_intact h'" using 1(3,5) ok unfolding dh_intact_def by (auto split: if_splits)
    then show ?thesis using 1 g by (intro that [of h']) simp_all
  qed
next
  case None
  have mem: "dh_intact (h\<lparr>dh_rep := r, dh_log := l\<rparr>)" for l r
    using ok dh_live_cong [of "h\<lparr>dh_rep := r, dh_log := l\<rparr>" h] by (simp add: dh_intact_def)
  consider "p = NULL" | "p \<noteq> NULL" "dh_map (dh_table h) p = None" | e where "p \<noteq> NULL" "dh_map (dh_table h) p = Some e" "de_freed e"
    using p None dh_invD(2) [OF inv]
    by (cases "dh_map (dh_table h) p") (auto simp: dh_free_safe_def dh_live_def de_leaked_def dh_tab_def dh_count_ok_def dh_map_iff split: if_splits)
  then show ?thesis
  proof cases
    case 1
    then show ?thesis using inv ok by (intro that [of h]) (simp_all add: dh_deallocate_def)
  next
    case 2
    from dh_deallocate_not_live(1) [OF dh_invD(2) [OF inv] 2] show ?thesis
      by (rule that) (use mem dh_inv_log [OF inv] in \<open>simp_all add: dh_say_def\<close>)
  next
    case 3
    from dh_deallocate_not_live(2) [OF dh_invD(2) [OF inv] 3] show ?thesis
      by (rule that) (use mem dh_inv_log [OF inv] in \<open>simp_all add: dh_say_def\<close>)
  qed
qed

lemma dh_step_safe:
  assumes inv: "dh_inv invar live h" and ok: "dh_intact h" and small: "used_slots (dh_table h) < 2 ^ 50"
    and calloc: "\<forall>n. calloc_ok n" and c: "dh_polite fits h c"
  obtains h' where "dh_step vt calloc_ok h c = Some (Inr h')" and "dh_inv invar live h'" and "dh_intact h'"
    and "used_slots (dh_table h') \<le> used_slots (dh_table h) + 1"
    and "dr_canary_violations (dh_rep h') = dr_canary_violations (dh_rep h)"
proof (cases c)
  case (Dh_alloc n al)
  then have fit: "fits (n + 16) al" "unat n + 16 < 2 ^ 64" using c by simp_all
  show ?thesis
  proof (cases rule: dh_grant [OF inv fit small calloc, case_names refused granted])
    case (refused h')
    then have "dh_intact h'" using ok by (simp add: dh_intact_def)
    then show ?thesis using refused by (intro that [of h']) (simp_all add: Dh_alloc)
  next
    case (granted u e h')
    then have "dh_intact h'" using ok by (simp add: dh_intact_def)
    then show ?thesis using granted by (intro that [of h']) (simp_all add: Dh_alloc)
  qed
next
  case (Dh_free p)
  with c have "dh_free_safe h p" by simp
  then obtain h' where h': "dh_deallocate vt h p = Inr h'" "dh_inv invar live h'" "dh_intact h'"
    "used_slots (dh_table h') = used_slots (dh_table h)" "dr_canary_violations (dh_rep h') = dr_canary_violations (dh_rep h)"
    by (rule dh_free_step [OF inv ok])
  then show ?thesis by (intro that [of h']) (simp_all add: Dh_free)
next
  case (Dh_write x v)
  with c obtain e where e: "e \<in> set (dh_table h)" "de_leaked e" "x - de_user e < de_size e" by (auto simp: dh_writable_def)
  then have l: "dh_live h (de_user e) = Some e"
    using dh_invD(2) [OF inv] by (auto simp: dh_live_iff dh_tab_def dh_count_ok_def dh_map_iff in_set_conv_nth de_leaked_def)
  let ?h = "h\<lparr>dh_mem := (dh_mem h)(x := v)\<rparr>"
  have lv: "dh_live ?h = dh_live h" by (rule dh_live_cong) simp
  have "dh_intact ?h" using ok dh_user_write [OF inv l e(3)] unfolding dh_intact_def lv by auto
  then show ?thesis using dh_inv_mem [OF inv] by (intro that [of ?h]) (simp_all add: Dh_write)
qed

lemma dh_run_safe:
  "dh_inv invar live h \<Longrightarrow> dh_intact h \<Longrightarrow> used_slots (dh_table h) + length cs < 2 ^ 50 \<Longrightarrow> \<forall>n. calloc_ok n \<Longrightarrow>
   dh_polite_run vt calloc_ok fits h cs \<Longrightarrow>
   \<exists>h'. dh_run vt calloc_ok h cs = Some (Inr h') \<and> dh_inv invar live h' \<and> dh_intact h' \<and>
     dr_canary_violations (dh_rep h') = dr_canary_violations (dh_rep h)"
proof (induction cs arbitrary: h)
  case (Cons c cs)
  then have c: "dh_polite fits h c" and s: "used_slots (dh_table h) < 2 ^ 50" by simp_all
  obtain h1 where h1: "dh_step vt calloc_ok h c = Some (Inr h1)" "dh_inv invar live h1" "dh_intact h1"
    "used_slots (dh_table h1) \<le> used_slots (dh_table h) + 1" "dr_canary_violations (dh_rep h1) = dr_canary_violations (dh_rep h)"
    by (rule dh_step_safe [OF Cons.prems(1,2) s Cons.prems(4) c])
  have "dh_polite_run vt calloc_ok fits h1 cs" and "used_slots (dh_table h1) + length cs < 2 ^ 50"
    using Cons.prems(3,5) h1(1,4) by simp_all
  from Cons.IH [OF h1(2,3) this(2) Cons.prems(4) this(1)] show ?case by (simp add: h1(1,5))
qed simp

text \<open>What the check returns, the blocks as the client sees them, and the report.\<close>

lemma dh_check_counts:
  assumes inv: "dh_inv invar live h"
  obtains h' where "hf_debug_heap_check h =
    Inr (of_nat (card {u. \<exists>e. dh_live h u = Some e \<and> \<not> guarded (dh_mem h) (de_raw e) (de_size e)}), h')"
  using check_loop_spec [of h "dh_table h" 0] live_count [OF dh_invD(2) [OF inv], of "\<lambda>e. \<not> guarded (dh_mem h) (de_raw e) (de_size e)"]
  by (auto simp: hf_debug_heap_check_def intro: that)

lemma dh_check_intact:
  assumes "dh_inv invar live h" and "dh_intact h"
  obtains h' where "hf_debug_heap_check h = Inr (0, h')"
proof -
  let ?bad = "{u. \<exists>e. dh_live h u = Some e \<and> \<not> guarded (dh_mem h) (de_raw e) (de_size e)}"
  have none: "?bad = {}" using assms(2) by (auto simp: dh_intact_def)
  obtain h' where "hf_debug_heap_check h = Inr (of_nat (card ?bad), h')" by (rule dh_check_counts [OF assms(1)])
  then have "hf_debug_heap_check h = Inr (of_nat (card ({} :: addr set)), h')" unfolding none .
  then show ?thesis by (intro that) simp
qed

lemma dh_user_disjoint:
  assumes inv: "dh_inv invar live h"
  shows "blocks_disjoint (map_option (\<lambda>e. unat (de_size e)) \<circ> dh_live h)"
proof (unfold blocks_disjoint_def, intro allI impI)
  fix p q m k
  assume "(map_option (\<lambda>e. unat (de_size e)) \<circ> dh_live h) p = Some m" and "(map_option (\<lambda>e. unat (de_size e)) \<circ> dh_live h) q = Some k"
    and pq: "p \<noteq> q"
  then obtain e d where e: "dh_live h p = Some e" "m = unat (de_size e)" and d: "dh_live h q = Some d" "k = unat (de_size d)" by auto
  show "unat p + m \<le> unat q \<or> unat q + k \<le> unat p"
    using dh_blocks_apart [OF inv e(1) d(1) pq] dh_block_range(3) [OF inv e(1)] dh_block_range(3) [OF inv d(1)] e(2) d(2) by linarith
qed

text \<open>A damaged guard byte: the check counts the one block, and its release reports it.\<close>

lemma dh_overrun:
  assumes inv: "dh_inv invar live h" and ok: "dh_intact h" and e: "dh_live h u = Some e" and v: "v \<noteq> dh_mem h x"
    and x: "unat (x - de_raw e) < 4 \<or> unat (de_size e) \<le> unat (x - u) \<and> unat (x - u) < unat (de_size e) + 4"
  defines "h1 \<equiv> h\<lparr>dh_mem := (dh_mem h)(x := v)\<rparr>"
  shows "dh_inv invar live h1" and "dh_live h1 = dh_live h" and "\<not> guarded (dh_mem h1) (de_raw e) (de_size e)"
    and "d \<noteq> u \<Longrightarrow> dh_live h d = Some c \<Longrightarrow> guarded (dh_mem h1) (de_raw c) (de_size c)"
proof -
  note R = dh_block_range [OF inv e]
  show "dh_inv invar live h1" unfolding h1_def by (rule dh_inv_mem [OF inv])
  show "dh_live h1 = dh_live h" unfolding h1_def by (rule dh_live_cong) simp
  have xo: "x - de_raw e = (x - u) + 12" using dh_invD(3) [OF inv e] by (simp add: DH_HEAD_def)
  have x': "unat (x - de_raw e) < 4 \<or> unat (de_size e) + 12 \<le> unat (x - de_raw e) \<and> unat (x - de_raw e) < unat (de_size e) + 16"
    using x R(1) unfolding xo by (auto simp: unat_add_nowrap)
  have g: "guarded (dh_mem h) (de_raw e) (de_size e)" using ok e by (simp add: dh_intact_def)
  show "\<not> guarded (dh_mem h1) (de_raw e) (de_size e)"
    using guard_change [OF _ g v x'] R(1) by (simp add: h1_def)
  show "guarded (dh_mem h1) (de_raw c) (de_size c)" if "d \<noteq> u" and c: "dh_live h d = Some c"
    using other_guards [OF inv e c that(1), of "dh_mem h1" "dh_mem h"] x' ok c by (auto simp: h1_def dh_intact_def)
qed

end


subsection \<open>The debug heap over a free list\<close>

lemma fl_live_range:
  assumes inv: "fl_inv a" and live: "fl_live a p = Some m"
  shows "p \<noteq> NULL \<and> unat p + m \<le> 2 ^ 63"
proof -
  obtain M fs where core: "fl_core a M fs {}" using fl_invE [OF inv] by blast
  then obtain b s where b: "M b = Some (s, True)" "p = fl_at a b + 16" "m = s - 16" using live by (auto simp: fl_live_iff)
  note B = fl_at_block [OF fl_coreD(1,2) [OF core] b(1)] and s = fl_partD(2) [OF fl_coreD(2) [OF core] b(1)]
  show ?thesis unfolding b(2,3) B(3) using B(7,8) s by simp
qed

interpretation dfl: debug_backend fl_inv fl_allocate fl_deallocate fl_live fl_fits
    "\<lambda>a p. fl_live a p \<noteq> None" "\<lambda>a x v. fl_store x v a" FL_VT
  by unfold_locales (use fl_live_range in \<open>auto simp: FL_VT_def\<close>)

abbreviation dfl_inv :: "fl_alloc dh_heap \<Rightarrow> bool" where
  "dfl_inv \<equiv> dh_inv fl_inv fl_live"

lemma dh_create_inv:
  assumes "hf_debug_heap_create os mem (Some a) = Some h" and "fl_inv a" and "fl_live a = Map.empty"
  shows "dfl_inv h" and "dh_intact h" and "used_slots (dh_table h) = 0" and "dh_rep h = dr_zero" and "dh_log h = []"
proof -
  have h: "h = \<lparr>dh_backend = a, dh_table = replicate 64 de_zero, dh_count = 0, dh_rep = dr_zero, dh_mem = mem, dh_log = []\<rparr>"
    using assms(1) by (simp add: hf_debug_heap_create_def split: if_splits)
  have T: "tab_ok (dh_table h)" "used_slots (dh_table h) = 0" "dh_map (dh_table h) = Map.empty"
    using de_zero_table [of 6] by (simp_all add: h)
  then have l: "dh_live h = Map.empty" by (simp add: dh_live_def fun_eq_iff)
  show "dfl_inv h" using T l assms(2,3) by (intro dh_invI) (simp_all add: dh_tab_def dh_count_ok_def h dr_zero_def)
  show "dh_intact h" by (simp add: dh_intact_def l)
  show "used_slots (dh_table h) = 0" by (rule T(2))
  show "dh_rep h = dr_zero" "dh_log h = []" by (simp_all add: h)
qed

text \<open>An example: a heap over the free list of the example, and its first block.\<close>

definition dh_example :: "fl_alloc dh_heap" where
  "dh_example = \<lparr>dh_backend = fl_example, dh_table = replicate 64 de_zero, dh_count = 0, dh_rep = dr_zero, dh_mem = (\<lambda>_. 0), dh_log = []\<rparr>"

definition dh_example_ops :: "dh_op list" where
  "dh_example_ops = [Dh_alloc 24 16, Dh_write 0x10001C 7, Dh_free 0x999]"

lemma dh_example_create: "hf_debug_heap_create os_example (\<lambda>_. 0) (Some fl_example) = Some dh_example"
  by (simp add: hf_debug_heap_create_def dh_example_def os_example_def)

lemma dh_example_step:
  "case dh_step FL_VT (\<lambda>_. True) dh_example (Dh_alloc 24 16) of
     Some (Inr h) \<Rightarrow> dh_live h 0x10001C = Some (new_entry 0x10001C 0x100010 24) \<and>
       dh_polite_run FL_VT (\<lambda>_. True) fl_fits h [Dh_write 0x10001C 7, Dh_free 0x999]
   | _ \<Rightarrow> False"
  by code_simp

lemma dh_example_polite: "dh_polite_run FL_VT (\<lambda>_. True) fl_fits dh_example dh_example_ops"
  using dh_example_step
  by (auto simp: dh_example_ops_def fl_fits_def HF_DEFAULT_ALIGN_def simp del: dh_step.simps split: option.splits sum.splits)

lemmas dh_example_inv = dh_create_inv [OF dh_example_create fl_example_inv]

lemma dh_example_block:
  obtains h where "dfl_inv h" and "dh_intact h" and "dh_live h 0x10001C = Some (new_entry 0x10001C 0x100010 24)"
proof -
  have "dh_polite fl_fits dh_example (Dh_alloc 24 16)" using dh_example_polite by (simp add: dh_example_ops_def)
  then obtain h where h: "dh_step FL_VT (\<lambda>_. True) dh_example (Dh_alloc 24 16) = Some (Inr h)" "dfl_inv h" "dh_intact h"
    using dfl.dh_step_safe [OF dh_example_inv(1,2), of "\<lambda>_. True" "Dh_alloc 24 16"] dh_example_inv(3) by auto
  then show ?thesis using dh_example_step by (intro that [of h]) simp_all
qed



text \<open>
  C7: whatever the client of the previous property still holds, the destructor of the debug heap gives
  it back: the free list below ends as one free block of its whole capacity, and the log names exactly
  the leaked blocks with their sizes.
\<close>

theorem debug_heap_destroy_reclaims:
  assumes "os_wf os" and "hf_free_list_create os capacity pol = (calls, Some a)" and "hf_debug_heap_create os mem (Some a) = Some h"
    and "\<forall>n. calloc_ok n" and "length cs < 2 ^ 50" and "dh_polite_run FL_VT calloc_ok fl_fits h cs"
  shows "\<exists>h' b log. dh_run FL_VT calloc_ok h cs = Some (Inr h') \<and> dh_destroy FL_VT h' = Inr (b, dh_log h' @ log) \<and>
    fl_walk b = [\<lparr>bi_offset = 0, bi_size = fl_capacity b, bi_is_free = True\<rparr>] \<and>
    (\<forall>u n. Bug_leak u n \<in> set log \<longleftrightarrow> (\<exists>e. dh_live h' u = Some e \<and> de_size e = n))"
proof -
  note C = dh_create_inv [OF assms(3) hf_free_list_create_inv [OF assms(1,2)]]
  obtain h' where h': "dh_run FL_VT calloc_ok h cs = Some (Inr h')" "dfl_inv h'"
    using dfl.dh_run_safe [OF C(1,2) _ assms(4,6)] assms(5) C(3) by auto
  show ?thesis by (rule dfl.dh_destroy_spec [OF h'(2)]) (use h'(1) fl_walk_whole in blast)
qed

theorem debug_heap_destroy_reclaims_witness:
  "\<exists>h' b log. dh_run FL_VT (\<lambda>_. True) dh_example dh_example_ops = Some (Inr h') \<and>
     dh_destroy FL_VT h' = Inr (b, dh_log h' @ log) \<and> length (fl_walk b) = 1"
proof -
  have "length dh_example_ops < 2 ^ 50" by (simp add: dh_example_ops_def)
  from debug_heap_destroy_reclaims [OF os_example_wf fl_example_create dh_example_create _ this dh_example_polite]
  show ?thesis by fastforce
qed

text \<open>
  C6: one changed byte of the canary before or behind a live block is noticed: the check counts exactly
  one damaged block, and the release of the block reports it, counts the violation, and still gives the
  block back.
\<close>

theorem debug_heap_detects_overrun:
  assumes "dfl_inv h" and "dh_intact h" and "dh_live h u = Some e" and "v \<noteq> dh_mem h x"
    and "unat (x - de_raw e) < 4 \<or> unat (de_size e) \<le> unat (x - u) \<and> unat (x - u) < unat (de_size e) + 4"
  shows "\<exists>h' h''. hf_debug_heap_check (h\<lparr>dh_mem := (dh_mem h)(x := v)\<rparr>) = Inr (1, h'') \<and>
    dh_deallocate FL_VT (h\<lparr>dh_mem := (dh_mem h)(x := v)\<rparr>) u = Inr h' \<and>
    dr_canary_violations (dh_rep h') = dr_canary_violations (dh_rep h) + 1 \<and>
    (Bug_head_canary u (de_size e) \<in> set (dh_log h') \<or> Bug_tail_canary u (de_size e) \<in> set (dh_log h')) \<and>
    dh_live h' = (dh_live h)(u := None) \<and> dfl_inv h'"
proof -
  let ?h = "h\<lparr>dh_mem := (dh_mem h)(x := v)\<rparr>"
  note O = dfl.dh_overrun [OF assms]
  have "{d. \<exists>c. dh_live ?h d = Some c \<and> \<not> guarded (dh_mem ?h) (de_raw c) (de_size c)} = {u}"
    using O(3,4) assms(3) unfolding O(2) by auto
  then obtain h'' where chk: "hf_debug_heap_check ?h = Inr (1, h'')" using dfl.dh_check_counts [OF O(1)] by force
  have e: "dh_live ?h u = Some e" using assms(3) O(2) by simp
  have ev: "Bug_head_canary u (de_size e) \<in> set (canary_events (dh_mem ?h) (de_raw e) (de_size e) u) \<or>
      Bug_tail_canary u (de_size e) \<in> set (canary_events (dh_mem ?h) (de_raw e) (de_size e) u)"
    using O(3) by (auto simp: canary_events_def guarded_def)
  show ?thesis
  proof (rule dfl.dh_release [OF O(1) e], goal_cases)
    case (1 h')
    then show ?thesis using chk ev O(2,3) by (intro exI [of _ h'] exI [of _ h'']) auto
  qed
qed

theorem debug_heap_detects_overrun_witness:
  "\<exists>h h' v. dh_deallocate FL_VT (h\<lparr>dh_mem := (dh_mem h)(0x100034 := v)\<rparr>) 0x10001C = Inr h' \<and>
     dr_canary_violations (dh_rep h') = dr_canary_violations (dh_rep h) + 1"
proof -
  obtain h where h: "dfl_inv h" "dh_intact h" "dh_live h 0x10001C = Some (new_entry 0x10001C 0x100010 24)" by (rule dh_example_block)
  have "dh_mem h 0x100034 + 1 \<noteq> dh_mem h 0x100034" by simp
  from debug_heap_detects_overrun [OF h this] show ?thesis by (auto simp: new_entry_def)
qed

text \<open>
  Releasing a live block twice is reported as a double free, and releasing a pointer the heap never
  handed out as an invalid one; neither touches the table, the memory or the decorated allocator.
\<close>

theorem debug_heap_misuse_reported:
  assumes "dfl_inv h" and "dh_live h u = Some e"
  shows "\<exists>h1 h2. dh_deallocate FL_VT h u = Inr h1 \<and> dh_deallocate FL_VT h1 u = Inr h2 \<and>
    h2 = dh_say (Bug_double_free u) (h1\<lparr>dh_rep := (dh_rep h1)\<lparr>dr_double_frees := dr_double_frees (dh_rep h1) + 1\<rparr>\<rparr>) \<and>
    (\<forall>p. p \<noteq> NULL \<longrightarrow> p \<noteq> u \<longrightarrow> dh_map (dh_table h) p = None \<longrightarrow> dh_deallocate FL_VT h2 p =
      Inr (dh_say (Bug_invalid_free p) (h2\<lparr>dh_rep := (dh_rep h2)\<lparr>dr_invalid_frees := dr_invalid_frees (dh_rep h2) + 1\<rparr>\<rparr>)))"
proof (rule dfl.dh_release [OF assms], goal_cases)
  case (1 h1)
  have u: "u \<noteq> NULL" by (rule dfl.dh_block_range(4) [OF assms])
  let ?h2 = "dh_say (Bug_double_free u) (h1\<lparr>dh_rep := (dh_rep h1)\<lparr>dr_double_frees := dr_double_frees (dh_rep h1) + 1\<rparr>\<rparr>)"
  note t1 = dh_invD(2) [OF 1(2)]
  have t2: "dh_tab ?h2" using t1 dh_tab_cong [of ?h2 h1] by (simp add: dh_say_def)
  have d: "dh_deallocate FL_VT h1 u = Inr ?h2" using 1(4) dh_deallocate_not_live(2) [OF t1 u, of "e\<lparr>de_freed := True, de_raw := NULL\<rparr>"] by simp
  have "dh_map (dh_table ?h2) p = None" if "p \<noteq> u" "dh_map (dh_table h) p = None" for p using that 1(4) by (simp add: dh_say_def)
  then show ?case using 1(1) d dh_deallocate_not_live(1) [OF t2] by blast
qed

theorem debug_heap_misuse_reported_witness:
  "\<exists>h h1 h2. dh_deallocate FL_VT h 0x10001C = Inr h1 \<and> dh_deallocate FL_VT h1 0x10001C = Inr h2 \<and>
     dr_double_frees (dh_rep h2) = dr_double_frees (dh_rep h1) + 1"
proof -
  obtain h where h: "dfl_inv h" "dh_live h 0x10001C = Some (new_entry 0x10001C 0x100010 24)" by (rule dh_example_block)
  from debug_heap_misuse_reported [OF h] obtain h1 h2 where "dh_deallocate FL_VT h 0x10001C = Inr h1"
    "dh_deallocate FL_VT h1 0x10001C = Inr h2"
    "h2 = dh_say (Bug_double_free 0x10001C) (h1\<lparr>dh_rep := (dh_rep h1)\<lparr>dr_double_frees := dr_double_frees (dh_rep h1) + 1\<rparr>\<rparr>)" by blast
  then show ?thesis by (intro exI [of _ h] exI [of _ h1] exI [of _ h2]) (simp add: dh_say_def)
qed

text \<open>
  Two facts about the addresses and sizes handed out.  Over an allocator that aligns its blocks to 16
  bytes every pointer the debug heap hands out is 12 bytes off that alignment; and the size of the
  guarded block wraps for requests of the last 16 sizes, which then ask for less than 16 bytes.
\<close>

lemma dh_pointer_misaligned:
  assumes "dfl_inv h" and "dh_live h u = Some e" and "16 dvd unat (de_raw e)"
  shows "unat u mod 16 = 12"
  using dfl.dh_block_range(3) [OF assms(1,2)] assms(3) by (auto elim!: dvdE)

lemma dh_request_wraps:
  assumes "2 ^ 64 \<le> unat sz + 16"
  shows "unat (DH_HEAD + sz + DH_TAIL) < 16"
proof -
  have req: "DH_HEAD + sz + DH_TAIL = sz + 16" by (simp add: DH_HEAD_def DH_TAIL_def)
  have "unat (DH_HEAD + sz + DH_TAIL) = (unat sz + 16) mod 2 ^ 64" unfolding req by (simp add: unat_word_ariths)
  also have "\<dots> = (unat sz + 16 - 2 ^ 64) mod 2 ^ 64" by (rule le_mod_geq [OF assms])
  also have "\<dots> \<le> unat sz + 16 - 2 ^ 64" by (rule mod_less_eq_dividend)
  also have "\<dots> < 16" using unat_u64_lt [of sz] assms by (simp del: unat_u64_lt)
  finally show ?thesis .
qed

end
