(* ===== verification/HF_Guard_Heap.thy ===== *)
theory HF_Guard_Heap
  imports HF_Allocator HF_Printf
begin

text \<open>
  The guard-page heap of \<^verbatim>\<open>hf_guard_heap.c\<close> (its POSIX part): every block lies in a mapping of its own
  between two protected pages, a released mapping stays protected, and a signal handler reports the
  accesses that fault.  The state is the protection of every byte of the address space, the heap
  objects, and the global variables with the signal dispositions.  \<^verbatim>\<open>mmap\<close> and \<^verbatim>\<open>mprotect\<close> belong to the
  kernel, a parameter.  The atomic accesses are the plain accesses of one thread.
\<close>

unbundle bit_operations_syntax


subsection \<open>Pages\<close>

datatype hf_protection = HF_PROT_NONE | HF_PROT_RO | HF_PROT_RW

text \<open>The protection of each byte; \<open>None\<close> is an unmapped byte.\<close>

type_synonym vm_pages = "addr \<Rightarrow> hf_protection option"

record vm_kernel =
  vk_page_size :: u64
  vk_mmap :: "vm_pages \<Rightarrow> u64 \<Rightarrow> addr option"
  vk_mprotect :: "vm_pages \<Rightarrow> addr \<Rightarrow> u64 \<Rightarrow> hf_protection \<Rightarrow> bool"

definition page_set :: "addr \<Rightarrow> u64 \<Rightarrow> hf_protection option \<Rightarrow> vm_pages \<Rightarrow> vm_pages" where
  "page_set p n v V = (\<lambda>x. if x - p < n then v else V x)"

definition vm_reserve :: "vm_kernel \<Rightarrow> vm_pages \<Rightarrow> u64 \<Rightarrow> addr option \<times> vm_pages" where
  "vm_reserve k V sz =
     (let sz = hf_align_up sz (vk_page_size k)
      in case vk_mmap k V sz of
           None \<Rightarrow> (None, V)
         | Some p \<Rightarrow> (Some p, page_set p sz (Some HF_PROT_RW) V))"

definition vm_release :: "vm_kernel \<Rightarrow> vm_pages \<Rightarrow> addr \<Rightarrow> u64 \<Rightarrow> vm_pages" where
  "vm_release k V ptr sz =
     (if ptr = NULL then V
      else let sz = hf_align_up sz (vk_page_size k) in page_set ptr sz None V)"

definition hf_vm_protect :: "vm_kernel \<Rightarrow> vm_pages \<Rightarrow> addr \<Rightarrow> u64 \<Rightarrow> hf_protection \<Rightarrow> bool \<times> vm_pages" where
  "hf_vm_protect k V ptr sz prot =
     (let sz = hf_align_up sz (vk_page_size k)
      in if vk_mprotect k V ptr sz prot then (True, page_set ptr sz (Some prot) V) else (False, V))"


subsection \<open>The heap\<close>

datatype hf_guard_policy = HF_GUARD_ABORT | HF_GUARD_CONTINUE

datatype hf_guard_kind = HF_GUARD_OVERFLOW | HF_GUARD_UNDERFLOW | HF_GUARD_QUARANTINE

definition GH_MAX_REGIONS :: nat where
  "GH_MAX_REGIONS = 4096"

text \<open>The state of a slot: 0 empty, 1 active, 2 quarantined.\<close>

record gh_region =
  gr_base :: addr
  gr_total :: u64
  gr_user :: addr
  gr_user_size :: u64
  gr_state :: nat

definition gr_zero :: gh_region where
  "gr_zero = \<lparr>gr_base = 0, gr_total = 0, gr_user = 0, gr_user_size = 0, gr_state = 0\<rparr>"

record gh_heap =
  gh_policy :: hf_guard_policy
  gh_table :: "gh_region list"
  gh_violations :: u64
  gh_used_bytes :: u64
  gh_peak_bytes :: u64
  gh_capacity_hint :: u64


subsection \<open>The operations\<close>

fun gh_reserve_loop :: "gh_region list \<Rightarrow> nat \<Rightarrow> nat option" where
  "gh_reserve_loop [] i = None"
| "gh_reserve_loop (r # rs) i = (if gr_state r = 0 then Some i else gh_reserve_loop rs (i + 1))"

definition gh_reserve_slot :: "gh_heap \<Rightarrow> (nat \<times> gh_heap) option" where
  "gh_reserve_slot h =
     (case gh_reserve_loop (gh_table h) 0 of
        None \<Rightarrow> None
      | Some i \<Rightarrow> Some (i, h\<lparr>gh_table := (gh_table h)[i := (gh_table h ! i)\<lparr>gr_state := 1\<rparr>]\<rparr>))"

text \<open>The user bytes end at the back guard, up to the alignment.\<close>

definition gh_place :: "addr \<Rightarrow> u64 \<Rightarrow> u64 \<Rightarrow> u64 \<Rightarrow> u64 \<Rightarrow> addr" where
  "gh_place base ps data_pages sz alignment =
     (let data_end = base + ps + data_pages;
          user = (data_end - sz) AND NOT (alignment - 1)
      in if user < base + ps then base + ps else user)"

definition gh_allocate :: "vm_kernel \<Rightarrow> vm_pages \<times> gh_heap \<Rightarrow> u64 \<Rightarrow> u64 \<Rightarrow> addr option \<times> (vm_pages \<times> gh_heap)" where
  "gh_allocate k s sz alignment =
     (let (V, h) = s;
          alignment = (if alignment < HF_DEFAULT_ALIGN then HF_DEFAULT_ALIGN else alignment);
          sz = (if sz = 0 then 1 else sz);
          ps = vk_page_size k;
          data_pages = hf_align_up sz ps;
          span = ps + data_pages + ps
      in case vm_reserve k V span of
           (None, V) \<Rightarrow> (None, (V, h))
         | (Some base, V) \<Rightarrow>
             let V = snd (hf_vm_protect k V base ps HF_PROT_NONE);
                 V = snd (hf_vm_protect k V (base + ps + data_pages) ps HF_PROT_NONE);
                 user = gh_place base ps data_pages sz alignment
             in case gh_reserve_slot h of
                  None \<Rightarrow> (None, (vm_release k V base span, h))
                | Some (i, h) \<Rightarrow>
                    let r = \<lparr>gr_base = base, gr_total = span, gr_user = user, gr_user_size = sz, gr_state = 1\<rparr>;
                        h = h\<lparr>gh_table := (gh_table h)[i := r]\<rparr>;
                        h = h\<lparr>gh_used_bytes := gh_used_bytes h + sz\<rparr>;
                        u = gh_used_bytes h;
                        h = (if u > gh_peak_bytes h then h\<lparr>gh_peak_bytes := u\<rparr> else h)
                    in (Some user, (V, h)))"

fun gh_find_loop :: "gh_region list \<Rightarrow> nat \<Rightarrow> addr \<Rightarrow> nat option" where
  "gh_find_loop [] i user = None"
| "gh_find_loop (r # rs) i user =
     (if gr_state r = 1 \<and> gr_user r = user then Some i else gh_find_loop rs (i + 1) user)"

definition gh_find_by_user :: "gh_heap \<Rightarrow> addr \<Rightarrow> nat option" where
  "gh_find_by_user h user = gh_find_loop (gh_table h) 0 user"

definition gh_deallocate :: "vm_kernel \<Rightarrow> vm_pages \<times> gh_heap \<Rightarrow> addr \<Rightarrow> vm_pages \<times> gh_heap" where
  "gh_deallocate k s ptr =
     (let (V, h) = s
      in if ptr = NULL then (V, h)
         else case gh_find_by_user h ptr of
           None \<Rightarrow> (V, h)
         | Some i \<Rightarrow>
             let r = gh_table h ! i;
                 h = h\<lparr>gh_used_bytes := gh_used_bytes h - gr_user_size r\<rparr>;
                 V = snd (hf_vm_protect k V (gr_base r) (gr_total r) HF_PROT_NONE);
                 h = h\<lparr>gh_table := (gh_table h)[i := r\<lparr>gr_state := 2\<rparr>]\<rparr>
             in (V, h))"

definition gh_name :: "gh_heap \<Rightarrow> string" where
  "gh_name h = ''GuardHeap''"

definition gh_get_stats :: "gh_heap \<Rightarrow> hf_stats" where
  "gh_get_stats h =
     stats_zero\<lparr>hs_used := gh_used_bytes h, hs_peak_used := gh_peak_bytes h, hs_capacity := gh_capacity_hint h\<rparr>"

definition gh_walk :: "gh_heap \<Rightarrow> hf_block_info list" where
  "gh_walk h =
     map (\<lambda>r. \<lparr>bi_offset = gr_user r, bi_size = gr_user_size r, bi_is_free = False\<rparr>)
       (filter (\<lambda>r. gr_state r = 1) (gh_table h))"

definition hf_guard_heap_violations :: "gh_heap \<Rightarrow> u64" where
  "hf_guard_heap_violations h = gh_violations h"


subsection \<open>The fault handler\<close>

fun gh_locate_loop :: "gh_region list \<Rightarrow> nat \<Rightarrow> addr \<Rightarrow> (nat \<times> hf_guard_kind) option" where
  "gh_locate_loop [] i x = None"
| "gh_locate_loop (r # rs) i x =
     (if gr_state r \<noteq> 0 \<and> x \<ge> gr_base r \<and> x < gr_base r + gr_total r then
        if gr_state r = 2 then Some (i, HF_GUARD_QUARANTINE)
        else Some (i, if x < gr_user r then HF_GUARD_UNDERFLOW else HF_GUARD_OVERFLOW)
      else gh_locate_loop rs (i + 1) x)"

definition gh_locate :: "gh_heap \<Rightarrow> addr \<Rightarrow> (nat \<times> hf_guard_kind) option" where
  "gh_locate h x = gh_locate_loop (gh_table h) 0 x"

text \<open>The \<^verbatim>\<open>do\<close> loop of \<^verbatim>\<open>sa_write_hex\<close> fills its buffer from the end; its argument \<open>s\<close> is what is written so far.\<close>

function hex_loop :: "u64 \<Rightarrow> string \<Rightarrow> string" where
  "hex_loop v s =
     (let s = (''0123456789abcdef'' ! unat (v AND 0xF)) # s; v = drop_bit 4 v
      in if v \<noteq> 0 then hex_loop v s else s)"
  by pat_completeness auto
termination
proof (relation "measure (\<lambda>(v, s). unat v)")
  fix v w :: u64 and s t :: string
  assume "t = (''0123456789abcdef'' ! unat (v AND 0xF)) # s" and "w = drop_bit 4 v" and "w \<noteq> 0"
  then have "unat w = unat v div 16" and "0 < unat w" using unat_drop_bit_div [of 4 v] unat_gt_0 [of w] by simp_all
  then show "((w, t), (v, s)) \<in> measure (\<lambda>(v, s). unat v)" by simp
qed simp

declare hex_loop.simps [simp del]

definition sa_write_hex :: "addr \<Rightarrow> string" where
  "sa_write_hex v = ''0x'' @ hex_loop v ''''"

datatype gh_message = Fault_report string hf_guard_kind | Policy_abort

datatype hf_signal = SIGSEGV | SIGBUS

datatype sig_handler = Gh_handler | Foreign nat

datatype sig_action = Sig_dfl | Sig_ign | Sig_fun sig_handler | Sig_info sig_handler

text \<open>The process: its pages, the heap objects by address, the globals, the dispositions, and what went to stderr.\<close>

record gh_world =
  gw_vm :: vm_pages
  gw_heap :: "addr \<rightharpoonup> gh_heap"
  g_active :: addr
  g_prev_segv :: sig_action
  g_prev_bus :: sig_action
  g_installed :: bool
  gw_act :: "hf_signal \<Rightarrow> sig_action"
  gw_err :: "gh_message list"

text \<open>How the handler ends: it returns, the handler it chains to takes over, or the process dies of the raised signal.\<close>

datatype handler_end = Returns | Chains sig_handler | Dies

definition gh_handler :: "vm_kernel \<Rightarrow> gh_world \<Rightarrow> hf_signal \<Rightarrow> addr \<Rightarrow> gh_world \<times> handler_end" where
  "gh_handler k w sig x =
     (case (case gw_heap w (g_active w) of None \<Rightarrow> None | Some h \<Rightarrow> map_option (\<lambda>f. (h, f)) (gh_locate h x)) of
        None \<Rightarrow>
          (case (if sig = SIGBUS then g_prev_bus w else g_prev_segv w) of
             Sig_info f \<Rightarrow> (w, Chains f)
           | Sig_fun f \<Rightarrow> (w, Chains f)
           | _ \<Rightarrow> (w\<lparr>gw_act := (gw_act w)(sig := Sig_dfl)\<rparr>, Dies))
      | Some (h, i, kind) \<Rightarrow>
          let w = w\<lparr>gw_err := gw_err w @ [Fault_report (sa_write_hex x) kind]\<rparr>;
              h = h\<lparr>gh_violations := gh_violations h + 1\<rparr>;
              w = w\<lparr>gw_heap := (gw_heap w)(g_active w \<mapsto> h)\<rparr>
          in if gh_policy h = HF_GUARD_CONTINUE then
               let ps = vk_page_size k;
                   page = x AND NOT (ps - 1)
               in (w\<lparr>gw_vm := snd (hf_vm_protect k (gw_vm w) page ps HF_PROT_RW)\<rparr>, Returns)
             else (w\<lparr>gw_err := gw_err w @ [Policy_abort], gw_act := (gw_act w)(sig := Sig_dfl)\<rparr>, Returns))"

definition gh_install :: "gh_world \<Rightarrow> addr \<Rightarrow> gh_world" where
  "gh_install w hp =
     (if g_installed w then w\<lparr>g_active := hp\<rparr>
      else w\<lparr>g_installed := True, g_active := hp, g_prev_segv := gw_act w SIGSEGV, g_prev_bus := gw_act w SIGBUS,
             gw_act := (gw_act w)(SIGSEGV := Sig_info Gh_handler, SIGBUS := Sig_info Gh_handler)\<rparr>)"

text \<open>\<^verbatim>\<open>hp\<close> is the address \<^verbatim>\<open>calloc\<close> returns, null when it fails.\<close>

definition hf_guard_heap_create :: "gh_world \<Rightarrow> addr \<Rightarrow> hf_guard_policy \<Rightarrow> addr \<times> gh_world" where
  "hf_guard_heap_create w hp policy =
     (if hp = NULL then (NULL, w)
      else let h = \<lparr>gh_policy = policy, gh_table = replicate GH_MAX_REGIONS gr_zero, gh_violations = 0,
                    gh_used_bytes = 0, gh_peak_bytes = 0, gh_capacity_hint = 0\<rparr>
           in (hp, gh_install (w\<lparr>gw_heap := (gw_heap w)(hp \<mapsto> h)\<rparr>) hp))"

definition gh_destroy :: "vm_kernel \<Rightarrow> gh_world \<Rightarrow> addr \<Rightarrow> gh_world outcome" where
  "gh_destroy k w hp =
     (case gw_heap w hp of
        None \<Rightarrow> Inl Null_deref
      | Some h \<Rightarrow>
          let V = fold (\<lambda>r V. if gr_state r \<noteq> 0 then vm_release k V (gr_base r) (gr_total r) else V) (gh_table h) (gw_vm w);
              w = w\<lparr>gw_vm := V\<rparr>;
              w = (if g_active w = hp then w\<lparr>g_active := NULL\<rparr> else w)
          in Inr (w\<lparr>gw_heap := (gw_heap w)(hp := None)\<rparr>))"


subsection \<open>Memory accesses\<close>

text \<open>
  An access of the program to a byte: it completes on a writable page, and otherwise raises a signal.
  When the handler returns the instruction is tried again; \<open>fuel\<close> bounds the attempts.
\<close>

datatype access_end = Completes | Stops handler_end

fun gh_access :: "nat \<Rightarrow> vm_kernel \<Rightarrow> gh_world \<Rightarrow> hf_signal \<Rightarrow> addr \<Rightarrow> (gh_world \<times> access_end) option" where
  "gh_access 0 k w sig x = None"
| "gh_access (Suc fuel) k w sig x =
     (if gw_vm w x = Some HF_PROT_RW then Some (w, Completes)
      else case gw_act w sig of
        Sig_info Gh_handler \<Rightarrow>
          (case gh_handler k w sig x of
             (w, Returns) \<Rightarrow> gh_access fuel k w sig x
           | (w, e) \<Rightarrow> Some (w, Stops e))
      | Sig_info f \<Rightarrow> Some (w, Stops (Chains f))
      | Sig_fun f \<Rightarrow> Some (w, Stops (Chains f))
      | _ \<Rightarrow> Some (w, Stops Dies))"

end
