(* ===== verification/HF_Guard_Correct.thy ===== *)
theory HF_Guard_Correct
  imports HF_Guard_Heap
begin

text \<open>
  Correctness of the guard heap: what the kernel is relied on for, the invariant of the mappings, every
  operation against it, the allocator contract, and what happens to accesses outside a block.
\<close>


subsection \<open>The kernel\<close>

text \<open>
  The documented behaviour: pages of a power of two of at least 4096 bytes; a new mapping is page-aligned,
  does not touch mapped bytes and stays below \<open>2^63\<close>; \<^verbatim>\<open>mprotect\<close> succeeds exactly on page-aligned mapped
  ranges.
\<close>

definition in_range :: "addr \<Rightarrow> u64 \<Rightarrow> addr \<Rightarrow> bool" where
  "in_range p n x \<longleftrightarrow> x - p < n"

definition kernel_wf :: "vm_kernel \<Rightarrow> bool" where
  "kernel_wf k \<longleftrightarrow>
     (\<exists>j. 12 \<le> j \<and> j < 32 \<and> vk_page_size k = 2 ^ j) \<and>
     (\<forall>V. vk_mmap k V 0 = None) \<and>
     (\<forall>V n p. vk_mmap k V n = Some p \<longrightarrow>
        p \<noteq> NULL \<and> unat (vk_page_size k) dvd unat p \<and> unat p + unat n < 2 ^ 63 \<and> (\<forall>x. in_range p n x \<longrightarrow> V x = None)) \<and>
     (\<forall>V p n prot. vk_mprotect k V p n prot \<longleftrightarrow>
        unat (vk_page_size k) dvd unat p \<and> (\<forall>x. in_range p n x \<longrightarrow> V x \<noteq> None))"

abbreviation psz :: "vm_kernel \<Rightarrow> nat" where
  "psz k \<equiv> unat (vk_page_size k)"

lemma kernel_wfD:
  assumes "kernel_wf k"
  shows "\<exists>j. 12 \<le> j \<and> j < 32 \<and> vk_page_size k = 2 ^ j \<and> psz k = 2 ^ j"
    and "4096 \<le> psz k" and "psz k < 2 ^ 32"
    and "vk_mmap k V n = Some p \<Longrightarrow> p \<noteq> NULL \<and> psz k dvd unat p \<and> unat p + unat n < 2 ^ 63"
    and "vk_mmap k V n = Some p \<Longrightarrow> in_range p n x \<Longrightarrow> V x = None"
    and "vk_mprotect k V p n prot \<longleftrightarrow> psz k dvd unat p \<and> (\<forall>x. in_range p n x \<longrightarrow> V x \<noteq> None)"
proof -
  obtain j where j: "12 \<le> j" "j < 32" "vk_page_size k = 2 ^ j" using assms by (auto simp: kernel_wf_def)
  then have P: "psz k = 2 ^ j" by simp
  then show "\<exists>j. 12 \<le> j \<and> j < 32 \<and> vk_page_size k = 2 ^ j \<and> psz k = 2 ^ j" using j by blast
  have "(2 :: nat) ^ 12 \<le> 2 ^ j" using j(1) by (intro power_increasing) simp_all
  then show "4096 \<le> psz k" unfolding P by simp
  have "(2 :: nat) ^ j < 2 ^ 32" using j(2) by (intro power_strict_increasing) simp_all
  then show "psz k < 2 ^ 32" unfolding P .
qed (use assms in \<open>auto simp: kernel_wf_def\<close>)

lemma align_pages:
  assumes "kernel_wf k" and "unat n + psz k \<le> 2 ^ 64"
  shows "unat n \<le> unat (hf_align_up n (vk_page_size k))" and "unat (hf_align_up n (vk_page_size k)) < unat n + psz k"
    and "psz k dvd unat (hf_align_up n (vk_page_size k))"
  using kernel_wfD(1) [OF assms(1)] hf_align_up_bounds [of _ n] assms(2) by auto

lemma align_pages_id:
  assumes "kernel_wf k" and "unat n + psz k \<le> 2 ^ 64" and "psz k dvd unat n"
  shows "hf_align_up n (vk_page_size k) = n"
  using kernel_wfD(1) [OF assms(1)] hf_align_up_id [of _ n] assms(2,3) by auto

lemma in_range_nat:
  assumes "unat p + unat n < 2 ^ 64"
  shows "in_range p n x \<longleftrightarrow> unat p \<le> unat x \<and> unat x < unat p + unat n"
proof (cases "p \<le> x")
  case True
  then show ?thesis by (simp add: in_range_def word_less_nat_alt word_le_nat_alt unat_sub_nowrap) linarith
next
  case False
  then have lt: "unat x < unat p" by (simp add: word_le_nat_alt)
  have "unat (x - p) = 2 ^ 64 + unat x - unat p" using lt by (simp add: unat_sub_if_size word_size)
  moreover have "unat p < 2 ^ 64" by simp
  ultimately have "unat (x - p) + unat p = unat x + 2 ^ 64" by linarith
  then have "\<not> unat (x - p) < unat n" using assms by linarith
  then show ?thesis using lt by (simp add: in_range_def word_less_nat_alt)
qed

lemma page_set_eq: "page_set p n v V x = (if in_range p n x then v else V x)"
  by (simp add: page_set_def in_range_def)


subsection \<open>The placement of the user bytes\<close>

lemma gh_place_bounds:
  fixes base ps dp sz al :: u64
  assumes r: "unat base + unat ps + unat dp + unat ps < 2 ^ 63" and sz: "unat sz \<le> unat dp"
  shows "unat base + unat ps \<le> unat (gh_place base ps dp sz al)"
    and "unat (gh_place base ps dp sz al) + unat sz \<le> unat base + unat ps + unat dp"
proof -
  have bp: "unat (base + ps) = unat base + unat ps" using r by (simp add: unat_add_nowrap)
  have e: "unat (base + ps + dp) = unat base + unat ps + unat dp" using r bp by (subst unat_add_nowrap) simp_all
  have d: "unat (base + ps + dp - sz) = unat base + unat ps + unat dp - unat sz" using sz e by (subst unat_sub_nowrap) (simp_all add: word_le_nat_alt)
  have "(base + ps + dp - sz) AND NOT (al - 1) \<le> base + ps + dp - sz" by (rule word_and_le2)
  then have m: "unat ((base + ps + dp - sz) AND NOT (al - 1)) \<le> unat base + unat ps + unat dp - unat sz" unfolding word_le_nat_alt d .
  show "unat base + unat ps \<le> unat (gh_place base ps dp sz al)"
    using bp by (simp add: gh_place_def Let_def word_less_nat_alt)
  show "unat (gh_place base ps dp sz al) + unat sz \<le> unat base + unat ps + unat dp"
  proof (cases "(base + ps + dp - sz) AND NOT (al - 1) < base + ps")
    case False
    then have g: "gh_place base ps dp sz al = (base + ps + dp - sz) AND NOT (al - 1)" by (simp add: gh_place_def Let_def)
    show ?thesis unfolding g using m sz by linarith
  qed (use bp sz in \<open>simp add: gh_place_def Let_def\<close>)
qed

text \<open>For an alignment up to the page size the pointer is aligned and fewer than \<open>alignment\<close> bytes separate the block from the back guard.\<close>

lemma gh_place_flush:
  fixes base ps dp sz :: u64
  assumes r: "unat base + unat ps + unat dp + unat ps < 2 ^ 63" and sz: "unat sz \<le> unat dp"
    and al: "2 ^ a dvd unat ps" "a < 64" and base: "unat ps dvd unat base"
  shows "2 ^ a dvd unat (gh_place base ps dp sz (2 ^ a))"
    and "unat base + unat ps + unat dp < unat (gh_place base ps dp sz (2 ^ a)) + unat sz + 2 ^ a"
proof -
  define x where "x = unat base + unat ps + unat dp - unat sz"
  have bp: "unat (base + ps) = unat base + unat ps" using r by (simp add: unat_add_nowrap)
  have e: "unat (base + ps + dp) = unat base + unat ps + unat dp" using r bp by (subst unat_add_nowrap) simp_all
  have d: "unat (base + ps + dp - sz) = x" unfolding x_def using sz e by (subst unat_sub_nowrap) (simp_all add: word_le_nat_alt)
  have m: "unat ((base + ps + dp - sz) AND NOT (2 ^ a - 1)) = x div 2 ^ a * 2 ^ a"
    by (simp add: pow2_minus_1_mask unat_and_not_mask d)
  have "2 ^ a dvd unat base + unat ps" using al(1) base by (meson dvd_add dvd_trans)
  then obtain q where q: "unat base + unat ps = 2 ^ a * q" by (rule dvdE)
  have "unat base + unat ps \<le> x" using sz by (simp add: x_def)
  then have "q \<le> x div 2 ^ a" unfolding q by (metis div_le_mono nonzero_mult_div_cancel_left power_not_zero zero_neq_numeral)
  then have low: "unat base + unat ps \<le> x div 2 ^ a * 2 ^ a" unfolding q by (simp add: mult.commute)
  have g: "unat (gh_place base ps dp sz (2 ^ a)) = x div 2 ^ a * 2 ^ a"
    using m low bp by (simp add: gh_place_def Let_def word_less_nat_alt)
  show "2 ^ a dvd unat (gh_place base ps dp sz (2 ^ a))" unfolding g by simp
  have "x < x div 2 ^ a * 2 ^ a + 2 ^ a" using mod_less_divisor [of "2 ^ a" x] by (metis add_less_cancel_left div_mult_mod_eq zero_less_numeral zero_less_power)
  then show "unat base + unat ps + unat dp < unat (gh_place base ps dp sz (2 ^ a)) + unat sz + 2 ^ a"
    unfolding g using sz by (simp add: x_def)
qed


subsection \<open>The invariant\<close>

abbreviation in_region :: "gh_region \<Rightarrow> addr \<Rightarrow> bool" where
  "in_region r x \<equiv> in_range (gr_base r) (gr_total r) x"

definition region_ok :: "vm_kernel \<Rightarrow> gh_region \<Rightarrow> bool" where
  "region_ok k r \<longleftrightarrow> gr_state r \<le> 2 \<and> (gr_state r \<noteq> 0 \<longrightarrow>
     gr_base r \<noteq> NULL \<and> psz k dvd unat (gr_base r) \<and> psz k dvd unat (gr_total r) \<and> 3 * psz k \<le> unat (gr_total r) \<and>
     unat (gr_base r) + unat (gr_total r) < 2 ^ 63 \<and> 0 < unat (gr_user_size r) \<and>
     unat (gr_base r) + psz k \<le> unat (gr_user r) \<and>
     unat (gr_user r) + unat (gr_user_size r) + psz k \<le> unat (gr_base r) + unat (gr_total r))"

text \<open>The protection a byte of a region should have.\<close>

definition region_prot :: "vm_kernel \<Rightarrow> gh_region \<Rightarrow> addr \<Rightarrow> hf_protection" where
  "region_prot k r x =
     (if gr_state r = 2 \<or> unat x < unat (gr_base r) + psz k \<or> unat (gr_base r) + unat (gr_total r) \<le> unat x + psz k
      then HF_PROT_NONE else HF_PROT_RW)"

definition gh_shape :: "vm_kernel \<Rightarrow> gh_heap \<Rightarrow> bool" where
  "gh_shape k h \<longleftrightarrow> length (gh_table h) = GH_MAX_REGIONS \<and> (\<forall>r \<in> set (gh_table h). region_ok k r) \<and>
     (\<forall>i < GH_MAX_REGIONS. \<forall>j < GH_MAX_REGIONS. \<forall>x. i \<noteq> j \<longrightarrow> gr_state (gh_table h ! i) \<noteq> 0 \<longrightarrow> gr_state (gh_table h ! j) \<noteq> 0 \<longrightarrow>
        in_region (gh_table h ! i) x \<longrightarrow> \<not> in_region (gh_table h ! j) x) \<and>
     gh_used_bytes h = sum_list (map gr_user_size (filter (\<lambda>r. gr_state r = 1) (gh_table h)))"

text \<open>
  \<open>U\<close> is the address space without the heap: the heap adds its regions, mapped and protected as the
  layout says, and touches nothing else.
\<close>

definition gh_inv :: "vm_kernel \<Rightarrow> vm_pages \<Rightarrow> vm_pages \<times> gh_heap \<Rightarrow> bool" where
  "gh_inv k U s \<longleftrightarrow> kernel_wf k \<and> gh_shape k (snd s) \<and>
     (\<forall>i < length (gh_table (snd s)). \<forall>x. gr_state (gh_table (snd s) ! i) \<noteq> 0 \<longrightarrow> in_region (gh_table (snd s) ! i) x \<longrightarrow>
        fst s x = Some (region_prot k (gh_table (snd s) ! i) x) \<and> U x = None) \<and>
     (\<forall>x. (\<forall>i < length (gh_table (snd s)). gr_state (gh_table (snd s) ! i) \<noteq> 0 \<longrightarrow> \<not> in_region (gh_table (snd s) ! i) x) \<longrightarrow>
        fst s x = U x)"

definition gh_live :: "vm_pages \<times> gh_heap \<Rightarrow> addr \<rightharpoonup> nat" where
  "gh_live s = map_of (map (\<lambda>r. (gr_user r, unat (gr_user_size r))) (filter (\<lambda>r. gr_state r = 1) (gh_table (snd s))))"

definition gh_fits :: "vm_kernel \<Rightarrow> u64 \<Rightarrow> u64 \<Rightarrow> bool" where
  "gh_fits k n al \<longleftrightarrow> unat n + 4 * psz k < 2 ^ 64"

lemma region_okD:
  assumes "region_ok k r" and "gr_state r \<noteq> 0"
  shows "unat (gr_base r) + unat (gr_total r) < 2 ^ 63" and "unat (gr_base r) + psz k \<le> unat (gr_user r)"
    and "unat (gr_user r) + unat (gr_user_size r) + psz k \<le> unat (gr_base r) + unat (gr_total r)" and "0 < unat (gr_user_size r)"
    and "psz k dvd unat (gr_base r)" and "psz k dvd unat (gr_total r)" and "gr_base r \<noteq> NULL" and "3 * psz k \<le> unat (gr_total r)"
  using assms by (simp_all add: region_ok_def)

lemma in_region_nat:
  assumes "region_ok k r" and "gr_state r \<noteq> 0"
  shows "in_region r x \<longleftrightarrow> unat (gr_base r) \<le> unat x \<and> unat x < unat (gr_base r) + unat (gr_total r)"
  using region_okD(1) [OF assms] by (intro in_range_nat) simp

lemma gh_shapeD:
  assumes "gh_shape k h"
  shows "length (gh_table h) = GH_MAX_REGIONS" and "i < length (gh_table h) \<Longrightarrow> region_ok k (gh_table h ! i)"
    and "i < length (gh_table h) \<Longrightarrow> j < length (gh_table h) \<Longrightarrow> gr_state (gh_table h ! i) \<noteq> 0 \<Longrightarrow> gr_state (gh_table h ! j) \<noteq> 0 \<Longrightarrow>
      in_region (gh_table h ! i) x \<Longrightarrow> in_region (gh_table h ! j) x \<Longrightarrow> i = j"
    and "gh_used_bytes h = sum_list (map gr_user_size (filter (\<lambda>r. gr_state r = 1) (gh_table h)))"
  using assms by (auto simp: gh_shape_def)

lemma user_in_region:
  assumes "region_ok k r" and "gr_state r \<noteq> 0" and "unat (gr_user r) \<le> unat x" and "unat x < unat (gr_user r) + unat (gr_user_size r)"
  shows "in_region r x" and "gr_state r = 1 \<Longrightarrow> region_prot k r x = HF_PROT_RW"
  using assms(3,4) region_okD [OF assms(1,2)] by (auto simp: in_region_nat [OF assms(1,2)] region_prot_def)

lemma gh_user_unique:
  assumes sh: "gh_shape k h" and i: "i < length (gh_table h)" "gr_state (gh_table h ! i) = 1"
    and j: "j < length (gh_table h)" "gr_state (gh_table h ! j) = 1" and eq: "gr_user (gh_table h ! i) = gr_user (gh_table h ! j)"
  shows "i = j"
proof -
  note oi = gh_shapeD(2) [OF sh i(1)] and oj = gh_shapeD(2) [OF sh j(1)]
  have "in_region (gh_table h ! i) (gr_user (gh_table h ! i))" using i(2) region_okD(4) [OF oi] by (intro user_in_region(1) [OF oi]) simp_all
  moreover have "in_region (gh_table h ! j) (gr_user (gh_table h ! j))" using j(2) region_okD(4) [OF oj] by (intro user_in_region(1) [OF oj]) simp_all
  ultimately show ?thesis using gh_shapeD(3) [OF sh i(1) j(1)] i(2) j(2) eq by simp
qed

lemma gh_live_iff:
  assumes sh: "gh_shape k (snd s)"
  shows "gh_live s p = Some m \<longleftrightarrow> (\<exists>i < length (gh_table (snd s)). gr_state (gh_table (snd s) ! i) = 1 \<and>
    gr_user (gh_table (snd s) ! i) = p \<and> unat (gr_user_size (gh_table (snd s) ! i)) = m)"
proof
  assume "gh_live s p = Some m"
  from map_of_SomeD [OF this [unfolded gh_live_def]] obtain r where
    "r \<in> set (gh_table (snd s))" "gr_state r = 1" "p = gr_user r" "m = unat (gr_user_size r)" by auto
  then show "\<exists>i < length (gh_table (snd s)). gr_state (gh_table (snd s) ! i) = 1 \<and>
    gr_user (gh_table (snd s) ! i) = p \<and> unat (gr_user_size (gh_table (snd s) ! i)) = m" by (auto simp: in_set_conv_nth)
next
  let ?xs = "map (\<lambda>r. (gr_user r, unat (gr_user_size r))) (filter (\<lambda>r. gr_state r = 1) (gh_table (snd s)))"
  assume "\<exists>i < length (gh_table (snd s)). gr_state (gh_table (snd s) ! i) = 1 \<and>
    gr_user (gh_table (snd s) ! i) = p \<and> unat (gr_user_size (gh_table (snd s) ! i)) = m"
  then obtain i where i: "i < length (gh_table (snd s))" "gr_state (gh_table (snd s) ! i) = 1"
    "gr_user (gh_table (snd s) ! i) = p" "unat (gr_user_size (gh_table (snd s) ! i)) = m" by blast
  then have pm: "(p, m) \<in> set ?xs" by (auto intro!: image_eqI [of _ _ "gh_table (snd s) ! i"])
  have uniq: "m' = m" if "(p, m') \<in> set ?xs" for m'
    using that gh_user_unique [OF sh i(1,2)] i(3,4) by (auto simp: in_set_conv_nth)
  have "map_of ?xs p = Some m \<longleftrightarrow> (p, m) \<in> set ?xs" by (rule map_of_functional, rule trans [OF uniq uniq [symmetric]])
  then show "gh_live s p = Some m" using pm by (simp only: gh_live_def)
qed


subsection \<open>The scans of the table\<close>

text \<open>The three scans are the search for the first slot with a property.\<close>

fun first_slot :: "('a \<Rightarrow> bool) \<Rightarrow> 'a list \<Rightarrow> nat option" where
  "first_slot P [] = None"
| "first_slot P (x # xs) = (if P x then Some 0 else map_option Suc (first_slot P xs))"

lemma first_slot_Some: "first_slot P xs = Some d \<Longrightarrow> d < length xs \<and> P (xs ! d) \<and> (\<forall>j < d. \<not> P (xs ! j))"
proof (induction xs arbitrary: d)
  case (Cons x xs)
  show ?case
  proof (cases "P x")
    case False
    then obtain e where "first_slot P xs = Some e" "d = Suc e" using Cons.prems by auto
    then show ?thesis using Cons.IH [of e] False by (auto simp: less_Suc_eq_0_disj)
  qed (use Cons.prems in simp)
qed simp

lemma first_slot_None: "first_slot P xs = None \<longleftrightarrow> (\<forall>x \<in> set xs. \<not> P x)"
  by (induction xs) auto

lemma first_slot_replicate: "P x \<Longrightarrow> 0 < n \<Longrightarrow> first_slot P (replicate n x) = Some 0"
  by (cases n) simp_all

lemma first_slot_unique:
  assumes "i < length xs" and "P (xs ! i)" and "\<And>j. j < length xs \<Longrightarrow> P (xs ! j) \<Longrightarrow> j = i"
  shows "first_slot P xs = Some i"
proof (cases "first_slot P xs")
  case None
  then show ?thesis using assms(1,2) by (simp add: first_slot_None)
next
  case (Some d)
  then show ?thesis using first_slot_Some [OF Some] assms(3) by simp
qed

lemma reserve_loop: "gh_reserve_loop rs i = map_option (\<lambda>d. i + d) (first_slot (\<lambda>r. gr_state r = 0) rs)"
  by (induction rs arbitrary: i) (auto simp: map_option_case split: option.split)

lemma find_loop: "gh_find_loop rs i u = map_option (\<lambda>d. i + d) (first_slot (\<lambda>r. gr_state r = 1 \<and> gr_user r = u) rs)"
  by (induction rs arbitrary: i) (auto simp: map_option_case split: option.split)

lemma locate_loop:
  "gh_locate_loop rs i x = map_option (\<lambda>d. (i + d, if gr_state (rs ! d) = 2 then HF_GUARD_QUARANTINE
       else if x < gr_user (rs ! d) then HF_GUARD_UNDERFLOW else HF_GUARD_OVERFLOW))
     (first_slot (\<lambda>r. gr_state r \<noteq> 0 \<and> gr_base r \<le> x \<and> x < gr_base r + gr_total r) rs)"
  by (induction rs arbitrary: i) (auto simp: map_option_case split: option.split)

lemma sum_list_filter_upd:
  fixes f :: "'a \<Rightarrow> 'b :: ab_group_add"
  shows "i < length xs \<Longrightarrow> sum_list (map f (filter P (xs[i := y]))) =
    sum_list (map f (filter P xs)) - (if P (xs ! i) then f (xs ! i) else 0) + (if P y then f y else 0)"
proof (induction xs arbitrary: i)
  case (Cons x xs)
  show ?case
  proof (cases i)
    case (Suc j)
    then have "j < length xs" using Cons.prems by simp
    from Cons.IH [OF this] show ?thesis by (simp add: Suc)
  qed simp
qed simp

lemma ex_upd: "i < length xs \<Longrightarrow> (\<exists>j < length xs. P (xs[i := y] ! j)) \<longleftrightarrow> P y \<or> (\<exists>j < length xs. j \<noteq> i \<and> P (xs ! j))"
  by (auto simp: nth_list_update)

lemma ex_split: "i < length xs \<Longrightarrow> (\<exists>j < length xs. P (xs ! j)) \<longleftrightarrow> P (xs ! i) \<or> (\<exists>j < length xs. j \<noteq> i \<and> P (xs ! j))"
  by auto

lemma gh_shape_upd:
  assumes sh: "gh_shape k h" and i: "i < length (gh_table h)" and ok: "region_ok k r" and st: "gr_state r \<noteq> 0"
    and apart: "\<And>j x. j < length (gh_table h) \<Longrightarrow> j \<noteq> i \<Longrightarrow> gr_state (gh_table h ! j) \<noteq> 0 \<Longrightarrow> in_region (gh_table h ! j) x \<Longrightarrow> \<not> in_region r x"
    and h': "gh_table h' = (gh_table h)[i := r]"
    and used: "gh_used_bytes h' = gh_used_bytes h - (if gr_state (gh_table h ! i) = 1 then gr_user_size (gh_table h ! i) else 0) +
      (if gr_state r = 1 then gr_user_size r else 0)"
  shows "gh_shape k h'"
  unfolding gh_shape_def
proof (intro conjI ballI allI impI)
  note D = gh_shapeD [OF sh]
  show "length (gh_table h') = GH_MAX_REGIONS" using D(1) by (simp add: h')
  show "region_ok k q" if "q \<in> set (gh_table h')" for q
  proof -
    have "q = r \<or> q \<in> set (gh_table h)" using that set_update_subset_insert [of "gh_table h" i r] unfolding h' by blast
    then show ?thesis using ok sh by (auto simp: gh_shape_def)
  qed
  show "gh_used_bytes h' = sum_list (map gr_user_size (filter (\<lambda>r. gr_state r = 1) (gh_table h')))"
    unfolding h' sum_list_filter_upd [OF i] used D(4) ..
  fix j l x
  assume jl: "j < GH_MAX_REGIONS" "l < GH_MAX_REGIONS" "j \<noteq> l" and st: "gr_state (gh_table h' ! j) \<noteq> 0" "gr_state (gh_table h' ! l) \<noteq> 0"
    and x: "in_region (gh_table h' ! j) x"
  then show "\<not> in_region (gh_table h' ! l) x"
    using apart [of l x] apart [of j x] D(3) [of j l x] D(1) i unfolding h' by (auto simp: nth_list_update split: if_splits)
qed


subsection \<open>Requests\<close>

lemma gh_span:
  fixes n :: u64 and k :: vm_kernel
  defines "ps \<equiv> vk_page_size k" and "dp \<equiv> hf_align_up n (vk_page_size k)"
  assumes k: "kernel_wf k" and n: "0 < unat n" "unat n + 4 * psz k \<le> 2 ^ 64"
  shows "unat n \<le> unat dp" and "psz k dvd unat dp" and "psz k \<le> unat dp" and "unat (ps + dp + ps) = psz k + unat dp + psz k"
    and "psz k dvd unat (ps + dp + ps)" and "hf_align_up (ps + dp + ps) ps = ps + dp + ps"
proof -
  have dp: "unat n \<le> unat dp" "unat dp < unat n + psz k" "psz k dvd unat dp"
    using align_pages [OF k, of n] n(2) by (simp_all add: dp_def)
  then show "psz k \<le> unat dp" using n(1) by (intro dvd_imp_le) simp_all
  have "unat (ps + dp) = psz k + unat dp" using dp(2) n(2) by (subst unat_add_nowrap) (simp_all add: ps_def)
  then show t: "unat (ps + dp + ps) = psz k + unat dp + psz k" using dp(2) n(2) by (subst unat_add_nowrap) (simp_all add: ps_def)
  show td: "psz k dvd unat (ps + dp + ps)" unfolding t using dp(3) by simp
  have "unat (ps + dp + ps) + psz k \<le> 2 ^ 64" unfolding t using dp(2) n(2) by simp
  from align_pages_id [OF k this td] show "hf_align_up (ps + dp + ps) ps = ps + dp + ps" by (simp only: ps_def)
qed (use align_pages [OF k, of n] n(2) in \<open>simp_all add: dp_def\<close>)

text \<open>The mapping of a new block: fresh bytes, two guard pages, a writable middle.\<close>

lemma gh_new_mapping:
  fixes n al base :: u64 and k :: vm_kernel and V :: vm_pages
  defines "ps \<equiv> vk_page_size k" and "dp \<equiv> hf_align_up n (vk_page_size k)"
  assumes k: "kernel_wf k" and n: "0 < unat n" "unat n + 4 * psz k \<le> 2 ^ 64" and base: "vk_mmap k V (ps + dp + ps) = Some base"
  defines "V' \<equiv> snd (hf_vm_protect k (snd (hf_vm_protect k (page_set base (ps + dp + ps) (Some HF_PROT_RW) V) base ps HF_PROT_NONE))
      (base + ps + dp) ps HF_PROT_NONE)"
  defines "r \<equiv> \<lparr>gr_base = base, gr_total = ps + dp + ps, gr_user = gh_place base ps dp n al, gr_user_size = n, gr_state = 1\<rparr>"
  shows "region_ok k r" and "V' x = (if in_region r x then Some (region_prot k r x) else V x)"
proof -
  note K = kernel_wfD [OF k]
  have dp: "unat n \<le> unat dp" "psz k dvd unat dp" and pd: "psz k \<le> unat dp" and t: "unat (ps + dp + ps) = psz k + unat dp + psz k"
    and td: "psz k dvd unat (ps + dp + ps)"
    unfolding ps_def dp_def by (rule gh_span [OF k n])+
  note B = K(4) [OF base]
  have room: "unat base + psz k + unat dp + psz k < 2 ^ 63" using B t by simp
  have aps: "hf_align_up ps ps = ps" using align_pages_id [OF k, of ps] K(3) by (simp add: ps_def)
  have be: "unat (base + ps) = unat base + psz k" using room by (subst unat_add_nowrap) (simp_all add: ps_def)
  then have bk: "unat (base + ps + dp) = unat base + psz k + unat dp" using room by (subst unat_add_nowrap) simp_all
  have R: "in_range base (ps + dp + ps) x \<longleftrightarrow> unat base \<le> unat x \<and> unat x < unat base + (psz k + unat dp + psz k)"
    "in_range base ps x \<longleftrightarrow> unat base \<le> unat x \<and> unat x < unat base + psz k"
    "in_range (base + ps + dp) ps x \<longleftrightarrow> unat base + psz k + unat dp \<le> unat x \<and> unat x < unat base + psz k + unat dp + psz k" for x
    using in_range_nat [of base "ps + dp + ps" x] in_range_nat [of base ps x] in_range_nat [of "base + ps + dp" ps x] t bk room
    by (simp_all add: ps_def)
  let ?V1 = "page_set base (ps + dp + ps) (Some HF_PROT_RW) V" and ?V2 = "page_set base ps (Some HF_PROT_NONE) (page_set base (ps + dp + ps) (Some HF_PROT_RW) V)"
  have sub: "in_range base ps x \<Longrightarrow> in_range base (ps + dp + ps) x" "in_range (base + ps + dp) ps x \<Longrightarrow> in_range base (ps + dp + ps) x" for x
    unfolding R by simp_all
  have "vk_mprotect k ?V1 base ps HF_PROT_NONE" unfolding K(6) page_set_eq using B sub(1) by auto
  then have p1: "hf_vm_protect k ?V1 base ps HF_PROT_NONE = (True, ?V2)" using aps by (simp add: hf_vm_protect_def ps_def Let_def)
  have "psz k dvd unat (base + ps + dp)" unfolding bk using B dp(2) by simp
  then have "vk_mprotect k ?V2 (base + ps + dp) ps HF_PROT_NONE" unfolding K(6) page_set_eq using sub(2) by auto
  then have p2: "hf_vm_protect k ?V2 (base + ps + dp) ps HF_PROT_NONE = (True, page_set (base + ps + dp) ps (Some HF_PROT_NONE) ?V2)"
    using aps by (simp add: hf_vm_protect_def ps_def Let_def)
  have inr: "in_region r x \<longleftrightarrow> unat base \<le> unat x \<and> unat x < unat base + (psz k + unat dp + psz k)" by (simp only: r_def gh_region.simps R)
  have prot: "region_prot k r x = (if unat x < unat base + psz k \<or> unat base + (psz k + unat dp + psz k) \<le> unat x + psz k
      then HF_PROT_NONE else HF_PROT_RW)"
    by (simp only: r_def region_prot_def gh_region.simps t) simp
  show "V' x = (if in_region r x then Some (region_prot k r x) else V x)"
    unfolding V'_def p1 snd_conv p2 page_set_eq inr prot R by auto
  have "unat base + unat ps + unat dp + unat ps < 2 ^ 63" using room by (simp add: ps_def)
  from gh_place_bounds [OF this dp(1), of al] show "region_ok k r"
    using B td t room n(1) pd by (simp add: region_ok_def r_def ps_def)
qed

lemma gh_invD:
  assumes "gh_inv k U (V, h)"
  shows "kernel_wf k" and "gh_shape k h"
    and "i < length (gh_table h) \<Longrightarrow> gr_state (gh_table h ! i) \<noteq> 0 \<Longrightarrow> in_region (gh_table h ! i) x \<Longrightarrow>
      V x = Some (region_prot k (gh_table h ! i) x) \<and> U x = None"
    and "(\<And>i. i < length (gh_table h) \<Longrightarrow> gr_state (gh_table h ! i) \<noteq> 0 \<Longrightarrow> \<not> in_region (gh_table h ! i) x) \<Longrightarrow> V x = U x"
  using assms by (simp_all add: gh_inv_def)

lemma gh_invI:
  assumes "kernel_wf k" and "gh_shape k h"
    and "\<And>i x. i < length (gh_table h) \<Longrightarrow> gr_state (gh_table h ! i) \<noteq> 0 \<Longrightarrow> in_region (gh_table h ! i) x \<Longrightarrow>
      V x = Some (region_prot k (gh_table h ! i) x) \<and> U x = None"
    and "\<And>x. (\<forall>i < length (gh_table h). gr_state (gh_table h ! i) \<noteq> 0 \<longrightarrow> \<not> in_region (gh_table h ! i) x) \<Longrightarrow> V x = U x"
  shows "gh_inv k U (V, h)"
  using assms by (simp add: gh_inv_def)

lemma gh_granted:
  assumes inv: "gh_inv k U (V, h)" and i: "i < length (gh_table h)" "gr_state (gh_table h ! i) = 0"
    and r: "region_ok k r" "gr_state r = 1" and fresh: "\<And>x. in_region r x \<Longrightarrow> V x = None"
    and V': "\<And>x. V' x = (if in_region r x then Some (region_prot k r x) else V x)"
    and h': "gh_table h' = (gh_table h)[i := r]" "gh_used_bytes h' = gh_used_bytes h + gr_user_size r"
  shows "gh_inv k U (V', h')" and "gh_live (V, h) (gr_user r) = None"
    and "gh_live (V', h') = (gh_live (V, h))(gr_user r \<mapsto> unat (gr_user_size r))"
proof -
  note D = gh_invD [OF inv] and Sh = gh_shapeD [OF gh_invD(2) [OF inv]]
  have apart: "\<not> in_region r x" if "j < length (gh_table h)" "gr_state (gh_table h ! j) \<noteq> 0" "in_region (gh_table h ! j) x" for j x
    using fresh D(3) [OF that] by auto
  have sh': "gh_shape k h'"
    by (rule gh_shape_upd [OF D(2) i(1) r(1) _ _ h'(1)]) (use apart i r h'(2) in auto)
  have outside: "V x = None \<Longrightarrow> U x = None" for x using D(3,4) by (metis option.distinct(1))
  show "gh_inv k U (V', h')"
  proof (rule gh_invI [OF D(1) sh'])
    fix j x assume j: "j < length (gh_table h')" "gr_state (gh_table h' ! j) \<noteq> 0" "in_region (gh_table h' ! j) x"
    show "V' x = Some (region_prot k (gh_table h' ! j) x) \<and> U x = None"
    proof (cases "j = i")
      case True
      then have "in_region r x" using j i by (simp add: h'(1))
      then show ?thesis using True i fresh outside by (simp add: h'(1) V')
    next
      case False
      then show ?thesis using j D(3) [of j x] apart [of j x] by (simp add: h'(1) V')
    qed
  next
    fix x assume x: "\<forall>j < length (gh_table h'). gr_state (gh_table h' ! j) \<noteq> 0 \<longrightarrow> \<not> in_region (gh_table h' ! j) x"
    then have "\<not> in_region r x" using i r(2) by (auto simp: h'(1))
    moreover have "\<not> in_region (gh_table h ! j) x" if "j < length (gh_table h)" "gr_state (gh_table h ! j) \<noteq> 0" for j
      using x that i(2) by (cases "j = i") (auto simp: h'(1))
    then have "V x = U x" by (rule D(4))
    ultimately show "V' x = U x" by (simp add: V')
  qed
  have u: "in_region r (gr_user r)" using r region_okD(4) [OF r(1)] by (intro user_in_region(1) [OF r(1)]) simp_all
  have other: "gr_user (gh_table h ! j) \<noteq> gr_user r" if "j < length (gh_table h)" "gr_state (gh_table h ! j) = 1" for j
  proof -
    note ok = Sh(2) [OF that(1)]
    have "in_region (gh_table h ! j) (gr_user (gh_table h ! j))"
      using that(2) region_okD(4) [OF ok] by (intro user_in_region(1) [OF ok]) simp_all
    then show ?thesis using apart [OF that(1)] that(2) u by auto
  qed
  show none: "gh_live (V, h) (gr_user r) = None"
  proof (rule ccontr)
    assume "gh_live (V, h) (gr_user r) \<noteq> None"
    then show False using other by (auto simp: gh_live_iff [of k "(V, h)"] D(2))
  qed
  show "gh_live (V', h') = (gh_live (V, h))(gr_user r \<mapsto> unat (gr_user_size r))"
  proof (rule map_eqI)
    fix p m
    let ?P = "\<lambda>q. gr_state q = 1 \<and> gr_user q = p \<and> unat (gr_user_size q) = m"
    have new: "gh_live (V', h') p = Some m \<longleftrightarrow> ?P r \<or> (\<exists>j < length (gh_table h). j \<noteq> i \<and> ?P (gh_table h ! j))"
      using gh_live_iff [of k "(V', h')" p m] sh' ex_upd [OF i(1), of ?P r] by (simp add: h'(1))
    have old: "gh_live (V, h) p = Some m \<longleftrightarrow> ?P (gh_table h ! i) \<or> (\<exists>j < length (gh_table h). j \<noteq> i \<and> ?P (gh_table h ! j))"
      using gh_live_iff [of k "(V, h)" p m] D(2) ex_split [OF i(1), of ?P] by simp
    have "gh_live (V', h') p = Some m \<longleftrightarrow> (if p = gr_user r then m = unat (gr_user_size r) else gh_live (V, h) p = Some m)"
      using r(2) i(2) other unfolding new old by auto
    then show "gh_live (V', h') p = Some m \<longleftrightarrow> ((gh_live (V, h))(gr_user r \<mapsto> unat (gr_user_size r))) p = Some m" by auto
  qed
qed

definition gh_region_for :: "vm_kernel \<Rightarrow> addr \<Rightarrow> u64 \<Rightarrow> u64 \<Rightarrow> gh_region" where
  "gh_region_for k base n al =
     (let ps = vk_page_size k; dp = hf_align_up n ps
      in \<lparr>gr_base = base, gr_total = ps + dp + ps, gr_user = gh_place base ps dp n al, gr_user_size = n, gr_state = 1\<rparr>)"

abbreviation gh_size :: "u64 \<Rightarrow> u64" where
  "gh_size n \<equiv> (if n = 0 then 1 else n)"

abbreviation gh_align :: "u64 \<Rightarrow> u64" where
  "gh_align al \<equiv> (if al < HF_DEFAULT_ALIGN then HF_DEFAULT_ALIGN else al)"

lemma gh_allocate_cases:
  assumes inv: "gh_inv k U (V, h)" and fit: "gh_fits k n al"
  obtains (refused) "gh_allocate k (V, h) n al = (None, (V, h))"
  | (granted) i base r V' h' where "gh_allocate k (V, h) n al = (Some (gr_user r), (V', h'))"
      and "r = gh_region_for k base (gh_size n) (gh_align al)" and "psz k dvd unat base"
      and "unat base + unat (gr_total r) < 2 ^ 63" and "i < length (gh_table h)" and "gr_state (gh_table h ! i) = 0"
      and "gh_table h' = (gh_table h)[i := r]" and "gh_inv k U (V', h')" and "gh_live (V, h) (gr_user r) = None"
      and "gh_live (V', h') = (gh_live (V, h))(gr_user r \<mapsto> unat (gh_size n))" and "gr_user r \<noteq> NULL"
proof -
  note D = gh_invD [OF inv]
  let ?n = "gh_size n" and ?al = "gh_align al" and ?ps = "vk_page_size k"
  let ?dp = "hf_align_up (gh_size n) (vk_page_size k)"
  let ?sp = "vk_page_size k + hf_align_up (gh_size n) (vk_page_size k) + vk_page_size k"
  have n: "0 < unat ?n" "unat ?n + 4 * psz k \<le> 2 ^ 64"
    using fit kernel_wfD(3) [OF D(1)] by (auto simp: gh_fits_def unat_gt_0)
  note sp = gh_span [OF D(1) n]
  show ?thesis
  proof (cases "vk_mmap k V ?sp")
    case None
    then have "gh_allocate k (V, h) n al = (None, (V, h))"
      unfolding gh_allocate_def vm_reserve_def Let_def prod.case sp(6) by simp
    then show ?thesis by (rule refused)
  next
    case (Some base)
    define r where "r = gh_region_for k base ?n ?al"
    define V' where "V' = snd (hf_vm_protect k (snd (hf_vm_protect k (page_set base ?sp (Some HF_PROT_RW) V) base ?ps HF_PROT_NONE))
      (base + ?ps + ?dp) ?ps HF_PROT_NONE)"
    have r_eq: "r = \<lparr>gr_base = base, gr_total = ?sp, gr_user = gh_place base ?ps ?dp ?n ?al, gr_user_size = ?n, gr_state = 1\<rparr>"
      unfolding r_def gh_region_for_def Let_def ..
    note M = gh_new_mapping [where al = ?al, OF D(1) n Some, folded r_eq V'_def] and B = kernel_wfD(4) [OF D(1) Some]
    have rf: "gr_base r = base" "gr_total r = ?sp" "gr_user_size r = ?n" "gr_state r = 1" by (simp_all only: r_eq gh_region.simps)
    have fresh: "V x = None" if "in_region r x" for x using kernel_wfD(5) [OF D(1) Some] that by (simp only: rf)
    have alloc: "gh_allocate k (V, h) n al = (case gh_reserve_slot h of None \<Rightarrow> (None, (vm_release k V' base ?sp, h))
        | Some (i, h) \<Rightarrow> let h = h\<lparr>gh_table := (gh_table h)[i := r]\<rparr>; h = h\<lparr>gh_used_bytes := gh_used_bytes h + ?n\<rparr>; u = gh_used_bytes h;
            h = (if u > gh_peak_bytes h then h\<lparr>gh_peak_bytes := u\<rparr> else h) in (Some (gr_user r), (V', h)))"
      unfolding gh_allocate_def vm_reserve_def Let_def prod.case sp(6) Some option.case V'_def r_eq gh_region.simps ..
    show ?thesis
    proof (cases "first_slot (\<lambda>r. gr_state r = 0) (gh_table h)")
      case None
      have "vm_release k V' base ?sp = V"
      proof
        fix x
        have "vm_release k V' base ?sp x = (if in_region r x then None else V' x)"
          using B unfolding vm_release_def sp(6) Let_def page_set_eq rf by (simp split del: if_split)
        then show "vm_release k V' base ?sp x = V x" using fresh [of x] M(2) [of x] by (cases "in_region r x") simp_all
      qed
      then have "gh_allocate k (V, h) n al = (None, (V, h))" unfolding alloc by (simp add: gh_reserve_slot_def reserve_loop None)
      then show ?thesis by (rule refused)
    next
      case (Some i)
      note F = first_slot_Some [OF Some]
      define h' where "h' = snd (snd (gh_allocate k (V, h) n al))"
      have run: "gh_allocate k (V, h) n al = (Some (gr_user r), (V', h'))"
        unfolding h'_def alloc by (simp add: gh_reserve_slot_def reserve_loop Some Let_def)
      have h': "gh_table h' = (gh_table h)[i := r]" "gh_used_bytes h' = gh_used_bytes h + gr_user_size r"
        unfolding h'_def alloc rf by (simp_all add: gh_reserve_slot_def reserve_loop Some Let_def)
      note G = gh_granted [OF inv _ _ M(1) rf(4) fresh M(2) h'] and U = region_okD [OF M(1)]
      have "gr_user r \<noteq> NULL" using U(2) kernel_wfD(2) [OF D(1)] rf(4) by (intro notI) simp
      then show ?thesis
        using run F U(1) B G rf by (intro granted [OF run r_def _ _ _ _ h'(1)]) simp_all
    qed
  qed
qed


subsection \<open>Releases\<close>

lemma gh_find_live:
  assumes sh: "gh_shape k h" and i: "i < length (gh_table h)" "gr_state (gh_table h ! i) = 1"
  shows "gh_find_by_user h (gr_user (gh_table h ! i)) = Some i"
proof -
  have "first_slot (\<lambda>r. gr_state r = 1 \<and> gr_user r = gr_user (gh_table h ! i)) (gh_table h) = Some i"
    using i gh_user_unique [OF sh _ _ i] by (intro first_slot_unique) auto
  then show ?thesis by (simp add: gh_find_by_user_def find_loop)
qed

lemma gh_deallocate_other:
  assumes inv: "gh_inv k U (V, h)" and p: "gh_live (V, h) p = None"
  shows "gh_deallocate k (V, h) p = (V, h)"
proof -
  have "gh_find_by_user h p = None"
  proof (rule ccontr)
    assume "gh_find_by_user h p \<noteq> None"
    then obtain i where "first_slot (\<lambda>r. gr_state r = 1 \<and> gr_user r = p) (gh_table h) = Some i"
      by (auto simp: gh_find_by_user_def find_loop)
    from first_slot_Some [OF this] have "gh_live (V, h) p = Some (unat (gr_user_size (gh_table h ! i)))"
      using gh_live_iff [of k "(V, h)"] gh_invD(2) [OF inv] by auto
    then show False using p by simp
  qed
  then show ?thesis by (simp add: gh_deallocate_def)
qed

lemma gh_deallocate_live:
  assumes inv: "gh_inv k U (V, h)" and i: "i < length (gh_table h)" "gr_state (gh_table h ! i) = 1"
  defines "r \<equiv> gh_table h ! i"
  obtains V' h' where "gh_deallocate k (V, h) (gr_user r) = (V', h')" and "gh_inv k U (V', h')"
    and "gh_table h' = (gh_table h)[i := r\<lparr>gr_state := 2\<rparr>]" and "gh_live (V', h') = (gh_live (V, h))(gr_user r := None)"
    and "\<forall>x. in_region r x \<longrightarrow> V' x = Some HF_PROT_NONE"
proof -
  note D = gh_invD [OF inv] and Sh = gh_shapeD [OF gh_invD(2) [OF inv]]
  have ok: "region_ok k r" and st: "gr_state r = 1" using Sh(2) [OF i(1)] i(2) by (simp_all add: r_def)
  note O = region_okD [OF ok] and P = kernel_wfD(2,3) [OF D(1)]
  have u: "gr_user r \<noteq> NULL" using O(2) P(1) st by (intro notI) simp
  have al: "hf_align_up (gr_total r) (vk_page_size k) = gr_total r"
    using align_pages_id [OF D(1) _ O(6)] O(1) P(2) st by simp
  have mapped: "vk_mprotect k V (gr_base r) (gr_total r) HF_PROT_NONE"
    unfolding kernel_wfD(6) [OF D(1)] using O(5) st D(3) [OF i(1)] i(2) by (simp add: r_def)
  define V' where "V' = page_set (gr_base r) (gr_total r) (Some HF_PROT_NONE) V"
  define h' where "h' = h\<lparr>gh_used_bytes := gh_used_bytes h - gr_user_size r, gh_table := (gh_table h)[i := r\<lparr>gr_state := 2\<rparr>]\<rparr>"
  have run: "gh_deallocate k (V, h) (gr_user r) = (V', h')"
    using gh_find_live [OF D(2) i] u al mapped
    by (simp add: gh_deallocate_def hf_vm_protect_def r_def [symmetric] V'_def h'_def Let_def)
  have t': "gh_table h' = (gh_table h)[i := r\<lparr>gr_state := 2\<rparr>]" by (simp add: h'_def)
  have apart: "\<not> in_region r x" if "j < length (gh_table h)" "j \<noteq> i" "gr_state (gh_table h ! j) \<noteq> 0" "in_region (gh_table h ! j) x" for j x
    using Sh(3) [OF that(1) i(1) that(3) _ that(4)] that(2) i(2) by (auto simp: r_def)
  have sh': "gh_shape k h'"
  proof (rule gh_shape_upd [OF D(2) i(1) _ _ _ t'])
    show "region_ok k (r\<lparr>gr_state := 2\<rparr>)" using ok st by (simp add: region_ok_def)
  qed (use apart st in \<open>auto simp: h'_def r_def\<close>)
  have inv': "gh_inv k U (V', h')"
  proof (rule gh_invI [OF D(1) sh'])
    fix j x assume j: "j < length (gh_table h')" "gr_state (gh_table h' ! j) \<noteq> 0" "in_region (gh_table h' ! j) x"
    show "V' x = Some (region_prot k (gh_table h' ! j) x) \<and> U x = None"
    proof (cases "j = i")
      case True
      then show ?thesis using j i D(3) [OF i(1), of x] by (simp add: t' V'_def page_set_eq r_def region_prot_def)
    next
      case False
      then show ?thesis using j D(3) [of j x] apart [of j x] by (simp add: t' V'_def page_set_eq)
    qed
  next
    fix x assume x: "\<forall>j < length (gh_table h'). gr_state (gh_table h' ! j) \<noteq> 0 \<longrightarrow> \<not> in_region (gh_table h' ! j) x"
    then have n: "\<not> in_region r x" using i by (auto simp: t')
    moreover have "\<not> in_region (gh_table h ! j) x" if "j < length (gh_table h)" "gr_state (gh_table h ! j) \<noteq> 0" for j
      using x that n by (cases "j = i") (auto simp: t' r_def)
    then have "V x = U x" by (rule D(4))
    ultimately show "V' x = U x" by (simp add: V'_def page_set_eq)
  qed
  have live': "gh_live (V', h') = (gh_live (V, h))(gr_user r := None)"
  proof (rule map_eqI)
    fix p m
    let ?P = "\<lambda>q. gr_state q = 1 \<and> gr_user q = p \<and> unat (gr_user_size q) = m"
    have new: "gh_live (V', h') p = Some m \<longleftrightarrow> (\<exists>j < length (gh_table h). j \<noteq> i \<and> ?P (gh_table h ! j))"
      using gh_live_iff [of k "(V', h')" p m] sh' ex_upd [OF i(1), of ?P "r\<lparr>gr_state := 2\<rparr>"] by (simp add: t')
    have old: "gh_live (V, h) p = Some m \<longleftrightarrow> ?P (gh_table h ! i) \<or> (\<exists>j < length (gh_table h). j \<noteq> i \<and> ?P (gh_table h ! j))"
      using gh_live_iff [of k "(V, h)" p m] D(2) ex_split [OF i(1), of ?P] by simp
    show "gh_live (V', h') p = Some m \<longleftrightarrow> ((gh_live (V, h))(gr_user r := None)) p = Some m"
      using gh_user_unique [OF D(2) _ _ i] i(2) unfolding fun_upd_apply new
      by (cases "p = gr_user r") (auto simp: old r_def)
  qed
  show ?thesis by (rule that [OF run inv' t' live']) (simp add: V'_def page_set_eq)
qed

text \<open>Two live blocks are disjoint, and a block is writable in all its bytes.\<close>

lemma gh_live_disjoint:
  assumes inv: "gh_inv k U (V, h)"
  shows "blocks_disjoint (gh_live (V, h))"
proof (unfold blocks_disjoint_def, intro allI impI, rule ccontr)
  note sh = gh_invD(2) [OF inv]
  fix p q m l assume "gh_live (V, h) p = Some m" and "gh_live (V, h) q = Some l" and pq: "p \<noteq> q"
    and n: "\<not> (unat p + m \<le> unat q \<or> unat q + l \<le> unat p)"
  then obtain i j where i: "i < length (gh_table h)" "gr_state (gh_table h ! i) = 1" "gr_user (gh_table h ! i) = p" "unat (gr_user_size (gh_table h ! i)) = m"
    and j: "j < length (gh_table h)" "gr_state (gh_table h ! j) = 1" "gr_user (gh_table h ! j) = q" "unat (gr_user_size (gh_table h ! j)) = l"
    using sh by (auto simp: gh_live_iff [of k])
  define x where "x = (if p \<le> q then q else p)"
  have x: "unat p \<le> unat x" "unat x < unat p + m" "unat q \<le> unat x" "unat x < unat q + l"
    using n region_okD(4) [OF gh_shapeD(2) [OF sh i(1)]] region_okD(4) [OF gh_shapeD(2) [OF sh j(1)]] i(2,4) j(2,4)
    by (auto simp: x_def word_le_nat_alt)
  have "in_region (gh_table h ! i) x" using x i by (intro user_in_region(1) [OF gh_shapeD(2) [OF sh i(1)]]) simp_all
  moreover have "in_region (gh_table h ! j) x" using x j by (intro user_in_region(1) [OF gh_shapeD(2) [OF sh j(1)]]) simp_all
  ultimately have "i = j" using gh_shapeD(3) [OF sh i(1) j(1)] i(2) j(2) by simp
  then show False using i(3) j(3) pq by simp
qed

interpretation gh: allocator_contract "gh_inv k U" "gh_allocate k" "\<lambda>s p. Inr (gh_deallocate k s p)" gh_live "gh_fits k"
    "\<lambda>s p. gh_live s p \<noteq> None" "\<lambda>s x v. s"
  for k :: vm_kernel and U :: vm_pages
proof (unfold_locales, goal_cases)
  case (1 s n al)
  obtain V h where s: "s = (V, h)" by (cases s)
  show ?case unfolding s by (rule gh_allocate_cases [OF 1(1) [unfolded s] 1(2)]) (use 1(1) s in simp_all)
next
  case (2 s n al s')
  obtain V h where s: "s = (V, h)" by (cases s)
  show ?case unfolding s by (rule gh_allocate_cases [OF 2(1) [unfolded s] 2(2)]) (use 2(3) s in simp_all)
next
  case (3 s n al p s')
  obtain V h where s: "s = (V, h)" by (cases s)
  show ?case unfolding s
  proof (rule gh_allocate_cases [OF 3(1) [unfolded s] 3(2)], goal_cases)
    case (2 i base r V' h')
    then have "p = gr_user r" "s' = (V', h')" using 3(3) s by simp_all
    then show ?case using 2(9-11) by auto
  qed (use 3(3) s in simp)
next
  case (4 s)
  then show ?case using gh_live_disjoint by (cases s) simp
next
  case (5 s p)
  obtain V h where s: "s = (V, h)" by (cases s)
  note sh = gh_invD(2) [OF 5(1) [unfolded s]]
  obtain i where i: "i < length (gh_table h)" "gr_state (gh_table h ! i) = 1" "gr_user (gh_table h ! i) = p"
    using 5(2) sh unfolding s by (auto simp: gh_live_iff [of k])
  show ?case unfolding s
    by (rule gh_deallocate_live [OF 5(1) [unfolded s] i(1,2)]) (use i(3) 5(2) s in auto)
qed simp


subsection \<open>Faults\<close>

definition gh_kind :: "gh_region \<Rightarrow> addr \<Rightarrow> hf_guard_kind" where
  "gh_kind r x = (if gr_state r = 2 then HF_GUARD_QUARANTINE else if x < gr_user r then HF_GUARD_UNDERFLOW else HF_GUARD_OVERFLOW)"

lemma in_region_cmp:
  assumes "region_ok k r" and "gr_state r \<noteq> 0"
  shows "gr_base r \<le> x \<and> x < gr_base r + gr_total r \<longleftrightarrow> in_region r x"
proof -
  have "unat (gr_base r + gr_total r) = unat (gr_base r) + unat (gr_total r)"
    using region_okD(1) [OF assms] by (simp add: unat_add_nowrap)
  then show ?thesis by (simp add: in_region_nat [OF assms] word_le_nat_alt word_less_nat_alt)
qed

lemma gh_locate_hit:
  assumes sh: "gh_shape k h" and i: "i < length (gh_table h)" "gr_state (gh_table h ! i) \<noteq> 0" "in_region (gh_table h ! i) x"
  shows "gh_locate h x = Some (i, gh_kind (gh_table h ! i) x)"
proof -
  have "first_slot (\<lambda>r. gr_state r \<noteq> 0 \<and> gr_base r \<le> x \<and> x < gr_base r + gr_total r) (gh_table h) = Some i"
  proof (rule first_slot_unique [OF i(1)])
    show "gr_state (gh_table h ! i) \<noteq> 0 \<and> gr_base (gh_table h ! i) \<le> x \<and> x < gr_base (gh_table h ! i) + gr_total (gh_table h ! i)"
      using in_region_cmp [OF gh_shapeD(2) [OF sh i(1)] i(2)] i(2,3) by simp
    fix j assume "j < length (gh_table h)" and
      "gr_state (gh_table h ! j) \<noteq> 0 \<and> gr_base (gh_table h ! j) \<le> x \<and> x < gr_base (gh_table h ! j) + gr_total (gh_table h ! j)"
    then show "j = i" using in_region_cmp [OF gh_shapeD(2) [OF sh]] gh_shapeD(3) [OF sh _ i(1) _ i(2) _ i(3)] by blast
  qed
  then show ?thesis by (simp add: gh_locate_def locate_loop gh_kind_def)
qed

text \<open>The page of a byte of a region lies in the region.\<close>

lemma gh_page_in_region:
  assumes k: "kernel_wf k" and r: "region_ok k r" "gr_state r \<noteq> 0" and x: "in_region r x"
  defines "page \<equiv> x AND NOT (vk_page_size k - 1)"
  shows "psz k dvd unat page" and "in_range page (vk_page_size k) x" and "in_range page (vk_page_size k) y \<Longrightarrow> in_region r y"
proof -
  obtain j where j: "vk_page_size k = 2 ^ j" "psz k = 2 ^ j" using kernel_wfD(1) [OF k] by blast
  note O = region_okD [OF r] and X = x [unfolded in_region_nat [OF r]]
  have pg: "unat page = unat x div psz k * psz k" unfolding page_def j(1) pow2_minus_1_mask unat_and_not_mask using j by simp
  then show "psz k dvd unat page" by simp
  have P: "0 < psz k" using kernel_wfD(2) [OF k] by simp
  have lo: "unat page \<le> unat x" and hi: "unat x < unat page + psz k"
    unfolding pg using div_mult_mod_eq [of "unat x" "psz k"] mod_less_divisor [OF P, of "unat x"] by linarith+
  have small: "unat page + psz k < 2 ^ 64" using lo X O(1) kernel_wfD(3) [OF k] by simp
  show "in_range page (vk_page_size k) x" using lo hi by (simp add: in_range_nat [OF small])
  obtain b where b: "unat (gr_base r) = psz k * b" using O(5) by (rule dvdE)
  obtain t where t: "unat (gr_total r) = psz k * t" using O(6) by (rule dvdE)
  have "psz k * b \<le> unat x" "unat x < psz k * (b + t)" using X by (simp_all add: b t distrib_left)
  then have "b \<le> unat x div psz k" "unat x div psz k < b + t"
    using P by (simp_all add: less_eq_div_iff_mult_less_eq div_less_iff_less_mult mult.commute)
  then have "psz k * b \<le> psz k * (unat x div psz k)" "psz k * Suc (unat x div psz k) \<le> psz k * (b + t)" by (simp_all only: mult_le_mono2 Suc_leI)
  then have "unat (gr_base r) \<le> unat page" "unat page + psz k \<le> unat (gr_base r) + unat (gr_total r)"
    unfolding pg b t by (simp_all add: algebra_simps)
  then show "in_range page (vk_page_size k) y \<Longrightarrow> in_region r y"
    by (auto simp: in_range_nat [OF small] in_region_nat [OF r])
qed

text \<open>An access to a protected byte of a region: it is reported with its kind, counted, and stopped or let through.\<close>

lemma gh_access_fault:
  assumes inv: "gh_inv k U (gw_vm w, h)" and act: "gw_heap w (g_active w) = Some h" "gw_act w sig = Sig_info Gh_handler"
    and i: "i < length (gh_table h)" "gr_state (gh_table h ! i) \<noteq> 0" "in_region (gh_table h ! i) x"
    and prot: "region_prot k (gh_table h ! i) x = HF_PROT_NONE"
  obtains w' where "gh_access 2 k w sig x = Some (w', if gh_policy h = HF_GUARD_CONTINUE then Completes else Stops Dies)"
    and "gw_err w' = gw_err w @ Fault_report (sa_write_hex x) (gh_kind (gh_table h ! i) x) #
      (if gh_policy h = HF_GUARD_CONTINUE then [] else [Policy_abort])"
    and "gw_heap w' (g_active w) = Some (h\<lparr>gh_violations := gh_violations h + 1\<rparr>)"
    and "gh_policy h = HF_GUARD_CONTINUE \<Longrightarrow>
      gw_vm w' = page_set (x AND NOT (vk_page_size k - 1)) (vk_page_size k) (Some HF_PROT_RW) (gw_vm w)"
proof -
  note D = gh_invD [OF inv]
  let ?r = "gh_table h ! i" and ?page = "x AND NOT (vk_page_size k - 1)"
  note ok = gh_shapeD(2) [OF D(2) i(1)] and loc = gh_locate_hit [OF D(2) i]
  have V: "gw_vm w x = Some HF_PROT_NONE" using D(3) [OF i] prot by simp
  let ?w1 = "w\<lparr>gw_err := gw_err w @ [Fault_report (sa_write_hex x) (gh_kind ?r x)], gw_heap := (gw_heap w)(g_active w \<mapsto> h\<lparr>gh_violations := gh_violations h + 1\<rparr>)\<rparr>"
  show ?thesis
  proof (cases "gh_policy h = HF_GUARD_CONTINUE")
    case True
    note pg = gh_page_in_region [OF D(1) ok i(2,3)]
    have "vk_mprotect k (gw_vm w) ?page (vk_page_size k) HF_PROT_RW"
      unfolding kernel_wfD(6) [OF D(1)] using pg(1,3) D(3) [OF i(1,2)] by simp
    moreover have "hf_align_up (vk_page_size k) (vk_page_size k) = vk_page_size k"
      using align_pages_id [OF D(1), of "vk_page_size k"] kernel_wfD(3) [OF D(1)] by simp
    ultimately have p: "hf_vm_protect k (gw_vm w) ?page (vk_page_size k) HF_PROT_RW =
        (True, page_set ?page (vk_page_size k) (Some HF_PROT_RW) (gw_vm w))" by (simp add: hf_vm_protect_def Let_def)
    have hd: "gh_handler k w sig x = (?w1\<lparr>gw_vm := page_set ?page (vk_page_size k) (Some HF_PROT_RW) (gw_vm w)\<rparr>, Returns)"
      using act loc True p by (simp add: gh_handler_def Let_def)
    have "page_set ?page (vk_page_size k) (Some HF_PROT_RW) (gw_vm w) x = Some HF_PROT_RW" using pg(2) by (simp add: page_set_eq)
    then show ?thesis
      using V act hd True by (intro that [of "?w1\<lparr>gw_vm := page_set ?page (vk_page_size k) (Some HF_PROT_RW) (gw_vm w)\<rparr>"]) (simp_all add: numeral_2_eq_2)
  next
    case False
    have hd: "gh_handler k w sig x = (?w1\<lparr>gw_err := gw_err ?w1 @ [Policy_abort], gw_act := (gw_act w)(sig := Sig_dfl)\<rparr>, Returns)"
      using act loc False by (simp add: gh_handler_def Let_def)
    then show ?thesis
      using V act False by (intro that [of "?w1\<lparr>gw_err := gw_err ?w1 @ [Policy_abort], gw_act := (gw_act w)(sig := Sig_dfl)\<rparr>"]) (simp_all add: numeral_2_eq_2)
  qed
qed

lemma gh_access_user:
  assumes inv: "gh_inv k U (gw_vm w, h)" and i: "i < length (gh_table h)" "gr_state (gh_table h ! i) = 1"
    and x: "unat (gr_user (gh_table h ! i)) \<le> unat x" "unat x < unat (gr_user (gh_table h ! i)) + unat (gr_user_size (gh_table h ! i))"
  shows "gh_access (Suc fuel) k w sig x = Some (w, Completes)"
proof -
  note D = gh_invD [OF inv] and ok = gh_shapeD(2) [OF gh_invD(2) [OF inv] i(1)]
  have "gw_vm w x = Some HF_PROT_RW"
    using D(3) [OF i(1), of x] user_in_region [OF ok _ x] i(2) by simp
  then show ?thesis by simp
qed

text \<open>The page an access of the policy \<^verbatim>\<open>HF_GUARD_CONTINUE\<close> opens stays open: later accesses to it are not seen.\<close>

lemma gh_continue_once:
  assumes inv: "gh_inv k U (gw_vm w, h)" and act: "gw_heap w (g_active w) = Some h" "gw_act w sig = Sig_info Gh_handler"
    and i: "i < length (gh_table h)" "gr_state (gh_table h ! i) \<noteq> 0" "in_region (gh_table h ! i) x"
    and prot: "region_prot k (gh_table h ! i) x = HF_PROT_NONE" and pol: "gh_policy h = HF_GUARD_CONTINUE"
    and y: "in_range (x AND NOT (vk_page_size k - 1)) (vk_page_size k) y"
  shows "\<exists>w'. gh_access 2 k w sig x = Some (w', Completes) \<and> gh_access 1 k w' sig y = Some (w', Completes)"
  by (rule gh_access_fault [OF inv act i prot]) (use pol y in \<open>auto simp: page_set_eq\<close>)

text \<open>A fault outside the regions of the active heap is left to the handler installed before, without a report.\<close>

lemma gh_unlocated:
  assumes "gw_heap w (g_active w) = Some h" and "gh_locate h x = None" and "g_prev_segv w = Sig_dfl"
  shows "gh_handler k w SIGSEGV x = (w\<lparr>gw_act := (gw_act w)(SIGSEGV := Sig_dfl)\<rparr>, Dies)"
  using assms by (simp add: gh_handler_def)

lemma gh_second_heap:
  assumes "hf_guard_heap_create w hp pol = (hp, w')" and "hp \<noteq> NULL" and "g_installed w" and "g_prev_segv w = Sig_dfl"
  shows "snd (gh_handler k w' SIGSEGV x) = Dies" and "gw_err (fst (gh_handler k w' SIGSEGV x)) = gw_err w"
proof -
  have w': "gw_heap w' (g_active w') = Some \<lparr>gh_policy = pol, gh_table = replicate GH_MAX_REGIONS gr_zero, gh_violations = 0,
      gh_used_bytes = 0, gh_peak_bytes = 0, gh_capacity_hint = 0\<rparr>" "g_prev_segv w' = Sig_dfl" "gw_err w' = gw_err w"
    using assms by (auto simp: hf_guard_heap_create_def gh_install_def Let_def)
  have "gh_locate \<lparr>gh_policy = pol, gh_table = replicate GH_MAX_REGIONS gr_zero, gh_violations = 0,
      gh_used_bytes = 0, gh_peak_bytes = 0, gh_capacity_hint = 0\<rparr> x = None"
    by (simp add: gh_locate_def locate_loop first_slot_None gr_zero_def)
  from gh_unlocated [OF w'(1) this w'(2)] show "snd (gh_handler k w' SIGSEGV x) = Dies"
    and "gw_err (fst (gh_handler k w' SIGSEGV x)) = gw_err w" using w'(3) by simp_all
qed


subsection \<open>The report\<close>

lemma hex_digit:
  assumes "d < 16"
  shows "''0123456789abcdef'' ! d = digit d"
proof -
  have "list_all (\<lambda>d. ''0123456789abcdef'' ! d = digit d) [0..<16]" by code_simp
  then show ?thesis using assms by (simp add: list_all_iff)
qed

lemma hex_loop_print: "hex_loop v s = print_base 16 (unat v) @ s"
proof (induction v s rule: hex_loop.induct)
  case (1 v s)
  have m: "unat (v AND 0xF) = unat v mod 16"
  proof -
    have "v AND 0xF = take_bit 4 v" by (simp add: take_bit_eq_mask mask_eq_exp_minus_1)
    then show ?thesis by (simp add: take_bit_eq_mod unat_mod_distrib)
  qed
  have d: "unat (drop_bit 4 v) = unat v div 16" using unat_drop_bit_div [of 4 v] by simp
  have z: "drop_bit 4 v = 0 \<longleftrightarrow> unat v < 16" using d unat_eq_0 [of "drop_bit 4 v"] by (simp add: div_eq_0_iff)
  show ?case
  proof (cases "unat v < 16")
    case True
    then show ?thesis using z m hex_digit [of "unat v"] by (simp add: hex_loop.simps [of v s] print_base.simps)
  next
    case False
    have "hex_loop v s = hex_loop (drop_bit 4 v) ((''0123456789abcdef'' ! unat (v AND 0xF)) # s)"
      using z False by (simp add: hex_loop.simps [of v s])
    also have "\<dots> = print_base 16 (unat v div 16) @ digit (unat v mod 16) # s"
      using "1.IH" [OF refl refl] z False d m hex_digit [of "unat v mod 16"] by simp
    finally show ?thesis using False by (simp add: print_base.simps [of 16 "unat v"])
  qed
qed

lemma sa_write_hex_reads:
  "take 2 (sa_write_hex v) = ''0x''" "read_base 16 (drop 2 (sa_write_hex v)) = unat v" "length (sa_write_hex v) \<le> 18"
proof -
  have "unat v < 16 ^ Suc 15" by simp
  from print_base_length [OF _ this] show "length (sa_write_hex v) \<le> 18" by (simp add: sa_write_hex_def hex_loop_print)
qed (simp_all add: sa_write_hex_def hex_loop_print read_base_print_base)


subsection \<open>The destructor\<close>

lemma gh_destroy_pages:
  assumes k: "kernel_wf k"
  shows "\<forall>r \<in> set rs. region_ok k r \<Longrightarrow>
    fold (\<lambda>r V. if gr_state r \<noteq> 0 then vm_release k V (gr_base r) (gr_total r) else V) rs V x =
      (if \<exists>r \<in> set rs. gr_state r \<noteq> 0 \<and> in_region r x then None else V x)"
proof (induction rs arbitrary: V)
  case (Cons r rs)
  have "vm_release k V (gr_base r) (gr_total r) x = (if in_region r x then None else V x)" if st: "gr_state r \<noteq> 0"
  proof -
    have ok: "region_ok k r" using Cons.prems by simp
    note O = region_okD [OF ok st]
    have "hf_align_up (gr_total r) (vk_page_size k) = gr_total r"
      using align_pages_id [OF k _ O(6)] O(1) kernel_wfD(3) [OF k] by simp
    then show ?thesis using O(7) by (simp add: vm_release_def page_set_eq)
  qed
  then show ?case using Cons by auto
qed simp

lemma gh_destroy_restores:
  assumes inv: "gh_inv k U (gw_vm w, h)" and h: "gw_heap w hp = Some h"
  obtains w' where "gh_destroy k w hp = Inr w'" and "gw_vm w' = U" and "gw_heap w' = (gw_heap w)(hp := None)"
    and "g_active w' = (if g_active w = hp then NULL else g_active w)"
proof -
  note D = gh_invD [OF inv]
  let ?V = "fold (\<lambda>r V. if gr_state r \<noteq> 0 then vm_release k V (gr_base r) (gr_total r) else V) (gh_table h) (gw_vm w)"
  have ok: "\<forall>r \<in> set (gh_table h). region_ok k r" using D(2) by (simp add: gh_shape_def)
  have "?V = U"
  proof
    fix x
    show "?V x = U x"
    proof (cases "\<exists>i < length (gh_table h). gr_state (gh_table h ! i) \<noteq> 0 \<and> in_region (gh_table h ! i) x")
      case True
      then obtain i where i: "i < length (gh_table h)" "gr_state (gh_table h ! i) \<noteq> 0" "in_region (gh_table h ! i) x" by blast
      then have "\<exists>r \<in> set (gh_table h). gr_state r \<noteq> 0 \<and> in_region r x" using nth_mem by blast
      then show ?thesis using D(3) [OF i] by (simp only: gh_destroy_pages [OF D(1) ok] if_True)
    next
      case False
      then have "\<not> (\<exists>r \<in> set (gh_table h). gr_state r \<noteq> 0 \<and> in_region r x)" by (metis in_set_conv_nth)
      moreover have "gw_vm w x = U x" using False by (intro D(4)) blast
      ultimately show ?thesis by (simp only: gh_destroy_pages [OF D(1) ok] if_False)
    qed
  qed
  then show ?thesis using h by (intro that) (auto simp: gh_destroy_def Let_def)
qed


subsection \<open>Slots and policy\<close>

definition free_slots :: "gh_heap \<Rightarrow> nat" where
  "free_slots h = length (filter (\<lambda>r. gr_state r = 0) (gh_table h))"

lemma filter_upd_length:
  "i < length xs \<Longrightarrow> length (filter P (xs[i := y])) + (if P (xs ! i) then 1 else 0) = length (filter P xs) + (if P y then 1 else 0)"
proof (induction xs arbitrary: i)
  case (Cons x xs)
  show ?case
  proof (cases i)
    case (Suc j)
    then have "j < length xs" using Cons.prems by simp
    from Cons.IH [OF this] show ?thesis by (simp add: Suc)
  qed simp
qed simp

lemma gh_reserve_slot_cases:
  obtains "gh_reserve_slot h = None"
  | i h' where "gh_reserve_slot h = Some (i, h')" and "i < length (gh_table h)" and "gr_state (gh_table h ! i) = 0"
      and "gh_table h' = (gh_table h)[i := (gh_table h ! i)\<lparr>gr_state := 1\<rparr>]" and "gh_policy h' = gh_policy h"
proof (cases "first_slot (\<lambda>r. gr_state r = 0) (gh_table h)")
  case (Some i)
  then show ?thesis using first_slot_Some [OF Some] that(2) by (simp add: gh_reserve_slot_def reserve_loop)
qed (use that(1) in \<open>simp add: gh_reserve_slot_def reserve_loop\<close>)

lemma gh_allocate_slots:
  "(if fst (gh_allocate k (V, h) n al) = None then 0 else 1) + free_slots (snd (snd (gh_allocate k (V, h) n al))) = free_slots h"
  "gh_policy (snd (snd (gh_allocate k (V, h) n al))) = gh_policy h"
proof -
  have "(if fst (gh_allocate k (V, h) n al) = None then 0 else 1) + free_slots (snd (snd (gh_allocate k (V, h) n al))) = free_slots h \<and>
    gh_policy (snd (snd (gh_allocate k (V, h) n al))) = gh_policy h"
  proof (rule gh_reserve_slot_cases [of h], goal_cases)
    case 1
    then show ?case by (simp add: gh_allocate_def Let_def split: prod.split option.split)
  next
    case (2 i h')
    have "length (filter (\<lambda>r. gr_state r = 0) ((gh_table h)[i := y])) + 1 = free_slots h" if "gr_state y \<noteq> 0" for y
      using filter_upd_length [OF 2(2), of "\<lambda>r. gr_state r = 0" y] 2(3) that by (simp add: free_slots_def)
    then show ?case using 2 by (simp add: gh_allocate_def Let_def free_slots_def split: prod.split option.split)
  qed
  then show "(if fst (gh_allocate k (V, h) n al) = None then 0 else 1) + free_slots (snd (snd (gh_allocate k (V, h) n al))) = free_slots h"
    "gh_policy (snd (snd (gh_allocate k (V, h) n al))) = gh_policy h" by blast+
qed

lemmas gh_allocate_policy = gh_allocate_slots(2)

lemma gh_deallocate_slots: "free_slots (snd (gh_deallocate k (V, h) p)) = free_slots h"
    and gh_deallocate_policy: "gh_policy (snd (gh_deallocate k (V, h) p)) = gh_policy h"
proof -
  have "free_slots (snd (gh_deallocate k (V, h) p)) = free_slots h \<and> gh_policy (snd (gh_deallocate k (V, h) p)) = gh_policy h"
  proof (cases "gh_find_by_user h p")
    case (Some i)
    then have "i < length (gh_table h)" "gr_state (gh_table h ! i) = 1"
      using first_slot_Some [of "\<lambda>r. gr_state r = 1 \<and> gr_user r = p" "gh_table h" i] by (auto simp: gh_find_by_user_def find_loop)
    then show ?thesis
      using Some filter_upd_length [of i "gh_table h" "\<lambda>r. gr_state r = 0" "(gh_table h ! i)\<lparr>gr_state := 2\<rparr>"]
      by (simp add: gh_deallocate_def Let_def free_slots_def)
  qed (simp add: gh_deallocate_def)
  then show "free_slots (snd (gh_deallocate k (V, h) p)) = free_slots h" "gh_policy (snd (gh_deallocate k (V, h) p)) = gh_policy h" by blast+
qed


subsection \<open>An example\<close>

definition kernel_example :: vm_kernel where
  "kernel_example = \<lparr>vk_page_size = 4096,
     vk_mmap = (\<lambda>V n. if n \<noteq> 0 \<and> n < 0x10000000000 \<and> (\<forall>x. in_range 0x100000 n x \<longrightarrow> V x = None) then Some 0x100000 else None),
     vk_mprotect = (\<lambda>V p n prot. 4096 dvd unat p \<and> (\<forall>x. in_range p n x \<longrightarrow> V x \<noteq> None))\<rparr>"

lemma kernel_example_wf: "kernel_wf kernel_example"
proof -
  have "unat (0x100000::u64) + unat n < 2 ^ 63" if "n < (0x10000000000::u64)" for n
    using that by (simp add: word_less_nat_alt)
  moreover have "(4096::u64) = 2 ^ 12" by simp
  ultimately show ?thesis
    unfolding kernel_wf_def kernel_example_def by (auto split: if_splits intro!: exI [of _ 12])
qed

definition gw_example :: gh_world where
  "gw_example = snd (hf_guard_heap_create
     \<lparr>gw_vm = (\<lambda>_. None), gw_heap = Map.empty, g_active = NULL, g_prev_segv = Sig_dfl, g_prev_bus = Sig_dfl,
      g_installed = False, gw_act = (\<lambda>_. Sig_dfl), gw_err = []\<rparr> 0x5000 HF_GUARD_ABORT)"

definition gh_fresh :: "hf_guard_policy \<Rightarrow> gh_heap" where
  "gh_fresh policy = \<lparr>gh_policy = policy, gh_table = replicate GH_MAX_REGIONS gr_zero, gh_violations = 0,
     gh_used_bytes = 0, gh_peak_bytes = 0, gh_capacity_hint = 0\<rparr>"

lemma gh_create_eq:
  assumes "hp \<noteq> NULL"
  shows "hf_guard_heap_create w hp policy = (hp, gh_install (w\<lparr>gw_heap := (gw_heap w)(hp \<mapsto> gh_fresh policy)\<rparr>) hp)"
  using assms by (simp add: hf_guard_heap_create_def gh_fresh_def)

lemma gh_install_frame [simp]:
  "gw_vm (gh_install w hp) = gw_vm w" "gw_heap (gh_install w hp) = gw_heap w" "g_active (gh_install w hp) = hp"
  by (simp_all add: gh_install_def)

lemma gh_fresh_inv:
  assumes "kernel_wf k"
  shows "gh_inv k U (U, gh_fresh policy)" and "gh_live (V, gh_fresh policy) = Map.empty"
proof -
  have "gh_shape k (gh_fresh policy)"
    by (auto simp: gh_shape_def gh_fresh_def gr_zero_def region_ok_def)
  then show "gh_inv k U (U, gh_fresh policy)"
    by (rule gh_invI [OF assms]) (simp_all add: gh_fresh_def gr_zero_def)
  show "gh_live (V, gh_fresh policy) = Map.empty" by (simp add: gh_live_def gh_fresh_def gr_zero_def)
qed

lemma gw_example_heap: "gw_heap gw_example (g_active gw_example) = Some (gh_fresh HF_GUARD_ABORT)"
    "gw_vm gw_example = (\<lambda>_. None)" "gw_act gw_example SIGSEGV = Sig_info Gh_handler"
  by (simp_all add: gw_example_def gh_create_eq) (simp add: gh_install_def)

lemma gh_example_fits: "gh_fits kernel_example 100 16" "gh_fits kernel_example 8 16"
  by (simp_all add: gh_fits_def kernel_example_def)

lemma gh_example_slot: "gh_reserve_loop (gh_table (gh_fresh HF_GUARD_ABORT)) 0 = Some 0"
proof -
  have "first_slot (\<lambda>r. gr_state r = 0) (replicate GH_MAX_REGIONS gr_zero) = Some 0"
    by (rule first_slot_replicate) (simp_all add: GH_MAX_REGIONS_def gr_zero_def)
  then show ?thesis by (simp add: gh_fresh_def reserve_loop)
qed

lemma gh_example_allocate: "fst (gh_allocate kernel_example (\<lambda>_. None, gh_fresh HF_GUARD_ABORT) 100 16) = Some 0x101F90"
  using gh_example_slot
  by (simp add: gh_allocate_def vm_reserve_def kernel_example_def hf_align_up_def HF_DEFAULT_ALIGN_def gh_place_def gh_reserve_slot_def Let_def)


subsection \<open>Properties\<close>







text \<open>The requests a sequence of operations is granted.\<close>

fun gh_grants :: "vm_kernel \<Rightarrow> vm_pages \<times> gh_heap \<Rightarrow> client_op list \<Rightarrow> nat" where
  "gh_grants k s [] = 0"
| "gh_grants k s (Op_alloc n al # cs) =
     (case gh_allocate k s n al of (r, s) \<Rightarrow> (if r = None then 0 else 1) + gh_grants k s cs)"
| "gh_grants k s (Op_free p # cs) = gh_grants k (gh_deallocate k s p) cs"
| "gh_grants k s (Op_write p x v # cs) = gh_grants k s cs"

lemma gh_grants_slots: "gh_grants k (V, h) cs \<le> free_slots h"
proof (induction cs arbitrary: V h)
  case (Cons c cs)
  show ?case
  proof (cases c)
    case (Op_alloc n al)
    obtain r V' h' where a: "gh_allocate k (V, h) n al = (r, (V', h'))" by (metis surj_pair)
    have "(if r = None then 0 else 1) + free_slots h' = free_slots h" using gh_allocate_slots(1) [of k V h n al] by (simp add: a)
    then show ?thesis using Cons.IH [of V' h'] by (simp add: Op_alloc a)
  next
    case (Op_free p)
    obtain V' h' where d: "gh_deallocate k (V, h) p = (V', h')" by (metis surj_pair)
    have "free_slots h' = free_slots h" using gh_deallocate_slots [of k V h p] by (simp add: d)
    then show ?thesis using Cons.IH [of V' h'] by (simp add: Op_free d)
  qed (use Cons.IH in simp)
qed simp

text \<open>
  C39: a slot of the table is used once.  A guard heap grants at most 4096 requests in its life, however
  many blocks its client gives back in between.
\<close>

theorem guard_heap_grants_bounded:
  assumes "hp \<noteq> NULL" and "hf_guard_heap_create w hp policy = (hp, w1)" and "gw_heap w1 hp = Some h"
  shows "gh_grants k (V, h) cs \<le> 4096"
proof -
  have "h = gh_fresh policy" using assms(2,3) unfolding gh_create_eq [OF assms(1)] by auto
  then have "free_slots h = 4096" by (simp add: free_slots_def gh_fresh_def gr_zero_def GH_MAX_REGIONS_def)
  then show ?thesis using gh_grants_slots [of k V h cs] by simp
qed

theorem guard_heap_grants_bounded_witness:
  "gh_grants kernel_example (\<lambda>_. None, gh_fresh HF_GUARD_ABORT) (concat (replicate 5000 [Op_alloc 100 16, Op_free 0x101F90])) \<le> 4096"
proof -
  let ?w = "\<lparr>gw_vm = (\<lambda>_. None), gw_heap = Map.empty, g_active = NULL, g_prev_segv = Sig_dfl, g_prev_bus = Sig_dfl,
      g_installed = False, gw_act = (\<lambda>_. Sig_dfl), gw_err = []\<rparr>"
  have c: "hf_guard_heap_create ?w 0x5000 HF_GUARD_ABORT = (0x5000, gw_example)" "gw_heap gw_example 0x5000 = Some (gh_fresh HF_GUARD_ABORT)"
    by (simp_all add: gw_example_def gh_create_eq)
  show ?thesis by (rule guard_heap_grants_bounded [OF _ c]) simp
qed

text \<open>
  A size within a page of \<open>2^64\<close> wraps when it is rounded to pages: the request is granted with a mapping of
  the two guard pages alone, and the pointer handed out is the start of the back guard page.
\<close>

lemma gh_allocate_wraps:
  "fst (gh_allocate kernel_example (\<lambda>_. None, gh_fresh HF_GUARD_ABORT) 0xFFFFFFFFFFFFFFF8 16) = Some (0x100000 + vk_page_size kernel_example)"
proof -
  have "hf_align_up 0xFFFFFFFFFFFFFFF8 4096 = 0" "gh_place 0x100000 4096 0 0xFFFFFFFFFFFFFFF8 16 = 0x101000" by code_simp+
  moreover have "hf_align_up 8192 4096 = 8192" by code_simp
  ultimately show ?thesis using gh_example_slot
    by (simp add: gh_allocate_def vm_reserve_def kernel_example_def HF_DEFAULT_ALIGN_def gh_reserve_slot_def Let_def)
qed

end
