(* ===== verification/HFX_Interface.thy ===== *)
theory HFX_Interface
  imports HF_Allocator
begin

text \<open>
  The C++ edition of the library, \<^verbatim>\<open>include/heapforge\<close>: the helpers of \<^verbatim>\<open>platform.h\<close> and \<^verbatim>\<open>allocator.h\<close>, the
  class interface \<^verbatim>\<open>IAllocator\<close>, and what it means that a C++ class behaves as the C allocator of the
  same name.  The last is a simulation, stated as a locale and lifted there to whole lives of an
  object: construction, any sequence of calls, destruction.

  \<^verbatim>\<open>alignof(std::max_align_t)\<close> depends on the platform (16 on x86-64, 8 on Apple arm64); it is the
  argument \<open>ma\<close> of the definitions that use \<^verbatim>\<open>kDefaultAlignment\<close>.
\<close>


subsection \<open>Helpers\<close>

definition align_up :: "u64 \<Rightarrow> u64 \<Rightarrow> u64" where
  "align_up n align = (n + align - 1) AND NOT (align - 1)"

definition is_pow2 :: "u64 \<Rightarrow> bool" where
  "is_pow2 n \<longleftrightarrow> n \<noteq> 0 \<and> n AND (n - 1) = 0"

definition next_pow2 :: "u64 \<Rightarrow> u64" where
  "next_pow2 n =
     (if n \<le> 1 then 1
      else let n = n - 1;
               n = n OR drop_bit 1 n; n = n OR drop_bit 2 n; n = n OR drop_bit 4 n;
               n = n OR drop_bit 8 n; n = n OR drop_bit 16 n; n = n OR drop_bit 32 n
           in n + 1)"

text \<open>The loop \<^verbatim>\<open>while (n >>= 1) ++r\<close>.\<close>

function log2_floor_loop :: "u64 \<Rightarrow> nat \<Rightarrow> nat" where
  "log2_floor_loop n r = (if drop_bit 1 n \<noteq> 0 then log2_floor_loop (drop_bit 1 n) (r + 1) else r)"
  by pat_completeness auto
termination
proof (relation "measure (\<lambda>(n, r). unat n)")
  fix n :: u64 and r :: nat
  assume "drop_bit 1 n \<noteq> 0"
  then have "0 < unat (drop_bit 1 n)" by (rule unat_gt_0 [THEN iffD2])
  then show "((drop_bit 1 n, r + 1), (n, r)) \<in> measure (\<lambda>(n, r). unat n)"
    using unat_drop_bit_div [of 1 n] by simp
qed simp

declare log2_floor_loop.simps [simp del]

definition log2_floor :: "u64 \<Rightarrow> nat" where
  "log2_floor n = log2_floor_loop n 0"

definition VM_reserve :: "os_services \<Rightarrow> u64 \<Rightarrow> vm_call list \<times> addr option" where
  "VM_reserve os sz =
     (let sz = align_up sz (os_page_size os) in ([Vm_reserve sz (os_mmap os sz)], os_mmap os sz))"

definition VM_release :: "os_services \<Rightarrow> addr \<Rightarrow> u64 \<Rightarrow> vm_call list" where
  "VM_release os ptr sz =
     (if ptr = NULL then [] else [Vm_release ptr (align_up sz (os_page_size os))])"

text \<open>The C++ helpers compute what the C helpers compute.\<close>

named_theorems editions \<open>a C++ helper equals its C counterpart\<close>

lemma align_up_c [editions]: "align_up = hf_align_up"
  by (intro ext) (simp add: align_up_def hf_align_up_def)

lemma next_pow2_c [editions]: "next_pow2 = hf_next_pow2"
  by (intro ext) (simp add: next_pow2_def hf_next_pow2_def)

lemma is_pow2_c [editions]: "is_pow2 = hf_is_pow2"
  by (intro ext) (simp add: is_pow2_def hf_is_pow2_def)

lemma log2_floor_loop_c: "log2_floor_loop n r = log2_loop n r"
  by (induction n r rule: log2_floor_loop.induct)
    (subst log2_floor_loop.simps, subst log2_loop.simps, simp)

lemma log2_floor_c [editions]: "log2_floor = hf_log2_floor"
  by (intro ext) (simp add: log2_floor_def hf_log2_floor_def log2_floor_loop_c)

lemma VM_reserve_c [editions]: "VM_reserve = hf_vm_reserve"
  by (intro ext) (simp add: VM_reserve_def hf_vm_reserve_def align_up_c)

lemma VM_release_c [editions]: "VM_release = hf_vm_release"
  by (intro ext) (simp add: VM_release_def hf_vm_release_def align_up_c)


subsection \<open>The class interface\<close>

text \<open>
  A member function may throw \<^verbatim>\<open>std::bad_alloc\<close> from a standard container; the object stays in the
  state it had then.  A constructor that throws or asserts leaves no object, and no destructor runs.
\<close>

datatype cxx_pointer = Returned "addr option" | Bad_alloc

datatype ctor_failure = Ctor_abort abort | Ctor_bad_alloc

record 's IAllocator =
  ia_allocate :: "'s \<Rightarrow> u64 \<Rightarrow> u64 \<Rightarrow> cxx_pointer \<times> 's"
  ia_deallocate :: "'s \<Rightarrow> addr \<Rightarrow> 's outcome"
  ia_name :: "'s \<Rightarrow> string"
  ia_stats :: "'s \<Rightarrow> hf_stats"
  ia_walk :: "'s \<Rightarrow> hf_block_info list"
  ia_destructor :: "os_services \<Rightarrow> 's \<Rightarrow> vm_call list"


subsection \<open>Sessions\<close>

text \<open>What a client does with an allocator through its interface, and what it sees.\<close>

datatype api_call =
    Call_allocate u64 u64
  | Call_deallocate addr
  | Call_name
  | Call_stats
  | Call_walk
  | User_write addr u64

datatype api_answer =
    Ans_pointer "addr option"
  | Ans_thrown
  | Ans_done
  | Ans_name string
  | Ans_stats hf_stats
  | Ans_walk "hf_block_info list"
  | Ans_stopped abort

fun c_session ::
    "'s hf_allocator_vtable \<Rightarrow> ('s \<Rightarrow> addr \<Rightarrow> u64 \<Rightarrow> 's) \<Rightarrow> 's \<Rightarrow> api_call list \<Rightarrow>
     api_answer list \<times> 's option" where
  "c_session vt wr s [] = ([], Some s)"
| "c_session vt wr s (c # cs) =
     (case c of
        Call_allocate n al \<Rightarrow>
          (case hf_allocate_aligned vt s n al of
             (r, s) \<Rightarrow> apfst ((#) (Ans_pointer r)) (c_session vt wr s cs))
      | Call_deallocate p \<Rightarrow>
          (case hf_deallocate vt s p of
             Inl e \<Rightarrow> ([Ans_stopped e], None)
           | Inr s \<Rightarrow> apfst ((#) Ans_done) (c_session vt wr s cs))
      | Call_name \<Rightarrow> apfst ((#) (Ans_name (hf_name vt s))) (c_session vt wr s cs)
      | Call_stats \<Rightarrow> apfst ((#) (Ans_stats (hf_get_stats vt s))) (c_session vt wr s cs)
      | Call_walk \<Rightarrow> apfst ((#) (Ans_walk (hf_walk vt s))) (c_session vt wr s cs)
      | User_write x v \<Rightarrow> apfst ((#) Ans_done) (c_session vt wr (wr s x v) cs))"

fun cxx_session ::
    "'x IAllocator \<Rightarrow> ('x \<Rightarrow> addr \<Rightarrow> u64 \<Rightarrow> 'x) \<Rightarrow> 'x \<Rightarrow> api_call list \<Rightarrow>
     api_answer list \<times> 'x option" where
  "cxx_session ia wr x [] = ([], Some x)"
| "cxx_session ia wr x (c # cs) =
     (case c of
        Call_allocate n al \<Rightarrow>
          (case ia_allocate ia x n al of
             (Returned r, x) \<Rightarrow> apfst ((#) (Ans_pointer r)) (cxx_session ia wr x cs)
           | (Bad_alloc, x) \<Rightarrow> apfst ((#) Ans_thrown) (cxx_session ia wr x cs))
      | Call_deallocate p \<Rightarrow>
          (case ia_deallocate ia x p of
             Inl e \<Rightarrow> ([Ans_stopped e], None)
           | Inr x \<Rightarrow> apfst ((#) Ans_done) (cxx_session ia wr x cs))
      | Call_name \<Rightarrow> apfst ((#) (Ans_name (ia_name ia x))) (cxx_session ia wr x cs)
      | Call_stats \<Rightarrow> apfst ((#) (Ans_stats (ia_stats ia x))) (cxx_session ia wr x cs)
      | Call_walk \<Rightarrow> apfst ((#) (Ans_walk (ia_walk ia x))) (cxx_session ia wr x cs)
      | User_write p v \<Rightarrow> apfst ((#) Ans_done) (cxx_session ia wr (wr x p v) cs))"

text \<open>
  The life of an object: the answers of the session and the mapping calls made from construction
  to destruction.  \<open>None\<close>: there is no object.  A process that stopped runs no destructor.
\<close>

definition c_life ::
    "'s hf_allocator_vtable \<Rightarrow> ('s \<Rightarrow> addr \<Rightarrow> u64 \<Rightarrow> 's) \<Rightarrow> os_services \<Rightarrow>
     vm_call list \<times> 's option \<Rightarrow> api_call list \<Rightarrow> (api_answer list \<times> vm_call list) option" where
  "c_life vt wr os birth calls =
     (case birth of
        (cs, None) \<Rightarrow> None
      | (cs, Some s) \<Rightarrow>
          (case c_session vt wr s calls of
             (as, s) \<Rightarrow> Some (as, cs @ hf_destroy vt os s)))"

definition cxx_life ::
    "'x IAllocator \<Rightarrow> ('x \<Rightarrow> addr \<Rightarrow> u64 \<Rightarrow> 'x) \<Rightarrow> os_services \<Rightarrow>
     vm_call list \<times> (ctor_failure + 'x) \<Rightarrow> api_call list \<Rightarrow>
     (api_answer list \<times> vm_call list) option" where
  "cxx_life ia wr os birth calls =
     (case birth of
        (cs, Inl e) \<Rightarrow> None
      | (cs, Inr x) \<Rightarrow>
          (case cxx_session ia wr x calls of
             (as, None) \<Rightarrow> Some (as, cs)
           | (as, Some x) \<Rightarrow> Some (as, cs @ ia_destructor ia os x)))"


subsection \<open>Two editions of one allocator\<close>

text \<open>
  \<open>same x s\<close>: the C++ object \<open>x\<close> and the C allocator \<open>s\<close> are in corresponding states.  Each operation
  gives equal answers and keeps the correspondence.
\<close>

locale edition =
  fixes ia :: "'x IAllocator"
    and vt :: "'s hf_allocator_vtable"
    and xwr :: "'x \<Rightarrow> addr \<Rightarrow> u64 \<Rightarrow> 'x"
    and wr :: "'s \<Rightarrow> addr \<Rightarrow> u64 \<Rightarrow> 's"
    and same :: "'x \<Rightarrow> 's \<Rightarrow> bool"
  assumes sim_allocate: "same x s \<Longrightarrow>
      rel_prod (\<lambda>p q. p = Returned q) same (ia_allocate ia x n al) (vt_allocate vt s n al)"
    and sim_deallocate: "same x s \<Longrightarrow>
      rel_sum (=) same (ia_deallocate ia x p) (vt_deallocate vt s p)"
    and sim_name: "same x s \<Longrightarrow> ia_name ia x = vt_name vt s"
    and sim_stats: "same x s \<Longrightarrow> ia_stats ia x = vt_get_stats vt s"
    and sim_walk: "same x s \<Longrightarrow> ia_walk ia x = vt_walk vt s"
    and sim_write: "same x s \<Longrightarrow> same (xwr x p v) (wr s p v)"
    and sim_destructor: "same x s \<Longrightarrow> ia_destructor ia os x = vt_destroy vt os s"
begin

lemma session_allocate:
  assumes "same x s"
  obtains r x' s' where "ia_allocate ia x n al = (Returned r, x')" "vt_allocate vt s n al = (r, s')" "same x' s'"
  using sim_allocate [OF assms, of n al]
  by (cases "ia_allocate ia x n al"; cases "vt_allocate vt s n al") auto

lemma session_deallocate:
  assumes "same x s"
  obtains e where "ia_deallocate ia x p = Inl e" "vt_deallocate vt s p = Inl e"
  | x' s' where "ia_deallocate ia x p = Inr x'" "vt_deallocate vt s p = Inr s'" "same x' s'"
  using sim_deallocate [OF assms, of p]
  by (cases "ia_deallocate ia x p"; cases "vt_deallocate vt s p") auto

lemma session_same:
  "same x s \<Longrightarrow> rel_prod (=) (rel_option same) (cxx_session ia xwr x cs) (c_session vt wr s cs)"
proof (induction cs arbitrary: x s)
  case (Cons c cs)
  have step: "rel_prod (=) (rel_option same) (apfst ((#) a) (cxx_session ia xwr x' cs))
      (apfst ((#) a) (c_session vt wr s' cs))" if "same x' s'" for x' s' a
    using Cons.IH [OF that]
    by (cases "cxx_session ia xwr x' cs"; cases "c_session vt wr s' cs") simp
  show ?case
  proof (cases c)
    case (Call_allocate n al)
    show ?thesis
      by (rule session_allocate [OF Cons.prems, of n al])
        (simp add: Call_allocate hf_allocate_aligned_def step)
  next
    case (Call_deallocate p)
    show ?thesis
      by (rule session_deallocate [OF Cons.prems, of p])
        (simp_all add: Call_deallocate hf_deallocate_def step)
  next
    case (User_write p v)
    then show ?thesis using step [OF sim_write [OF Cons.prems]] by simp
  qed (use step [OF Cons.prems] sim_name sim_stats sim_walk Cons.prems in
      \<open>simp_all add: hf_name_def hf_get_stats_def hf_walk_def\<close>)
qed simp

lemma life_same:
  assumes birth: "rel_prod (=) (\<lambda>b b'. case b of Inl e \<Rightarrow> b' = None | Inr x \<Rightarrow> \<exists>s. b' = Some s \<and> same x s) xb b"
  shows "cxx_life ia xwr os xb calls = c_life vt wr os b calls"
proof -
  obtain cs bx where xb: "xb = (cs, bx)" by (cases xb)
  show ?thesis
  proof (cases bx)
    case (Inl e)
    then show ?thesis using birth by (cases b) (simp add: xb cxx_life_def c_life_def)
  next
    case (Inr x)
    then obtain s where b: "b = (cs, Some s)" and "same x s"
      using birth by (cases b) (auto simp: xb)
    obtain as x' where X: "cxx_session ia xwr x calls = (as, x')"
      by (cases "cxx_session ia xwr x calls")
    then obtain s' where S: "c_session vt wr s calls = (as, s')" and "rel_option same x' s'"
      using session_same [OF \<open>same x s\<close>, of calls] by (cases "c_session vt wr s calls") auto
    then show ?thesis
      by (cases x'; cases s')
        (simp_all add: xb Inr b X S cxx_life_def c_life_def hf_destroy_def sim_destructor)
  qed
qed

end

text \<open>
  Several threads on one object: each call is tagged with the thread that makes it, and the mutex of
  the object makes it atomic.
\<close>

fun c_threads ::
    "(nat \<Rightarrow> 's hf_allocator_vtable) \<Rightarrow> ('s \<Rightarrow> addr \<Rightarrow> u64 \<Rightarrow> 's) \<Rightarrow> 's \<Rightarrow> (nat \<times> api_call) list \<Rightarrow>
     api_answer list \<times> 's option" where
  "c_threads vt wr s [] = ([], Some s)"
| "c_threads vt wr s ((t, c) # cs) =
     (case c_session (vt t) wr s [c] of
        (as, None) \<Rightarrow> (as, None)
      | (as, Some s) \<Rightarrow> apfst ((@) as) (c_threads vt wr s cs))"

fun cxx_threads ::
    "(nat \<Rightarrow> 'x IAllocator) \<Rightarrow> ('x \<Rightarrow> addr \<Rightarrow> u64 \<Rightarrow> 'x) \<Rightarrow> 'x \<Rightarrow> (nat \<times> api_call) list \<Rightarrow>
     api_answer list \<times> 'x option" where
  "cxx_threads ia wr x [] = ([], Some x)"
| "cxx_threads ia wr x ((t, c) # cs) =
     (case cxx_session (ia t) wr x [c] of
        (as, None) \<Rightarrow> (as, None)
      | (as, Some x) \<Rightarrow> apfst ((@) as) (cxx_threads ia wr x cs))"

locale threaded_edition =
  fixes ia :: "nat \<Rightarrow> 'x IAllocator"
    and vt :: "nat \<Rightarrow> 's hf_allocator_vtable"
    and xwr :: "'x \<Rightarrow> addr \<Rightarrow> u64 \<Rightarrow> 'x"
    and wr :: "'s \<Rightarrow> addr \<Rightarrow> u64 \<Rightarrow> 's"
    and same :: "'x \<Rightarrow> 's \<Rightarrow> bool"
  assumes each_thread: "edition (ia t) (vt t) xwr wr same"
begin

lemma threads_same:
  "same x s \<Longrightarrow> rel_prod (=) (rel_option same) (cxx_threads ia xwr x cs) (c_threads vt wr s cs)"
proof (induction cs arbitrary: x s)
  case (Cons tc cs)
  obtain t c where tc: "tc = (t, c)" by (cases tc)
  obtain as x' s' where X: "cxx_session (ia t) xwr x [c] = (as, x')" "c_session (vt t) wr s [c] = (as, s')"
      "rel_option same x' s'"
    using edition.session_same [OF each_thread Cons.prems, of t "[c]"]
    by (cases "cxx_session (ia t) xwr x [c]"; cases "c_session (vt t) wr s [c]") auto
  show ?case
  proof (cases x')
    case None
    then show ?thesis using X(3) by (simp add: tc X(1,2) del: cxx_session.simps c_session.simps)
  next
    case (Some y)
    then obtain r where r: "s' = Some r" "same y r" using X(3) by (cases s') auto
    show ?thesis using Cons.IH [OF r(2)]
      by (cases "cxx_threads ia xwr y cs"; cases "c_threads vt wr r cs")
        (simp add: tc X(1,2) Some r(1) del: cxx_session.simps c_session.simps)
  qed
qed simp

end

end
