(* ===== verification/HFX_Block_Pool.thy ===== *)
theory HFX_Block_Pool
  imports HFX_Interface HF_Block_Pool
begin

text \<open>
  The class \<^verbatim>\<open>BlockPool\<close> of \<^verbatim>\<open>block_pool.h\<close>.  The bitmap is a \<^verbatim>\<open>std::vector\<close> whose size replaces the word
  count the C structure stores.  The class behaves as \<^verbatim>\<open>hf_block_pool.c\<close>, except that a failed reservation
  aborts and that a failed allocation of the bitmap loses the reserved memory.
\<close>

record BlockPool =
  xbp_base :: addr
  xbp_capacity :: u64
  xbp_block_size :: u64
  xbp_block_count :: u64
  xbp_hint :: u64
  xbp_bitmap :: "u64 list"
  xbp_stats :: hf_stats

text \<open>\<^verbatim>\<open>os_calloc os 0\<close> is the allocation of the vector's storage.\<close>

definition BlockPool_ctor :: "u64 \<Rightarrow> os_services \<Rightarrow> u64 \<Rightarrow> u64 \<Rightarrow> vm_call list \<times> (ctor_failure + BlockPool)" where
  "BlockPool_ctor ma os block_size block_count =
     (let block_size = align_up block_size ma;
          bytes = align_up (block_size * block_count) (os_page_size os)
      in case VM_reserve os bytes of
           (cs, None) \<Rightarrow> (cs, Inl (Ctor_abort Assert_failed))
         | (cs, Some base) \<Rightarrow>
             if \<not> os_calloc os 0 then (cs, Inl Ctor_bad_alloc)
             else (cs, Inr \<lparr>xbp_base = base, xbp_capacity = bytes, xbp_block_size = block_size,
                            xbp_block_count = block_count, xbp_hint = 0,
                            xbp_bitmap = replicate (unat ((block_count + 63) div 64)) 0,
                            xbp_stats = stats_zero\<lparr>hs_capacity := bytes\<rparr>\<rparr>))"

definition BlockPool_dtor :: "os_services \<Rightarrow> BlockPool \<Rightarrow> vm_call list" where
  "BlockPool_dtor os x = VM_release os (xbp_base x) (xbp_capacity x)"

text \<open>Each line is \<^verbatim>\<open>if (!(inv & m)) { n += s; inv >>= s; }\<close>; the last one does not shift.\<close>

definition BlockPool_lowest_zero :: "u64 \<Rightarrow> nat" where
  "BlockPool_lowest_zero bits =
     (let iv = NOT bits; n = 0;
          (n, iv) = (if iv AND 0xFFFFFFFF = 0 then (n + 32, drop_bit 32 iv) else (n, iv));
          (n, iv) = (if iv AND 0xFFFF = 0 then (n + 16, drop_bit 16 iv) else (n, iv));
          (n, iv) = (if iv AND 0xFF = 0 then (n + 8, drop_bit 8 iv) else (n, iv));
          (n, iv) = (if iv AND 0xF = 0 then (n + 4, drop_bit 4 iv) else (n, iv));
          (n, iv) = (if iv AND 0x3 = 0 then (n + 2, drop_bit 2 iv) else (n, iv))
      in if iv AND 0x1 = 0 then n + 1 else n)"

definition BlockPool_test :: "BlockPool \<Rightarrow> u64 \<Rightarrow> bool" where
  "BlockPool_test x idx \<longleftrightarrow> xbp_bitmap x ! unat (idx div 64) AND push_bit (unat (idx mod 64)) 1 \<noteq> 0"

text \<open>The loop of \<^verbatim>\<open>allocate\<close>: the word and the bit of the first usable block.\<close>

function BlockPool_scan :: "BlockPool \<Rightarrow> nat \<Rightarrow> (u64 \<times> nat) option" where
  "BlockPool_scan x w =
     (let words = of_nat (length (xbp_bitmap x))
      in if w < unat words then
           let wi = (xbp_hint x + of_nat w) mod words;
               bits = xbp_bitmap x ! unat wi
           in if bits = NOT 0 then BlockPool_scan x (w + 1)
              else let bt = BlockPool_lowest_zero bits;
                       idx = wi * 64 + of_nat bt
                   in if idx \<ge> xbp_block_count x then BlockPool_scan x (w + 1) else Some (wi, bt)
         else None)"
  by pat_completeness auto
termination
  by (relation "measure (\<lambda>(x, w). unat (of_nat (length (xbp_bitmap x)) :: u64) - w)") auto

declare BlockPool_scan.simps [simp del]

definition BlockPool_allocate :: "BlockPool \<Rightarrow> u64 \<Rightarrow> u64 \<Rightarrow> cxx_pointer \<times> BlockPool" where
  "BlockPool_allocate x sz alignment =
     (let x = x\<lparr>xbp_stats := count_alloc (xbp_stats x)\<rparr>
      in if sz > xbp_block_size x then (Returned None, x\<lparr>xbp_stats := count_failed (xbp_stats x)\<rparr>)
         else case BlockPool_scan x 0 of
             Some (wi, bt) \<Rightarrow>
               let x = x\<lparr>xbp_bitmap := (xbp_bitmap x)[unat wi := xbp_bitmap x ! unat wi OR push_bit bt 1]\<rparr>;
                   x = x\<lparr>xbp_hint := wi\<rparr>;
                   x = x\<lparr>xbp_stats := set_used (hs_used (xbp_stats x) + xbp_block_size x) (xbp_stats x)\<rparr>;
                   x = x\<lparr>xbp_stats := raise_peak (xbp_stats x)\<rparr>
               in (Returned (Some (xbp_base x + (wi * 64 + of_nat bt) * xbp_block_size x)), x)
           | None \<Rightarrow> (Returned None, x\<lparr>xbp_stats := count_failed (xbp_stats x)\<rparr>))"

definition BlockPool_deallocate :: "BlockPool \<Rightarrow> addr \<Rightarrow> BlockPool outcome" where
  "BlockPool_deallocate x ptr =
     (if ptr = NULL then Inr x
      else let x = x\<lparr>xbp_stats := count_free (xbp_stats x)\<rparr>;
               off = ptr - xbp_base x
           in if \<not> off mod xbp_block_size x = 0 then Inl Assert_failed
              else let idx = off div xbp_block_size x
                   in if \<not> idx < xbp_block_count x then Inl Assert_failed
                      else let mask = push_bit (unat (idx mod 64)) 1
                           in if xbp_bitmap x ! unat (idx div 64) AND mask = 0 then Inl Assert_failed
                              else let x = x\<lparr>xbp_bitmap := (xbp_bitmap x)
                                       [unat (idx div 64) := xbp_bitmap x ! unat (idx div 64) AND NOT mask]\<rparr>;
                                       x = x\<lparr>xbp_hint := idx div 64\<rparr>
                                   in Inr (x\<lparr>xbp_stats := set_used
                                        (hs_used (xbp_stats x) - xbp_block_size x) (xbp_stats x)\<rparr>))"

definition BlockPool_name :: "BlockPool \<Rightarrow> string" where
  "BlockPool_name x = ''BlockPool''"

definition BlockPool_stats :: "BlockPool \<Rightarrow> hf_stats" where
  "BlockPool_stats x = xbp_stats x"

function BlockPool_walk_loop :: "BlockPool \<Rightarrow> nat \<Rightarrow> nat \<Rightarrow> bool \<Rightarrow> hf_block_info list" where
  "BlockPool_walk_loop x i run_start run_used =
     (if i \<le> unat (xbp_block_count x) then
        let used = (if i < unat (xbp_block_count x) then BlockPool_test x (of_nat i) else \<not> run_used)
        in if used \<noteq> run_used then
             \<lparr>bi_offset = of_nat run_start * xbp_block_size x,
              bi_size = (of_nat i - of_nat run_start) * xbp_block_size x,
              bi_is_free = (\<not> run_used)\<rparr> # BlockPool_walk_loop x (i + 1) i used
           else BlockPool_walk_loop x (i + 1) run_start run_used
      else [])"
  by pat_completeness auto
termination
  by (relation "measure (\<lambda>(x, i, _). Suc (unat (xbp_block_count x)) - i)") auto

declare BlockPool_walk_loop.simps [simp del]

definition BlockPool_walk :: "BlockPool \<Rightarrow> hf_block_info list" where
  "BlockPool_walk x = BlockPool_walk_loop x 1 0 (BlockPool_test x 0)"

definition BlockPool_class :: "BlockPool IAllocator" where
  "BlockPool_class = \<lparr>ia_allocate = BlockPool_allocate, ia_deallocate = BlockPool_deallocate,
     ia_name = BlockPool_name, ia_stats = BlockPool_stats, ia_walk = BlockPool_walk,
     ia_destructor = BlockPool_dtor\<rparr>"


subsection \<open>The C++ class and the C allocator\<close>

definition bp_of :: "BlockPool \<Rightarrow> bp_alloc" where
  "bp_of x = \<lparr>bp_mem = xbp_base x, bp_capacity = xbp_capacity x, bp_block_size = xbp_block_size x,
     bp_block_count = xbp_block_count x, bp_hint = xbp_hint x, bp_bitmap = xbp_bitmap x,
     bp_words = of_nat (length (xbp_bitmap x)), bp_stats = xbp_stats x\<rparr>"

lemma bp_of_simps [simp]:
  "bp_mem (bp_of x) = xbp_base x" "bp_capacity (bp_of x) = xbp_capacity x"
  "bp_block_size (bp_of x) = xbp_block_size x" "bp_block_count (bp_of x) = xbp_block_count x"
  "bp_hint (bp_of x) = xbp_hint x" "bp_bitmap (bp_of x) = xbp_bitmap x"
  "bp_words (bp_of x) = of_nat (length (xbp_bitmap x))" "bp_stats (bp_of x) = xbp_stats x"
  by (simp_all add: bp_of_def)

lemma BlockPool_lowest_zero_c [editions]: "BlockPool_lowest_zero = lowest_zero"
  by (intro ext) (simp add: BlockPool_lowest_zero_def lowest_zero_def lz_step_def Let_def)

lemma BlockPool_test_c [simp]: "BlockPool_test x i = bp_test (bp_of x) i"
  by (simp add: BlockPool_test_def bp_test_def bp_mask_def)

lemma BlockPool_scan_c [simp]: "BlockPool_scan x w = bp_scan (bp_of x) w"
  by (induction x w rule: BlockPool_scan.induct)
    (subst BlockPool_scan.simps, subst bp_scan.simps, simp add: Let_def BlockPool_lowest_zero_c)

lemma BlockPool_walk_loop_c: "BlockPool_walk_loop x i s u = bp_walk_loop (bp_of x) i s u"
proof (induction x i s u rule: BlockPool_walk_loop.induct)
  case (1 x i s u)
  define used where "used = (if i < unat (xbp_block_count x) then BlockPool_test x (of_nat i) else \<not> u)"
  define e where "e = \<lparr>bi_offset = of_nat s * xbp_block_size x,
    bi_size = (of_nat i - of_nat s) * xbp_block_size x, bi_is_free = (\<not> u)\<rparr>"
  show ?case
  proof (cases "i \<le> unat (xbp_block_count x)")
    case True
    have "BlockPool_walk_loop x i s u = (if used \<noteq> u then e # BlockPool_walk_loop x (i + 1) i used
        else BlockPool_walk_loop x (i + 1) s u)"
      using True by (subst BlockPool_walk_loop.simps) (simp only: Let_def used_def e_def if_True)
    moreover have "bp_walk_loop (bp_of x) i s u = (if used \<noteq> u then e # bp_walk_loop (bp_of x) (i + 1) i used
        else bp_walk_loop (bp_of x) (i + 1) s u)"
      using True by (subst bp_walk_loop.simps)
        (simp only: Let_def used_def e_def if_True bp_of_simps BlockPool_test_c)
    ultimately show ?thesis using 1 [OF True used_def] by presburger
  next
    case False
    then show ?thesis by (subst BlockPool_walk_loop.simps, subst bp_walk_loop.simps) simp
  qed
qed

lemma bp_of_stats: "bp_of (x\<lparr>xbp_stats := st\<rparr>) = (bp_of x)\<lparr>bp_stats := st\<rparr>"
  by (simp add: bp_of_def)

lemma BlockPool_allocate_c:
  "rel_prod (\<lambda>p q. p = Returned q) (\<lambda>x a. a = bp_of x) (BlockPool_allocate x n al) (bp_allocate (bp_of x) n al)"
  by (simp add: BlockPool_allocate_def bp_allocate_def bp_of_stats Let_def bp_of_def
      split: option.split prod.split)

lemma BlockPool_deallocate_c:
  "rel_sum (=) (\<lambda>x a. a = bp_of x) (BlockPool_deallocate x p) (bp_deallocate (bp_of x) p)"
  by (simp add: BlockPool_deallocate_def bp_deallocate_def Let_def bp_mask_def bp_of_def)

interpretation bpx: edition BlockPool_class BP_VT "\<lambda>x _ _. x" "\<lambda>a _ _. a" "\<lambda>x a. a = bp_of x"
  by unfold_locales
    (simp_all add: BlockPool_class_def BP_VT_def BlockPool_allocate_c BlockPool_deallocate_c
      BlockPool_name_def bp_name_def BlockPool_stats_def bp_get_stats_def BlockPool_walk_def bp_walk_def
      BlockPool_walk_loop_c BlockPool_dtor_def bp_destroy_def VM_release_c)

text \<open>
  C19: a \<^verbatim>\<open>BlockPool\<close> lives as the pool of \<^verbatim>\<open>hf_block_pool.c\<close> does.  With the same page size and kernel, and as long
  as the small allocations succeed, both are created or neither is, every sequence of calls gets the
  same answers (pointers, statistics, layouts, assertion failures), and the mapping calls are the same.
\<close>

theorem BlockPool_same_as_c:
  assumes "os_calloc os 0" and "os_calloc os 1"
  shows "cxx_life BlockPool_class (\<lambda>x _ _. x) os (BlockPool_ctor HF_DEFAULT_ALIGN os bs n) calls =
    c_life BP_VT (\<lambda>a _ _. a) os (hf_block_pool_create os bs n) calls"
proof (rule bpx.life_same)
  have len: "of_nat (unat ((n + 63) div 64)) = (n + 63) div 64" by simp
  show "rel_prod (=) (\<lambda>b b'. case b of Inl e \<Rightarrow> b' = None | Inr x \<Rightarrow> \<exists>s. b' = Some s \<and> s = bp_of x)
      (BlockPool_ctor HF_DEFAULT_ALIGN os bs n) (hf_block_pool_create os bs n)"
    using assms by (simp add: BlockPool_ctor_def hf_block_pool_create_def editions Let_def bp_of_def len
        split: prod.split option.split)
qed

theorem BlockPool_same_as_c_witness:
  "cxx_life BlockPool_class (\<lambda>x _ _. x) os_example (BlockPool_ctor HF_DEFAULT_ALIGN os_example 24 100)
     [Call_allocate 10 16, Call_walk, Call_deallocate 0x100000, Call_deallocate 0x100000] =
   c_life BP_VT (\<lambda>a _ _. a) os_example (hf_block_pool_create os_example 24 100)
     [Call_allocate 10 16, Call_walk, Call_deallocate 0x100000, Call_deallocate 0x100000]"
  by (rule BlockPool_same_as_c) (simp_all add: os_example_def)

text \<open>
  When the storage of the bitmap cannot be allocated the constructor throws with the reservation in
  place, and no destructor runs: the memory stays mapped.  The C constructor gives it back.
\<close>

theorem BlockPool_ctor_leaks:
  assumes "\<not> os_calloc os 0" and "VM_reserve os (align_up (align_up bs ma * n) (os_page_size os)) = (cs, Some p)"
  shows "BlockPool_ctor ma os bs n = (cs, Inl Ctor_bad_alloc)" and "vm_held cs {} \<noteq> {}"
  using assms by (auto simp: BlockPool_ctor_def VM_reserve_def Let_def)

end
