(* ===== verification/HFX_Stack.thy ===== *)
theory HFX_Stack
  imports HFX_Interface HF_Stack
begin

text \<open>
  The class \<^verbatim>\<open>StackAllocator\<close> of \<^verbatim>\<open>stack_allocator.h\<close>: the bump allocator with a header of two words below each
  payload, its markers, and that it behaves as \<^verbatim>\<open>hf_stack.c\<close>.  The C constructor turns a capacity of zero into
  one page; the C++ constructor asserts.
\<close>

record StackAllocator =
  xst_base :: addr
  xst_capacity :: u64
  xst_top :: u64
  xst_last_payload :: u64
  xst_memory :: cells
  xst_stats :: hf_stats

definition StackAllocator_ctor :: "os_services \<Rightarrow> u64 \<Rightarrow> vm_call list \<times> (ctor_failure + StackAllocator)" where
  "StackAllocator_ctor os capacity =
     (let capacity = align_up capacity (os_page_size os)
      in case VM_reserve os capacity of
           (cs, None) \<Rightarrow> (cs, Inl (Ctor_abort Assert_failed))
         | (cs, Some base) \<Rightarrow>
             (cs, Inr \<lparr>xst_base = base, xst_capacity = capacity, xst_top = 0, xst_last_payload = - 1,
                       xst_memory = (\<lambda>_. 0), xst_stats = stats_zero\<lparr>hs_capacity := capacity\<rparr>\<rparr>))"

definition StackAllocator_dtor :: "os_services \<Rightarrow> StackAllocator \<Rightarrow> vm_call list" where
  "StackAllocator_dtor os x = VM_release os (xst_base x) (xst_capacity x)"

text \<open>A \<^verbatim>\<open>Header\<close> has 16 bytes and the alignment 8: \<^verbatim>\<open>prev_top\<close>, then \<^verbatim>\<open>prev_payload\<close>.\<close>

definition StackAllocator_allocate :: "StackAllocator \<Rightarrow> u64 \<Rightarrow> u64 \<Rightarrow> cxx_pointer \<times> StackAllocator" where
  "StackAllocator_allocate x sz alignment =
     (let x = x\<lparr>xst_stats := count_alloc (xst_stats x)\<rparr>;
          hdr_at = align_up (xst_top x) 8;
          payload = align_up (hdr_at + 16) alignment;
          new_top = payload + sz
      in if new_top > xst_capacity x then (Returned None, x\<lparr>xst_stats := count_failed (xst_stats x)\<rparr>)
         else let h = xst_base x + payload - 16;
                  x = x\<lparr>xst_memory := (xst_memory x)(h := xst_top x)\<rparr>;
                  x = x\<lparr>xst_memory := (xst_memory x)(h + 8 := xst_last_payload x)\<rparr>;
                  x = x\<lparr>xst_top := new_top, xst_last_payload := payload\<rparr>;
                  x = x\<lparr>xst_stats := raise_peak (set_used (xst_top x) (xst_stats x))\<rparr>
              in (Returned (Some (xst_base x + payload)), x))"

definition StackAllocator_deallocate :: "StackAllocator \<Rightarrow> addr \<Rightarrow> StackAllocator outcome" where
  "StackAllocator_deallocate x ptr =
     (if ptr = NULL then Inr x
      else let x = x\<lparr>xst_stats := count_free (xst_stats x)\<rparr>;
               payload = ptr - xst_base x
           in if \<not> payload = xst_last_payload x then Inl Assert_failed
              else let h = xst_base x + payload - 16;
                       x = x\<lparr>xst_top := xst_memory x h\<rparr>;
                       x = x\<lparr>xst_stats := set_used (xst_top x) (xst_stats x)\<rparr>
                   in Inr (x\<lparr>xst_last_payload := xst_memory x (h + 8)\<rparr>))"

definition StackAllocator_mark :: "StackAllocator \<Rightarrow> u64" where
  "StackAllocator_mark x = xst_top x"

definition StackAllocator_rewind :: "StackAllocator \<Rightarrow> u64 \<Rightarrow> StackAllocator outcome" where
  "StackAllocator_rewind x m =
     (if \<not> m \<le> xst_top x then Inl Assert_failed
      else let x = x\<lparr>xst_top := m\<rparr>;
               x = x\<lparr>xst_stats := set_used (xst_top x) (xst_stats x)\<rparr>
           in Inr (x\<lparr>xst_last_payload := - 1\<rparr>))"

definition StackAllocator_reset :: "StackAllocator \<Rightarrow> StackAllocator outcome" where
  "StackAllocator_reset x = StackAllocator_rewind x 0"

definition StackAllocator_name :: "StackAllocator \<Rightarrow> string" where
  "StackAllocator_name x = ''Stack''"

definition StackAllocator_stats :: "StackAllocator \<Rightarrow> hf_stats" where
  "StackAllocator_stats x = xst_stats x"

definition StackAllocator_walk :: "StackAllocator \<Rightarrow> hf_block_info list" where
  "StackAllocator_walk x =
     (if xst_top x \<noteq> 0 then [\<lparr>bi_offset = 0, bi_size = xst_top x, bi_is_free = False\<rparr>] else []) @
     (if xst_top x < xst_capacity x
      then [\<lparr>bi_offset = xst_top x, bi_size = xst_capacity x - xst_top x, bi_is_free = True\<rparr>] else [])"

definition StackAllocator_class :: "StackAllocator IAllocator" where
  "StackAllocator_class = \<lparr>ia_allocate = StackAllocator_allocate, ia_deallocate = StackAllocator_deallocate,
     ia_name = StackAllocator_name, ia_stats = StackAllocator_stats, ia_walk = StackAllocator_walk,
     ia_destructor = StackAllocator_dtor\<rparr>"

text \<open>A write of the client into the managed memory.\<close>

definition StackAllocator_poke :: "StackAllocator \<Rightarrow> addr \<Rightarrow> u64 \<Rightarrow> StackAllocator" where
  "StackAllocator_poke x p v = x\<lparr>xst_memory := (xst_memory x)(p := v)\<rparr>"


subsection \<open>The C++ class and the C allocator\<close>

definition st_of :: "StackAllocator \<Rightarrow> st_alloc" where
  "st_of x = \<lparr>st_mem = xst_base x, st_capacity = xst_capacity x, st_top = xst_top x,
     st_last_payload = xst_last_payload x, st_cells = xst_memory x, st_stats = xst_stats x\<rparr>"

lemma StackAllocator_allocate_c:
  "rel_prod (\<lambda>p q. p = Returned q) (\<lambda>x a. a = st_of x)
     (StackAllocator_allocate x n al) (st_allocate (st_of x) n al)"
  by (simp add: StackAllocator_allocate_def st_allocate_def st_of_def st_header_def align_up_c Let_def)

lemma StackAllocator_deallocate_c:
  "rel_sum (=) (\<lambda>x a. a = st_of x) (StackAllocator_deallocate x p) (st_deallocate (st_of x) p)"
  by (simp add: StackAllocator_deallocate_def st_deallocate_def st_of_def st_header_def Let_def)

lemma StackAllocator_rewind_c:
  "map_sum id st_of (StackAllocator_rewind x m) = hf_stack_rewind (st_of x) m"
  by (simp add: StackAllocator_rewind_def hf_stack_rewind_def st_of_def ST_NONE_def Let_def)

interpretation stx: edition StackAllocator_class ST_VT StackAllocator_poke st_client_write "\<lambda>x a. a = st_of x"
  by unfold_locales
    (simp_all add: StackAllocator_class_def ST_VT_def StackAllocator_allocate_c [unfolded st_of_def]
      StackAllocator_deallocate_c [unfolded st_of_def]
      StackAllocator_name_def st_name_def StackAllocator_stats_def st_get_stats_def StackAllocator_walk_def
      st_walk_def StackAllocator_dtor_def st_destroy_def VM_release_c StackAllocator_poke_def
      st_client_write_def st_of_def)

text \<open>
  C22: a \<^verbatim>\<open>StackAllocator\<close> of a non-zero capacity lives as the stack of \<^verbatim>\<open>hf_stack.c\<close> does: every sequence of calls
  and client writes gets the same answers and makes the same mapping calls.  In any state, rewinding
  to a marker does what \<^verbatim>\<open>hf_stack_rewind\<close> does.
\<close>

theorem StackAllocator_same_as_c:
  assumes "os_calloc os 0" and "capacity \<noteq> 0"
  shows "cxx_life StackAllocator_class StackAllocator_poke os (StackAllocator_ctor os capacity) calls =
      c_life ST_VT st_client_write os (hf_stack_create os capacity) calls \<and>
    map_sum id st_of (StackAllocator_rewind x m) = hf_stack_rewind (st_of x) m"
proof (intro conjI StackAllocator_rewind_c stx.life_same)
  show "rel_prod (=) (\<lambda>b b'. case b of Inl e \<Rightarrow> b' = None | Inr x \<Rightarrow> \<exists>s. b' = Some s \<and> s = st_of x)
      (StackAllocator_ctor os capacity) (hf_stack_create os capacity)"
    using assms by (simp add: StackAllocator_ctor_def hf_stack_create_def editions Let_def st_of_def ST_NONE_def
        split: prod.split option.split)
qed

theorem StackAllocator_same_as_c_witness:
  "cxx_life StackAllocator_class StackAllocator_poke os_example (StackAllocator_ctor os_example 100)
      [Call_allocate 10 16, Call_allocate 20 64, Call_deallocate 0x100010] =
    c_life ST_VT st_client_write os_example (hf_stack_create os_example 100)
      [Call_allocate 10 16, Call_allocate 20 64, Call_deallocate 0x100010] \<and>
   map_sum id st_of (StackAllocator_rewind \<lparr>xst_base = 0x1000, xst_capacity = 4096, xst_top = 48,
       xst_last_payload = 16, xst_memory = (\<lambda>_. 0), xst_stats = stats_zero\<rparr> 0) =
    hf_stack_rewind (st_of \<lparr>xst_base = 0x1000, xst_capacity = 4096, xst_top = 48,
       xst_last_payload = 16, xst_memory = (\<lambda>_. 0), xst_stats = stats_zero\<rparr>) 0"
  by (rule StackAllocator_same_as_c) (simp_all add: os_example_def)

end
