(* ===== verification/HFX_Slab.thy ===== *)
theory HFX_Slab
  imports HFX_Interface HF_Slab
begin

text \<open>
  The class \<^verbatim>\<open>SlabAllocator\<close> of \<^verbatim>\<open>slab_allocator.h\<close>.  The magazine is a \<^verbatim>\<open>thread_local\<close> variable inside a member
  function: one per thread, shared by all objects of the class, as in the C library.  The process is the
  record \<open>sl_world\<close> of the C model.  The list of slabs is a \<^verbatim>\<open>std::vector\<close>; when it cannot grow the exception
  leaves the new slots linked, where the C code links slots it has just unmapped.
\<close>

record SlabAllocator =
  xsl_obj_size :: u64
  xsl_slab_bytes :: u64
  xsl_slots_per_slab :: u64
  xsl_slabs :: "addr list"
  xsl_central_free :: addr
  xsl_stats :: hf_stats

definition kBatch :: nat where
  "kBatch = 32"

text \<open>A \<^verbatim>\<open>Slot\<close> has 8 bytes.\<close>

definition Slab_ctor :: "u64 \<Rightarrow> os_services \<Rightarrow> u64 \<Rightarrow> u64 \<Rightarrow> SlabAllocator outcome" where
  "Slab_ctor ma os object_size slab_bytes =
     (let obj = align_up (if object_size < 8 then 8 else object_size) ma;
          slab_bytes = align_up slab_bytes (os_page_size os)
      in if obj = 0 then Inl Div_by_zero
         else let slots = slab_bytes div obj
              in if \<not> slots > 0 then Inl Assert_failed
                 else Inr \<lparr>xsl_obj_size = obj, xsl_slab_bytes = slab_bytes, xsl_slots_per_slab = slots,
                           xsl_slabs = [], xsl_central_free = NULL, xsl_stats = stats_zero\<rparr>)"

definition Slab_dtor :: "os_services \<Rightarrow> sl_world \<times> SlabAllocator \<Rightarrow> vm_call list" where
  "Slab_dtor os wx = concat (map (\<lambda>s. VM_release os s (xsl_slab_bytes (snd wx))) (xsl_slabs (snd wx)))"

text \<open>The loop of \<^verbatim>\<open>grow\<close>, with \<open>i\<close> slots left to link.\<close>

fun Slab_link :: "addr \<Rightarrow> nat \<Rightarrow> sl_world \<Rightarrow> SlabAllocator \<Rightarrow> sl_world \<times> SlabAllocator" where
  "Slab_link mem 0 w x = (w, x)"
| "Slab_link mem (Suc i) w x =
     (let s = mem + of_nat i * xsl_obj_size x;
          w = w\<lparr>sw_cells := (sw_cells w)(s := xsl_central_free x)\<rparr>
      in Slab_link mem i w (x\<lparr>xsl_central_free := s\<rparr>))"

text \<open>The flag is whether \<^verbatim>\<open>push_back\<close> threw.\<close>

definition Slab_grow :: "(nat \<Rightarrow> os_services) \<Rightarrow> sl_world \<Rightarrow> SlabAllocator \<Rightarrow> bool \<times> sl_world \<times> SlabAllocator" where
  "Slab_grow E w x =
     (let os = E (sw_grows w);
          (cs, r) = VM_reserve os (xsl_slab_bytes x);
          w = w\<lparr>sw_grows := sw_grows w + 1, sw_calls := sw_calls w @ cs\<rparr>
      in case r of
           None \<Rightarrow> (False, w, x)
         | Some mem \<Rightarrow>
             let (w, x) = Slab_link mem (unat (xsl_slots_per_slab x)) w x
             in if \<not> os_calloc os 0 then (True, w, x)
                else let x = x\<lparr>xsl_slabs := xsl_slabs x @ [mem]\<rparr>
                     in (False, w, x\<lparr>xsl_stats := (xsl_stats x)\<lparr>hs_capacity :=
                           hs_capacity (xsl_stats x) + xsl_slab_bytes x\<rparr>\<rparr>))"

text \<open>The loop \<^verbatim>\<open>while (tail->next && n < kBatch)\<close>.\<close>

function Slab_batch_tail :: "cells \<Rightarrow> addr \<Rightarrow> nat \<Rightarrow> addr" where
  "Slab_batch_tail c tail n =
     (if c tail \<noteq> NULL \<and> n < kBatch then Slab_batch_tail c (c tail) (n + 1) else tail)"
  by pat_completeness auto
termination
  by (relation "measure (\<lambda>(c, tail, n). kBatch - n)") auto

declare Slab_batch_tail.simps [simp del]

definition Slab_refill_magazine ::
    "(nat \<Rightarrow> os_services) \<Rightarrow> nat \<Rightarrow> sl_world \<Rightarrow> SlabAllocator \<Rightarrow> bool \<times> sl_world \<times> SlabAllocator" where
  "Slab_refill_magazine E t w x =
     (let (thrown, w, x) = (if xsl_central_free x = NULL then Slab_grow E w x else (False, w, x))
      in if thrown then (True, w, x)
         else if xsl_central_free x = NULL then (False, w, x)
         else let head = xsl_central_free x;
                  tail = Slab_batch_tail (sw_cells w) head 1;
                  x = x\<lparr>xsl_central_free := sw_cells w tail\<rparr>;
                  w = w\<lparr>sw_cells := (sw_cells w)(tail := NULL)\<rparr>
              in (False, w\<lparr>sw_magazines := (sw_magazines w)[t := head]\<rparr>, x))"

definition Slab_allocate ::
    "(nat \<Rightarrow> os_services) \<Rightarrow> nat \<Rightarrow> sl_world \<times> SlabAllocator \<Rightarrow> u64 \<Rightarrow> u64 \<Rightarrow>
     cxx_pointer \<times> (sl_world \<times> SlabAllocator)" where
  "Slab_allocate E t wx sz alignment =
     (let (w, x) = wx;
          x = x\<lparr>xsl_stats := count_alloc (xsl_stats x)\<rparr>
      in if sz > xsl_obj_size x then (Returned None, w, x\<lparr>xsl_stats := count_failed (xsl_stats x)\<rparr>)
         else let (thrown, w, x) =
                    (if sw_magazines w ! t = NULL then Slab_refill_magazine E t w x else (False, w, x))
              in if thrown then (Bad_alloc, w, x)
                 else if sw_magazines w ! t = NULL
                 then (Returned None, w, x\<lparr>xsl_stats := count_failed (xsl_stats x)\<rparr>)
                 else let s = sw_magazines w ! t;
                          w = w\<lparr>sw_magazines := (sw_magazines w)[t := sw_cells w s]\<rparr>;
                          x = x\<lparr>xsl_stats := set_used (hs_used (xsl_stats x) + xsl_obj_size x) (xsl_stats x)\<rparr>
                      in (Returned (Some s), w, x\<lparr>xsl_stats := raise_peak (xsl_stats x)\<rparr>))"

definition Slab_deallocate :: "nat \<Rightarrow> sl_world \<times> SlabAllocator \<Rightarrow> addr \<Rightarrow> (sl_world \<times> SlabAllocator) outcome" where
  "Slab_deallocate t wx ptr =
     (if ptr = NULL then Inr wx
      else let (w, x) = wx;
               x = x\<lparr>xsl_stats := count_free (xsl_stats x)\<rparr>;
               x = x\<lparr>xsl_stats := set_used (hs_used (xsl_stats x) - xsl_obj_size x) (xsl_stats x)\<rparr>;
               w = w\<lparr>sw_cells := (sw_cells w)(ptr := sw_magazines w ! t)\<rparr>
           in Inr (w\<lparr>sw_magazines := (sw_magazines w)[t := ptr]\<rparr>, x))"

definition Slab_name :: "sl_world \<times> SlabAllocator \<Rightarrow> string" where
  "Slab_name wx = ''Slab''"

definition Slab_stats :: "sl_world \<times> SlabAllocator \<Rightarrow> hf_stats" where
  "Slab_stats wx = xsl_stats (snd wx)"

text \<open>The loop of \<^verbatim>\<open>walk\<close> with \<open>n\<close> slabs left.\<close>

fun Slab_walk_loop :: "SlabAllocator \<Rightarrow> nat \<Rightarrow> u64 \<Rightarrow> u64 \<Rightarrow> hf_block_info list" where
  "Slab_walk_loop x 0 off remaining_used = []"
| "Slab_walk_loop x (Suc n) off remaining_used =
     (let used_bytes = (if remaining_used < xsl_slab_bytes x then remaining_used else xsl_slab_bytes x);
          remaining_used = remaining_used - used_bytes
      in (if used_bytes \<noteq> 0 then [\<lparr>bi_offset = off, bi_size = used_bytes, bi_is_free = False\<rparr>] else []) @
         (if used_bytes < xsl_slab_bytes x
          then [\<lparr>bi_offset = off + used_bytes, bi_size = xsl_slab_bytes x - used_bytes, bi_is_free = True\<rparr>]
          else []) @
         Slab_walk_loop x n (off + xsl_slab_bytes x) remaining_used)"

definition Slab_walk :: "sl_world \<times> SlabAllocator \<Rightarrow> hf_block_info list" where
  "Slab_walk wx = Slab_walk_loop (snd wx) (length (xsl_slabs (snd wx))) 0 (hs_used (xsl_stats (snd wx)))"

definition Slab_object_size :: "SlabAllocator \<Rightarrow> u64" where
  "Slab_object_size x = xsl_obj_size x"

definition Slab_class :: "(nat \<Rightarrow> os_services) \<Rightarrow> nat \<Rightarrow> (sl_world \<times> SlabAllocator) IAllocator" where
  "Slab_class E t = \<lparr>ia_allocate = Slab_allocate E t, ia_deallocate = Slab_deallocate t, ia_name = Slab_name,
     ia_stats = Slab_stats, ia_walk = Slab_walk, ia_destructor = Slab_dtor\<rparr>"

definition Slab_poke :: "sl_world \<times> SlabAllocator \<Rightarrow> addr \<Rightarrow> u64 \<Rightarrow> sl_world \<times> SlabAllocator" where
  "Slab_poke wx p v = ((fst wx)\<lparr>sw_cells := (sw_cells (fst wx))(p := v)\<rparr>, snd wx)"


subsection \<open>The C++ class and the C allocator\<close>

text \<open>The C structure also stores the capacity of its list of slabs.\<close>

definition sl_of :: "u64 \<Rightarrow> SlabAllocator \<Rightarrow> sl_alloc" where
  "sl_of cap x = \<lparr>sl_obj_size = xsl_obj_size x, sl_slab_bytes = xsl_slab_bytes x,
     sl_slots_per_slab = xsl_slots_per_slab x, sl_slabs = xsl_slabs x, sl_slab_cap = cap,
     sl_central_free = xsl_central_free x, sl_stats = xsl_stats x\<rparr>"

definition sl_same :: "(nat \<Rightarrow> os_services) \<Rightarrow> sl_world \<times> SlabAllocator \<Rightarrow> sl_world \<times> sl_alloc \<Rightarrow> bool" where
  "sl_same E wx wa \<longleftrightarrow> (\<forall>n. os_calloc (E n) 0) \<and> fst wa = fst wx \<and> (\<exists>cap. snd wa = sl_of cap (snd wx))"

lemma sl_of_simps [simp]:
  "sl_obj_size (sl_of c x) = xsl_obj_size x" "sl_slab_bytes (sl_of c x) = xsl_slab_bytes x"
  "sl_slots_per_slab (sl_of c x) = xsl_slots_per_slab x" "sl_slabs (sl_of c x) = xsl_slabs x"
  "sl_slab_cap (sl_of c x) = c" "sl_central_free (sl_of c x) = xsl_central_free x"
  "sl_stats (sl_of c x) = xsl_stats x"
  by (simp_all add: sl_of_def)

lemma sl_of_upd [simp]:
  "(sl_of c x)\<lparr>sl_stats := st\<rparr> = sl_of c (x\<lparr>xsl_stats := st\<rparr>)"
  "(sl_of c x)\<lparr>sl_central_free := p\<rparr> = sl_of c (x\<lparr>xsl_central_free := p\<rparr>)"
  "(sl_of c x)\<lparr>sl_slab_cap := d\<rparr> = sl_of d x"
  "(sl_of c x)\<lparr>sl_slabs := ss\<rparr> = sl_of c (x\<lparr>xsl_slabs := ss\<rparr>)"
  by (simp_all add: sl_of_def)

lemma Slab_batch_tail_c: "Slab_batch_tail c p n = sl_batch_tail c p n"
  by (induction c p n rule: Slab_batch_tail.induct)
    (subst Slab_batch_tail.simps, subst sl_batch_tail.simps, simp add: kBatch_def SL_BATCH_def)

lemma Slab_link_c:
  "Slab_link mem n w x =
     (case sl_link mem (xsl_obj_size x) n (sw_cells w) (xsl_central_free x) of
        (c, h) \<Rightarrow> (w\<lparr>sw_cells := c\<rparr>, x\<lparr>xsl_central_free := h\<rparr>))"
  by (induction n arbitrary: w x) (simp_all add: Let_def split: prod.split)

lemma Slab_grow_c:
  assumes "os_calloc (E (sw_grows w)) 0"
  obtains w' x' cap' where "Slab_grow E w x = (False, w', x')" "sl_grow E w (sl_of cap x) = (w', sl_of cap' x')"
proof (cases "os_mmap (E (sw_grows w)) (hf_align_up (xsl_slab_bytes x) (os_page_size (E (sw_grows w))))")
  case None
  then show ?thesis
    by (intro that) (simp_all add: Slab_grow_def sl_grow_def Let_def editions hf_vm_reserve_def)
next
  case (Some mem)
  obtain c h where link: "sl_link mem (xsl_obj_size x) (unat (xsl_slots_per_slab x)) (sw_cells w) (xsl_central_free x) = (c, h)"
    by fastforce
  with Some assms obtain w' x' where G: "Slab_grow E w x = (False, w', x')"
    by (simp add: Slab_grow_def Let_def editions hf_vm_reserve_def Slab_link_c)
  have "sl_grow E w (sl_of cap x) =
      (w', sl_of (if length (xsl_slabs x) = unat cap then if cap \<noteq> 0 then cap * 2 else 8 else cap) x')"
    using Some assms G link
    by (auto simp: Slab_grow_def sl_grow_def Let_def editions hf_vm_reserve_def Slab_link_c)
  then show ?thesis by (rule that [OF G])
qed

lemma Slab_refill_c:
  assumes E: "\<forall>n. os_calloc (E n) 0"
  obtains w' x' cap' where "Slab_refill_magazine E t w x = (False, w', x')"
    "sl_refill E t w (sl_of cap x) = (w', sl_of cap' x')"
proof -
  obtain w1 x1 cap1 where
    g: "(if xsl_central_free x = NULL then Slab_grow E w x else (False, w, x)) = (False, w1, x1)"
      "(if xsl_central_free x = NULL then sl_grow E w (sl_of cap x) else (w, sl_of cap x)) = (w1, sl_of cap1 x1)"
  proof (cases "xsl_central_free x = NULL")
    case True
    show ?thesis
      by (rule Slab_grow_c [where E = E and w = w and x = x and cap = cap])
        (use E in blast, (rule that; simp add: True))
  qed (simp add: that)
  show ?thesis
    by (cases "xsl_central_free x1 = NULL")
      (rule that; simp add: Slab_refill_magazine_def sl_refill_def g Slab_batch_tail_c set_magazine_def Let_def)+
qed

lemma Slab_allocate_c:
  assumes same: "sl_same E wx wa"
  shows "rel_prod (\<lambda>p q. p = Returned q) (sl_same E) (Slab_allocate E t wx n al) (sl_allocate E t wa n al)"
proof -
  obtain w x cap where E: "\<forall>n. os_calloc (E n) 0" and wx: "wx = (w, x)" and wa: "wa = (w, sl_of cap x)"
    using same by (cases wx; cases wa) (auto simp: sl_same_def)
  define y where "y = x\<lparr>xsl_stats := count_alloc (xsl_stats x)\<rparr>"
  obtain w1 x1 cap1 where
    r: "(if sw_magazines w ! t = NULL then Slab_refill_magazine E t w y else (False, w, y)) = (False, w1, x1)"
      "(if sw_magazines w ! t = NULL then sl_refill E t w (sl_of cap y) else (w, sl_of cap y)) = (w1, sl_of cap1 x1)"
  proof (cases "sw_magazines w ! t = NULL")
    case True
    show ?thesis
      by (rule Slab_refill_c [OF E, where t = t and w = w and x = y and cap = cap]) (rule that; simp add: True)
  qed (simp add: that)
  show ?thesis
    unfolding Slab_allocate_def sl_allocate_def wx wa Let_def tl_magazine_def prod.case sl_of_simps sl_of_upd
      y_def [symmetric] r
    using E by (auto simp: sl_same_def set_magazine_def)
qed

lemma Slab_deallocate_c:
  "sl_same E wx wa \<Longrightarrow> rel_sum (=) (sl_same E) (Slab_deallocate t wx p) (sl_deallocate t wa p)"
  by (cases wx; cases wa)
    (auto simp: sl_same_def Slab_deallocate_def sl_deallocate_def tl_magazine_def set_magazine_def Let_def)

lemma Slab_walk_loop_c: "Slab_walk_loop x n off r = sl_walk_loop (xsl_slab_bytes x) n off r"
  by (induction n arbitrary: off r) (simp_all add: Let_def)

lemma Slab_edition: "edition (Slab_class E t) (SL_VT E t) Slab_poke sl_client_write (sl_same E)"
proof unfold_locales
  fix wx wa os p v n al
  assume same: "sl_same E wx wa"
  show "rel_prod (\<lambda>p q. p = Returned q) (sl_same E) (ia_allocate (Slab_class E t) wx n al) (vt_allocate (SL_VT E t) wa n al)"
    using Slab_allocate_c [OF same] by (simp add: Slab_class_def SL_VT_def)
  show "rel_sum (=) (sl_same E) (ia_deallocate (Slab_class E t) wx p) (vt_deallocate (SL_VT E t) wa p)"
    using Slab_deallocate_c [OF same] by (simp add: Slab_class_def SL_VT_def)
  obtain cap where wa: "wa = (fst wx, sl_of cap (snd wx))" using same by (cases wa) (auto simp: sl_same_def)
  show "ia_name (Slab_class E t) wx = vt_name (SL_VT E t) wa"
    by (simp add: Slab_class_def SL_VT_def Slab_name_def sl_name_def)
  show "ia_stats (Slab_class E t) wx = vt_get_stats (SL_VT E t) wa"
    by (simp add: Slab_class_def SL_VT_def Slab_stats_def sl_get_stats_def wa)
  show "ia_walk (Slab_class E t) wx = vt_walk (SL_VT E t) wa"
    by (simp add: Slab_class_def SL_VT_def Slab_walk_def sl_walk_def wa Slab_walk_loop_c Let_def)
  show "ia_destructor (Slab_class E t) os wx = vt_destroy (SL_VT E t) os wa"
    by (simp add: Slab_class_def SL_VT_def Slab_dtor_def sl_destroy_def wa VM_release_c)
  show "sl_same E (Slab_poke wx p v) (sl_client_write wa p v)"
    using same by (auto simp: sl_same_def Slab_poke_def sl_client_write_def)
qed

interpretation slx: threaded_edition "Slab_class E" "SL_VT E" Slab_poke sl_client_write "sl_same E" for E
  by (rule threaded_edition.intro) (rule Slab_edition)

text \<open>
  C23: threads on a \<^verbatim>\<open>SlabAllocator\<close> see what they would see on a slab allocator of \<^verbatim>\<open>hf_slab.c\<close>.  As long as the
  vector of slabs can grow, every interleaving of calls and client writes gets the same answers and leaves
  the process in the same state (memory, magazines, mapping calls), and the destructor releases the same
  slabs.  A non-zero slab size is refused by both constructors or by neither.
\<close>

theorem SlabAllocator_same_as_c:
  assumes E: "\<forall>n. os_calloc (E n) 0" and "slab_bytes \<noteq> 0"
  shows "case hf_slab_create (E 0) object_size slab_bytes of
      Inl e \<Rightarrow> Slab_ctor HF_DEFAULT_ALIGN (E 0) object_size slab_bytes = Inl e
    | Inr None \<Rightarrow> Slab_ctor HF_DEFAULT_ALIGN (E 0) object_size slab_bytes = Inl Assert_failed
    | Inr (Some a) \<Rightarrow> (\<exists>x. Slab_ctor HF_DEFAULT_ALIGN (E 0) object_size slab_bytes = Inr x \<and>
        map_prod id (map_option (\<lambda>s. (fst s, Slab_dtor os s))) (cxx_threads (Slab_class E) Slab_poke (w, x) cs) =
        map_prod id (map_option (\<lambda>s. (fst s, sl_destroy os s))) (c_threads (SL_VT E) sl_client_write (w, a) cs))"
proof -
  have run: "map_prod id (map_option (\<lambda>s. (fst s, Slab_dtor os s))) (cxx_threads (Slab_class E) Slab_poke (w, x) cs) =
      map_prod id (map_option (\<lambda>s. (fst s, sl_destroy os s))) (c_threads (SL_VT E) sl_client_write (w, sl_of 0 x) cs)" for x
  proof -
    have fin: "(fst wx, Slab_dtor os wx) = (fst wa, sl_destroy os wa)" if "sl_same E wx wa" for wx wa
      using that by (auto simp: sl_same_def Slab_dtor_def sl_destroy_def VM_release_c)
    have "sl_same E (w, x) (w, sl_of 0 x)" using E by (auto simp: sl_same_def)
    from slx.threads_same [OF this, of cs] obtain as r r' where
      "cxx_threads (Slab_class E) Slab_poke (w, x) cs = (as, r)"
      "c_threads (SL_VT E) sl_client_write (w, sl_of 0 x) cs = (as, r')" and "rel_option (sl_same E) r r'"
      by (auto elim: rel_prod.cases)
    then show ?thesis using fin by (cases r; cases r') (simp_all del: split_paired_All)
  qed
  show ?thesis
    using assms by (simp add: hf_slab_create_def Slab_ctor_def editions Let_def word_gt_0 run)
      (simp add: sl_of_def)
qed

theorem SlabAllocator_same_as_c_witness:
  "case hf_slab_create (sl_env_example 0) 1024 4096 of
      Inl e \<Rightarrow> Slab_ctor HF_DEFAULT_ALIGN (sl_env_example 0) 1024 4096 = Inl e
    | Inr None \<Rightarrow> Slab_ctor HF_DEFAULT_ALIGN (sl_env_example 0) 1024 4096 = Inl Assert_failed
    | Inr (Some a) \<Rightarrow> (\<exists>x. Slab_ctor HF_DEFAULT_ALIGN (sl_env_example 0) 1024 4096 = Inr x \<and>
        map_prod id (map_option (\<lambda>s. (fst s, Slab_dtor os_example s)))
          (cxx_threads (Slab_class sl_env_example) Slab_poke (sl_fresh_world 2, x)
            [(0, Call_allocate 8 16), (1, Call_allocate 100 16), (1, Call_deallocate 0x100000)]) =
        map_prod id (map_option (\<lambda>s. (fst s, sl_destroy os_example s)))
          (c_threads (SL_VT sl_env_example) sl_client_write (sl_fresh_world 2, a)
            [(0, Call_allocate 8 16), (1, Call_allocate 100 16), (1, Call_deallocate 0x100000)]))"
  by (rule SlabAllocator_same_as_c) (simp_all add: sl_env_example_def)

text \<open>
  When \<^verbatim>\<open>push_back\<close> throws, the slots of the new slab are on the central list but the slab is not in the vector:
  a later allocation hands them out, and the destructor does not release their memory.
\<close>

theorem Slab_grow_untracked:
  assumes "\<not> os_calloc (E (sw_grows w)) 0" and "VM_reserve (E (sw_grows w)) (xsl_slab_bytes x) = (cs, Some mem)"
    and "0 < xsl_slots_per_slab x"
  shows "\<exists>w' x'. Slab_grow E w x = (True, w', x') \<and> xsl_central_free x' = mem \<and> xsl_slabs x' = xsl_slabs x \<and>
    sw_calls w' = sw_calls w @ cs"
proof -
  have head: "snd (sl_link mem ob (Suc n) c h) = mem" for ob n c h
    by (induction n arbitrary: c h) (simp_all add: Let_def)
  obtain n where n: "unat (xsl_slots_per_slab x) = Suc n"
    using assms(3) by (cases "unat (xsl_slots_per_slab x)") (simp_all add: word_gt_0 unat_eq_zero)
  show ?thesis
    using assms(1,2) head [of "xsl_obj_size x" n "sw_cells w" "xsl_central_free x"]
    by (auto simp: Slab_grow_def Slab_link_c n split_beta simp del: sl_link.simps)
qed

end
