(* ===== verification/HFX_Buddy.thy ===== *)
theory HFX_Buddy
  imports HFX_Interface HF_Buddy
begin

text \<open>
  The class \<^verbatim>\<open>BuddyAllocator\<close> of \<^verbatim>\<open>buddy_allocator.h\<close>: power-of-two blocks that split on allocation and merge with
  their buddies on release.  The free lists and the order map are vectors.  It behaves as \<^verbatim>\<open>hf_buddy.c\<close>.
\<close>

record BuddyAllocator =
  xbd_base :: addr
  xbd_capacity :: u64
  xbd_min_order :: nat
  xbd_max_order :: nat
  xbd_free_lists :: "addr list"
  xbd_order_map :: "u8 list"
  xbd_memory :: cells
  xbd_stats :: hf_stats

definition kHeaderBytes :: u64 where
  "kHeaderBytes = 16"

definition Buddy_order_for :: "BuddyAllocator \<Rightarrow> u64 \<Rightarrow> nat" where
  "Buddy_order_for x bytes =
     (let sz = next_pow2 bytes;
          od = log2_floor sz
      in if od < xbd_min_order x then xbd_min_order x else od)"

definition Buddy_slot_of :: "BuddyAllocator \<Rightarrow> addr \<Rightarrow> nat" where
  "Buddy_slot_of x p = unat (drop_bit (xbd_min_order x) (p - xbd_base x))"

text \<open>A \<^verbatim>\<open>FreeNode\<close> is its \<^verbatim>\<open>next\<close> cell followed by its \<^verbatim>\<open>prev\<close> cell.\<close>

definition Buddy_poke :: "BuddyAllocator \<Rightarrow> addr \<Rightarrow> u64 \<Rightarrow> BuddyAllocator" where
  "Buddy_poke x p v = x\<lparr>xbd_memory := (xbd_memory x)(p := v)\<rparr>"

definition Buddy_push :: "BuddyAllocator \<Rightarrow> addr \<Rightarrow> nat \<Rightarrow> BuddyAllocator" where
  "Buddy_push x n order =
     (let x = Buddy_poke x (n + 8) NULL;
          x = Buddy_poke x n (xbd_free_lists x ! order);
          x = (if xbd_memory x n \<noteq> NULL then Buddy_poke x (xbd_memory x n + 8) n else x);
          x = x\<lparr>xbd_free_lists := (xbd_free_lists x)[order := n]\<rparr>
      in x\<lparr>xbd_order_map := (xbd_order_map x)[Buddy_slot_of x n := of_nat order OR 0x40]\<rparr>)"

definition Buddy_pop :: "BuddyAllocator \<Rightarrow> nat \<Rightarrow> addr \<times> BuddyAllocator" where
  "Buddy_pop x order =
     (let n = xbd_free_lists x ! order;
          x = x\<lparr>xbd_free_lists := (xbd_free_lists x)[order := xbd_memory x n]\<rparr>
      in (n, if xbd_memory x n \<noteq> NULL then Buddy_poke x (xbd_memory x n + 8) NULL else x))"

definition Buddy_unlink :: "BuddyAllocator \<Rightarrow> addr \<Rightarrow> nat \<Rightarrow> BuddyAllocator" where
  "Buddy_unlink x n order =
     (let x = (if xbd_memory x (n + 8) \<noteq> NULL then Buddy_poke x (xbd_memory x (n + 8)) (xbd_memory x n)
               else x\<lparr>xbd_free_lists := (xbd_free_lists x)[order := xbd_memory x n]\<rparr>)
      in if xbd_memory x n \<noteq> NULL then Buddy_poke x (xbd_memory x n + 8) (xbd_memory x (n + 8)) else x)"

definition Buddy_mark_used :: "BuddyAllocator \<Rightarrow> addr \<Rightarrow> nat \<Rightarrow> BuddyAllocator" where
  "Buddy_mark_used x p order =
     x\<lparr>xbd_order_map := (xbd_order_map x)[Buddy_slot_of x p := of_nat order OR 0x80 OR 0x40]\<rparr>"

definition Buddy_is_free_at :: "BuddyAllocator \<Rightarrow> addr \<Rightarrow> nat \<Rightarrow> bool" where
  "Buddy_is_free_at x buddy order =
     (let enc = xbd_order_map x ! Buddy_slot_of x buddy
      in enc AND 0x40 \<noteq> 0 \<and> \<not> enc AND 0x80 \<noteq> 0 \<and> unat (enc AND 0x3F) = order)"

text \<open>\<open>os_calloc os 0\<close> and \<open>os_calloc os 1\<close> are the allocations of the storage of the two vectors.\<close>

definition Buddy_ctor :: "os_services \<Rightarrow> u64 \<Rightarrow> u64 \<Rightarrow> vm_call list \<times> (ctor_failure + BuddyAllocator)" where
  "Buddy_ctor os capacity min_block =
     (let min_block = next_pow2 (if min_block < 16 + kHeaderBytes then 16 + kHeaderBytes else min_block);
          capacity = next_pow2 (if capacity < min_block then min_block else capacity);
          min_order = log2_floor min_block;
          max_order = log2_floor capacity
      in case VM_reserve os capacity of
           (cs, None) \<Rightarrow> (cs, Inl (Ctor_abort Assert_failed))
         | (cs, Some base) \<Rightarrow>
             if \<not> os_calloc os 0 \<or> \<not> os_calloc os 1 then (cs, Inl Ctor_bad_alloc)
             else (cs, Inr (Buddy_push
                    \<lparr>xbd_base = base, xbd_capacity = capacity, xbd_min_order = min_order,
                     xbd_max_order = max_order, xbd_free_lists = replicate (max_order + 1) NULL,
                     xbd_order_map = replicate (unat (drop_bit min_order capacity)) 0,
                     xbd_memory = (\<lambda>_. 0), xbd_stats = stats_zero\<lparr>hs_capacity := capacity\<rparr>\<rparr>
                    base max_order)))"

definition Buddy_dtor :: "os_services \<Rightarrow> BuddyAllocator \<Rightarrow> vm_call list" where
  "Buddy_dtor os x = VM_release os (xbd_base x) (xbd_capacity x)"

text \<open>The loop \<^verbatim>\<open>while (o <= max_order_ && !free_lists_[o]) ++o\<close>.\<close>

function Buddy_find :: "BuddyAllocator \<Rightarrow> nat \<Rightarrow> nat" where
  "Buddy_find x od =
     (if od \<le> xbd_max_order x \<and> xbd_free_lists x ! od = NULL then Buddy_find x (od + 1) else od)"
  by pat_completeness auto
termination
  by (relation "measure (\<lambda>(x, od). Suc (xbd_max_order x) - od)") auto

declare Buddy_find.simps [simp del]

text \<open>The loop \<^verbatim>\<open>while (o > order)\<close>: the high half goes back, the low half is split further.\<close>

fun Buddy_split :: "BuddyAllocator \<Rightarrow> addr \<Rightarrow> nat \<Rightarrow> nat \<Rightarrow> BuddyAllocator" where
  "Buddy_split x blk 0 order = x"
| "Buddy_split x blk (Suc od) order =
     (if Suc od > order then Buddy_split (Buddy_push x (blk + push_bit od 1) od) blk od order else x)"

definition Buddy_allocate :: "BuddyAllocator \<Rightarrow> u64 \<Rightarrow> u64 \<Rightarrow> cxx_pointer \<times> BuddyAllocator" where
  "Buddy_allocate x sz alignment =
     (let need = sz + kHeaderBytes;
          need = (if alignment > need then alignment + kHeaderBytes else need);
          order = Buddy_order_for x need;
          x = x\<lparr>xbd_stats := count_alloc (xbd_stats x)\<rparr>
      in if order > xbd_max_order x then (Returned None, x\<lparr>xbd_stats := count_failed (xbd_stats x)\<rparr>)
         else let od = Buddy_find x order
              in if od > xbd_max_order x then (Returned None, x\<lparr>xbd_stats := count_failed (xbd_stats x)\<rparr>)
                 else let (blk, x) = Buddy_pop x od;
                          x = Buddy_split x blk od order;
                          x = Buddy_mark_used x blk order;
                          x = x\<lparr>xbd_stats := set_used (hs_used (xbd_stats x) + push_bit order 1) (xbd_stats x)\<rparr>;
                          x = x\<lparr>xbd_stats := raise_peak (xbd_stats x)\<rparr>
                      in (Returned (Some (blk + kHeaderBytes)), Buddy_poke x blk (of_nat order)))"

text \<open>The loop \<^verbatim>\<open>while (order < max_order_)\<close> of \<^verbatim>\<open>deallocate\<close>.\<close>

function Buddy_merge :: "BuddyAllocator \<Rightarrow> u64 \<Rightarrow> nat \<Rightarrow> BuddyAllocator \<times> u64 \<times> nat" where
  "Buddy_merge x off order =
     (if order < xbd_max_order x then
        let buddy = xbd_base x + (off XOR push_bit order 1)
        in if \<not> Buddy_is_free_at x buddy order then (x, off, order)
           else Buddy_merge (Buddy_unlink x buddy order) (off AND NOT (push_bit order 1)) (order + 1)
      else (x, off, order))"
  by pat_completeness auto
termination
  by (relation "measure (\<lambda>(x, off, order). xbd_max_order x - order)")
    (auto simp: Buddy_unlink_def Buddy_poke_def Let_def)

declare Buddy_merge.simps [simp del]

definition Buddy_deallocate :: "BuddyAllocator \<Rightarrow> addr \<Rightarrow> BuddyAllocator outcome" where
  "Buddy_deallocate x ptr =
     (if ptr = NULL then Inr x
      else let x = x\<lparr>xbd_stats := count_free (xbd_stats x)\<rparr>;
               blk = ptr - kHeaderBytes;
               order = unat (ucast (xbd_memory x blk) :: u32)
           in if \<not> (order \<ge> xbd_min_order x \<and> order \<le> xbd_max_order x) then Inl Assert_failed
              else let x = x\<lparr>xbd_stats := set_used (hs_used (xbd_stats x) - push_bit order 1) (xbd_stats x)\<rparr>;
                       (x, off, order) = Buddy_merge x (blk - xbd_base x) order
                   in Inr (Buddy_push x (xbd_base x + off) order))"

definition Buddy_name :: "BuddyAllocator \<Rightarrow> string" where
  "Buddy_name x = ''Buddy''"

definition Buddy_stats :: "BuddyAllocator \<Rightarrow> hf_stats" where
  "Buddy_stats x = xbd_stats x"

text \<open>The loop of \<^verbatim>\<open>walk\<close>, bounded by fuel: an entry of an order below the minimum would not advance it.\<close>

fun Buddy_walk_loop :: "nat \<Rightarrow> BuddyAllocator \<Rightarrow> nat \<Rightarrow> hf_block_info list option" where
  "Buddy_walk_loop fuel x slot =
     (if slot < unat (drop_bit (xbd_min_order x) (xbd_capacity x)) then
        case fuel of
          0 \<Rightarrow> None
        | Suc fuel \<Rightarrow>
            let enc = xbd_order_map x ! slot;
                order = unat (enc AND 0x3F);
                used = (enc AND 0x80 \<noteq> 0)
            in if order = 0 \<and> \<not> enc AND 0x40 \<noteq> 0 then Buddy_walk_loop fuel x (slot + 1)
               else let sz = push_bit order 1 :: u64
                    in map_option (\<lambda>bs. \<lparr>bi_offset = push_bit (xbd_min_order x) (of_nat slot),
                                         bi_size = sz, bi_is_free = (\<not> used)\<rparr> # bs)
                         (Buddy_walk_loop fuel x (slot + unat (drop_bit (xbd_min_order x) sz)))
      else Some [])"

declare Buddy_walk_loop.simps [simp del]

definition Buddy_walk :: "BuddyAllocator \<Rightarrow> hf_block_info list" where
  "Buddy_walk x =
     (case Buddy_walk_loop (unat (drop_bit (xbd_min_order x) (xbd_capacity x))) x 0 of
        None \<Rightarrow> [] | Some bs \<Rightarrow> bs)"

definition Buddy_class :: "BuddyAllocator IAllocator" where
  "Buddy_class = \<lparr>ia_allocate = Buddy_allocate, ia_deallocate = Buddy_deallocate, ia_name = Buddy_name,
     ia_stats = Buddy_stats, ia_walk = Buddy_walk, ia_destructor = Buddy_dtor\<rparr>"


subsection \<open>The C++ class and the C allocator\<close>

definition bd_of :: "BuddyAllocator \<Rightarrow> bd_alloc" where
  "bd_of x = \<lparr>bd_mem = xbd_base x, bd_capacity = xbd_capacity x, bd_min_order = xbd_min_order x,
     bd_max_order = xbd_max_order x, bd_free_lists = xbd_free_lists x, bd_order_map = xbd_order_map x,
     bd_cells = xbd_memory x, bd_stats = xbd_stats x\<rparr>"

lemma bd_of_simps [simp]:
  "bd_mem (bd_of x) = xbd_base x" "bd_capacity (bd_of x) = xbd_capacity x"
  "bd_min_order (bd_of x) = xbd_min_order x" "bd_max_order (bd_of x) = xbd_max_order x"
  "bd_free_lists (bd_of x) = xbd_free_lists x" "bd_order_map (bd_of x) = xbd_order_map x"
  "bd_cells (bd_of x) = xbd_memory x" "bd_stats (bd_of x) = xbd_stats x"
  by (simp_all add: bd_of_def)

lemma bd_of_upd [simp]:
  "bd_of (x\<lparr>xbd_stats := st\<rparr>) = (bd_of x)\<lparr>bd_stats := st\<rparr>"
  "bd_of (x\<lparr>xbd_memory := c\<rparr>) = (bd_of x)\<lparr>bd_cells := c\<rparr>"
  "bd_of (x\<lparr>xbd_free_lists := fl\<rparr>) = (bd_of x)\<lparr>bd_free_lists := fl\<rparr>"
  "bd_of (x\<lparr>xbd_order_map := om\<rparr>) = (bd_of x)\<lparr>bd_order_map := om\<rparr>"
  by (simp_all add: bd_of_def)

lemma kHeaderBytes_c [editions]: "kHeaderBytes = BD_HDR"
  by (simp add: kHeaderBytes_def BD_HDR_def)

lemma Buddy_helpers_c [simp]:
  "Buddy_order_for x n = order_for (bd_of x) n"
  "Buddy_slot_of x p = slot_of (bd_of x) p"
  "Buddy_is_free_at x p od = bd_is_free_at (bd_of x) p od"
  by (simp_all add: Buddy_order_for_def order_for_def Buddy_slot_of_def slot_of_def Buddy_is_free_at_def
      bd_is_free_at_def editions Let_def)

lemma Buddy_push_c: "bd_of (Buddy_push x n od) = bd_push (bd_of x) n od"
  by (simp add: Buddy_push_def bd_push_def Buddy_poke_def slot_of_def Let_def)

lemma Buddy_pop_c: "map_prod id bd_of (Buddy_pop x od) = bd_pop (bd_of x) od"
  by (simp add: Buddy_pop_def bd_pop_def Buddy_poke_def Let_def)

lemma Buddy_unlink_c: "bd_of (Buddy_unlink x n od) = bd_unlink (bd_of x) n od"
  by (simp add: Buddy_unlink_def bd_unlink_def Buddy_poke_def Let_def)

lemma Buddy_mark_used_c: "bd_of (Buddy_mark_used x p od) = bd_mark_used (bd_of x) p od"
  by (simp add: Buddy_mark_used_def bd_mark_used_def)

lemma Buddy_find_c [simp]: "Buddy_find x od = bd_find (bd_of x) od"
  by (induction x od rule: Buddy_find.induct) (subst Buddy_find.simps, subst bd_find.simps, simp)

lemma Buddy_split_c: "bd_of (Buddy_split x blk od order) = bd_split (bd_of x) blk od order"
  by (induction od arbitrary: x) (simp_all add: Buddy_push_c)

lemma Buddy_merge_c: "apfst bd_of (Buddy_merge x off od) = bd_merge (bd_of x) off od"
  by (induction x off od rule: Buddy_merge.induct)
    (subst Buddy_merge.simps, subst bd_merge.simps, simp add: Buddy_unlink_c Let_def)

lemma Buddy_walk_loop_c [simp]: "Buddy_walk_loop fuel x slot = bd_walk_loop fuel (bd_of x) slot"
  by (induction fuel arbitrary: slot)
    (subst Buddy_walk_loop.simps, subst bd_walk_loop.simps, simp add: Let_def)+

lemma Buddy_allocate_c:
  "rel_prod (\<lambda>p q. p = Returned q) (\<lambda>x a. a = bd_of x) (Buddy_allocate x n al) (bd_allocate (bd_of x) n al)"
proof -
  define y where "y = x\<lparr>xbd_stats := count_alloc (xbd_stats x)\<rparr>"
  have pop: "bd_pop (bd_of y) od = (fst (Buddy_pop y od), bd_of (snd (Buddy_pop y od)))" for od
    using Buddy_pop_c [of y od] by (cases "Buddy_pop y od") simp
  have y: "(bd_of x)\<lparr>bd_stats := count_alloc (xbd_stats x)\<rparr> = bd_of y" by (simp add: y_def)
  show ?thesis
    unfolding Buddy_allocate_def bd_allocate_def y_def [symmetric] Let_def
    by (simp add: y pop split_beta kHeaderBytes_c Buddy_poke_def
        flip: Buddy_split_c Buddy_mark_used_c)
qed

lemma Buddy_deallocate_c:
  "rel_sum (=) (\<lambda>x a. a = bd_of x) (Buddy_deallocate x p) (bd_deallocate (bd_of x) p)"
proof -
  define y where "y od = x\<lparr>xbd_stats := set_used (hs_used (xbd_stats x) - 2 ^ od) (count_free (xbd_stats x))\<rparr>" for od
  have y: "(bd_of x)\<lparr>bd_stats := set_used (hs_used (xbd_stats x) - 2 ^ od) (count_free (xbd_stats x))\<rparr> = bd_of (y od)" for od
    by (simp add: y_def)
  have base: "xbd_base (y od) = xbd_base x" for od by (simp add: y_def)
  show ?thesis
    by (cases "Buddy_merge (y (unat (ucast (xbd_memory x (p - BD_HDR)) :: u32))) (p - BD_HDR - xbd_base x)
          (unat (ucast (xbd_memory x (p - BD_HDR)) :: u32))")
      (simp add: Buddy_deallocate_def bd_deallocate_def Let_def kHeaderBytes_c y base y_def [symmetric]
        flip: Buddy_merge_c Buddy_push_c)
qed

interpretation bdx: edition Buddy_class BD_VT Buddy_poke "\<lambda>a p v. a\<lparr>bd_cells := (bd_cells a)(p := v)\<rparr>"
    "\<lambda>x a. a = bd_of x"
  by unfold_locales
    (simp_all add: Buddy_class_def BD_VT_def Buddy_allocate_c Buddy_deallocate_c Buddy_name_def bd_name_def
      Buddy_stats_def bd_get_stats_def Buddy_walk_def bd_walk_def Buddy_dtor_def bd_destroy_def VM_release_c
      Buddy_poke_def)

text \<open>
  C21: a \<^verbatim>\<open>BuddyAllocator\<close> lives as the allocator of \<^verbatim>\<open>hf_buddy.c\<close> does: both are created or neither is, every
  sequence of calls and client writes gets the same answers, and the mapping calls are the same.
\<close>

theorem BuddyAllocator_same_as_c:
  assumes "\<forall>i < 3. os_calloc os i"
  shows "cxx_life Buddy_class Buddy_poke os (Buddy_ctor os capacity min_block) calls =
    c_life BD_VT (\<lambda>a p v. a\<lparr>bd_cells := (bd_cells a)(p := v)\<rparr>) os (hf_buddy_create os capacity min_block) calls"
proof (rule bdx.life_same)
  have "os_calloc os 0" "os_calloc os 1" "os_calloc os 2" using assms by simp_all
  then show "rel_prod (=) (\<lambda>b b'. case b of Inl e \<Rightarrow> b' = None | Inr x \<Rightarrow> \<exists>s. b' = Some s \<and> s = bd_of x)
      (Buddy_ctor os capacity min_block) (hf_buddy_create os capacity min_block)"
    by (simp add: Buddy_ctor_def hf_buddy_create_def editions Let_def Buddy_push_c
        split: prod.split option.split) (simp add: bd_of_def)
qed

theorem BuddyAllocator_same_as_c_witness:
  "cxx_life Buddy_class Buddy_poke os_example (Buddy_ctor os_example 4096 64)
     [Call_allocate 100 16, Call_allocate 5 16, Call_walk, Call_deallocate 0x100010, Call_walk] =
   c_life BD_VT (\<lambda>a p v. a\<lparr>bd_cells := (bd_cells a)(p := v)\<rparr>) os_example (hf_buddy_create os_example 4096 64)
     [Call_allocate 100 16, Call_allocate 5 16, Call_walk, Call_deallocate 0x100010, Call_walk]"
  by (rule BuddyAllocator_same_as_c) (simp add: os_example_def)

end
