(* ===== verification/HFX_Free_List.thy ===== *)
theory HFX_Free_List
  imports HFX_Interface HF_Free_List
begin

text \<open>
  The class \<^verbatim>\<open>FreeListAllocator\<close> of \<^verbatim>\<open>free_list_allocator.h\<close>: boundary tags, the ring of free blocks, the three
  fit policies, over-aligned requests, and merging on release.  Where \<^verbatim>\<open>alignof(std::max_align_t)\<close> is 16 it
  behaves as \<^verbatim>\<open>hf_free_list.c\<close>.
\<close>

datatype FitPolicy = FirstFit | BestFit | NextFit

record FreeListAllocator =
  xfl_base :: addr
  xfl_capacity :: u64
  xfl_policy :: FitPolicy
  xfl_free_head :: addr
  xfl_cursor :: addr
  xfl_memory :: cells
  xfl_stats :: hf_stats

definition kHeaderSize :: u64 where
  "kHeaderSize = 16"

definition kMinBlock :: u64 where
  "kMinBlock = kHeaderSize + 16"

text \<open>
  A \<^verbatim>\<open>Header\<close> is the cell \<^verbatim>\<open>size_flags\<close> followed by the cell \<^verbatim>\<open>prev_phys\<close>, a \<^verbatim>\<open>FreeNode\<close> the cell \<^verbatim>\<open>next\<close> followed
  by the cell \<^verbatim>\<open>prev\<close>.
\<close>

definition FreeList_poke :: "FreeListAllocator \<Rightarrow> addr \<Rightarrow> u64 \<Rightarrow> FreeListAllocator" where
  "FreeList_poke x p v = x\<lparr>xfl_memory := (xfl_memory x)(p := v)\<rparr>"

definition Header_size :: "FreeListAllocator \<Rightarrow> addr \<Rightarrow> u64" where
  "Header_size x h = xfl_memory x h AND NOT 1"

definition Header_used :: "FreeListAllocator \<Rightarrow> addr \<Rightarrow> bool" where
  "Header_used x h \<longleftrightarrow> xfl_memory x h AND 1 \<noteq> 0"

definition Header_set :: "FreeListAllocator \<Rightarrow> addr \<Rightarrow> u64 \<Rightarrow> bool \<Rightarrow> FreeListAllocator" where
  "Header_set x h sz u = FreeList_poke x h (sz OR (if u then 1 else 0))"

definition FreeList_payload_node :: "addr \<Rightarrow> addr" where
  "FreeList_payload_node h = h + kHeaderSize"

definition FreeList_header_of :: "addr \<Rightarrow> addr" where
  "FreeList_header_of n = n - kHeaderSize"

definition FreeList_next_phys :: "FreeListAllocator \<Rightarrow> addr \<Rightarrow> addr" where
  "FreeList_next_phys x h =
     (let n = h + Header_size x h in if n < xfl_base x + xfl_capacity x then n else NULL)"

definition FreeList_plausible_header :: "u64 \<Rightarrow> FreeListAllocator \<Rightarrow> addr \<Rightarrow> bool" where
  "FreeList_plausible_header ma x h =
     (if h < xfl_base x \<or> h \<ge> xfl_base x + xfl_capacity x then False
      else let sz = Header_size x h
           in Header_used x h \<and> sz \<ge> kMinBlock \<and> sz mod ma = 0 \<and> h + sz \<le> xfl_base x + xfl_capacity x)"

definition FreeList_insert :: "FreeListAllocator \<Rightarrow> addr \<Rightarrow> FreeListAllocator" where
  "FreeList_insert x n =
     (let x = (if xfl_free_head x = NULL then
                 let x = x\<lparr>xfl_free_head := n\<rparr>; x = FreeList_poke x (n + 8) n in FreeList_poke x n n
               else
                 let x = FreeList_poke x n (xfl_memory x (xfl_free_head x));
                     x = FreeList_poke x (n + 8) (xfl_free_head x);
                     x = FreeList_poke x (xfl_memory x (xfl_free_head x) + 8) n
                 in FreeList_poke x (xfl_free_head x) n)
      in if xfl_cursor x = NULL then x\<lparr>xfl_cursor := n\<rparr> else x)"

definition FreeList_unlink :: "FreeListAllocator \<Rightarrow> addr \<Rightarrow> FreeListAllocator" where
  "FreeList_unlink x n =
     (if xfl_memory x n = n then x\<lparr>xfl_free_head := NULL, xfl_cursor := NULL\<rparr>
      else let x = FreeList_poke x (xfl_memory x (n + 8)) (xfl_memory x n);
               x = FreeList_poke x (xfl_memory x n + 8) (xfl_memory x (n + 8));
               x = (if xfl_free_head x = n then x\<lparr>xfl_free_head := xfl_memory x n\<rparr> else x)
           in if xfl_cursor x = n then x\<lparr>xfl_cursor := xfl_memory x n\<rparr> else x)"

text \<open>
  The \<^verbatim>\<open>do\<close> loops of \<^verbatim>\<open>find_fit\<close> follow \<^verbatim>\<open>next\<close> until they are back at the start.  They are bounded by fuel, and
  \<open>None\<close> stands for not having finished; there are at most \<open>capacity / 32\<close> free blocks.
\<close>

fun FreeList_scan :: "nat \<Rightarrow> FreeListAllocator \<Rightarrow> u64 \<Rightarrow> addr \<Rightarrow> addr \<Rightarrow> addr option" where
  "FreeList_scan 0 x need start n = None"
| "FreeList_scan (Suc fuel) x need start n =
     (if Header_size x (FreeList_header_of n) \<ge> need then Some n
      else if xfl_memory x n \<noteq> start then FreeList_scan fuel x need start (xfl_memory x n) else Some NULL)"

fun FreeList_best :: "nat \<Rightarrow> FreeListAllocator \<Rightarrow> u64 \<Rightarrow> addr \<Rightarrow> addr \<Rightarrow> addr \<Rightarrow> u64 \<Rightarrow> addr option" where
  "FreeList_best 0 x need start n best best_sz = None"
| "FreeList_best (Suc fuel) x need start n best best_sz =
     (let sz = Header_size x (FreeList_header_of n);
          (best, best_sz) = (if sz \<ge> need \<and> sz < best_sz then (n, sz) else (best, best_sz))
      in if xfl_memory x n \<noteq> start then FreeList_best fuel x need start (xfl_memory x n) best best_sz
         else Some best)"

definition FreeList_find_fit :: "FreeListAllocator \<Rightarrow> u64 \<Rightarrow> (addr \<times> FreeListAllocator) option" where
  "FreeList_find_fit x need =
     (let fuel = unat (xfl_capacity x) div 32
      in if xfl_free_head x = NULL then Some (NULL, x)
         else case xfl_policy x of
           FirstFit \<Rightarrow> map_option (\<lambda>n. (n, x)) (FreeList_scan fuel x need (xfl_free_head x) (xfl_free_head x))
         | BestFit \<Rightarrow>
             map_option (\<lambda>n. (n, x)) (FreeList_best fuel x need (xfl_free_head x) (xfl_free_head x) NULL (- 1))
         | NextFit \<Rightarrow>
             let start = (if xfl_cursor x \<noteq> NULL then xfl_cursor x else xfl_free_head x)
             in map_option (\<lambda>n. (n, if n \<noteq> NULL then x\<lparr>xfl_cursor := xfl_memory x n\<rparr> else x))
                  (FreeList_scan fuel x need start start))"

text \<open>The block of \<^verbatim>\<open>allocate\<close> that splits the found block \<open>h\<close> or hands it out whole.\<close>

definition FreeList_split :: "FreeListAllocator \<Rightarrow> addr \<Rightarrow> u64 \<Rightarrow> FreeListAllocator" where
  "FreeList_split x h need =
     (let remain = Header_size x h - need
      in if remain \<ge> kMinBlock then
           let split = h + need;
               x = Header_set x split remain False;
               x = FreeList_poke x (split + 8) h;
               after = FreeList_next_phys x split;
               x = (if after \<noteq> NULL then FreeList_poke x (after + 8) split else x);
               x = Header_set x h need True
           in FreeList_insert x (FreeList_payload_node split)
         else Header_set x h (Header_size x h) True)"

definition FreeList_allocate :: "u64 \<Rightarrow> FreeListAllocator \<Rightarrow> u64 \<Rightarrow> u64 \<Rightarrow> cxx_pointer \<times> FreeListAllocator" where
  "FreeList_allocate ma x sz alignment =
     (let sz = (if sz = 0 then 1 else sz);
          sz = (if alignment > ma then sz + alignment else sz);
          need = align_up (kHeaderSize + sz) ma;
          need = (if need < kMinBlock then kMinBlock else need);
          x = x\<lparr>xfl_stats := count_alloc (xfl_stats x)\<rparr>;
          (node, x) = (case FreeList_find_fit x need of None \<Rightarrow> (NULL, x) | Some r \<Rightarrow> r)
      in if node = NULL then (Returned None, x\<lparr>xfl_stats := count_failed (xfl_stats x)\<rparr>)
         else let h = FreeList_header_of node;
                  x = FreeList_unlink x node;
                  x = FreeList_split x h need;
                  x = x\<lparr>xfl_stats := set_used (hs_used (xfl_stats x) + Header_size x h) (xfl_stats x)\<rparr>;
                  x = x\<lparr>xfl_stats := raise_peak (xfl_stats x)\<rparr>;
                  p = h + kHeaderSize
              in if alignment > ma then
                   let aligned = align_up (p + 8) alignment;
                       x = FreeList_poke x (aligned - 8) (aligned - p)
                   in (Returned (Some aligned), x)
                 else (Returned (Some p), x))"

text \<open>The two merging blocks of \<^verbatim>\<open>deallocate\<close>.\<close>

definition FreeList_merge_next :: "FreeListAllocator \<Rightarrow> addr \<Rightarrow> FreeListAllocator" where
  "FreeList_merge_next x h =
     (let nb = FreeList_next_phys x h
      in if nb \<noteq> NULL \<and> \<not> Header_used x nb then
           let x = FreeList_unlink x (FreeList_payload_node nb);
               x = (if xfl_cursor x = FreeList_payload_node nb then x\<lparr>xfl_cursor := NULL\<rparr> else x);
               x = Header_set x h (Header_size x h + Header_size x nb) False;
               nn = FreeList_next_phys x h
           in if nn \<noteq> NULL then FreeList_poke x (nn + 8) h else x
         else x)"

definition FreeList_merge_prev :: "FreeListAllocator \<Rightarrow> addr \<Rightarrow> addr \<times> FreeListAllocator" where
  "FreeList_merge_prev x h =
     (let pb = xfl_memory x (h + 8)
      in if pb \<noteq> NULL \<and> \<not> Header_used x pb then
           let x = FreeList_unlink x (FreeList_payload_node pb);
               x = (if xfl_cursor x = FreeList_payload_node pb then x\<lparr>xfl_cursor := NULL\<rparr> else x);
               x = Header_set x pb (Header_size x pb + Header_size x h) False;
               nn = FreeList_next_phys x pb
           in (pb, if nn \<noteq> NULL then FreeList_poke x (nn + 8) pb else x)
         else (h, x))"

definition FreeList_deallocate :: "u64 \<Rightarrow> FreeListAllocator \<Rightarrow> addr \<Rightarrow> FreeListAllocator outcome" where
  "FreeList_deallocate ma x ptr =
     (if ptr = NULL then Inr x
      else let x = x\<lparr>xfl_stats := count_free (xfl_stats x)\<rparr>;
               h = ptr - kHeaderSize;
               h = (if \<not> FreeList_plausible_header ma x h then
                      let raw = ptr - xfl_memory x (ptr - 8) in raw - kHeaderSize
                    else h)
           in if \<not> Header_used x h then Inl Assert_failed
              else let x = x\<lparr>xfl_stats := set_used (hs_used (xfl_stats x) - Header_size x h) (xfl_stats x)\<rparr>;
                       x = Header_set x h (Header_size x h) False;
                       x = FreeList_merge_next x h;
                       (h, x) = FreeList_merge_prev x h
                   in Inr (FreeList_insert x (FreeList_payload_node h)))"

definition FreeList_name :: "FreeListAllocator \<Rightarrow> string" where
  "FreeList_name x =
     (case xfl_policy x of
        FirstFit \<Rightarrow> ''FreeList/FirstFit''
      | BestFit \<Rightarrow> ''FreeList/BestFit''
      | NextFit \<Rightarrow> ''FreeList/NextFit'')"

definition FreeList_stats :: "FreeListAllocator \<Rightarrow> hf_stats" where
  "FreeList_stats x = xfl_stats x"

text \<open>The loop of \<^verbatim>\<open>walk\<close>; a header of size zero would stop it from advancing, hence the fuel.\<close>

fun FreeList_walk_loop :: "nat \<Rightarrow> FreeListAllocator \<Rightarrow> addr \<Rightarrow> hf_block_info list option" where
  "FreeList_walk_loop fuel x c =
     (if c < xfl_base x + xfl_capacity x then
        case fuel of
          0 \<Rightarrow> None
        | Suc fuel \<Rightarrow>
            map_option (\<lambda>bs. \<lparr>bi_offset = c - xfl_base x, bi_size = Header_size x c,
                               bi_is_free = (\<not> Header_used x c)\<rparr> # bs)
              (FreeList_walk_loop fuel x (c + Header_size x c))
      else Some [])"

declare FreeList_walk_loop.simps [simp del]

definition FreeList_walk :: "FreeListAllocator \<Rightarrow> hf_block_info list" where
  "FreeList_walk x =
     (case FreeList_walk_loop (unat (xfl_capacity x) div 32) x (xfl_base x) of None \<Rightarrow> [] | Some bs \<Rightarrow> bs)"

definition FreeList_ctor :: "os_services \<Rightarrow> u64 \<Rightarrow> FitPolicy \<Rightarrow> vm_call list \<times> (ctor_failure + FreeListAllocator)" where
  "FreeList_ctor os capacity policy =
     (let capacity = align_up (if capacity < kMinBlock * 2 then kMinBlock * 2 else capacity) (os_page_size os)
      in case VM_reserve os capacity of
           (cs, None) \<Rightarrow> (cs, Inl (Ctor_abort Assert_failed))
         | (cs, Some base) \<Rightarrow>
             let x = \<lparr>xfl_base = base, xfl_capacity = capacity, xfl_policy = policy, xfl_free_head = NULL,
                      xfl_cursor = NULL, xfl_memory = (\<lambda>_. 0),
                      xfl_stats = stats_zero\<lparr>hs_capacity := capacity\<rparr>\<rparr>;
                 x = Header_set x base capacity False;
                 x = FreeList_poke x (base + 8) NULL;
                 x = x\<lparr>xfl_free_head := FreeList_payload_node base\<rparr>;
                 x = FreeList_poke x (xfl_free_head x + 8) (xfl_free_head x);
                 x = FreeList_poke x (xfl_free_head x) (xfl_free_head x)
             in (cs, Inr (x\<lparr>xfl_cursor := xfl_free_head x\<rparr>)))"

definition FreeList_dtor :: "os_services \<Rightarrow> FreeListAllocator \<Rightarrow> vm_call list" where
  "FreeList_dtor os x = VM_release os (xfl_base x) (xfl_capacity x)"

definition FreeList_class :: "u64 \<Rightarrow> FreeListAllocator IAllocator" where
  "FreeList_class ma = \<lparr>ia_allocate = FreeList_allocate ma, ia_deallocate = FreeList_deallocate ma,
     ia_name = FreeList_name, ia_stats = FreeList_stats, ia_walk = FreeList_walk, ia_destructor = FreeList_dtor\<rparr>"


subsection \<open>The C++ class and the C allocator\<close>

fun policy_of :: "FitPolicy \<Rightarrow> hf_fit_policy" where
  "policy_of FirstFit = HF_FIT_FIRST"
| "policy_of BestFit = HF_FIT_BEST"
| "policy_of NextFit = HF_FIT_NEXT"

definition fl_of :: "FreeListAllocator \<Rightarrow> fl_alloc" where
  "fl_of x = \<lparr>fl_mem = xfl_base x, fl_capacity = xfl_capacity x, fl_policy = policy_of (xfl_policy x),
     fl_free_head = xfl_free_head x, fl_cursor = xfl_cursor x, fl_cells = xfl_memory x, fl_stats = xfl_stats x\<rparr>"

lemma fl_of_simps [simp]:
  "fl_mem (fl_of x) = xfl_base x" "fl_capacity (fl_of x) = xfl_capacity x"
  "fl_policy (fl_of x) = policy_of (xfl_policy x)" "fl_free_head (fl_of x) = xfl_free_head x"
  "fl_cursor (fl_of x) = xfl_cursor x" "fl_cells (fl_of x) = xfl_memory x" "fl_stats (fl_of x) = xfl_stats x"
  by (simp_all add: fl_of_def)

lemma fl_of_upd [simp]:
  "fl_of (x\<lparr>xfl_stats := st\<rparr>) = (fl_of x)\<lparr>fl_stats := st\<rparr>"
  "fl_of (x\<lparr>xfl_memory := c\<rparr>) = (fl_of x)\<lparr>fl_cells := c\<rparr>"
  "fl_of (x\<lparr>xfl_free_head := p\<rparr>) = (fl_of x)\<lparr>fl_free_head := p\<rparr>"
  "fl_of (x\<lparr>xfl_cursor := p\<rparr>) = (fl_of x)\<lparr>fl_cursor := p\<rparr>"
  by (simp_all add: fl_of_def)

lemma FreeList_consts_c [editions]: "kHeaderSize = FL_HDR" "kMinBlock = FL_MIN"
  by (simp_all add: kHeaderSize_def FL_HDR_def kMinBlock_def FL_MIN_def)

lemma FreeList_nodes_c [editions]: "FreeList_payload_node = payload_node" "FreeList_header_of = header_of"
  by (intro ext, simp add: FreeList_payload_node_def payload_node_def FreeList_header_of_def header_of_def editions)+

lemma FreeList_reads_c [simp]:
  "Header_size x h = hdr_size (fl_of x) h"
  "Header_used x h = hdr_used (fl_of x) h"
  "FreeList_next_phys x h = next_phys (fl_of x) h"
  "FreeList_plausible_header HF_DEFAULT_ALIGN x h = plausible_header (fl_of x) h"
  by (simp_all add: Header_size_def hdr_size_def Header_used_def hdr_used_def FreeList_next_phys_def
      next_phys_def FreeList_plausible_header_def plausible_header_def editions Let_def)

lemma FreeList_poke_c: "fl_of (FreeList_poke x p v) = fl_store p v (fl_of x)"
  by (simp add: FreeList_poke_def fl_store_def)

lemma Header_set_c: "fl_of (Header_set x h sz u) = hdr_set h sz u (fl_of x)"
  by (simp add: Header_set_def hdr_set_def FreeList_poke_c)

lemma FreeList_insert_c: "fl_of (FreeList_insert x n) = fl_insert (fl_of x) n"
  by (simp add: FreeList_insert_def fl_insert_def FreeList_poke_def fl_store_def Let_def)

lemma FreeList_unlink_c: "fl_of (FreeList_unlink x n) = fl_unlink (fl_of x) n"
  by (simp add: FreeList_unlink_def fl_unlink_def FreeList_poke_def fl_store_def Let_def)

lemmas FreeList_ops_c = FreeList_poke_c Header_set_c FreeList_insert_c FreeList_unlink_c

lemma FreeList_split_c: "fl_of (FreeList_split x h need) = fl_carve (fl_of x) h need"
  by (simp add: FreeList_split_def fl_carve_def set_prev_phys_def FreeList_ops_c editions Let_def if_distrib [of fl_of])

lemma FreeList_merge_next_c: "fl_of (FreeList_merge_next x h) = fl_merge_next (fl_of x) h"
proof -
  have cur: "xfl_cursor y = fl_cursor (fl_of y)" for y by simp
  show ?thesis
    unfolding FreeList_merge_next_def fl_merge_next_def Let_def
    by (simp add: set_prev_phys_def FreeList_ops_c editions cur if_distrib [of fl_of] del: fl_of_simps)
qed

lemma FreeList_merge_prev_c: "map_prod id fl_of (FreeList_merge_prev x h) = fl_merge_prev (fl_of x) h"
proof -
  have cur: "xfl_cursor y = fl_cursor (fl_of y)" "xfl_memory y = fl_cells (fl_of y)" for y by simp_all
  show ?thesis
    unfolding FreeList_merge_prev_def fl_merge_prev_def Let_def
    by (simp add: set_prev_phys_def FreeList_ops_c editions cur if_distrib [of fl_of] del: fl_of_simps)
qed

lemma FreeList_scan_c: "FreeList_scan fuel x need start n = fit_loop fuel (fl_of x) need start n"
  by (induction fuel arbitrary: n) (simp_all add: editions Let_def)

lemma FreeList_best_c:
  "FreeList_best fuel x need start n b bs = best_loop fuel (fl_of x) need start n b bs"
  by (induction fuel arbitrary: n b bs) (simp_all add: editions Let_def)

lemma FreeList_find_fit_c:
  "map_option (map_prod id fl_of) (FreeList_find_fit x need) = find_fit (fl_of x) need"
  by (cases "xfl_policy x")
    (simp_all add: FreeList_find_fit_def find_fit_def fl_fuel_def FreeList_scan_c FreeList_best_c Let_def
      option.map_comp o_def if_distrib [of fl_of] cong: if_cong)

lemma FreeList_walk_loop_c [simp]: "FreeList_walk_loop fuel x c = fl_walk_loop fuel (fl_of x) c"
  by (induction fuel arbitrary: c)
    (subst FreeList_walk_loop.simps, subst fl_walk_loop.simps, simp)+

lemma FreeList_allocate_c:
  "rel_prod (\<lambda>p q. p = Returned q) (\<lambda>x a. a = fl_of x)
     (FreeList_allocate HF_DEFAULT_ALIGN x n al) (fl_allocate (fl_of x) n al)"
proof -
  define y where "y = x\<lparr>xfl_stats := count_alloc (xfl_stats x)\<rparr>"
  have y: "(fl_of x)\<lparr>fl_stats := count_alloc (fl_stats (fl_of x))\<rparr> = fl_of y" by (simp add: y_def)
  have fit: "(case find_fit (fl_of y) need of None \<Rightarrow> (NULL, fl_of y) | Some r \<Rightarrow> r) =
      map_prod id fl_of (case FreeList_find_fit y need of None \<Rightarrow> (NULL, y) | Some r \<Rightarrow> r)" for need
    by (cases "FreeList_find_fit y need") (simp_all flip: FreeList_find_fit_c)
  show ?thesis
    unfolding FreeList_allocate_def fl_allocate_def y_def [symmetric] Let_def y fit
    by (simp add: split_beta editions FreeList_poke_c flip: FreeList_unlink_c FreeList_split_c)
qed

lemma FreeList_deallocate_c:
  "rel_sum (=) (\<lambda>x a. a = fl_of x) (FreeList_deallocate HF_DEFAULT_ALIGN x p) (fl_deallocate (fl_of x) p)"
proof -
  have prev: "fl_merge_prev (fl_of z) h = (fst (FreeList_merge_prev z h), fl_of (snd (FreeList_merge_prev z h)))" for z h
    using FreeList_merge_prev_c [of z h] by (cases "FreeList_merge_prev z h") simp
  show ?thesis
    unfolding FreeList_deallocate_def fl_deallocate_def Let_def
    by (simp add: prev split_beta editions flip: Header_set_c FreeList_merge_next_c FreeList_insert_c fl_of_upd)
qed

interpretation flx: edition "FreeList_class HF_DEFAULT_ALIGN" FL_VT FreeList_poke "\<lambda>a p v. fl_store p v a"
    "\<lambda>x a. a = fl_of x"
  by unfold_locales
    (simp_all add: FreeList_class_def FL_VT_def FreeList_allocate_c FreeList_deallocate_c FreeList_name_def
      fl_name_def FreeList_stats_def fl_get_stats_def FreeList_walk_def fl_walk_def fl_fuel_def
      FreeList_dtor_def fl_destroy_def VM_release_c FreeList_poke_c split: FitPolicy.split)

text \<open>
  C20: where \<^verbatim>\<open>alignof(std::max_align_t)\<close> is 16, a \<^verbatim>\<open>FreeListAllocator\<close> of any policy lives as the allocator of
  \<^verbatim>\<open>hf_free_list.c\<close> does: both are created or neither is, every sequence of calls and client writes, also one
  that damages headers, gets the same answers, and the mapping calls are the same.
\<close>

theorem FreeListAllocator_same_as_c:
  assumes "os_calloc os 0"
  shows "cxx_life (FreeList_class HF_DEFAULT_ALIGN) FreeList_poke os (FreeList_ctor os capacity policy) calls =
    c_life FL_VT (\<lambda>a p v. fl_store p v a) os (hf_free_list_create os capacity (policy_of policy)) calls"
proof (rule flx.life_same)
  show "rel_prod (=) (\<lambda>b b'. case b of Inl e \<Rightarrow> b' = None | Inr x \<Rightarrow> \<exists>s. b' = Some s \<and> s = fl_of x)
      (FreeList_ctor os capacity policy) (hf_free_list_create os capacity (policy_of policy))"
    using assms by (simp add: FreeList_ctor_def hf_free_list_create_def editions Let_def FreeList_poke_def fl_store_def
        Header_set_def hdr_set_def set_prev_phys_def fl_of_def split: prod.split option.split)
qed

theorem FreeListAllocator_same_as_c_witness:
  "cxx_life (FreeList_class HF_DEFAULT_ALIGN) FreeList_poke os_example (FreeList_ctor os_example 4096 BestFit)
     [Call_allocate 100 16, Call_allocate 5 64, Call_walk, Call_deallocate 0x100010, Call_deallocate 0x100010] =
   c_life FL_VT (\<lambda>a p v. fl_store p v a) os_example (hf_free_list_create os_example 4096 (policy_of BestFit))
     [Call_allocate 100 16, Call_allocate 5 64, Call_walk, Call_deallocate 0x100010, Call_deallocate 0x100010]"
  by (rule FreeListAllocator_same_as_c) (simp add: os_example_def)

end
