(* ===== verification/HFX_Guard_Heap.thy ===== *)
theory HFX_Guard_Heap
  imports HFX_Interface HF_Guard_Heap
begin

text \<open>
  The class \<^verbatim>\<open>GuardHeap\<close> of \<^verbatim>\<open>guard_heap.h\<close>.  Unlike the C heap it keeps one registry of mappings for all objects,
  fills the bytes between a block and its mapping with a canary that a release checks, poisons released
  blocks, and quarantines only a bounded number of them.  The state is the process (page protections, bytes,
  the static registry, the signal dispositions) and the object.  The mutex of the object is explicit,
  because one member function locks it twice.
\<close>


subsection \<open>Pages\<close>

datatype Protection = Prot_None | Prot_ReadOnly | Prot_ReadWrite

fun prot_flags :: "Protection \<Rightarrow> hf_protection" where
  "prot_flags Prot_None = HF_PROT_NONE"
| "prot_flags Prot_ReadOnly = HF_PROT_RO"
| "prot_flags Prot_ReadWrite = HF_PROT_RW"

definition VM_map :: "vm_kernel \<Rightarrow> vm_pages \<Rightarrow> u64 \<Rightarrow> addr option \<times> vm_pages" where
  "VM_map k V sz =
     (let sz = align_up sz (vk_page_size k)
      in case vk_mmap k V sz of None \<Rightarrow> (None, V) | Some p \<Rightarrow> (Some p, page_set p sz (Some HF_PROT_RW) V))"

definition VM_unmap :: "vm_kernel \<Rightarrow> vm_pages \<Rightarrow> addr \<Rightarrow> u64 \<Rightarrow> vm_pages" where
  "VM_unmap k V ptr sz =
     (if ptr = NULL then V else let sz = align_up sz (vk_page_size k) in page_set ptr sz None V)"

definition VM_protect :: "vm_kernel \<Rightarrow> vm_pages \<Rightarrow> addr \<Rightarrow> u64 \<Rightarrow> Protection \<Rightarrow> bool \<times> vm_pages" where
  "VM_protect k V ptr sz prot =
     (let sz = align_up sz (vk_page_size k); flags = prot_flags prot
      in if vk_mprotect k V ptr sz flags then (True, page_set ptr sz (Some flags) V) else (False, V))"

text \<open>The contents of memory.  A write or a read of a byte that is not accessible faults at its address.\<close>

type_synonym bytes = "addr \<Rightarrow> u8"

fun memset_bytes :: "vm_pages \<Rightarrow> nat \<Rightarrow> addr \<Rightarrow> u8 \<Rightarrow> bytes \<Rightarrow> addr + bytes" where
  "memset_bytes V 0 p v b = Inr b"
| "memset_bytes V (Suc n) p v b =
     (if V p = Some HF_PROT_RW then memset_bytes V n (p + 1) v (b(p := v)) else Inl p)"


subsection \<open>The process and the object\<close>

datatype ViolationPolicy = Abort | Continue

text \<open>The state of a region: 0 free, 1 live, 2 quarantined.\<close>

record Region =
  rg_state :: nat
  rg_base :: addr
  rg_total :: u64
  rg_user :: addr
  rg_user_size :: u64
  rg_policy :: ViolationPolicy
  rg_underflow_mode :: bool

definition Region_zero :: Region where
  "Region_zero = \<lparr>rg_state = 0, rg_base = 0, rg_total = 0, rg_user = 0, rg_user_size = 0, rg_policy = Abort,
     rg_underflow_mode = False\<rparr>"

definition kMaxRegions :: nat where
  "kMaxRegions = 4096"

definition kSlackFill :: u8 where
  "kSlackFill = 0xFD"

definition kPoison :: u8 where
  "kPoison = 0xCD"

record GuardHeap =
  gx_policy :: ViolationPolicy
  gx_underflow :: bool
  gx_quarantine_cap :: u64
  gx_quarantine :: "nat list"
  gx_stats :: hf_stats
  gx_locked :: bool

datatype violation_kind = Use_after_free | Underflow | Overflow | Quarantine_access

text \<open>What goes to stderr in the handler, and what goes to the log.\<close>

datatype gx_message = Violation violation_kind string string | Let_through

datatype gx_log = Log_illegal_free addr | Log_free_ignored addr | Log_slack_hit addr | Log_slack_reclaimed addr

datatype gx_action = Act_default | Act_ignore | Act_on_fault | Act_foreign nat

record gx_world =
  gx_vm :: vm_pages
  gx_bytes :: bytes
  gx_regions :: "Region list"
  gx_owner :: "addr list"
  gx_violations :: u64
  gx_once :: bool
  gx_prev :: "hf_signal \<Rightarrow> gx_action"
  gx_act :: "hf_signal \<Rightarrow> gx_action"
  gx_err :: "gx_message list"
  gx_logged :: "gx_log list"

text \<open>
  How a member function ends: it returns, it locks a mutex it already holds (undefined for \<^verbatim>\<open>std::mutex\<close>, a
  deadlock in the usual implementations), or it faults.
\<close>

datatype 'a gx_end = Ret 'a | Deadlock | Faults addr

definition lock_mu :: "GuardHeap \<Rightarrow> GuardHeap option" where
  "lock_mu h = (if gx_locked h then None else Some (h\<lparr>gx_locked := True\<rparr>))"

definition unlock_mu :: "GuardHeap \<Rightarrow> GuardHeap" where
  "unlock_mu h = h\<lparr>gx_locked := False\<rparr>"

definition bump_fail :: "GuardHeap \<Rightarrow> GuardHeap option" where
  "bump_fail h =
     (case lock_mu h of
        None \<Rightarrow> None
      | Some h \<Rightarrow> Some (unlock_mu (h\<lparr>gx_stats := count_failed (count_alloc (gx_stats h))\<rparr>)))"


subsection \<open>The member functions\<close>

definition GuardHeap_install_handler :: "gx_world \<Rightarrow> gx_world" where
  "GuardHeap_install_handler w =
     (if gx_once w then w
      else w\<lparr>gx_once := True, gx_prev := (gx_prev w)(SIGSEGV := gx_act w SIGSEGV, SIGBUS := gx_act w SIGBUS),
             gx_act := (gx_act w)(SIGSEGV := Act_on_fault, SIGBUS := Act_on_fault)\<rparr>)"

definition GuardHeap_ctor :: "gx_world \<Rightarrow> ViolationPolicy \<Rightarrow> bool \<Rightarrow> u64 \<Rightarrow> gx_world \<times> GuardHeap" where
  "GuardHeap_ctor w policy underflow_mode quarantine =
     (GuardHeap_install_handler w,
      \<lparr>gx_policy = policy, gx_underflow = underflow_mode, gx_quarantine_cap = quarantine, gx_quarantine = [],
       gx_stats = stats_zero, gx_locked = False\<rparr>)"

text \<open>Giving the mapping of slot \<open>i\<close> back, as the destructor and the eviction do.\<close>

definition drop_region :: "vm_kernel \<Rightarrow> gx_world \<Rightarrow> nat \<Rightarrow> gx_world" where
  "drop_region k w i =
     (let r = gx_regions w ! i;
          w = w\<lparr>gx_regions := (gx_regions w)[i := r\<lparr>rg_state := 0\<rparr>]\<rparr>;
          w = w\<lparr>gx_vm := VM_unmap k (gx_vm w) (rg_base r) (rg_total r)\<rparr>
      in w\<lparr>gx_owner := (gx_owner w)[i := NULL]\<rparr>)"

definition GuardHeap_dtor :: "vm_kernel \<Rightarrow> addr \<Rightarrow> gx_world \<Rightarrow> gx_world" where
  "GuardHeap_dtor k this w =
     fold (\<lambda>i w. if rg_state (gx_regions w ! i) \<noteq> 0 \<and> gx_owner w ! i = this then drop_region k w i else w)
       [0..<kMaxRegions] w"

fun find_free_loop :: "gx_world \<Rightarrow> nat list \<Rightarrow> nat option" where
  "find_free_loop w [] = None"
| "find_free_loop w (i # js) =
     (if rg_state (gx_regions w ! i) = 0 \<and> gx_owner w ! i = NULL then Some i else find_free_loop w js)"

definition find_free_slot :: "gx_world \<Rightarrow> nat option" where
  "find_free_slot w = find_free_loop w [0..<kMaxRegions]"

text \<open>Entering a mapping into slot \<open>i\<close> of the registry.\<close>

definition publish_region :: "addr \<Rightarrow> GuardHeap \<Rightarrow> gx_world \<Rightarrow> nat \<Rightarrow> addr \<Rightarrow> u64 \<Rightarrow> addr \<Rightarrow> u64 \<Rightarrow> gx_world" where
  "publish_region this h w i base span user sz =
     w\<lparr>gx_regions := (gx_regions w)[i := \<lparr>rg_state = 1, rg_base = base, rg_total = span, rg_user = user,
          rg_user_size = sz, rg_policy = gx_policy h, rg_underflow_mode = gx_underflow h\<rparr>],
       gx_owner := (gx_owner w)[i := this]\<rparr>"

text \<open>The part of \<^verbatim>\<open>allocate\<close> under the lock, with the new mapping in place.\<close>

definition GuardHeap_enter ::
    "vm_kernel \<Rightarrow> addr \<Rightarrow> gx_world \<Rightarrow> GuardHeap \<Rightarrow> addr \<Rightarrow> u64 \<Rightarrow> u64 \<Rightarrow> addr \<Rightarrow> u64 \<Rightarrow>
     (addr option \<times> gx_world \<times> GuardHeap) gx_end" where
  "GuardHeap_enter k this w h base span data_bytes user sz =
     (case lock_mu h of
        None \<Rightarrow> Deadlock
      | Some h \<Rightarrow>
          (case find_free_slot w of
             None \<Rightarrow>
               let w = w\<lparr>gx_vm := VM_unmap k (gx_vm w) base span\<rparr>
               in (case bump_fail h of None \<Rightarrow> Deadlock | Some h \<Rightarrow> Ret (None, w, unlock_mu h))
           | Some slot \<Rightarrow>
               let w = publish_region this h w slot base span user sz;
                   h = h\<lparr>gx_stats := count_alloc (gx_stats h)\<rparr>;
                   h = h\<lparr>gx_stats := (gx_stats h)\<lparr>hs_capacity := hs_capacity (gx_stats h) + data_bytes\<rparr>\<rparr>;
                   h = h\<lparr>gx_stats := raise_peak (set_used (hs_used (gx_stats h) + sz) (gx_stats h))\<rparr>
               in Ret (Some user, w, unlock_mu h)))"

text \<open>Filling the bytes around the block, before the lock is taken.\<close>

definition fill_slack :: "vm_pages \<Rightarrow> addr \<Rightarrow> u64 \<Rightarrow> addr \<Rightarrow> u64 \<Rightarrow> bytes \<Rightarrow> addr + bytes" where
  "fill_slack V data data_bytes user sz b =
     (case (if user > data then memset_bytes V (unat (user - data)) data kSlackFill b else Inr b) of
        Inl x \<Rightarrow> Inl x
      | Inr b \<Rightarrow>
          if user + sz < data + data_bytes
          then memset_bytes V (unat (data + data_bytes - (user + sz))) (user + sz) kSlackFill b else Inr b)"

definition GuardHeap_allocate ::
    "vm_kernel \<Rightarrow> addr \<Rightarrow> gx_world \<times> GuardHeap \<Rightarrow> u64 \<Rightarrow> u64 \<Rightarrow> (addr option \<times> gx_world \<times> GuardHeap) gx_end" where
  "GuardHeap_allocate k this s sz alignment =
     (let (w, h) = s;
          ps = vk_page_size k;
          sz = (if sz = 0 then 1 else sz);
          alignment = (if alignment < 16 then 16 else alignment)
      in if alignment > ps \<or> \<not> is_pow2 alignment then Ret (None, w, h)
         else let aligned = align_up sz alignment;
                  data_bytes = align_up aligned ps;
                  span = ps + data_bytes + ps
              in case VM_map k (gx_vm w) span of
                   (None, V) \<Rightarrow> (case bump_fail h of None \<Rightarrow> Deadlock | Some h \<Rightarrow> Ret (None, w, h))
                 | (Some base, V) \<Rightarrow>
                     let V = snd (VM_protect k V base ps Prot_None);
                         V = snd (VM_protect k V (base + ps + data_bytes) ps Prot_None);
                         data = base + ps;
                         user = (if gx_underflow h then data else data + data_bytes - aligned)
                     in case fill_slack V data data_bytes user sz (gx_bytes w) of
                          Inl x \<Rightarrow> Faults x
                        | Inr b \<Rightarrow> GuardHeap_enter k this (w\<lparr>gx_vm := V, gx_bytes := b\<rparr>) h base span data_bytes user sz)"

fun find_live_loop :: "addr \<Rightarrow> gx_world \<Rightarrow> addr \<Rightarrow> nat list \<Rightarrow> nat option" where
  "find_live_loop this w ptr [] = None"
| "find_live_loop this w ptr (i # js) =
     (if gx_owner w ! i = this \<and> rg_user (gx_regions w ! i) = ptr \<and> rg_state (gx_regions w ! i) = 1 then Some i
      else find_live_loop this w ptr js)"

text \<open>The loop over the canary bytes from \<open>c\<close> on; it stops at the first damaged one.\<close>

fun slack_intact :: "vm_pages \<Rightarrow> bytes \<Rightarrow> nat \<Rightarrow> addr \<Rightarrow> addr + bool" where
  "slack_intact V b 0 c = Inr True"
| "slack_intact V b (Suc n) c =
     (if V c \<noteq> Some HF_PROT_RW then Inl c
      else if b c \<noteq> kSlackFill then Inr False
      else slack_intact V b n (c + 1))"

definition slack_ok :: "vm_pages \<Rightarrow> bytes \<Rightarrow> addr \<Rightarrow> addr \<Rightarrow> Region \<Rightarrow> addr + bool" where
  "slack_ok V b data data_end r =
     (case slack_intact V b (if data < rg_user r then unat (rg_user r - data) else 0) data of
        Inl x \<Rightarrow> Inl x
      | Inr False \<Rightarrow> Inr False
      | Inr True \<Rightarrow>
          (let c = rg_user r + rg_user_size r
           in slack_intact V b (if c < data_end then unat (data_end - c) else 0) c))"

text \<open>The loop \<^verbatim>\<open>while (quarantine_.size() > quarantine_cap_)\<close>.\<close>

fun evict :: "vm_kernel \<Rightarrow> u64 \<Rightarrow> gx_world \<Rightarrow> nat list \<Rightarrow> gx_world \<times> nat list" where
  "evict k cap w [] = (w, [])"
| "evict k cap w (old # q) =
     (if Suc (length q) > unat cap then evict k cap (drop_region k w old) q else (w, old # q))"

definition GuardHeap_release ::
    "vm_kernel \<Rightarrow> gx_world \<Rightarrow> GuardHeap \<Rightarrow> nat \<Rightarrow> addr \<Rightarrow> (gx_world \<times> GuardHeap) gx_end" where
  "GuardHeap_release k w h slot ptr =
     (let r = gx_regions w ! slot;
          ps = vk_page_size k;
          data = rg_base r + ps;
          data_end = rg_base r + rg_total r - ps
      in case slack_ok (gx_vm w) (gx_bytes w) data data_end r of
           Inl x \<Rightarrow> Faults x
         | Inr ok \<Rightarrow>
             let w = (if \<not> ok then w\<lparr>gx_logged := gx_logged w @ [Log_slack_hit ptr, Log_slack_reclaimed ptr]\<rparr> else w);
                 h = h\<lparr>gx_stats := set_used (hs_used (gx_stats h) - rg_user_size r) (gx_stats h)\<rparr>
             in case memset_bytes (gx_vm w) (unat (data_end - data)) data kPoison (gx_bytes w) of
                  Inl x \<Rightarrow> Faults x
                | Inr b \<Rightarrow>
                    let w = w\<lparr>gx_bytes := b, gx_vm := snd (VM_protect k (gx_vm w) data (data_end - data) Prot_None)\<rparr>;
                        w = w\<lparr>gx_regions := (gx_regions w)[slot := r\<lparr>rg_state := 2\<rparr>]\<rparr>;
                        (w, q) = evict k (gx_quarantine_cap h) w (gx_quarantine h @ [slot])
                    in Ret (w, unlock_mu (h\<lparr>gx_quarantine := q\<rparr>)))"

definition GuardHeap_deallocate ::
    "vm_kernel \<Rightarrow> addr \<Rightarrow> gx_world \<times> GuardHeap \<Rightarrow> addr \<Rightarrow> (gx_world \<times> GuardHeap) gx_end" where
  "GuardHeap_deallocate k this s ptr =
     (let (w, h) = s
      in if ptr = NULL then Ret (w, h)
         else case lock_mu h of
           None \<Rightarrow> Deadlock
         | Some h \<Rightarrow>
             let h = h\<lparr>gx_stats := count_free (gx_stats h)\<rparr>
             in case find_live_loop this w ptr [0..<kMaxRegions] of
                  None \<Rightarrow> Ret (w\<lparr>gx_logged := gx_logged w @ [Log_illegal_free ptr, Log_free_ignored ptr]\<rparr>, unlock_mu h)
                | Some slot \<Rightarrow> GuardHeap_release k w h slot ptr)"

definition GuardHeap_name :: "GuardHeap \<Rightarrow> string" where
  "GuardHeap_name h = ''GuardHeap''"

definition GuardHeap_stats :: "GuardHeap \<Rightarrow> hf_stats" where
  "GuardHeap_stats h = gx_stats h"

text \<open>The offsets of the entries are sums of the sizes so far, not addresses.\<close>

fun GuardHeap_walk_loop :: "addr \<Rightarrow> gx_world \<Rightarrow> u64 \<Rightarrow> nat list \<Rightarrow> hf_block_info list" where
  "GuardHeap_walk_loop this w off [] = []"
| "GuardHeap_walk_loop this w off (i # js) =
     (let r = gx_regions w ! i
      in if gx_owner w ! i = this \<and> rg_state r = 1 then
           \<lparr>bi_offset = off, bi_size = rg_user_size r, bi_is_free = False\<rparr> #
             GuardHeap_walk_loop this w (off + rg_user_size r) js
         else GuardHeap_walk_loop this w off js)"

definition GuardHeap_walk :: "addr \<Rightarrow> gx_world \<Rightarrow> hf_block_info list" where
  "GuardHeap_walk this w = GuardHeap_walk_loop this w 0 [0..<kMaxRegions]"

definition total_violations :: "gx_world \<Rightarrow> u64" where
  "total_violations w = gx_violations w"


subsection \<open>The fault handlers\<close>

text \<open>\<^verbatim>\<open>ss_hex\<close> writes 16 digits, the highest first.\<close>

definition ss_hex :: "addr \<Rightarrow> string" where
  "ss_hex v = ''0x'' @ map (\<lambda>i. ''0123456789abcdef'' ! unat (drop_bit ((15 - i) * 4) v AND 0xF)) [0..<16]"

definition classify :: "vm_kernel \<Rightarrow> Region \<Rightarrow> addr \<Rightarrow> violation_kind" where
  "classify k r x =
     (let ps = vk_page_size k;
          data = rg_base r + ps;
          data_end = rg_base r + rg_total r - ps
      in if rg_state r = 2 then Use_after_free
         else if x < data then Underflow
         else if x \<ge> data_end then Overflow
         else Quarantine_access)"

fun locate_region :: "Region list \<Rightarrow> addr \<Rightarrow> Region option" where
  "locate_region [] x = None"
| "locate_region (r # rs) x =
     (if rg_state r = 0 then locate_region rs x
      else if x < rg_base r \<or> x \<ge> rg_base r + rg_total r then locate_region rs x
      else Some r)"

definition on_fault :: "vm_kernel \<Rightarrow> gx_world \<Rightarrow> hf_signal \<Rightarrow> addr \<Rightarrow> gx_world" where
  "on_fault k w sig x =
     (case locate_region (gx_regions w) x of
        None \<Rightarrow> w\<lparr>gx_act := (gx_act w)(sig := gx_prev w sig)\<rparr>
      | Some r \<Rightarrow>
          let w = w\<lparr>gx_err := gx_err w @ [Violation (classify k r x) (ss_hex x) (ss_hex (rg_user r))]\<rparr>;
              w = w\<lparr>gx_violations := gx_violations w + 1\<rparr>
          in if rg_policy r = Continue then
               let ps = vk_page_size k;
                   page = x AND NOT (ps - 1);
                   V = (if vk_mprotect k (gx_vm w) page ps HF_PROT_RW
                        then page_set page ps (Some HF_PROT_RW) (gx_vm w) else gx_vm w)
               in w\<lparr>gx_vm := V, gx_err := gx_err w @ [Let_through]\<rparr>
             else w\<lparr>gx_act := (gx_act w)(sig := Act_default)\<rparr>)"

text \<open>The Windows handler; \<open>av\<close> says whether the exception is an access violation.\<close>

datatype veh_result = Continue_execution | Continue_search

definition on_veh :: "vm_kernel \<Rightarrow> gx_world \<Rightarrow> bool \<Rightarrow> addr \<Rightarrow> gx_world \<times> veh_result" where
  "on_veh k w av x =
     (if \<not> av then (w, Continue_search)
      else case locate_region (gx_regions w) x of
        None \<Rightarrow> (w, Continue_search)
      | Some r \<Rightarrow>
          let w = w\<lparr>gx_violations := gx_violations w + 1\<rparr>
          in if rg_policy r = Continue then
               let ps = vk_page_size k;
                   page = x AND NOT (ps - 1);
                   V = (if vk_mprotect k (gx_vm w) page ps HF_PROT_RW
                        then page_set page ps (Some HF_PROT_RW) (gx_vm w) else gx_vm w)
               in (w\<lparr>gx_vm := V\<rparr>, Continue_execution)
             else (w, Continue_search))"

text \<open>
  An access of the program to a byte.  After the handler returns the instruction is tried again; \<open>fuel\<close>
  bounds the attempts.
\<close>

datatype gx_access_end = Access_completes | Process_dies | Foreign_handler nat

fun gx_access :: "nat \<Rightarrow> vm_kernel \<Rightarrow> gx_world \<Rightarrow> hf_signal \<Rightarrow> addr \<Rightarrow> (gx_world \<times> gx_access_end) option" where
  "gx_access 0 k w sig x = None"
| "gx_access (Suc fuel) k w sig x =
     (if gx_vm w x = Some HF_PROT_RW then Some (w, Access_completes)
      else case gx_act w sig of
        Act_on_fault \<Rightarrow> gx_access fuel k (on_fault k w sig x) sig x
      | Act_foreign f \<Rightarrow> Some (w, Foreign_handler f)
      | _ \<Rightarrow> Some (w, Process_dies))"

end
