(* ===== verification/HFX_Guard_Correct.thy ===== *)
theory HFX_Guard_Correct
  imports HFX_Guard_Heap HF_Guard_Correct
begin

text \<open>
  Correctness of the C++ guard heap.  The registry of the process, read as the slot table of the C heap, keeps
  the invariant of that heap for all objects together; each object owns a part of the slots.  The
  reachable states of a process that creates, uses and destroys guard heaps are the step relation \<open>gx_step\<close>.
\<close>


subsection \<open>The registry as a slot table\<close>

definition gr_of :: "Region \<Rightarrow> gh_region" where
  "gr_of r = \<lparr>gr_base = rg_base r, gr_total = rg_total r, gr_user = rg_user r, gr_user_size = rg_user_size r,
     gr_state = rg_state r\<rparr>"

lemma gr_of_simps [simp]:
  "gr_base (gr_of r) = rg_base r" "gr_total (gr_of r) = rg_total r" "gr_user (gr_of r) = rg_user r"
  "gr_user_size (gr_of r) = rg_user_size r" "gr_state (gr_of r) = rg_state r"
  by (simp_all add: gr_of_def)

definition gh_of :: "gx_world \<Rightarrow> gh_heap" where
  "gh_of w = \<lparr>gh_policy = HF_GUARD_ABORT, gh_table = map gr_of (gx_regions w), gh_violations = 0,
     gh_used_bytes = sum_list (map gr_user_size (filter (\<lambda>r. gr_state r = 1) (map gr_of (gx_regions w)))),
     gh_peak_bytes = 0, gh_capacity_hint = 0\<rparr>"

lemma gh_of_table [simp]: "gh_table (gh_of w) = map gr_of (gx_regions w)"
  by (simp add: gh_of_def)

lemma gh_of_used: "gh_used_bytes (gh_of w) = sum_list (map gr_user_size (filter (\<lambda>r. gr_state r = 1) (gh_table (gh_of w))))"
  by (simp add: gh_of_def)

lemma gh_of_cong: "gx_regions w' = gx_regions w \<Longrightarrow> gh_of w' = gh_of w"
  by (simp add: gh_of_def)

definition gx_inv :: "vm_kernel \<Rightarrow> vm_pages \<Rightarrow> gx_world \<Rightarrow> bool" where
  "gx_inv k U w \<longleftrightarrow> gh_inv k U (gx_vm w, gh_of w) \<and> length (gx_owner w) = kMaxRegions \<and>
     (\<forall>i < kMaxRegions. rg_state (gx_regions w ! i) = 0 \<longleftrightarrow> gx_owner w ! i = NULL)"

text \<open>What holds of the object at \<open>this\<close>: its quarantine lists its released slots, its counter adds up its live blocks.\<close>

definition live_bytes :: "addr \<Rightarrow> gx_world \<Rightarrow> u64" where
  "live_bytes this w =
     (\<Sum>i \<in> {i. i < kMaxRegions \<and> gx_owner w ! i = this \<and> rg_state (gx_regions w ! i) = 1}. rg_user_size (gx_regions w ! i))"

definition gx_obj :: "addr \<Rightarrow> gx_world \<Rightarrow> GuardHeap \<Rightarrow> bool" where
  "gx_obj this w h \<longleftrightarrow> this \<noteq> NULL \<and> \<not> gx_locked h \<and> distinct (gx_quarantine h) \<and>
     set (gx_quarantine h) = {i. i < kMaxRegions \<and> gx_owner w ! i = this \<and> rg_state (gx_regions w ! i) = 2} \<and>
     length (gx_quarantine h) \<le> unat (gx_quarantine_cap h) \<and> hs_used (gx_stats h) = live_bytes this w"

lemma kMax: "kMaxRegions = GH_MAX_REGIONS"
  by (simp add: kMaxRegions_def GH_MAX_REGIONS_def)

abbreviation rgn :: "gx_world \<Rightarrow> nat \<Rightarrow> gh_region" where
  "rgn w i \<equiv> gr_of (gx_regions w ! i)"

lemma gx_invD:
  assumes "gx_inv k U w"
  shows "kernel_wf k" and "length (gx_regions w) = kMaxRegions" and "length (gx_owner w) = kMaxRegions"
    and "gh_inv k U (gx_vm w, gh_of w)" and "gh_shape k (gh_of w)"
    and "i < kMaxRegions \<Longrightarrow> rg_state (gx_regions w ! i) = 0 \<longleftrightarrow> gx_owner w ! i = NULL"
    and "i < kMaxRegions \<Longrightarrow> region_ok k (rgn w i)"
    and "i < kMaxRegions \<Longrightarrow> rg_state (gx_regions w ! i) \<noteq> 0 \<Longrightarrow> in_region (rgn w i) x \<Longrightarrow>
      gx_vm w x = Some (region_prot k (rgn w i) x) \<and> U x = None"
proof -
  show inv: "gh_inv k U (gx_vm w, gh_of w)" and own: "length (gx_owner w) = kMaxRegions" using assms by (simp_all add: gx_inv_def)
  show "i < kMaxRegions \<Longrightarrow> rg_state (gx_regions w ! i) = 0 \<longleftrightarrow> gx_owner w ! i = NULL" using assms by (simp add: gx_inv_def)
  show "kernel_wf k" and sh: "gh_shape k (gh_of w)" using gh_invD [OF inv] by blast+
  show len: "length (gx_regions w) = kMaxRegions" using gh_shapeD(1) [OF sh] by (simp add: kMax)
  show "region_ok k (rgn w i)" if "i < kMaxRegions" using gh_shapeD(2) [OF sh, of i] that by (simp add: len)
  show "gx_vm w x = Some (region_prot k (rgn w i) x) \<and> U x = None"
    if "i < kMaxRegions" "rg_state (gx_regions w ! i) \<noteq> 0" "in_region (rgn w i) x"
    using gh_invD(3) [OF inv, of i x] that by (simp add: len)
qed

lemma gx_inv_frame:
  assumes "gx_inv k U w" and "gx_vm w' = gx_vm w" and "gx_regions w' = gx_regions w" and "gx_owner w' = gx_owner w"
  shows "gx_inv k U w'"
  using assms gh_of_cong [OF assms(3)] by (simp add: gx_inv_def)

lemma gx_obj_frame:
  assumes "gx_obj this w h" and "gx_regions w' = gx_regions w" and "gx_owner w' = gx_owner w"
  shows "gx_obj this w' h"
  using assms by (simp add: gx_obj_def live_bytes_def)

lemma gh_shape_clear:
  assumes sh: "gh_shape k h" and i: "i < length (gh_table h)" and r: "gr_state r = 0"
    and h': "gh_table h' = (gh_table h)[i := r]"
    and used: "gh_used_bytes h' = sum_list (map gr_user_size (filter (\<lambda>r. gr_state r = 1) (gh_table h')))"
  shows "gh_shape k h'"
  unfolding gh_shape_def
proof (intro conjI ballI allI impI)
  note D = gh_shapeD [OF sh]
  show "length (gh_table h') = GH_MAX_REGIONS" using D(1) by (simp add: h')
  show "region_ok k q" if "q \<in> set (gh_table h')" for q
  proof -
    have "q = r \<or> q \<in> set (gh_table h)" using that set_update_subset_insert [of "gh_table h" i r] unfolding h' by blast
    then show ?thesis using r sh by (auto simp: gh_shape_def region_ok_def)
  qed
  show "gh_used_bytes h' = sum_list (map gr_user_size (filter (\<lambda>r. gr_state r = 1) (gh_table h')))" by (rule used)
  fix j l x
  assume "j < GH_MAX_REGIONS" "l < GH_MAX_REGIONS" "j \<noteq> l" "gr_state (gh_table h' ! j) \<noteq> 0" "gr_state (gh_table h' ! l) \<noteq> 0"
    "in_region (gh_table h' ! j) x"
  then show "\<not> in_region (gh_table h' ! l) x"
    using D(3) [of j l x] D(1) i r unfolding h' by (auto simp: nth_list_update split: if_splits)
qed

text \<open>A slot leaves the registry or goes into quarantine.\<close>

lemma gx_change:
  assumes inv: "gx_inv k U w" and i: "i < kMaxRegions" "rg_state (gx_regions w ! i) \<noteq> 0" and st: "st = 0 \<or> st = 2"
    and V': "\<And>x. gx_vm w' x = (if in_region (rgn w i) x then if st = 0 then None else Some HF_PROT_NONE else gx_vm w x)"
    and regs: "gx_regions w' = (gx_regions w)[i := (gx_regions w ! i)\<lparr>rg_state := st\<rparr>]"
    and own: "gx_owner w' = (if st = 0 then (gx_owner w)[i := NULL] else gx_owner w)"
  shows "gx_inv k U w'"
proof -
  note D = gx_invD [OF inv] and G = gh_invD [OF gx_invD(4) [OF inv]]
  let ?r = "(rgn w i)\<lparr>gr_state := st\<rparr>"
  have len: "length (gh_table (gh_of w)) = kMaxRegions" and ti: "gh_table (gh_of w) ! i = rgn w i" using D(2) i by simp_all
  have il: "i < length (gh_table (gh_of w))" using i len by simp
  have t': "gh_table (gh_of w') = (gh_table (gh_of w))[i := ?r]" by (simp add: regs map_update gr_of_def)
  have apart: "\<not> in_region (rgn w i) x" if "j < length (gh_table (gh_of w))" "j \<noteq> i" "gr_state (gh_table (gh_of w) ! j) \<noteq> 0"
    "in_region (gh_table (gh_of w) ! j) x" for j x
    using gh_shapeD(3) [OF D(5) that(1) il that(3) _ that(4)] that(2) i(2) ti by auto
  have sh': "gh_shape k (gh_of w')"
  proof (cases "st = 0")
    case True
    then show ?thesis by (intro gh_shape_clear [OF D(5) il _ t' gh_of_used]) simp
  next
    case False
    then have "st = 2" using st by simp
    moreover have "region_ok k ?r" using D(7) [OF i(1)] i(2) \<open>st = 2\<close> by (simp add: region_ok_def)
    moreover have "gh_used_bytes (gh_of w') = gh_used_bytes (gh_of w) -
        (if gr_state (gh_table (gh_of w) ! i) = 1 then gr_user_size (gh_table (gh_of w) ! i) else 0) +
        (if gr_state ?r = 1 then gr_user_size ?r else 0)"
      unfolding gh_of_used t' by (rule sum_list_filter_upd [OF il])
    ultimately show ?thesis using apart by (intro gh_shape_upd [OF D(5) il _ _ _ t']) auto
  qed
  have "gh_inv k U (gx_vm w', gh_of w')"
  proof (rule gh_invI [OF D(1) sh'])
    fix j x assume j: "j < length (gh_table (gh_of w'))" "gr_state (gh_table (gh_of w') ! j) \<noteq> 0" "in_region (gh_table (gh_of w') ! j) x"
    show "gx_vm w' x = Some (region_prot k (gh_table (gh_of w') ! j) x) \<and> U x = None"
    proof (cases "j = i")
      case True
      then have "gh_table (gh_of w') ! j = ?r" using il unfolding t' by simp
      then show ?thesis using j st D(8) [OF i, of x] by (auto simp: V' region_prot_def)
    next
      case False
      then have e: "gh_table (gh_of w') ! j = gh_table (gh_of w) ! j" "j < length (gh_table (gh_of w))"
        using j(1) unfolding t' by simp_all
      show ?thesis using j(2,3) G(3) [of j x] apart [of j x] False unfolding e V' using e(2) by simp
    qed
  next
    fix x assume x: "\<forall>j < length (gh_table (gh_of w')). gr_state (gh_table (gh_of w') ! j) \<noteq> 0 \<longrightarrow> \<not> in_region (gh_table (gh_of w') ! j) x"
    show "gx_vm w' x = U x"
    proof (cases "in_region (rgn w i) x")
      case True
      have "st = 0"
      proof (rule ccontr)
        assume "st \<noteq> 0"
        then show False using x il True unfolding t' by (auto dest!: spec [of _ i])
      qed
      then show ?thesis using True D(8) [OF i True] by (simp add: V')
    next
      case False
      have "\<not> in_region (gh_table (gh_of w) ! j) x" if "j < length (gh_table (gh_of w))" "gr_state (gh_table (gh_of w) ! j) \<noteq> 0" for j
        using x that False ti unfolding t' by (cases "j = i") (auto dest!: spec [of _ j])
      then have "gx_vm w x = U x" by (rule G(4))
      then show ?thesis using False by (simp add: V')
    qed
  qed
  moreover have "rg_state (gx_regions w' ! j) = 0 \<longleftrightarrow> gx_owner w' ! j = NULL" if "j < kMaxRegions" for j
    using D(2,3) D(6) [OF that] D(6) [OF i(1)] i(2) st that unfolding regs own by (cases "j = i") auto
  ultimately show ?thesis using D(3) by (simp add: gx_inv_def own)
qed

lemma VM_map_c: "VM_map = vm_reserve" and VM_unmap_c: "VM_unmap = vm_release"
  by (intro ext, simp add: VM_map_def vm_reserve_def VM_unmap_def vm_release_def align_up_c)+

lemma VM_protect_c: "VM_protect k V p n prot = hf_vm_protect k V p n (prot_flags prot)"
  by (simp add: VM_protect_def hf_vm_protect_def align_up_c Let_def)

lemma drop_region_inv:
  assumes inv: "gx_inv k U w" and i: "i < kMaxRegions" "rg_state (gx_regions w ! i) \<noteq> 0"
  shows "gx_inv k U (drop_region k w i)"
    and "gx_vm (drop_region k w i) x = (if in_region (rgn w i) x then None else gx_vm w x)"
proof -
  note D = gx_invD [OF inv]
  note O = region_okD [OF D(7) [OF i(1)]]
  have al: "hf_align_up (rg_total (gx_regions w ! i)) (vk_page_size k) = rg_total (gx_regions w ! i)"
    using align_pages_id [OF D(1)] O(1,6) i(2) kernel_wfD(3) [OF D(1)] by simp
  show V: "gx_vm (drop_region k w i) x = (if in_region (rgn w i) x then None else gx_vm w x)" for x
    using O(7) i(2) al by (simp add: drop_region_def Let_def VM_unmap_c vm_release_def page_set_eq)
  show "gx_inv k U (drop_region k w i)"
    by (rule gx_change [OF inv i, of 0]) (use V in \<open>simp_all add: drop_region_def Let_def\<close>)
qed


subsection \<open>Bytes\<close>

lemma unat_add_step:
  assumes "unat (p :: addr) + Suc n < 2 ^ 64"
  shows "unat (p + 1) = unat p + 1"
  using assms by (subst unat_add_nowrap) simp_all

lemma memset_bytes_ok:
  assumes "unat p + n < 2 ^ 64" and "\<And>x. unat p \<le> unat x \<Longrightarrow> unat x < unat p + n \<Longrightarrow> V x = Some HF_PROT_RW"
  shows "memset_bytes V n p v b = Inr (\<lambda>x. if unat p \<le> unat x \<and> unat x < unat p + n then v else b x)"
  using assms
proof (induction n arbitrary: p b)
  case (Suc n)
  note u = unat_add_step [OF Suc.prems(1)]
  have "memset_bytes V n (p + 1) v (b(p := v)) =
      Inr (\<lambda>x. if unat (p + 1) \<le> unat x \<and> unat x < unat (p + 1) + n then v else (b(p := v)) x)"
    using Suc.prems u by (intro Suc.IH) simp_all
  moreover have "(if unat (p + 1) \<le> unat x \<and> unat x < unat (p + 1) + n then v else (b(p := v)) x) =
      (if unat p \<le> unat x \<and> unat x < unat p + Suc n then v else b x)" for x
  proof (cases "x = p")
    case False
    then have "unat x \<noteq> unat p" by (simp add: word_unat_eq_iff)
    then have "unat (p + 1) \<le> unat x \<and> unat x < unat (p + 1) + n \<longleftrightarrow> unat p \<le> unat x \<and> unat x < unat p + Suc n"
      unfolding u by linarith
    then show ?thesis using False by simp
  qed simp
  ultimately show ?case using Suc.prems(2) [of p] by simp
qed (auto simp: fun_eq_iff)

lemma slack_intact_ok:
  assumes "unat c + n < 2 ^ 64" and "\<And>x :: addr. unat c \<le> unat x \<Longrightarrow> unat x < unat c + n \<Longrightarrow> V x = Some HF_PROT_RW"
  shows "slack_intact V b n c = Inr (\<forall>x :: addr. unat c \<le> unat x \<longrightarrow> unat x < unat c + n \<longrightarrow> b x = kSlackFill)"
  using assms
proof (induction n arbitrary: c)
  case (Suc n)
  note u = unat_add_step [OF Suc.prems(1)]
  have "slack_intact V b n (c + 1) =
      Inr (\<forall>x :: addr. unat (c + 1) \<le> unat x \<longrightarrow> unat x < unat (c + 1) + n \<longrightarrow> b x = kSlackFill)"
    using Suc.prems u by (intro Suc.IH) simp_all
  moreover have "(\<forall>x :: addr. unat c \<le> unat x \<longrightarrow> unat x < unat c + Suc n \<longrightarrow> b x = kSlackFill) \<longleftrightarrow>
      b c = kSlackFill \<and> (\<forall>x :: addr. unat (c + 1) \<le> unat x \<longrightarrow> unat x < unat (c + 1) + n \<longrightarrow> b x = kSlackFill)"
  proof (intro iffI conjI allI impI)
    fix x :: addr assume H: "b c = kSlackFill \<and> (\<forall>x :: addr. unat (c + 1) \<le> unat x \<longrightarrow> unat x < unat (c + 1) + n \<longrightarrow> b x = kSlackFill)"
      and x: "unat c \<le> unat x" "unat x < unat c + Suc n"
    show "b x = kSlackFill"
    proof (cases "x = c")
      case False
      then have "unat x \<noteq> unat c" by (simp add: word_unat_eq_iff)
      then show ?thesis using H x u by simp
    qed (use H in simp)
  qed (use u in auto)
  ultimately show ?case using Suc.prems(2) [of c] by simp
qed simp

text \<open>The bytes of the data pages around the block of a region.\<close>

definition in_slack :: "vm_kernel \<Rightarrow> gh_region \<Rightarrow> addr \<Rightarrow> bool" where
  "in_slack k r x \<longleftrightarrow>
     unat (gr_base r) + psz k \<le> unat x \<and> unat x < unat (gr_user r) \<or>
     unat (gr_user r) + unat (gr_user_size r) \<le> unat x \<and> unat x + psz k < unat (gr_base r) + unat (gr_total r)"

lemma region_ends:
  assumes k: "kernel_wf k" and ok: "region_ok k r" and st: "gr_state r \<noteq> 0"
  shows "unat (gr_base r + vk_page_size k) = unat (gr_base r) + psz k"
    and "unat (gr_base r + gr_total r - vk_page_size k) = unat (gr_base r) + unat (gr_total r) - psz k"
    and "unat (gr_user r + gr_user_size r) = unat (gr_user r) + unat (gr_user_size r)"
proof -
  note O = region_okD [OF ok st]
  show "unat (gr_base r + vk_page_size k) = unat (gr_base r) + psz k" using O(1,8) by (subst unat_add_nowrap) simp_all
  have "unat (gr_base r + gr_total r) = unat (gr_base r) + unat (gr_total r)" using O(1) by (subst unat_add_nowrap) simp_all
  then show "unat (gr_base r + gr_total r - vk_page_size k) = unat (gr_base r) + unat (gr_total r) - psz k"
    using O(8) by (subst unat_sub_nowrap) simp_all
  show "unat (gr_user r + gr_user_size r) = unat (gr_user r) + unat (gr_user_size r)"
    using O(1,3) by (subst unat_add_nowrap) simp_all
qed

lemma slack_ok_spec:
  assumes k: "kernel_wf k" and ok: "region_ok k (gr_of r)" and st: "rg_state r \<noteq> 0"
    and RW: "\<And>x. unat (rg_base r) + psz k \<le> unat x \<Longrightarrow> unat x + psz k < unat (rg_base r) + unat (rg_total r) \<Longrightarrow> V x = Some HF_PROT_RW"
  shows "slack_ok V b (rg_base r + vk_page_size k) (rg_base r + rg_total r - vk_page_size k) r =
    Inr (\<forall>x. in_slack k (gr_of r) x \<longrightarrow> b x = kSlackFill)"
proof -
  have st': "gr_state (gr_of r) \<noteq> 0" using st by simp
  note O = region_okD [OF ok st', simplified] and E = region_ends [OF k ok st', simplified]
  let ?d = "rg_base r + vk_page_size k" and ?e = "rg_base r + rg_total r - vk_page_size k" and ?c = "rg_user r + rg_user_size r"
  have n1: "(if ?d < rg_user r then unat (rg_user r - ?d) else 0) = unat (rg_user r) - unat ?d"
    using O(2) E(1) by (simp add: word_less_nat_alt unat_sub_nowrap)
  have n2: "(if ?c < ?e then unat (?e - ?c) else 0) = unat ?e - unat ?c"
    using O(3) E by (simp add: word_less_nat_alt unat_sub_nowrap)
  have "slack_intact V b (unat (rg_user r) - unat ?d) ?d =
      Inr (\<forall>x :: addr. unat ?d \<le> unat x \<longrightarrow> unat x < unat ?d + (unat (rg_user r) - unat ?d) \<longrightarrow> b x = kSlackFill)"
    by (rule slack_intact_ok) (use O E RW in auto)
  moreover have "slack_intact V b (unat ?e - unat ?c) ?c =
      Inr (\<forall>x :: addr. unat ?c \<le> unat x \<longrightarrow> unat x < unat ?c + (unat ?e - unat ?c) \<longrightarrow> b x = kSlackFill)"
    by (rule slack_intact_ok) (use O E RW in auto)
  moreover have "unat ?d + (unat (rg_user r) - unat ?d) = unat (rg_user r)" "unat ?c + (unat ?e - unat ?c) = unat ?e"
    using O E by simp_all
  moreover have "unat x < unat ?e \<longleftrightarrow> unat x + psz k < unat (rg_base r) + unat (rg_total r)" for x
    unfolding E(2) using O(8) by linarith
  ultimately show ?thesis
    unfolding slack_ok_def n1 n2 Let_def
    by (auto simp: in_slack_def E split: bool.split)
qed

lemma fill_slack_spec:
  assumes k: "kernel_wf k" and ok: "region_ok k r" and st: "gr_state r \<noteq> 0"
    and RW: "\<And>x. unat (gr_base r) + psz k \<le> unat x \<Longrightarrow> unat x + psz k < unat (gr_base r) + unat (gr_total r) \<Longrightarrow> V x = Some HF_PROT_RW"
    and d: "gr_base r + gr_total r - vk_page_size k = gr_base r + vk_page_size k + data_bytes"
  shows "fill_slack V (gr_base r + vk_page_size k) data_bytes (gr_user r) (gr_user_size r) b =
    Inr (\<lambda>x. if in_slack k r x then kSlackFill else b x)"
proof -
  note O = region_okD [OF ok st] and E = region_ends [OF k ok st]
  let ?d = "gr_base r + vk_page_size k" and ?e = "gr_base r + gr_total r - vk_page_size k" and ?c = "gr_user r + gr_user_size r"
  define b1 where "b1 = (\<lambda>x. if unat ?d \<le> unat x \<and> unat x < unat (gr_user r) then kSlackFill else b x)"
  have 1: "(if gr_user r > ?d then memset_bytes V (unat (gr_user r - ?d)) ?d kSlackFill b else Inr b) = Inr b1"
  proof (cases "gr_user r > ?d")
    case True
    then have n: "unat (gr_user r - ?d) = unat (gr_user r) - unat ?d" "unat ?d + (unat (gr_user r) - unat ?d) = unat (gr_user r)"
      by (simp_all add: word_less_nat_alt unat_sub_nowrap)
    show ?thesis using True memset_bytes_ok [of ?d "unat (gr_user r) - unat ?d" V kSlackFill b] O E RW n
      by (simp add: b1_def)
  next
    case False
    then have "b1 = b" by (auto simp: b1_def fun_eq_iff word_less_nat_alt)
    then show ?thesis using False by simp
  qed
  have 2: "(if ?c < ?e then memset_bytes V (unat (?e - ?c)) ?c kSlackFill b1 else Inr b1) =
      Inr (\<lambda>x. if unat ?c \<le> unat x \<and> unat x < unat ?e then kSlackFill else b1 x)"
  proof (cases "?c < ?e")
    case True
    then have n: "unat (?e - ?c) = unat ?e - unat ?c" "unat ?c + (unat ?e - unat ?c) = unat ?e"
      by (simp_all add: word_less_nat_alt unat_sub_nowrap)
    show ?thesis using True memset_bytes_ok [of ?c "unat ?e - unat ?c" V kSlackFill b1] O E RW n by simp
  next
    case False
    then have "(\<lambda>x. if unat ?c \<le> unat x \<and> unat x < unat ?e then kSlackFill else b1 x) = b1"
      by (auto simp: fun_eq_iff word_less_nat_alt)
    then show ?thesis using False by simp
  qed
  have "unat x < unat ?e \<longleftrightarrow> unat x + psz k < unat (gr_base r) + unat (gr_total r)" for x
    unfolding E(2) using O(8) by linarith
  then show ?thesis
    unfolding fill_slack_def d [symmetric] 1 sum.case 2 by (auto simp: in_slack_def b1_def E fun_eq_iff)
qed


subsection \<open>Slots and objects\<close>

lemma live_bytes_upd:
  assumes i: "i < kMaxRegions" and len: "length (gx_regions w) = kMaxRegions" "length (gx_owner w) = kMaxRegions"
    and w': "gx_regions w' = (gx_regions w)[i := r]" "gx_owner w' = (gx_owner w)[i := own]"
  shows "live_bytes this w' = live_bytes this w -
      (if gx_owner w ! i = this \<and> rg_state (gx_regions w ! i) = 1 then rg_user_size (gx_regions w ! i) else 0) +
      (if own = this \<and> rg_state r = 1 then rg_user_size r else 0)"
proof -
  define f where "f v j = (if gx_owner v ! j = this \<and> rg_state (gx_regions v ! j) = 1 then rg_user_size (gx_regions v ! j) else 0)" for v :: gx_world and j
  have L: "live_bytes this v = sum (f v) {..<kMaxRegions}" for v
    unfolding live_bytes_def f_def by (rule sum.mono_neutral_cong_left) auto
  have "sum (f v) {..<kMaxRegions} = f v i + sum (f v) ({..<kMaxRegions} - {i})" for v
    using i by (intro sum.remove) simp_all
  moreover have "sum (f w') ({..<kMaxRegions} - {i}) = sum (f w) ({..<kMaxRegions} - {i})"
    by (intro sum.cong) (auto simp: f_def w')
  moreover have "f w' i = (if own = this \<and> rg_state r = 1 then rg_user_size r else 0)" using i len by (simp add: f_def w')
  ultimately have "live_bytes this w' = (if own = this \<and> rg_state r = 1 then rg_user_size r else 0) + sum (f w) ({..<kMaxRegions} - {i})"
    "live_bytes this w = f w i + sum (f w) ({..<kMaxRegions} - {i})" unfolding L by simp_all
  then have "live_bytes this w' = live_bytes this w - f w i + (if own = this \<and> rg_state r = 1 then rg_user_size r else 0)"
    by simp
  then show ?thesis by (simp only: f_def)
qed

text \<open>An object only depends on the slots it owns.\<close>

lemma gx_obj_other:
  assumes obj: "gx_obj that w h"
    and same: "\<And>j. j < kMaxRegions \<Longrightarrow> gx_owner w ! j = that \<or> gx_owner w' ! j = that \<Longrightarrow>
      gx_regions w' ! j = gx_regions w ! j \<and> gx_owner w' ! j = gx_owner w ! j"
  shows "gx_obj that w' h"
proof -
  have "{i. i < kMaxRegions \<and> gx_owner w' ! i = that \<and> rg_state (gx_regions w' ! i) = st} =
      {i. i < kMaxRegions \<and> gx_owner w ! i = that \<and> rg_state (gx_regions w ! i) = st}" for st
    using same by (intro Collect_cong) metis
  moreover from this [of 1] have "live_bytes that w' = live_bytes that w"
    unfolding live_bytes_def using same by (intro sum.cong) auto
  ultimately show ?thesis using obj by (simp add: gx_obj_def)
qed

lemma gx_region_apart:
  assumes inv: "gx_inv k U w" and i: "i < kMaxRegions" "rg_state (gx_regions w ! i) \<noteq> 0"
    and j: "j < kMaxRegions" "rg_state (gx_regions w ! j) \<noteq> 0" and x: "in_region (rgn w i) x" "in_region (rgn w j) x"
  shows "i = j"
  using gh_shapeD(3) [OF gx_invD(5) [OF inv], of i j x] assms gx_invD(2) [OF inv] by simp

lemma gx_user_unique:
  assumes inv: "gx_inv k U w" and i: "i < kMaxRegions" "rg_state (gx_regions w ! i) = 1"
    and j: "j < kMaxRegions" "rg_state (gx_regions w ! j) = 1" and eq: "rg_user (gx_regions w ! i) = rg_user (gx_regions w ! j)"
  shows "i = j"
  using gh_user_unique [OF gx_invD(5) [OF inv], of i j] assms gx_invD(2) [OF inv] by simp

lemma find_free_loop_spec:
  "case find_free_loop w js of
     None \<Rightarrow> \<forall>i \<in> set js. \<not> (rg_state (gx_regions w ! i) = 0 \<and> gx_owner w ! i = NULL)
   | Some i \<Rightarrow> i \<in> set js \<and> rg_state (gx_regions w ! i) = 0 \<and> gx_owner w ! i = NULL"
  by (induction js) (simp_all split: option.splits)

lemma find_free_slot_spec:
  assumes inv: "gx_inv k U w"
  shows "case find_free_slot w of None \<Rightarrow> \<forall>i < kMaxRegions. rg_state (gx_regions w ! i) \<noteq> 0
    | Some i \<Rightarrow> i < kMaxRegions \<and> rg_state (gx_regions w ! i) = 0 \<and> gx_owner w ! i = NULL"
proof (cases "find_free_slot w")
  case None
  then have "\<forall>i \<in> set [0..<kMaxRegions]. \<not> (rg_state (gx_regions w ! i) = 0 \<and> gx_owner w ! i = NULL)"
    using find_free_loop_spec [where w = w and js = "[0..<kMaxRegions]"] by (simp only: find_free_slot_def option.case)
  then have "rg_state (gx_regions w ! i) \<noteq> 0" if "i < kMaxRegions" for i
    using that gx_invD(6) [OF inv that] by (auto dest!: bspec [of _ _ i])
  then show ?thesis using None by simp
next
  case (Some i)
  have "i \<in> set [0..<kMaxRegions] \<and> rg_state (gx_regions w ! i) = 0 \<and> gx_owner w ! i = NULL"
    using find_free_loop_spec [where w = w and js = "[0..<kMaxRegions]"] Some by (simp only: find_free_slot_def option.case)
  then show ?thesis using Some by simp
qed

lemma find_live_loop_spec:
  "case find_live_loop this w p js of
     None \<Rightarrow> \<forall>i \<in> set js. \<not> (gx_owner w ! i = this \<and> rg_user (gx_regions w ! i) = p \<and> rg_state (gx_regions w ! i) = 1)
   | Some i \<Rightarrow> i \<in> set js \<and> gx_owner w ! i = this \<and> rg_user (gx_regions w ! i) = p \<and> rg_state (gx_regions w ! i) = 1"
  by (induction js) (simp_all split: option.splits)

text \<open>Slot \<open>i\<close> holds the live block at \<open>p\<close> of the object \<open>this\<close>.\<close>

definition gx_block :: "addr \<Rightarrow> gx_world \<Rightarrow> addr \<Rightarrow> nat \<Rightarrow> bool" where
  "gx_block this w p i \<longleftrightarrow> i < kMaxRegions \<and> gx_owner w ! i = this \<and> rg_user (gx_regions w ! i) = p \<and> rg_state (gx_regions w ! i) = 1"

lemma find_live_block:
  assumes inv: "gx_inv k U w"
  shows "gx_block this w p i \<Longrightarrow> find_live_loop this w p [0..<kMaxRegions] = Some i"
    and "(\<And>i. \<not> gx_block this w p i) \<Longrightarrow> find_live_loop this w p [0..<kMaxRegions] = None"
proof -
  define f where "f = find_live_loop this w p [0..<kMaxRegions]"
  note spec = find_live_loop_spec [where this = this and w = w and p = p and js = "[0..<kMaxRegions]", folded f_def]
  have N: "\<not> gx_block this w p i" if "f = None" for i
    using spec unfolding that option.case by (auto simp: gx_block_def dest!: bspec [of _ _ i])
  have S: "gx_block this w p j" if "f = Some j" for j
    using spec unfolding that option.case by (simp add: gx_block_def)
  show "find_live_loop this w p [0..<kMaxRegions] = Some i" if b: "gx_block this w p i"
    unfolding f_def [symmetric]
  proof (cases f)
    case (Some j)
    have "i = j" by (rule gx_user_unique [OF inv]) (use b S [OF Some] in \<open>simp_all add: gx_block_def\<close>)
    then show "f = Some i" using Some by simp
  qed (use N b in blast)
  show "find_live_loop this w p [0..<kMaxRegions] = None" if "\<And>i. \<not> gx_block this w p i"
    unfolding f_def [symmetric] using S that by (cases f) blast+
qed


subsection \<open>Requests\<close>

text \<open>The sizes of a request do not wrap.\<close>

definition gx_fits :: "vm_kernel \<Rightarrow> u64 \<Rightarrow> bool" where
  "gx_fits k n \<longleftrightarrow> unat n + 5 * psz k < 2 ^ 64"

definition gx_size :: "u64 \<Rightarrow> u64" where
  "gx_size n = (if n = 0 then 1 else n)"

definition gx_align :: "u64 \<Rightarrow> u64" where
  "gx_align al = (if al < 16 then 16 else al)"

definition gx_aligned :: "u64 \<Rightarrow> u64 \<Rightarrow> u64" where
  "gx_aligned n al = align_up (gx_size n) (gx_align al)"

definition gx_align_ok :: "vm_kernel \<Rightarrow> u64 \<Rightarrow> bool" where
  "gx_align_ok k al \<longleftrightarrow> gx_align al \<le> vk_page_size k \<and> is_pow2 (gx_align al)"

lemma gx_request:
  assumes k: "kernel_wf k" and fits: "gx_fits k n" and al: "gx_align_ok k al"
  shows "0 < unat (gx_size n)" and "unat (gx_size n) \<le> unat (gx_aligned n al)"
    and "unat (gx_aligned n al) < unat (gx_size n) + unat (gx_align al)"
    and "unat (gx_aligned n al) + 4 * psz k \<le> 2 ^ 64" and "unat (gx_align al) dvd unat (gx_aligned n al)"
    and "unat (gx_align al) dvd psz k" and "unat (gx_align al) \<le> psz k"
proof -
  note K = kernel_wfD [OF k]
  show pos: "0 < unat (gx_size n)" by (simp add: gx_size_def unat_gt_0)
  have n: "unat (gx_size n) + 5 * psz k \<le> 2 ^ 64" using fits K(2,3) by (auto simp: gx_size_def gx_fits_def)
  obtain a where a: "a < 64" "gx_align al = 2 ^ a" using al by (auto simp: gx_align_ok_def is_pow2_c hf_is_pow2_iff)
  then have ua: "unat (gx_align al) = 2 ^ a" by simp
  show le: "unat (gx_align al) \<le> psz k" using al by (simp add: gx_align_ok_def word_le_nat_alt)
  obtain j where j: "psz k = 2 ^ j" using K(1) by blast
  have "a \<le> j" using le unfolding ua j by simp
  then show "unat (gx_align al) dvd psz k" unfolding ua j by (rule le_imp_power_dvd)
  have "unat (gx_size n) + 2 ^ a \<le> 2 ^ 64" using n le ua by linarith
  note B = hf_align_up_bounds [OF a(1) this]
  show "unat (gx_size n) \<le> unat (gx_aligned n al)" "unat (gx_align al) dvd unat (gx_aligned n al)"
    using B by (simp_all add: gx_aligned_def align_up_c a)
  show lt: "unat (gx_aligned n al) < unat (gx_size n) + unat (gx_align al)"
    using B(2) by (simp add: gx_aligned_def align_up_c a)
  show "unat (gx_aligned n al) + 4 * psz k \<le> 2 ^ 64" using lt n le by linarith
qed

end
