(* ===== verification/HFX_Guard_Process.thy ===== *)
theory HFX_Guard_Process
  imports HFX_Guard_Correct
begin

text \<open>
  The member functions of the C++ guard heap against the invariant: what a request, a release and a destruction
  make of the process and of the object, and the processes that use guard heaps as a step relation.
\<close>


subsection \<open>The block of a request\<close>

definition gx_data :: "vm_kernel \<Rightarrow> u64 \<Rightarrow> u64 \<Rightarrow> u64" where
  "gx_data k n al = align_up (gx_aligned n al) (vk_page_size k)"

definition gx_span :: "vm_kernel \<Rightarrow> u64 \<Rightarrow> u64 \<Rightarrow> u64" where
  "gx_span k n al = vk_page_size k + gx_data k n al + vk_page_size k"

definition gx_region :: "vm_kernel \<Rightarrow> GuardHeap \<Rightarrow> addr \<Rightarrow> u64 \<Rightarrow> u64 \<Rightarrow> Region" where
  "gx_region k h base n al =
     \<lparr>rg_state = 1, rg_base = base, rg_total = gx_span k n al,
      rg_user = (if gx_underflow h then base + vk_page_size k else base + vk_page_size k + gx_data k n al - gx_aligned n al),
      rg_user_size = gx_size n, rg_policy = gx_policy h, rg_underflow_mode = gx_underflow h\<rparr>"

lemma gx_region_user: "rg_user (gx_region k h base n al) =
    (if gx_underflow h then base + vk_page_size k else base + vk_page_size k + gx_data k n al - gx_aligned n al)"
  by (simp add: gx_region_def)

lemma gx_span_map:
  assumes "kernel_wf k" and "gx_fits k n" and "gx_align_ok k al"
  shows "VM_map k V (gx_span k n al) =
    (case vk_mmap k V (gx_span k n al) of None \<Rightarrow> (None, V)
     | Some base \<Rightarrow> (Some base, page_set base (gx_span k n al) (Some HF_PROT_RW) V))"
proof -
  note R = gx_request [OF assms]
  have "0 < unat (gx_aligned n al)" using R(1,2) by linarith
  from gh_span(6) [OF assms(1) this R(4), folded align_up_c, folded gx_data_def, folded gx_span_def] show ?thesis
    by (simp add: VM_map_def Let_def)
qed

lemma gx_region_layout:
  fixes base n al :: u64 and k :: vm_kernel and V :: vm_pages and h :: GuardHeap
  assumes k: "kernel_wf k" and fits: "gx_fits k n" and al: "gx_align_ok k al" and base: "vk_mmap k V (gx_span k n al) = Some base"
  defines "r \<equiv> gx_region k h base n al" and "ps \<equiv> vk_page_size k"
  shows "region_ok k (gr_of r)"
    and "snd (VM_protect k (snd (VM_protect k (page_set base (gx_span k n al) (Some HF_PROT_RW) V) base ps Prot_None))
        (base + ps + gx_data k n al) ps Prot_None) =
      (\<lambda>x. if in_region (gr_of r) x then Some (region_prot k (gr_of r) x) else V x)"
    and "base + rg_total r - ps = base + ps + gx_data k n al"
    and "gx_underflow h \<Longrightarrow> unat (rg_user r) = unat base + psz k"
    and "\<not> gx_underflow h \<Longrightarrow> unat (rg_user r) + unat (gx_aligned n al) + psz k = unat base + unat (rg_total r)"
    and "unat (gx_align al) dvd unat (rg_user r)"
    and "in_region (gr_of r) x \<Longrightarrow> V x = None"
proof -
  note R = gx_request [OF k fits al] and B = kernel_wfD(4) [OF k base]
  have pos: "0 < unat (gx_aligned n al)" using R(1,2) by linarith
  note S = gh_span [OF k pos R(4), folded align_up_c, folded gx_data_def, folded gx_span_def]
  have map: "vk_mmap k V (vk_page_size k + hf_align_up (gx_aligned n al) (vk_page_size k) + vk_page_size k) = Some base"
    using base by (simp add: gx_span_def gx_data_def align_up_c)
  note M = gh_new_mapping [OF k pos R(4) map, folded align_up_c, folded gx_data_def, folded gx_span_def]
  have room: "unat base + psz k + unat (gx_data k n al) + psz k < 2 ^ 63" using B S(4) by (simp add: gx_span_def)
  have bp: "unat (base + ps) = unat base + psz k" using room by (simp add: ps_def unat_add_nowrap)
  have bd: "unat (base + ps + gx_data k n al) = unat base + psz k + unat (gx_data k n al)"
    using room bp by (subst unat_add_nowrap) simp_all
  have tot: "unat (rg_total r) = psz k + unat (gx_data k n al) + psz k" using S(4) by (simp add: r_def gx_region_def gx_span_def)
  show U: "gx_underflow h \<Longrightarrow> unat (rg_user r) = unat base + psz k" using bp by (simp add: r_def gx_region_def ps_def)
  have "unat (base + ps + gx_data k n al - gx_aligned n al) = unat base + psz k + unat (gx_data k n al) - unat (gx_aligned n al)"
    using bd S(1) by (subst unat_sub_nowrap) (simp_all add: word_le_nat_alt)
  then show O: "\<not> gx_underflow h \<Longrightarrow> unat (rg_user r) + unat (gx_aligned n al) + psz k = unat base + unat (rg_total r)"
    using tot S(1) by (simp add: r_def gx_region_def ps_def)
  show "unat (gx_align al) dvd unat (rg_user r)"
  proof (cases "gx_underflow h")
    case True
    then show ?thesis unfolding U [OF True] using B R(6) by (meson dvd_add dvd_trans)
  next
    case False
    have "unat (gx_align al) dvd unat base + unat (rg_total r)" unfolding tot using B S(2) R(6) by (meson dvd_add dvd_trans)
    then show ?thesis using O [OF False] R(5,6) by (metis dvd_add_left_iff)
  qed
  have ends: "rg_base r = base" "rg_user_size r = gx_size n" "rg_state r = 1" "rg_total r = gx_span k n al"
    by (simp_all add: r_def gx_region_def)
  show ok: "region_ok k (gr_of r)"
    using B S(1,3,5) R(1,2) tot room U O ends kernel_wfD(2) [OF k] by (cases "gx_underflow h") (simp_all add: region_ok_def)
  show "in_region (gr_of r) x \<Longrightarrow> V x = None" using kernel_wfD(5) [OF k base] ends by simp
  show "base + rg_total r - ps = base + ps + gx_data k n al" by (simp add: ends gx_span_def ps_def)
  have "gr_base (gr_of r) = base" "gr_total (gr_of r) = gx_span k n al" "gr_state (gr_of r) = 1" using ends by simp_all
  then show "snd (VM_protect k (snd (VM_protect k (page_set base (gx_span k n al) (Some HF_PROT_RW) V) base ps Prot_None))
        (base + ps + gx_data k n al) ps Prot_None) =
      (\<lambda>x. if in_region (gr_of r) x then Some (region_prot k (gr_of r) x) else V x)"
    using M(2) [of _ 16] by (intro ext) (simp add: VM_protect_c ps_def region_prot_def)
qed


subsection \<open>Allocation\<close>

definition gx_grant :: "vm_kernel \<Rightarrow> addr \<Rightarrow> gx_world \<Rightarrow> nat \<Rightarrow> Region \<Rightarrow> gx_world" where
  "gx_grant k this w i r =
     w\<lparr>gx_vm := (\<lambda>x. if in_region (gr_of r) x then Some (region_prot k (gr_of r) x) else gx_vm w x),
       gx_bytes := (\<lambda>x. if in_slack k (gr_of r) x then kSlackFill else gx_bytes w x),
       gx_regions := (gx_regions w)[i := r], gx_owner := (gx_owner w)[i := this]\<rparr>"

definition gx_counted :: "GuardHeap \<Rightarrow> u64 \<Rightarrow> u64 \<Rightarrow> GuardHeap" where
  "gx_counted h data_bytes sz =
     (let st = count_alloc (gx_stats h)
      in h\<lparr>gx_stats := raise_peak (set_used (hs_used st + sz) (st\<lparr>hs_capacity := hs_capacity st + data_bytes\<rparr>))\<rparr>)"

lemma GuardHeap_allocate_unfold:
  "GuardHeap_allocate k this (w, h) n al =
     (if \<not> gx_align_ok k al then Ret (None, w, h)
      else case VM_map k (gx_vm w) (gx_span k n al) of
        (None, V) \<Rightarrow> (case bump_fail h of None \<Rightarrow> Deadlock | Some h \<Rightarrow> Ret (None, w, h))
      | (Some base, V) \<Rightarrow>
          let r = gx_region k h base n al;
              V = snd (VM_protect k (snd (VM_protect k V base (vk_page_size k) Prot_None))
                    (base + vk_page_size k + gx_data k n al) (vk_page_size k) Prot_None)
          in case fill_slack V (base + vk_page_size k) (gx_data k n al) (rg_user r) (gx_size n) (gx_bytes w) of
               Inl x \<Rightarrow> Faults x
             | Inr b \<Rightarrow> GuardHeap_enter k this (w\<lparr>gx_vm := V, gx_bytes := b\<rparr>) h base (gx_span k n al) (gx_data k n al)
                 (rg_user r) (gx_size n))"
  unfolding GuardHeap_allocate_def Let_def prod.case gx_size_def [symmetric] gx_align_def [symmetric] gx_aligned_def [symmetric]
    gx_data_def [symmetric] gx_span_def [symmetric] gx_region_user gx_align_ok_def de_Morgan_conj not_le ..

lemma gx_slack_filled:
  assumes k: "kernel_wf k" and fits: "gx_fits k n" and al: "gx_align_ok k al" and base: "vk_mmap k V (gx_span k n al) = Some base"
  shows "fill_slack (\<lambda>x. if in_region (gr_of (gx_region k h base n al)) x
        then Some (region_prot k (gr_of (gx_region k h base n al)) x) else V x)
      (base + vk_page_size k) (gx_data k n al) (rg_user (gx_region k h base n al)) (gx_size n) b =
    Inr (\<lambda>x. if in_slack k (gr_of (gx_region k h base n al)) x then kSlackFill else b x)"
proof -
  let ?r = "gr_of (gx_region k h base n al)"
  note L = gx_region_layout [OF k fits al base, of h]
  have r: "gr_base ?r = base" "gr_user ?r = rg_user (gx_region k h base n al)" "gr_user_size ?r = gx_size n" "gr_state ?r = 1"
    by (simp_all add: gx_region_def)
  have RW: "(if in_region ?r x then Some (region_prot k ?r x) else V x) = Some HF_PROT_RW"
    if "unat (gr_base ?r) + psz k \<le> unat x" "unat x + psz k < unat (gr_base ?r) + unat (gr_total ?r)" for x
    using that in_region_nat [OF L(1), of x] r(4) by (simp add: region_prot_def)
  have "gr_base ?r + gr_total ?r - vk_page_size k = gr_base ?r + vk_page_size k + gx_data k n al" using L(3) r(1) by simp
  from fill_slack_spec [OF k L(1) _ RW this, where b = b] show ?thesis unfolding r by simp
qed

lemma find_free_slot_frame:
  assumes "gx_regions v = gx_regions w" and "gx_owner v = gx_owner w"
  shows "find_free_slot v = find_free_slot w"
proof -
  have "find_free_loop v js = find_free_loop w js" for js using assms by (induction js) simp_all
  then show ?thesis by (simp add: find_free_slot_def)
qed

text \<open>With the mapping in place the request comes down to the part under the lock.\<close>

lemma GuardHeap_allocate_mapped:
  fixes w :: gx_world and h :: GuardHeap and base n al :: u64 and k :: vm_kernel
  assumes k: "kernel_wf k" and fits: "gx_fits k n" and al: "gx_align_ok k al"
    and base: "vk_mmap k (gx_vm w) (gx_span k n al) = Some base"
  defines "r \<equiv> gx_region k h base n al"
  shows "GuardHeap_allocate k this (w, h) n al =
    GuardHeap_enter k this
      (w\<lparr>gx_vm := (\<lambda>x. if in_region (gr_of r) x then Some (region_prot k (gr_of r) x) else gx_vm w x),
         gx_bytes := (\<lambda>x. if in_slack k (gr_of r) x then kSlackFill else gx_bytes w x)\<rparr>)
      h base (gx_span k n al) (gx_data k n al) (rg_user r) (gx_size n)"
  unfolding GuardHeap_allocate_unfold gx_span_map [OF k fits al] base option.case prod.case Let_def
    gx_region_layout(2) [OF k fits al base, of h] gx_slack_filled [OF k fits al base, of h] sum.case r_def
  using al by simp

lemma GuardHeap_allocate_granted:
  assumes k: "kernel_wf k" and fits: "gx_fits k n" and al: "gx_align_ok k al" and un: "\<not> gx_locked h"
    and base: "vk_mmap k (gx_vm w) (gx_span k n al) = Some base" and slot: "find_free_slot w = Some i"
  shows "GuardHeap_allocate k this (w, h) n al =
    Ret (Some (rg_user (gx_region k h base n al)), gx_grant k this w i (gx_region k h base n al),
         gx_counted h (gx_data k n al) (gx_size n))"
proof -
  define r where "r = gx_region k h base n al"
  have r: "\<lparr>rg_state = 1, rg_base = base, rg_total = gx_span k n al, rg_user = rg_user r, rg_user_size = gx_size n,
      rg_policy = gx_policy h, rg_underflow_mode = gx_underflow h\<rparr> = r" by (simp add: r_def gx_region_def)
  show ?thesis
    unfolding GuardHeap_allocate_mapped [OF k fits al base, of this h, folded r_def] r_def [symmetric]
    using un slot r find_free_slot_frame [of "w\<lparr>gx_vm := V, gx_bytes := b\<rparr>" w for V b]
    by (simp add: GuardHeap_enter_def lock_mu_def unlock_mu_def publish_region_def gx_grant_def gx_counted_def Let_def)
qed

lemma GuardHeap_allocate_failed:
  assumes k: "kernel_wf k" and fits: "gx_fits k n" and un: "\<not> gx_locked h"
  shows "\<not> gx_align_ok k al \<Longrightarrow> GuardHeap_allocate k this (w, h) n al = Ret (None, w, h)"
    and "gx_align_ok k al \<Longrightarrow> vk_mmap k (gx_vm w) (gx_span k n al) = None \<Longrightarrow>
      GuardHeap_allocate k this (w, h) n al = Ret (None, w, h\<lparr>gx_stats := count_failed (count_alloc (gx_stats h))\<rparr>)"
    and "gx_align_ok k al \<Longrightarrow> vk_mmap k (gx_vm w) (gx_span k n al) = Some base \<Longrightarrow> find_free_slot w = None \<Longrightarrow>
      GuardHeap_allocate k this (w, h) n al = Deadlock"
proof -
  show "\<not> gx_align_ok k al \<Longrightarrow> GuardHeap_allocate k this (w, h) n al = Ret (None, w, h)"
    by (simp add: GuardHeap_allocate_unfold)
  show "GuardHeap_allocate k this (w, h) n al = Ret (None, w, h\<lparr>gx_stats := count_failed (count_alloc (gx_stats h))\<rparr>)"
    if "gx_align_ok k al" "vk_mmap k (gx_vm w) (gx_span k n al) = None"
    using that un by (simp add: GuardHeap_allocate_unfold gx_span_map [OF k fits] bump_fail_def lock_mu_def unlock_mu_def)
  assume al: "gx_align_ok k al" and base: "vk_mmap k (gx_vm w) (gx_span k n al) = Some base" and slot: "find_free_slot w = None"
  show "GuardHeap_allocate k this (w, h) n al = Deadlock"
    unfolding GuardHeap_allocate_mapped [OF k fits al base]
    using un slot find_free_slot_frame [of "w\<lparr>gx_vm := V, gx_bytes := b\<rparr>" w for V b]
    by (simp add: GuardHeap_enter_def lock_mu_def bump_fail_def Let_def)
qed


lemma gx_grant_inv:
  assumes inv: "gx_inv k U w" and i: "i < kMaxRegions" "rg_state (gx_regions w ! i) = 0" and th: "this \<noteq> NULL"
    and r: "region_ok k (gr_of r)" "rg_state r = 1" and fresh: "\<And>x. in_region (gr_of r) x \<Longrightarrow> gx_vm w x = None"
  shows "gx_inv k U (gx_grant k this w i r)"
proof -
  note D = gx_invD [OF inv]
  let ?w = "gx_grant k this w i r"
  have il: "i < length (gh_table (gh_of w))" using i D(2) by simp
  have t': "gh_table (gh_of ?w) = (gh_table (gh_of w))[i := gr_of r]" by (simp add: gx_grant_def map_update)
  have "gh_used_bytes (gh_of ?w) = gh_used_bytes (gh_of w) + gr_user_size (gr_of r)"
    unfolding gh_of_used t' sum_list_filter_upd [OF il] using i D(2) r(2) by simp
  with il i(2) r fresh t' have "gh_inv k U (gx_vm ?w, gh_of ?w)"
    by (intro gh_granted(1) [OF D(4) il, of "gr_of r"]) (simp_all add: gx_grant_def)
  then show ?thesis
    using D(2,3,6) i r th by (auto simp: gx_inv_def gx_grant_def nth_list_update)
qed

lemma gx_grant_obj:
  assumes inv: "gx_inv k U w" and obj: "gx_obj this w h" and i: "i < kMaxRegions" "rg_state (gx_regions w ! i) = 0"
    and r: "rg_state r = 1" "rg_user_size r = sz"
  shows "gx_obj this (gx_grant k this w i r) (gx_counted h d sz)"
    and "gx_obj that w h2 \<Longrightarrow> that \<noteq> this \<Longrightarrow> gx_obj that (gx_grant k this w i r) h2"
proof -
  note D = gx_invD [OF inv]
  have own: "gx_owner w ! i = NULL" using D(6) [OF i(1)] i(2) by simp
  have "{j. j < kMaxRegions \<and> gx_owner (gx_grant k this w i r) ! j = this \<and> rg_state (gx_regions (gx_grant k this w i r) ! j) = 2} =
      {j. j < kMaxRegions \<and> gx_owner w ! j = this \<and> rg_state (gx_regions w ! j) = 2}"
    using i r D(2,3) by (auto simp: gx_grant_def nth_list_update)
  moreover have "live_bytes this (gx_grant k this w i r) = live_bytes this w + sz"
    using live_bytes_upd [OF i(1) D(2,3), of "gx_grant k this w i r" r this this] i(2) r by (simp add: gx_grant_def)
  ultimately show "gx_obj this (gx_grant k this w i r) (gx_counted h d sz)"
    using obj by (simp add: gx_obj_def gx_counted_def Let_def)
  show "gx_obj that (gx_grant k this w i r) h2" if "gx_obj that w h2" "that \<noteq> this"
    by (rule gx_obj_other [OF that(1)]) (use that own i D(2,3) in \<open>auto simp: gx_grant_def nth_list_update gx_obj_def split: if_splits\<close>)
qed


subsection \<open>Giving mappings back\<close>

abbreviation drop_all :: "vm_kernel \<Rightarrow> nat list \<Rightarrow> gx_world \<Rightarrow> gx_world" where
  "drop_all k js w \<equiv> fold (\<lambda>i w. drop_region k w i) js w"

lemma drop_region_at:
  assumes "length (gx_regions w) = kMaxRegions" and "length (gx_owner w) = kMaxRegions" and "j < kMaxRegions"
  shows "gx_regions (drop_region k w i) ! j = (if j = i then (gx_regions w ! j)\<lparr>rg_state := 0\<rparr> else gx_regions w ! j)"
    and "gx_owner (drop_region k w i) ! j = (if j = i then NULL else gx_owner w ! j)"
    and "gx_bytes (drop_region k w i) = gx_bytes w" and "gx_logged (drop_region k w i) = gx_logged w"
  using assms by (auto simp: drop_region_def Let_def nth_list_update)

lemma drop_all_spec:
  assumes "gx_inv k U w" and "distinct js" and "\<And>j. j \<in> set js \<Longrightarrow> j < kMaxRegions \<and> rg_state (gx_regions w ! j) \<noteq> 0"
  shows "gx_inv k U (drop_all k js w)"
    and "j < kMaxRegions \<Longrightarrow> gx_regions (drop_all k js w) ! j =
      (if j \<in> set js then (gx_regions w ! j)\<lparr>rg_state := 0\<rparr> else gx_regions w ! j)"
    and "j < kMaxRegions \<Longrightarrow> gx_owner (drop_all k js w) ! j = (if j \<in> set js then NULL else gx_owner w ! j)"
    and "gx_vm (drop_all k js w) x = (if \<exists>j \<in> set js. in_region (rgn w j) x then None else gx_vm w x)"
    and "gx_bytes (drop_all k js w) = gx_bytes w" and "gx_logged (drop_all k js w) = gx_logged w"
  using assms
proof (atomize (full), induction js arbitrary: w)
  case (Cons i js)
  from Cons.prems have i: "i < kMaxRegions" "rg_state (gx_regions w ! i) \<noteq> 0" and js: "distinct js" "i \<notin> set js" by simp_all
  note D = gx_invD [OF Cons.prems(1)] and dr = drop_region_inv [OF Cons.prems(1) i]
  note at = drop_region_at [OF D(2,3), of _ k i]
  have pre: "j < kMaxRegions \<and> rg_state (gx_regions (drop_region k w i) ! j) \<noteq> 0" if "j \<in> set js" for j
    using Cons.prems(3) [of j] that js at(1) [of j] by auto
  have same: "rgn (drop_region k w i) j = rgn w j" if "j \<in> set js" for j
    using pre [OF that] at(1) [of j] that js by auto
  note IH = Cons.IH [OF dr(1) js(1) pre]
  show ?case using IH js(2) at i(1) dr(2) same by (auto simp: fun_upd_def)
qed simp


lemma evict_eq: "evict k cap w q = (drop_all k (take (length q - unat cap) q) w, drop (length q - unat cap) q)"
proof (induction q arbitrary: w)
  case (Cons i q)
  show ?case
  proof (cases "Suc (length q) > unat cap")
    case True
    then have "Suc (length q) - unat cap = Suc (length q - unat cap)" by simp
    then show ?thesis using True Cons.IH [of "drop_region k w i"] by simp
  qed simp
qed simp


subsection \<open>Release\<close>

definition slack_kept :: "vm_kernel \<Rightarrow> gx_world \<Rightarrow> nat \<Rightarrow> bool" where
  "slack_kept k w i \<longleftrightarrow> (\<forall>x. in_slack k (rgn w i) x \<longrightarrow> gx_bytes w x = kSlackFill)"

definition gx_retire :: "vm_kernel \<Rightarrow> gx_world \<Rightarrow> nat \<Rightarrow> gx_world" where
  "gx_retire k w i =
     (let r = gx_regions w ! i
      in w\<lparr>gx_vm := (\<lambda>x. if in_region (gr_of r) x then Some HF_PROT_NONE else gx_vm w x),
           gx_bytes := (\<lambda>x. if unat (rg_base r) + psz k \<le> unat x \<and> unat x + psz k < unat (rg_base r) + unat (rg_total r)
             then kPoison else gx_bytes w x),
           gx_regions := (gx_regions w)[i := r\<lparr>rg_state := 2\<rparr>],
           gx_logged := gx_logged w @ (if slack_kept k w i then [] else [Log_slack_hit (rg_user r), Log_slack_reclaimed (rg_user r)])\<rparr>)"

lemma gx_live_bytes:
  assumes inv: "gx_inv k U w" and i: "i < kMaxRegions" "rg_state (gx_regions w ! i) = 1"
    and x: "unat (rg_base (gx_regions w ! i)) + psz k \<le> unat x" "unat x + psz k < unat (rg_base (gx_regions w ! i)) + unat (rg_total (gx_regions w ! i))"
  shows "gx_vm w x = Some HF_PROT_RW"
  using gx_invD(8) [OF inv i(1), of x] in_region_nat [OF gx_invD(7) [OF inv i(1)], of x] i(2) x by (simp add: region_prot_def)

text \<open>The data pages of a released block become inaccessible.\<close>

lemma gx_seal:
  fixes w :: gx_world and i :: nat and k :: vm_kernel
  defines "r \<equiv> gx_regions w ! i"
  defines "data \<equiv> rg_base r + vk_page_size k" and "data_end \<equiv> rg_base r + rg_total r - vk_page_size k"
  assumes inv: "gx_inv k U w" and i: "i < kMaxRegions" "rg_state r = 1"
  shows "unat data = unat (rg_base r) + psz k" and "unat (data_end - data) + 2 * psz k = unat (rg_total r)"
    and "snd (VM_protect k (gx_vm w) data (data_end - data) Prot_None) =
      (\<lambda>x. if in_region (gr_of r) x then Some HF_PROT_NONE else gx_vm w x)"
proof -
  note D = gx_invD [OF inv] and K = kernel_wfD [OF gx_invD(1) [OF inv]]
  have ok: "region_ok k (gr_of r)" and st: "gr_state (gr_of r) \<noteq> 0" using D(7) [OF i(1)] i(2) by (simp_all add: r_def)
  note O = region_okD [OF ok st, simplified] and E = region_ends [OF D(1) ok st, simplified]
  show d: "unat data = unat (rg_base r) + psz k" using E(1) by (simp add: data_def)
  have e: "unat data_end = unat (rg_base r) + unat (rg_total r) - psz k" using E(2) by (simp add: data_end_def)
  have "unat (data_end - data) = unat data_end - unat data" using d e O(8) by (subst unat_sub_nowrap) (simp_all add: word_le_nat_alt)
  then show n: "unat (data_end - data) + 2 * psz k = unat (rg_total r)" using d e O(8) by simp
  have "psz k dvd unat (data_end - data) + 2 * psz k" unfolding n by (rule O(6))
  then have dvd: "psz k dvd unat (data_end - data)" by (metis dvd_add_left_iff dvd_triv_right)
  have al: "hf_align_up (data_end - data) (vk_page_size k) = data_end - data"
    by (rule align_pages_id [OF D(1) _ dvd]) (use n O(1) K(3) in simp)
  have rng: "in_range data (data_end - data) x \<longleftrightarrow>
      unat (rg_base r) + psz k \<le> unat x \<and> unat x + psz k < unat (rg_base r) + unat (rg_total r)" for x
    using in_range_nat [of data "data_end - data" x] d n O(1) by auto
  have "vk_mprotect k (gx_vm w) data (data_end - data) HF_PROT_NONE"
    unfolding K(6) rng using gx_live_bytes [OF inv i(1)] i(2) O(5) d by (auto simp: r_def)
  then have "snd (VM_protect k (gx_vm w) data (data_end - data) Prot_None) = page_set data (data_end - data) (Some HF_PROT_NONE) (gx_vm w)"
    by (simp add: VM_protect_c hf_vm_protect_def al Let_def)
  moreover have "page_set data (data_end - data) (Some HF_PROT_NONE) (gx_vm w) x =
      (if in_region (gr_of r) x then Some HF_PROT_NONE else gx_vm w x)" for x
    using D(8) [OF i(1), of x] in_region_nat [OF ok st, of x] i(2)
    by (auto simp: page_set_eq rng r_def region_prot_def)
  ultimately show "snd (VM_protect k (gx_vm w) data (data_end - data) Prot_None) =
      (\<lambda>x. if in_region (gr_of r) x then Some HF_PROT_NONE else gx_vm w x)" by (intro ext) simp
qed

lemma GuardHeap_release_eq:
  fixes h :: GuardHeap
  assumes inv: "gx_inv k U w" and i: "i < kMaxRegions" "rg_state (gx_regions w ! i) = 1"
  defines "m \<equiv> Suc (length (gx_quarantine h)) - unat (gx_quarantine_cap h)"
  shows "GuardHeap_release k w h i (rg_user (gx_regions w ! i)) =
    Ret (drop_all k (take m (gx_quarantine h @ [i])) (gx_retire k w i),
         unlock_mu (h\<lparr>gx_stats := set_used (hs_used (gx_stats h) - rg_user_size (gx_regions w ! i)) (gx_stats h),
                      gx_quarantine := drop m (gx_quarantine h @ [i])\<rparr>))"
proof -
  define r where "r = gx_regions w ! i"
  define d where "d = rg_base r + vk_page_size k"
  define e where "e = rg_base r + rg_total r - vk_page_size k"
  note D = gx_invD [OF inv] and RW = gx_live_bytes [OF inv i, folded r_def]
  note S = gx_seal [OF inv i, folded r_def, folded d_def e_def]
  have ok: "region_ok k (gr_of r)" using D(7) [OF i(1)] by (simp add: r_def)
  have slack: "slack_ok (gx_vm w) (gx_bytes w) d e r = Inr (slack_kept k w i)"
    using slack_ok_spec [OF D(1) ok _ RW, where b = "gx_bytes w"] i(2) by (simp add: r_def d_def e_def slack_kept_def)
  have mem: "memset_bytes (gx_vm w) (unat (e - d)) d kPoison b =
      Inr (\<lambda>x. if unat (rg_base r) + psz k \<le> unat x \<and> unat x + psz k < unat (rg_base r) + unat (rg_total r) then kPoison else b x)" for b
  proof -
    have "unat x < unat d + unat (e - d) \<longleftrightarrow> unat x + psz k < unat (rg_base r) + unat (rg_total r)" for x :: addr
      using S(1,2) by linarith
    then show ?thesis
      using memset_bytes_ok [of d "unat (e - d)" "gx_vm w" kPoison b] S(1,2) RW region_okD(1) [OF ok] i(2)
      by (simp add: r_def)
  qed
  define V where "V = (\<lambda>x. if in_region (gr_of r) x then Some HF_PROT_NONE else gx_vm w x)"
  define b where "b = (\<lambda>x. if unat (rg_base r) + psz k \<le> unat x \<and> unat x + psz k < unat (rg_base r) + unat (rg_total r)
    then kPoison else gx_bytes w x)"
  let ?log = "[Log_slack_hit (rg_user r), Log_slack_reclaimed (rg_user r)]" and ?regs = "(gx_regions w)[i := r\<lparr>rg_state := 2\<rparr>]"
  have R: "gx_retire k w i = (if slack_kept k w i then w\<lparr>gx_bytes := b, gx_vm := V, gx_regions := ?regs\<rparr>
      else w\<lparr>gx_logged := gx_logged w @ ?log, gx_bytes := b, gx_vm := V, gx_regions := ?regs\<rparr>)"
    by (simp add: gx_retire_def r_def [symmetric] Let_def V_def b_def)
  show ?thesis
    unfolding GuardHeap_release_def r_def [symmetric] Let_def d_def [symmetric] e_def [symmetric] slack sum.case R
    by (cases "slack_kept k w i") (simp_all add: mem S(3) evict_eq m_def V_def b_def)
qed


lemma gx_retire_inv:
  assumes inv: "gx_inv k U w" and i: "i < kMaxRegions" "rg_state (gx_regions w ! i) = 1"
  shows "gx_inv k U (gx_retire k w i)"
  by (rule gx_change [OF inv i(1), of 2]) (use i(2) in \<open>simp_all add: gx_retire_def Let_def\<close>)

lemma gx_retire_at:
  assumes "gx_inv k U w" and "i < kMaxRegions" and "j < kMaxRegions"
  shows "gx_regions (gx_retire k w i) ! j = (if j = i then (gx_regions w ! i)\<lparr>rg_state := 2\<rparr> else gx_regions w ! j)"
    and "gx_owner (gx_retire k w i) = gx_owner w"
  using gx_invD(2) [OF assms(1)] assms(2,3) by (auto simp: gx_retire_def Let_def nth_list_update)

lemma live_bytes_cong:
  assumes "\<And>j. j < kMaxRegions \<Longrightarrow> gx_owner w' ! j = this \<and> rg_state (gx_regions w' ! j) = 1 \<longleftrightarrow> gx_owner w ! j = this \<and> rg_state (gx_regions w ! j) = 1"
    and "\<And>j. j < kMaxRegions \<Longrightarrow> rg_user_size (gx_regions w' ! j) = rg_user_size (gx_regions w ! j)"
  shows "live_bytes this w' = live_bytes this w"
  unfolding live_bytes_def using assms by (intro sum.cong) auto

lemma set_drop_distinct:
  assumes "distinct q"
  shows "set (drop m q) = set q - set (take m q)"
proof -
  have "set q = set (take m q) \<union> set (drop m q)" by (metis append_take_drop_id set_append)
  then show ?thesis using set_take_disj_set_drop_if_distinct [OF assms, of m m] by blast
qed

text \<open>A release: the block goes to the end of the quarantine, which is cut at its front.\<close>

definition gx_evicted :: "GuardHeap \<Rightarrow> nat \<Rightarrow> nat list" where
  "gx_evicted h i = take (Suc (length (gx_quarantine h)) - unat (gx_quarantine_cap h)) (gx_quarantine h @ [i])"

definition gx_kept :: "GuardHeap \<Rightarrow> nat \<Rightarrow> nat list" where
  "gx_kept h i = drop (Suc (length (gx_quarantine h)) - unat (gx_quarantine_cap h)) (gx_quarantine h @ [i])"

lemma gx_quarantine_slots:
  assumes inv: "gx_inv k U w" and obj: "gx_obj this w h" and b: "gx_block this w p i"
  shows "distinct (gx_quarantine h @ [i])"
    and "set (gx_quarantine h @ [i]) =
      {j. j < kMaxRegions \<and> gx_owner w ! j = this \<and> rg_state (gx_regions (gx_retire k w i) ! j) = 2}"
    and "set (gx_kept h i) = set (gx_quarantine h @ [i]) - set (gx_evicted h i)"
    and "distinct (gx_kept h i)" and "length (gx_kept h i) \<le> unat (gx_quarantine_cap h)"
proof -
  have Q: "distinct (gx_quarantine h)"
    "set (gx_quarantine h) = {i. i < kMaxRegions \<and> gx_owner w ! i = this \<and> rg_state (gx_regions w ! i) = 2}"
    using obj by (simp_all add: gx_obj_def)
  have i: "i < kMaxRegions" "rg_state (gx_regions w ! i) = 1" "gx_owner w ! i = this" using b by (simp_all add: gx_block_def)
  show d: "distinct (gx_quarantine h @ [i])" using Q i by auto
  show "set (gx_quarantine h @ [i]) =
      {j. j < kMaxRegions \<and> gx_owner w ! j = this \<and> rg_state (gx_regions (gx_retire k w i) ! j) = 2}"
  proof -
    have "j \<in> set (gx_quarantine h @ [i]) \<longleftrightarrow> gx_owner w ! j = this \<and> rg_state (gx_regions (gx_retire k w i) ! j) = 2"
      if "j < kMaxRegions" for j
      using Q(2) i gx_retire_at(1) [OF inv i(1) that] that by auto
    then show ?thesis using Q(2) i(1) by auto
  qed
  show "set (gx_kept h i) = set (gx_quarantine h @ [i]) - set (gx_evicted h i)"
    unfolding gx_kept_def gx_evicted_def by (rule set_drop_distinct [OF d])
  show "distinct (gx_kept h i)" unfolding gx_kept_def by (rule distinct_drop [OF d])
  show "length (gx_kept h i) \<le> unat (gx_quarantine_cap h)" unfolding gx_kept_def length_drop by simp
qed

lemma gx_release_slots:
  fixes h :: GuardHeap
  assumes inv: "gx_inv k U w" and obj: "gx_obj this w h" and b: "gx_block this w p i"
  defines "w' \<equiv> drop_all k (gx_evicted h i) (gx_retire k w i)"
  shows "gx_inv k U w'"
    and "j \<in> set (gx_evicted h i) \<Longrightarrow> j < kMaxRegions \<and> gx_owner w ! j = this \<and> rg_state (gx_regions (gx_retire k w i) ! j) = 2"
    and "gx_vm w' x = (if \<exists>j \<in> set (gx_evicted h i). in_region (rgn w j) x then None
        else if in_region (rgn w i) x then Some HF_PROT_NONE else gx_vm w x)"
    and "j < kMaxRegions \<Longrightarrow> gx_regions w' ! j = (if j \<in> set (gx_evicted h i) then (gx_regions w ! j)\<lparr>rg_state := 0\<rparr>
        else if j = i then (gx_regions w ! i)\<lparr>rg_state := 2\<rparr> else gx_regions w ! j)"
    and "j < kMaxRegions \<Longrightarrow> gx_owner w' ! j = (if j \<in> set (gx_evicted h i) then NULL else gx_owner w ! j)"
    and "gx_logged w' = gx_logged w @ (if slack_kept k w i then [] else [Log_slack_hit p, Log_slack_reclaimed p])"
proof -
  let ?w = "gx_retire k w i"
  have i: "i < kMaxRegions" "rg_state (gx_regions w ! i) = 1" "rg_user (gx_regions w ! i) = p" using b by (simp_all add: gx_block_def)
  note at = gx_retire_at [OF inv i(1)] and S = gx_quarantine_slots [OF inv obj b]
  show tq: "j < kMaxRegions \<and> gx_owner w ! j = this \<and> rg_state (gx_regions ?w ! j) = 2" if "j \<in> set (gx_evicted h i)" for j
  proof -
    have "j \<in> set (gx_quarantine h @ [i])" using that unfolding gx_evicted_def by (rule in_set_takeD)
    then show ?thesis unfolding S(2) by simp
  qed
  have pre: "j < kMaxRegions \<and> rg_state (gx_regions ?w ! j) \<noteq> 0" if "j \<in> set (gx_evicted h i)" for j
    using tq [OF that] by simp
  have "distinct (gx_evicted h i)" unfolding gx_evicted_def by (rule distinct_take [OF S(1)])
  note A = drop_all_spec [OF gx_retire_inv [OF inv i(1,2)] this pre, folded w'_def]
  show "gx_inv k U w'" by (rule A(1))
  show "j < kMaxRegions \<Longrightarrow> gx_regions w' ! j = (if j \<in> set (gx_evicted h i) then (gx_regions w ! j)\<lparr>rg_state := 0\<rparr>
        else if j = i then (gx_regions w ! i)\<lparr>rg_state := 2\<rparr> else gx_regions w ! j)"
    using A(2) [of j] at(1) [of j] by auto
  show "j < kMaxRegions \<Longrightarrow> gx_owner w' ! j = (if j \<in> set (gx_evicted h i) then NULL else gx_owner w ! j)"
    using A(3) [of j] at(2) [OF i(1)] by auto
  show "gx_logged w' = gx_logged w @ (if slack_kept k w i then [] else [Log_slack_hit p, Log_slack_reclaimed p])"
    using A(6) i(3) by (simp add: gx_retire_def Let_def)
  have "in_region (rgn ?w j) x \<longleftrightarrow> in_region (rgn w j) x" if "j \<in> set (gx_evicted h i)" for j
    using at(1) [of j] tq [OF that] by auto
  then show "gx_vm w' x = (if \<exists>j \<in> set (gx_evicted h i). in_region (rgn w j) x then None
        else if in_region (rgn w i) x then Some HF_PROT_NONE else gx_vm w x)"
    using A(4) [of x] by (auto simp: gx_retire_def Let_def)
qed

lemma gx_release_objs:
  fixes h :: GuardHeap
  assumes inv: "gx_inv k U w" and obj: "gx_obj this w h" and b: "gx_block this w p i"
  defines "w' \<equiv> drop_all k (gx_evicted h i) (gx_retire k w i)"
  shows "gx_obj this w' (h\<lparr>gx_stats := set_used (hs_used (gx_stats h) - rg_user_size (gx_regions w ! i)) (count_free (gx_stats h)),
       gx_quarantine := gx_kept h i\<rparr>)"
    and "gx_obj that w h2 \<Longrightarrow> that \<noteq> this \<Longrightarrow> gx_obj that w' h2"
proof -
  let ?w = "gx_retire k w i"
  have i: "i < kMaxRegions" "rg_state (gx_regions w ! i) = 1" "gx_owner w ! i = this" using b by (simp_all add: gx_block_def)
  have Q: "this \<noteq> NULL" "\<not> gx_locked h" "hs_used (gx_stats h) = live_bytes this w" using obj by (simp_all add: gx_obj_def)
  note at = gx_retire_at [OF inv i(1)] and S = gx_quarantine_slots [OF inv obj b]
  note tq = gx_release_slots(2) [OF inv obj b] and regs = gx_release_slots(4) [OF inv obj b, folded w'_def]
    and own = gx_release_slots(5) [OF inv obj b, folded w'_def]
  show "gx_obj that w' h2" if "gx_obj that w h2" "that \<noteq> this"
  proof (rule gx_obj_other [OF that(1)])
    fix j assume j: "j < kMaxRegions" "gx_owner w ! j = that \<or> gx_owner w' ! j = that"
    have "that \<noteq> NULL" using that(1) by (simp add: gx_obj_def)
    then have "j \<notin> set (gx_evicted h i)" "j \<noteq> i" using j tq [of j] own [of j] that(2) i(3) by (auto split: if_splits)
    then show "gx_regions w' ! j = gx_regions w ! j \<and> gx_owner w' ! j = gx_owner w ! j" using regs own j(1) by simp
  qed
  have "gx_owner w ! j = this \<and> rg_state (gx_regions ?w ! j) = 2 \<and> j \<notin> set (gx_evicted h i) \<longleftrightarrow>
      gx_owner w' ! j = this \<and> rg_state (gx_regions w' ! j) = 2" if "j < kMaxRegions" for j
    using own [OF that] regs [OF that] at [OF that] Q(1) by (simp split: if_splits)
  then have dr: "set (gx_kept h i) = {j. j < kMaxRegions \<and> gx_owner w' ! j = this \<and> rg_state (gx_regions w' ! j) = 2}"
    unfolding S(3) S(2) by blast
  have "live_bytes this w' = live_bytes this ?w"
  proof (rule live_bytes_cong)
    fix j assume "j < kMaxRegions"
    then show "gx_owner w' ! j = this \<and> rg_state (gx_regions w' ! j) = 1 \<longleftrightarrow> gx_owner ?w ! j = this \<and> rg_state (gx_regions ?w ! j) = 1"
      "rg_user_size (gx_regions w' ! j) = rg_user_size (gx_regions ?w ! j)"
      using tq [of j] regs [of j] own [of j] at [of j] Q(1) by (simp_all split: if_splits)
  qed
  also have "\<dots> = live_bytes this w - rg_user_size (gx_regions w ! i)"
    using live_bytes_upd [OF i(1) gx_invD(2,3) [OF inv], of ?w "(gx_regions w ! i)\<lparr>rg_state := 2\<rparr>" this this] i
    by (simp add: gx_retire_def Let_def list_update_id [of "gx_owner w" i, unfolded i(3)])
  finally show "gx_obj this w' (h\<lparr>gx_stats := set_used (hs_used (gx_stats h) - rg_user_size (gx_regions w ! i)) (count_free (gx_stats h)),
       gx_quarantine := gx_kept h i\<rparr>)"
    using Q dr S(4,5) by (simp add: gx_obj_def)
qed

lemma GuardHeap_deallocate_eq:
  assumes inv: "gx_inv k U w" and un: "\<not> gx_locked h"
  shows "p \<noteq> NULL \<Longrightarrow> (\<And>i. \<not> gx_block this w p i) \<Longrightarrow> GuardHeap_deallocate k this (w, h) p =
      Ret (w\<lparr>gx_logged := gx_logged w @ [Log_illegal_free p, Log_free_ignored p]\<rparr>, h\<lparr>gx_stats := count_free (gx_stats h)\<rparr>)"
    and "gx_block this w p i \<Longrightarrow> GuardHeap_deallocate k this (w, h) p =
      Ret (drop_all k (gx_evicted h i) (gx_retire k w i),
        h\<lparr>gx_stats := set_used (hs_used (gx_stats h) - rg_user_size (gx_regions w ! i)) (count_free (gx_stats h)),
          gx_quarantine := gx_kept h i\<rparr>)"
proof -
  show "GuardHeap_deallocate k this (w, h) p =
      Ret (w\<lparr>gx_logged := gx_logged w @ [Log_illegal_free p, Log_free_ignored p]\<rparr>, h\<lparr>gx_stats := count_free (gx_stats h)\<rparr>)"
    if "p \<noteq> NULL" "\<And>i. \<not> gx_block this w p i"
    using that(1) un find_live_block(2) [OF inv that(2)] by (simp add: GuardHeap_deallocate_def lock_mu_def unlock_mu_def Let_def)
  assume b: "gx_block this w p i"
  then have i: "i < kMaxRegions" "rg_state (gx_regions w ! i) = 1" "rg_user (gx_regions w ! i) = p" by (simp_all add: gx_block_def)
  have "unat (rg_base (gx_regions w ! i)) + psz k \<le> unat p" using region_okD(2) [OF gx_invD(7) [OF inv i(1)]] i(2,3) by simp
  then have "p \<noteq> NULL" using kernel_wfD(2) [OF gx_invD(1) [OF inv]] by auto
  then show "GuardHeap_deallocate k this (w, h) p =
      Ret (drop_all k (gx_evicted h i) (gx_retire k w i),
        h\<lparr>gx_stats := set_used (hs_used (gx_stats h) - rg_user_size (gx_regions w ! i)) (count_free (gx_stats h)),
          gx_quarantine := gx_kept h i\<rparr>)"
    using un find_live_block(1) [OF inv b] GuardHeap_release_eq [OF inv i(1,2), unfolded i(3)]
    by (simp add: GuardHeap_deallocate_def lock_mu_def unlock_mu_def Let_def gx_kept_def gx_evicted_def del: take_append drop_append)
qed

end
