(* ===== verification/HFX_Guard_Runs.thy ===== *)
theory HFX_Guard_Runs
  imports HFX_Guard_Process
begin

text \<open>
  Processes that create, use and destroy C++ guard heaps, as a step relation; the invariant of every reachable
  state; and what a client of one heap relies on: guarded blocks, checked slack, a bounded
  quarantine, a destructor that gives back its own mappings and no others.
\<close>


subsection \<open>The destructor\<close>

lemma drop_filtered:
  fixes w :: gx_world
  assumes "length (gx_regions w) = kMaxRegions" and "length (gx_owner w) = kMaxRegions" and "distinct js" and "\<And>j. j \<in> set js \<Longrightarrow> j < kMaxRegions"
  shows "fold (\<lambda>i w. if rg_state (gx_regions w ! i) \<noteq> 0 \<and> gx_owner w ! i = this then drop_region k w i else w) js w =
    drop_all k (filter (\<lambda>i. rg_state (gx_regions w ! i) \<noteq> 0 \<and> gx_owner w ! i = this) js) w"
  using assms
proof (induction js arbitrary: w)
  case (Cons i js)
  note at = drop_region_at [OF Cons.prems(1,2), of _ k i]
  have "filter (\<lambda>j. rg_state (gx_regions (drop_region k w i) ! j) \<noteq> 0 \<and> gx_owner (drop_region k w i) ! j = this) js =
      filter (\<lambda>j. rg_state (gx_regions w ! j) \<noteq> 0 \<and> gx_owner w ! j = this) js"
    using Cons.prems(3,4) at(1,2) by (intro filter_cong) auto
  moreover have "length (gx_regions (drop_region k w i)) = kMaxRegions" "length (gx_owner (drop_region k w i)) = kMaxRegions"
    using Cons.prems(1,2) by (simp_all add: drop_region_def Let_def)
  ultimately show ?case using Cons.prems Cons.IH [of w] Cons.IH [of "drop_region k w i"] by simp
qed simp

text \<open>The slots of an object.\<close>

definition gx_slots :: "addr \<Rightarrow> gx_world \<Rightarrow> nat list" where
  "gx_slots this w = filter (\<lambda>i. rg_state (gx_regions w ! i) \<noteq> 0 \<and> gx_owner w ! i = this) [0..<kMaxRegions]"

lemma GuardHeap_dtor_spec:
  assumes inv: "gx_inv k U w"
  shows "gx_inv k U (GuardHeap_dtor k this w)"
    and "gx_vm (GuardHeap_dtor k this w) x = (if \<exists>j \<in> set (gx_slots this w). in_region (rgn w j) x then None else gx_vm w x)"
    and "j < kMaxRegions \<Longrightarrow> gx_owner (GuardHeap_dtor k this w) ! j = (if gx_owner w ! j = this then NULL else gx_owner w ! j)"
    and "gx_obj that w h2 \<Longrightarrow> that \<noteq> this \<Longrightarrow> gx_obj that (GuardHeap_dtor k this w) h2"
    and "that \<noteq> this \<Longrightarrow> that \<noteq> NULL \<Longrightarrow> j < kMaxRegions \<Longrightarrow> gx_owner w ! j = that \<or> gx_owner (GuardHeap_dtor k this w) ! j = that \<Longrightarrow>
      gx_regions (GuardHeap_dtor k this w) ! j = gx_regions w ! j \<and> gx_owner (GuardHeap_dtor k this w) ! j = gx_owner w ! j"
proof -
  note D = gx_invD [OF inv]
  have eq: "GuardHeap_dtor k this w = drop_all k (gx_slots this w) w"
    unfolding GuardHeap_dtor_def gx_slots_def by (rule drop_filtered [OF D(2,3)]) simp_all
  have d: "distinct (gx_slots this w)" by (simp add: gx_slots_def)
  have pre: "j < kMaxRegions \<and> rg_state (gx_regions w ! j) \<noteq> 0" if "j \<in> set (gx_slots this w)" for j
    using that by (simp add: gx_slots_def)
  note A = drop_all_spec [OF inv d pre, folded eq]
  show "gx_inv k U (GuardHeap_dtor k this w)" by (rule A(1))
  show "gx_vm (GuardHeap_dtor k this w) x = (if \<exists>j \<in> set (gx_slots this w). in_region (rgn w j) x then None else gx_vm w x)" by (rule A(4))
  have mem: "j \<in> set (gx_slots this w) \<longleftrightarrow> rg_state (gx_regions w ! j) \<noteq> 0 \<and> gx_owner w ! j = this" if "j < kMaxRegions" for j
    using that by (simp add: gx_slots_def)
  show own: "gx_owner (GuardHeap_dtor k this w) ! j = (if gx_owner w ! j = this then NULL else gx_owner w ! j)" if "j < kMaxRegions" for j
    using A(3) [of j] that mem [OF that] D(6) [OF that] by auto
  show same: "gx_regions (GuardHeap_dtor k this w) ! j = gx_regions w ! j \<and> gx_owner (GuardHeap_dtor k this w) ! j = gx_owner w ! j"
    if "that \<noteq> this" "that \<noteq> NULL" "j < kMaxRegions" "gx_owner w ! j = that \<or> gx_owner (GuardHeap_dtor k this w) ! j = that" for j that
  proof -
    have "gx_owner w ! j \<noteq> this" using that own [OF that(3)] by (auto split: if_splits)
    then show ?thesis using A(2) [of j] that(3) mem [OF that(3)] own [OF that(3)] by simp
  qed
  show "gx_obj that (GuardHeap_dtor k this w) h2" if o: "gx_obj that w h2" "that \<noteq> this"
    using o same [of that] by (intro gx_obj_other [OF o(1)]) (auto simp: gx_obj_def)
qed

lemma GuardHeap_dtor_others:
  assumes inv: "gx_inv k U w" and that: "that \<noteq> this" "that \<noteq> NULL"
  shows "i < kMaxRegions \<and> gx_owner (GuardHeap_dtor k this w) ! i = that \<longleftrightarrow> i < kMaxRegions \<and> gx_owner w ! i = that"
    and "i < kMaxRegions \<Longrightarrow> gx_owner w ! i = that \<Longrightarrow> gx_regions (GuardHeap_dtor k this w) ! i = gx_regions w ! i"
  using GuardHeap_dtor_spec(5) [OF inv that, of i] by auto


subsection \<open>Processes\<close>

type_synonym gx_process = "gx_world \<times> (addr \<rightharpoonup> GuardHeap)"

text \<open>
  Objects come and go at addresses of their own; a client may write to every byte it can access.  Requests
  are those whose size does not wrap.
\<close>

inductive gx_step :: "vm_kernel \<Rightarrow> gx_process \<Rightarrow> gx_process \<Rightarrow> bool" for k :: vm_kernel where
  create: "this \<noteq> NULL \<Longrightarrow> objs this = None \<Longrightarrow> GuardHeap_ctor w policy underflow cap = (w', h) \<Longrightarrow>
    gx_step k (w, objs) (w', objs(this \<mapsto> h))"
| allocate: "objs this = Some h \<Longrightarrow> gx_fits k n \<Longrightarrow> GuardHeap_allocate k this (w, h) n al = Ret (p, w', h') \<Longrightarrow>
    gx_step k (w, objs) (w', objs(this \<mapsto> h'))"
| deallocate: "objs this = Some h \<Longrightarrow> GuardHeap_deallocate k this (w, h) p = Ret (w', h') \<Longrightarrow>
    gx_step k (w, objs) (w', objs(this \<mapsto> h'))"
| client_write: "gx_vm w x = Some HF_PROT_RW \<Longrightarrow> gx_step k (w, objs) (w\<lparr>gx_bytes := (gx_bytes w)(x := v)\<rparr>, objs)"
| destroy: "objs this = Some h \<Longrightarrow> gx_step k (w, objs) (GuardHeap_dtor k this w, objs(this := None))"

definition gx_ok :: "vm_kernel \<Rightarrow> vm_pages \<Rightarrow> gx_process \<Rightarrow> bool" where
  "gx_ok k U s \<longleftrightarrow> gx_inv k U (fst s) \<and> (\<forall>this h. snd s this = Some h \<longrightarrow> gx_obj this (fst s) h) \<and>
     (\<forall>i < kMaxRegions. gx_owner (fst s) ! i \<noteq> NULL \<longrightarrow> gx_owner (fst s) ! i \<in> dom (snd s))"

lemma gx_okD:
  assumes "gx_ok k U (w, objs)"
  shows "gx_inv k U w" and "objs this = Some h \<Longrightarrow> gx_obj this w h"
    and "i < kMaxRegions \<Longrightarrow> gx_owner w ! i \<noteq> NULL \<Longrightarrow> gx_owner w ! i \<in> dom objs"
  using assms by (simp_all add: gx_ok_def)

text \<open>The process before the first guard heap: nothing is registered.\<close>

definition gx_start :: "gx_world \<Rightarrow> bool" where
  "gx_start w \<longleftrightarrow> gx_regions w = replicate kMaxRegions Region_zero \<and> gx_owner w = replicate kMaxRegions NULL"

lemma gx_start_ok:
  assumes "kernel_wf k" and "gx_start w"
  shows "gx_ok k (gx_vm w) (w, Map.empty)"
proof -
  have r: "rgn w i = gr_of Region_zero" "gx_owner w ! i = NULL" if "i < kMaxRegions" for i
    using that assms(2) by (simp_all add: gx_start_def)
  have t: "gh_table (gh_of w) = replicate GH_MAX_REGIONS (gr_of Region_zero)" using assms(2) by (simp add: gx_start_def kMax)
  have "gh_shape k (gh_of w)"
    unfolding gh_shape_def gh_of_used t by (auto simp: Region_zero_def region_ok_def)
  then have "gh_inv k (gx_vm w) (gx_vm w, gh_of w)"
    using assms(1) unfolding gh_inv_def snd_conv fst_conv t by (auto simp: Region_zero_def)
  then show ?thesis
    using assms(2) by (simp add: gx_ok_def gx_inv_def gx_start_def Region_zero_def)
qed


lemma gx_step_allocate:
  assumes ok: "gx_ok k U (w, objs)" and obj: "objs this = Some h" and fits: "gx_fits k n"
    and al: "GuardHeap_allocate k this (w, h) n al = Ret (p, w', h')"
  shows "gx_ok k U (w', objs(this \<mapsto> h'))"
proof -
  note O = gx_okD [OF ok] and o = gx_okD(2) [OF ok obj] and K = gx_invD(1) [OF gx_okD(1) [OF ok]]
  have un: "\<not> gx_locked h" using o by (simp add: gx_obj_def)
  note F = GuardHeap_allocate_failed [OF K fits un, where al = al and this = this and w = w]
  have quiet: "gx_ok k U (w, objs(this \<mapsto> h\<lparr>gx_stats := st\<rparr>))" if "hs_used st = hs_used (gx_stats h)" for st
    using O o that by (auto simp: gx_ok_def gx_obj_def)
  show ?thesis
  proof (cases "gx_align_ok k al")
    case False
    then show ?thesis using F(1) al quiet [of "gx_stats h"] ok obj by (auto simp: map_upd_triv)
  next
    case aok: True
    show ?thesis
    proof (cases "vk_mmap k (gx_vm w) (gx_span k n al)")
      case None
      then show ?thesis using F(2) [OF aok] al quiet [of "count_failed (count_alloc (gx_stats h))"] by simp
    next
      case base: (Some base)
      show ?thesis
      proof (cases "find_free_slot w")
        case None
        then show ?thesis using F(3) [OF aok base] al by simp
      next
        case (Some i)
        note i = find_free_slot_spec [OF O(1), unfolded Some option.case]
        let ?r = "gx_region k h base n al"
        have w': "w' = gx_grant k this w i ?r" "h' = gx_counted h (gx_data k n al) (gx_size n)"
          using GuardHeap_allocate_granted [OF K fits aok un base Some] al by simp_all
        have r: "rg_state ?r = 1" "rg_user_size ?r = gx_size n" by (simp_all add: gx_region_def)
        have th: "this \<noteq> NULL" using o by (simp add: gx_obj_def)
        have "gx_inv k U w'" unfolding w'
          using gx_region_layout(1,7) [OF K fits aok base, of h] i th r by (intro gx_grant_inv [OF O(1)]) simp_all
        moreover have "gx_obj this w' h'" "\<And>that h2. gx_obj that w h2 \<Longrightarrow> that \<noteq> this \<Longrightarrow> gx_obj that w' h2"
          unfolding w' using i r by (intro gx_grant_obj [OF O(1) o]; simp)+
        moreover have "gx_owner w' ! j \<in> dom (objs(this \<mapsto> h'))" if "j < kMaxRegions" "gx_owner w' ! j \<noteq> NULL" for j
          using that O(3) [of j] gx_invD(3) [OF O(1)] i unfolding w' by (cases "j = i") (auto simp: gx_grant_def)
        ultimately show ?thesis using O(2) by (auto simp: gx_ok_def)
      qed
    qed
  qed
qed

lemma gx_step_deallocate:
  assumes ok: "gx_ok k U (w, objs)" and obj: "objs this = Some h"
    and al: "GuardHeap_deallocate k this (w, h) p = Ret (w', h')"
  shows "gx_ok k U (w', objs(this \<mapsto> h'))"
proof -
  note O = gx_okD [OF ok] and o = gx_okD(2) [OF ok obj]
  have un: "\<not> gx_locked h" and th: "this \<noteq> NULL" using o by (simp_all add: gx_obj_def)
  consider "p = NULL" | "p \<noteq> NULL" "\<And>i. \<not> gx_block this w p i" | i where "gx_block this w p i" by blast
  then show ?thesis
  proof cases
    case 1
    then have "w' = w" "h' = h" using al by (simp_all add: GuardHeap_deallocate_def)
    then show ?thesis using ok obj by (simp add: map_upd_triv)
  next
    case 2
    then have w': "w' = w\<lparr>gx_logged := gx_logged w @ [Log_illegal_free p, Log_free_ignored p]\<rparr>" "h' = h\<lparr>gx_stats := count_free (gx_stats h)\<rparr>"
      using al GuardHeap_deallocate_eq(1) [OF O(1) un 2] by simp_all
    have "gx_inv k U w'" by (rule gx_inv_frame [OF O(1)]) (simp_all add: w')
    moreover have "gx_obj that w h2 \<Longrightarrow> gx_obj that w' h2" for that h2 by (erule gx_obj_frame) (simp_all add: w')
    moreover have "gx_obj this w h'" using o by (simp add: gx_obj_def w')
    ultimately show ?thesis using O(2,3) by (auto simp: gx_ok_def w')
  next
    case (3 i)
    have w': "w' = drop_all k (gx_evicted h i) (gx_retire k w i)"
      "h' = h\<lparr>gx_stats := set_used (hs_used (gx_stats h) - rg_user_size (gx_regions w ! i)) (count_free (gx_stats h)), gx_quarantine := gx_kept h i\<rparr>"
      using al GuardHeap_deallocate_eq(2) [OF O(1) un 3] by simp_all
    have "gx_owner w' ! j \<in> dom (objs(this \<mapsto> h'))" if "j < kMaxRegions" "gx_owner w' ! j \<noteq> NULL" for j
      using that O(3) [of j] gx_release_slots(5) [OF O(1) o 3, of j] unfolding w' by (auto split: if_splits)
    moreover note gx_release_slots(1) [OF O(1) o 3] gx_release_objs [OF O(1) o 3]
    ultimately show ?thesis using O(2) unfolding w' by (auto simp: gx_ok_def)
  qed
qed

lemma gx_step_ok: "gx_step k s s' \<Longrightarrow> gx_ok k U s \<Longrightarrow> gx_ok k U s'"
proof (induction rule: gx_step.induct)
  case (create this objs w policy underflow cap w' h)
  note O = gx_okD [OF create.prems]
  have w': "gx_regions w' = gx_regions w" "gx_owner w' = gx_owner w" "gx_vm w' = gx_vm w"
    and h: "\<not> gx_locked h" "gx_quarantine h = []" "hs_used (gx_stats h) = 0"
    using create.hyps(3) by (auto simp: GuardHeap_ctor_def GuardHeap_install_handler_def stats_zero_def)
  have "gx_owner w ! i \<noteq> this" if "i < kMaxRegions" for i using O(3) [OF that] create.hyps(1,2) by auto
  then have none: "{i. i < kMaxRegions \<and> gx_owner w ! i = this \<and> rg_state (gx_regions w ! i) = st} = {}" for st by blast
  then have "gx_obj this w h" unfolding gx_obj_def live_bytes_def none using create.hyps(1) h by simp
  then have "gx_obj this w' h" by (rule gx_obj_frame) (simp_all add: w')
  moreover have "gx_obj that w h2 \<Longrightarrow> gx_obj that w' h2" for that h2 by (erule gx_obj_frame) (simp_all add: w')
  moreover have "gx_inv k U w'" by (rule gx_inv_frame [OF O(1)]) (simp_all add: w')
  ultimately show ?case using O(2,3) by (auto simp: gx_ok_def w')
next
  case (client_write w x objs v)
  note O = gx_okD [OF client_write.prems]
  have "gx_inv k U (w\<lparr>gx_bytes := (gx_bytes w)(x := v)\<rparr>)" by (rule gx_inv_frame [OF O(1)]) simp_all
  moreover have "gx_obj that w h \<Longrightarrow> gx_obj that (w\<lparr>gx_bytes := (gx_bytes w)(x := v)\<rparr>) h" for that h by (erule gx_obj_frame) simp_all
  ultimately show ?case using O(2,3) by (auto simp: gx_ok_def)
next
  case (destroy objs this h w)
  note O = gx_okD [OF destroy.prems]
  have "gx_owner (GuardHeap_dtor k this w) ! i \<in> dom (objs(this := None))"
    if "i < kMaxRegions" "gx_owner (GuardHeap_dtor k this w) ! i \<noteq> NULL" for i
    using that GuardHeap_dtor_spec(3) [OF O(1) that(1), of this] O(3) [OF that(1)] by (auto split: if_splits)
  then show ?case using GuardHeap_dtor_spec(1,4) [OF O(1)] O(2) by (auto simp: gx_ok_def split: if_splits)
qed (auto intro: gx_step_allocate gx_step_deallocate)

lemma gx_runs_ok:
  assumes "kernel_wf k" and "gx_start w0" and "(gx_step k)\<^sup>*\<^sup>* (w0, Map.empty) s"
  shows "gx_ok k (gx_vm w0) s"
  using assms(3) by (induction rule: rtranclp_induct) (auto intro: gx_start_ok [OF assms(1,2)] gx_step_ok)


subsection \<open>Faults\<close>

lemma locate_region_first:
  "locate_region rs x = map_option (\<lambda>d. rs ! d) (first_slot (\<lambda>r. rg_state r \<noteq> 0 \<and> rg_base r \<le> x \<and> x < rg_base r + rg_total r) rs)"
  by (induction rs) (auto simp: option.map_comp comp_def not_less not_le)

lemma locate_region_hit:
  assumes inv: "gx_inv k U w" and i: "i < kMaxRegions" "rg_state (gx_regions w ! i) \<noteq> 0" "in_region (rgn w i) x"
  shows "locate_region (gx_regions w) x = Some (gx_regions w ! i)"
proof -
  note D = gx_invD [OF inv]
  have cmp: "rg_base (gx_regions w ! j) \<le> x \<and> x < rg_base (gx_regions w ! j) + rg_total (gx_regions w ! j) \<longleftrightarrow> in_region (rgn w j) x"
    if "j < kMaxRegions" "rg_state (gx_regions w ! j) \<noteq> 0" for j
    using in_region_cmp [OF D(7) [OF that(1)], of x] that(2) by simp
  have "first_slot (\<lambda>r. rg_state r \<noteq> 0 \<and> rg_base r \<le> x \<and> x < rg_base r + rg_total r) (gx_regions w) = Some i"
  proof (rule first_slot_unique)
    fix j assume "j < length (gx_regions w)"
      and "rg_state (gx_regions w ! j) \<noteq> 0 \<and> rg_base (gx_regions w ! j) \<le> x \<and> x < rg_base (gx_regions w ! j) + rg_total (gx_regions w ! j)"
    then show "j = i" using cmp gx_region_apart [OF inv _ _ i(1,2) _ i(3)] unfolding D(2) by blast
  qed (use i D(2) cmp [OF i(1,2)] in simp_all)
  then show ?thesis by (simp add: locate_region_first)
qed

text \<open>An access to a closed byte of a registered mapping is counted, reported, and stopped or let through.\<close>

lemma gx_access_fault:
  assumes inv: "gx_inv k U w" and i: "i < kMaxRegions" "rg_state (gx_regions w ! i) \<noteq> 0" "in_region (rgn w i) x"
    and V: "gx_vm w x = Some HF_PROT_NONE" and act: "gx_act w sig = Act_on_fault"
  obtains w' where "gx_access 2 k w sig x = Some (w', if rg_policy (gx_regions w ! i) = Continue then Access_completes else Process_dies)"
    and "Violation (classify k (gx_regions w ! i) x) (ss_hex x) (ss_hex (rg_user (gx_regions w ! i))) \<in> set (gx_err w')"
    and "total_violations w' = total_violations w + 1"
proof -
  note D = gx_invD [OF inv]
  let ?r = "gx_regions w ! i" and ?ps = "vk_page_size k" and ?page = "x AND NOT (vk_page_size k - 1)"
  note loc = locate_region_hit [OF inv i]
  have st: "gr_state (rgn w i) \<noteq> 0" using i(2) by simp
  note pg = gh_page_in_region [OF D(1) D(7) [OF i(1)] st i(3)]
  have mp: "vk_mprotect k (gx_vm w) ?page ?ps HF_PROT_RW"
    unfolding kernel_wfD(6) [OF D(1)] using pg(1,3) D(8) [OF i(1,2)] by simp
  have pset: "page_set ?page ?ps (Some HF_PROT_RW) (gx_vm w) x = Some HF_PROT_RW" using pg(2) by (simp add: page_set_eq)
  show ?thesis
  proof (cases "rg_policy ?r = Continue")
    case True
    have "gx_access 2 k w sig x = Some (on_fault k w sig x, Access_completes)"
      using V act loc True mp pset by (simp add: numeral_2_eq_2 on_fault_def Let_def)
    then show ?thesis using that [of "on_fault k w sig x"] loc True by (simp add: on_fault_def Let_def total_violations_def)
  next
    case False
    have "gx_access 2 k w sig x = Some (on_fault k w sig x, Process_dies)"
      using V act loc False by (simp add: numeral_2_eq_2 on_fault_def Let_def)
    then show ?thesis using that [of "on_fault k w sig x"] loc False by (simp add: on_fault_def Let_def total_violations_def)
  qed
qed

text \<open>A granted request, seen from the process.\<close>

lemma gx_granted:
  assumes ok: "gx_ok k U (w, objs)" and obj: "objs this = Some h" and fits: "gx_fits k n"
    and run: "GuardHeap_allocate k this (w, h) n al = Ret (Some p, w', h')"
  obtains i base where "gx_align_ok k al" and "vk_mmap k (gx_vm w) (gx_span k n al) = Some base" and "i < kMaxRegions" and "rg_state (gx_regions w ! i) = 0"
    and "gx_regions w' ! i = gx_region k h base n al" and "p = rg_user (gx_region k h base n al)" and "gx_block this w' p i"
    and "w' = gx_grant k this w i (gx_region k h base n al)" and "h' = gx_counted h (gx_data k n al) (gx_size n)"
proof -
  note O = gx_okD [OF ok] and o = gx_okD(2) [OF ok obj] and K = gx_invD(1) [OF gx_okD(1) [OF ok]]
  have un: "\<not> gx_locked h" using o by (simp add: gx_obj_def)
  note F = GuardHeap_allocate_failed [OF K fits un, where al = al and this = this and w = w]
  have aok: "gx_align_ok k al" using F(1) run by auto
  obtain base where base: "vk_mmap k (gx_vm w) (gx_span k n al) = Some base"
    using F(2) [OF aok] run by (cases "vk_mmap k (gx_vm w) (gx_span k n al)") auto
  obtain i where i: "find_free_slot w = Some i" using F(3) [OF aok base] run by (cases "find_free_slot w") auto
  note s = find_free_slot_spec [OF O(1), unfolded i option.case]
  have e: "p = rg_user (gx_region k h base n al)" "w' = gx_grant k this w i (gx_region k h base n al)" "h' = gx_counted h (gx_data k n al) (gx_size n)"
    using GuardHeap_allocate_granted [OF K fits aok un base i] run by simp_all
  have r: "gx_regions w' ! i = gx_region k h base n al" using s gx_invD(2) [OF O(1)] by (simp add: e gx_grant_def)
  moreover have "gx_block this w' p i" using s gx_invD(2,3) [OF O(1)]
    by (simp add: gx_block_def e gx_grant_def gx_region_def)
  ultimately show ?thesis using that aok base s e by blast
qed

end
