(* ===== verification/HFX_Guard_Safety.thy ===== *)
theory HFX_Guard_Safety
  imports HFX_Guard_Runs
begin

text \<open>
  The properties of the C++ guard heap: every reachable process is well-formed and loses no mapping, when its
  calls end, and what happens to accesses outside and after the life of a block.
\<close>


subsection \<open>An example\<close>

definition gx_world0 :: gx_world where
  "gx_world0 = \<lparr>gx_vm = (\<lambda>_. None), gx_bytes = (\<lambda>_. 0), gx_regions = replicate kMaxRegions Region_zero,
     gx_owner = replicate kMaxRegions NULL, gx_violations = 0, gx_once = False, gx_prev = (\<lambda>_. Act_default),
     gx_act = (\<lambda>_. Act_default), gx_err = [], gx_logged = []\<rparr>"

definition gx_world1 :: gx_world where
  "gx_world1 = fst (GuardHeap_ctor gx_world0 Abort False 1)"

definition gx_heap1 :: GuardHeap where
  "gx_heap1 = snd (GuardHeap_ctor gx_world0 Abort False 1)"

lemma gx_example_start: "gx_start gx_world0"
  by (simp add: gx_start_def gx_world0_def)

lemma gx_example_create: "gx_step kernel_example (gx_world0, Map.empty) (gx_world1, [0x5000 \<mapsto> gx_heap1])"
  by (rule gx_step.create) (simp_all add: gx_world1_def gx_heap1_def)

lemma gx_example_ok: "gx_ok kernel_example (\<lambda>_. None) (gx_world1, [0x5000 \<mapsto> gx_heap1])"
  using gx_runs_ok [OF kernel_example_wf gx_example_start r_into_rtranclp [where r = "gx_step kernel_example"], OF gx_example_create]
  by (simp add: gx_world0_def)

lemma gx_example_fits: "gx_fits kernel_example 100" "gx_align_ok kernel_example 16" "gx_align_ok kernel_example 0"
  by (simp_all add: gx_fits_def kernel_example_def gx_align_ok_def gx_align_def is_pow2_def)

lemma gx_example_fields:
  "gx_vm gx_world1 = (\<lambda>_. None)" "gx_act gx_world1 SIGSEGV = Act_on_fault" "\<not> gx_locked gx_heap1" "\<not> gx_underflow gx_heap1"
  "gx_policy gx_heap1 = Abort" "gx_quarantine gx_heap1 = []" "gx_quarantine_cap gx_heap1 = 1" "gx_logged gx_world1 = []"
  by (simp_all add: gx_world1_def gx_heap1_def gx_world0_def GuardHeap_ctor_def GuardHeap_install_handler_def)

lemma gx_example_slot: "find_free_slot gx_world1 = Some 0"
proof -
  have "[0..<kMaxRegions] = 0 # [Suc 0..<kMaxRegions]" by (rule upt_conv_Cons) (simp add: kMaxRegions_def)
  moreover have "gx_regions gx_world1 ! 0 = Region_zero" "gx_owner gx_world1 ! 0 = NULL"
    by (simp_all add: gx_world1_def gx_world0_def GuardHeap_ctor_def GuardHeap_install_handler_def kMaxRegions_def)
  ultimately show ?thesis by (simp add: find_free_slot_def Region_zero_def)
qed

lemma gx_example_grant:
  obtains w h where "GuardHeap_allocate kernel_example 0x5000 (gx_world1, gx_heap1) 100 16 = Ret (Some 0x101F90, w, h)"
proof -
  have b: "vk_mmap kernel_example (gx_vm gx_world1) (gx_span kernel_example 100 16) = Some 0x100000"
    by (simp add: kernel_example_def gx_example_fields gx_span_def gx_data_def gx_aligned_def gx_size_def gx_align_def align_up_def)
  have "rg_user (gx_region kernel_example gx_heap1 0x100000 100 16) = 0x101F90"
    by (simp add: gx_region_user gx_example_fields gx_data_def gx_aligned_def gx_size_def gx_align_def align_up_def kernel_example_def)
  then show ?thesis
    using GuardHeap_allocate_granted [OF kernel_example_wf gx_example_fits(1,2) gx_example_fields(3) b gx_example_slot] that by simp
qed

lemma gx_grant_fields: "gx_act (gx_grant k this w i r) = gx_act w" "gx_quarantine (gx_counted h d n) = gx_quarantine h"
  "gx_quarantine_cap (gx_counted h d n) = gx_quarantine_cap h" "rg_policy (gx_region k h base n al) = gx_policy h"
  by (simp_all add: gx_grant_def gx_counted_def gx_region_def Let_def)

lemma gx_example_block:
  obtains w h i where "GuardHeap_allocate kernel_example 0x5000 (gx_world1, gx_heap1) 100 16 = Ret (Some 0x101F90, w, h)"
    and "gx_ok kernel_example (\<lambda>_. None) (w, [0x5000 \<mapsto> h])" and "gx_block 0x5000 w 0x101F90 i" and "rg_policy (gx_regions w ! i) = Abort"
    and "gx_quarantine h = []" and "gx_quarantine_cap h = 1" and "gx_act w SIGSEGV = Act_on_fault"
    and "in_region (rgn w i) 0x101F90" and "region_prot kernel_example (rgn w i) 0x101F90 = HF_PROT_RW"
proof -
  obtain w h where a: "GuardHeap_allocate kernel_example 0x5000 (gx_world1, gx_heap1) 100 16 = Ret (Some 0x101F90, w, h)"
    by (rule gx_example_grant)
  have ok: "gx_ok kernel_example (\<lambda>_. None) (w, [0x5000 \<mapsto> h])"
    using gx_step_allocate [OF gx_example_ok _ gx_example_fits(1) a] by simp
  show ?thesis
  proof (rule gx_granted [OF gx_example_ok _ gx_example_fits(1) a])
    fix i base
    assume r: "gx_regions w ! i = gx_region kernel_example gx_heap1 base 100 16" and b: "gx_block 0x5000 w 0x101F90 i"
      and w: "w = gx_grant kernel_example 0x5000 gx_world1 i (gx_region kernel_example gx_heap1 base 100 16)"
      and h: "h = gx_counted gx_heap1 (gx_data kernel_example 100 16) (gx_size 100)"
    have i: "i < kMaxRegions" "rg_state (gx_regions w ! i) = 1" "rg_user (gx_regions w ! i) = 0x101F90" using b by (simp_all add: gx_block_def)
    note ro = gx_invD(7) [OF gx_okD(1) [OF ok] i(1)]
    have "in_region (rgn w i) 0x101F90" "region_prot kernel_example (rgn w i) 0x101F90 = HF_PROT_RW"
      using user_in_region [OF ro, of "0x101F90"] region_okD(4) [OF ro] i(2,3) by simp_all
    moreover have "gx_act w SIGSEGV = Act_on_fault" unfolding w gx_grant_fields by (rule gx_example_fields(2))
    moreover have "gx_quarantine h = []" "gx_quarantine_cap h = 1" unfolding h gx_grant_fields by (rule gx_example_fields)+
    moreover have "rg_policy (gx_regions w ! i) = Abort" unfolding r gx_grant_fields by (rule gx_example_fields)
    ultimately show ?thesis using a ok b by (intro that)
  qed simp
qed


subsection \<open>Properties\<close>

lemma gx_empty:
  assumes "gx_ok k U (w, Map.empty)"
  shows "gx_vm w = U"
proof
  fix x
  note O = gx_okD [OF assms] and D = gx_invD [OF gx_okD(1) [OF assms]]
  have "rg_state (gx_regions w ! i) = 0" if "i < kMaxRegions" for i using O(3) [OF that] D(6) [OF that] by auto
  then show "gx_vm w x = U x" using D(2) by (intro gh_invD(4) [OF D(4)]) simp
qed





text \<open>The bytes of the data pages of a fresh block outside the block.\<close>

definition gx_slack :: "vm_kernel \<Rightarrow> bool \<Rightarrow> u64 \<Rightarrow> u64 \<Rightarrow> addr \<Rightarrow> addr \<Rightarrow> bool" where
  "gx_slack k underflow n al p x \<longleftrightarrow>
     (let d = unat (gx_data k n al); lo = (if underflow then unat p else unat p + unat (gx_aligned n al) - d)
      in lo \<le> unat x \<and> unat x < lo + d \<and> \<not> (unat p \<le> unat x \<and> unat x < unat p + unat (gx_size n)))"

lemma gx_slack_region:
  assumes k: "kernel_wf k" and fits: "gx_fits k n" and al: "gx_align_ok k al" and base: "vk_mmap k V (gx_span k n al) = Some base"
  shows "in_slack k (gr_of (gx_region k h base n al)) x \<longleftrightarrow> gx_slack k (gx_underflow h) n al (rg_user (gx_region k h base n al)) x"
proof -
  let ?r = "gx_region k h base n al"
  note L = gx_region_layout [OF k fits al base, of h] and R = gx_request [OF k fits al]
  have pos: "0 < unat (gx_aligned n al)" using R(1,2) by linarith
  note S = gh_span [OF k pos R(4), folded align_up_c, folded gx_data_def, folded gx_span_def]
  have r: "rg_base ?r = base" "rg_user_size ?r = gx_size n" "rg_total ?r = gx_span k n al" "rg_state ?r = 1" by (simp_all add: gx_region_def)
  have t: "unat (gx_span k n al) = psz k + unat (gx_data k n al) + psz k" using S(4) by (simp add: gx_span_def)
  note O = region_okD [OF L(1), simplified, unfolded r]
  show ?thesis
  proof (cases "gx_underflow h")
    case True
    then show ?thesis using L(4) [OF True] O(3) R(1,2) S(1) t
      by (auto simp: in_slack_def gx_slack_def r Let_def)
  next
    case False
    then show ?thesis using L(5) [OF False] O(2,3) R(1,2) S(1) t
      by (auto simp: in_slack_def gx_slack_def r Let_def)
  qed
qed


lemma gx_example_overrun: "gx_aligned 100 16 = 112" "gx_align 16 = 16" "gx_size 100 = 100" "psz kernel_example = 4096"
  by (simp_all add: gx_aligned_def gx_align_def gx_size_def align_up_def kernel_example_def)


text \<open>
  C11: the bytes between a block of a C++ guard heap and its guard pages are watched until the release.  A request
  fills them with the canary; whatever the memory holds when the block is released, the release returns,
  and it logs a damaged block exactly if one of those bytes has changed.
\<close>

theorem GuardHeap_slack_checked:
  assumes "gx_ok k U (w, objs)" and "objs this = Some h" and "gx_fits k n"
    and "GuardHeap_allocate k this (w, h) n al = Ret (Some p, w', h')"
  shows "(\<forall>x. gx_slack k (gx_underflow h) n al p x \<longrightarrow> gx_bytes w' x = kSlackFill) \<and>
    (\<exists>w'' h''. GuardHeap_deallocate k this (w'\<lparr>gx_bytes := b\<rparr>, h') p = Ret (w'', h'') \<and>
       gx_logged w'' = gx_logged w' @
         (if \<forall>x. gx_slack k (gx_underflow h) n al p x \<longrightarrow> b x = kSlackFill then [] else [Log_slack_hit p, Log_slack_reclaimed p]))"
proof (rule gx_granted [OF assms])
  fix i base assume al: "gx_align_ok k al" and base: "vk_mmap k (gx_vm w) (gx_span k n al) = Some base"
    and r: "gx_regions w' ! i = gx_region k h base n al" and p: "p = rg_user (gx_region k h base n al)" and blk: "gx_block this w' p i"
    and w': "w' = gx_grant k this w i (gx_region k h base n al)"
  note K = gx_invD(1) [OF gx_okD(1) [OF assms(1)]]
  note S = gx_slack_region [OF K assms(3) al base, of h, folded p]
  let ?w = "w'\<lparr>gx_bytes := b\<rparr>"
  have ok': "gx_inv k U w'" "gx_obj this w' h'" using gx_okD [OF gx_step_allocate [OF assms]] by simp_all
  have inv: "gx_inv k U ?w" and obj: "gx_obj this ?w h'"
    using gx_inv_frame [OF ok'(1), of ?w] gx_obj_frame [OF ok'(2), of ?w] by simp_all
  have b: "gx_block this ?w p i" using blk by (simp add: gx_block_def)
  have "slack_kept k ?w i \<longleftrightarrow> (\<forall>x. gx_slack k (gx_underflow h) n al p x \<longrightarrow> b x = kSlackFill)"
    using r S by (simp add: slack_kept_def)
  moreover have "\<not> gx_locked h'" using ok'(2) by (simp add: gx_obj_def)
  ultimately show ?thesis
    using GuardHeap_deallocate_eq(2) [OF inv _ b] gx_release_slots(6) [OF inv obj b] S by (simp add: w' gx_grant_def)
qed

theorem GuardHeap_slack_checked_witness:
  "\<exists>w' h' w'' h''. GuardHeap_deallocate kernel_example 0x5000 (w'\<lparr>gx_bytes := (\<lambda>_. 0)\<rparr>, h') 0x101F90 = Ret (w'', h'') \<and>
     Log_slack_hit 0x101F90 \<in> set (gx_logged w'') \<and> gx_bytes w' 0x101FFF = kSlackFill"
proof -
  obtain w h where a: "GuardHeap_allocate kernel_example 0x5000 (gx_world1, gx_heap1) 100 16 = Ret (Some 0x101F90, w, h)"
    by (rule gx_example_grant)
  have s: "gx_slack kernel_example False 100 16 0x101F90 0x101FFF"
    by (simp add: gx_slack_def gx_data_def gx_example_overrun Let_def) (simp add: align_up_def kernel_example_def)
  then have d: "\<not> (\<forall>x. gx_slack kernel_example False 100 16 0x101F90 x \<longrightarrow> (\<lambda>_. 0) x = kSlackFill)"
    by (auto simp: kSlackFill_def)
  note T = GuardHeap_slack_checked [OF gx_example_ok _ gx_example_fits(1) a, of "\<lambda>_. 0", unfolded gx_example_fields(4)]
  have "gx_bytes w 0x101FFF = kSlackFill" using T s by (simp add: gx_example_fields)
  moreover obtain w'' h'' where "GuardHeap_deallocate kernel_example 0x5000 (w\<lparr>gx_bytes := (\<lambda>_. 0)\<rparr>, h) 0x101F90 = Ret (w'', h'')"
    "Log_slack_hit 0x101F90 \<in> set (gx_logged w'')" using T d by (auto simp: gx_example_fields)
  ultimately show ?thesis by blast
qed




text \<open>
  The destructor of a C++ guard heap unmaps exactly what its object owns, live and quarantined alike; the
  blocks of every other guard heap of the process stay as they are.
\<close>

theorem GuardHeap_dtor_exact:
  assumes "gx_ok k U (w, objs)" and "this \<noteq> NULL"
  shows "gx_vm (GuardHeap_dtor k this w) x =
      (if \<exists>i < kMaxRegions. gx_owner w ! i = this \<and> in_region (rgn w i) x then None else gx_vm w x) \<and>
    (that \<noteq> this \<and> that \<noteq> NULL \<longrightarrow> gx_block that (GuardHeap_dtor k this w) p i = gx_block that w p i)"
proof -
  note O = gx_okD [OF assms(1)] and D = gx_invD [OF gx_okD(1) [OF assms(1)]]
  note G = GuardHeap_dtor_spec [OF O(1), where this = this]
  have "j \<in> set (gx_slots this w) \<longleftrightarrow> j < kMaxRegions \<and> gx_owner w ! j = this" for j
    using D(6) [of j] assms(2) by (auto simp: gx_slots_def)
  then have "gx_vm (GuardHeap_dtor k this w) x =
      (if \<exists>i < kMaxRegions. gx_owner w ! i = this \<and> in_region (rgn w i) x then None else gx_vm w x)" using G(2) [of x] by auto
  moreover have "gx_block that (GuardHeap_dtor k this w) p i = gx_block that w p i" if "that \<noteq> this" "that \<noteq> NULL"
    using GuardHeap_dtor_others [OF O(1) that, of i] by (auto simp: gx_block_def)
  ultimately show ?thesis by blast
qed


theorem GuardHeap_dtor_exact_witness:
  "\<exists>w. gx_vm w 0x101F90 = Some HF_PROT_RW \<and> gx_vm (GuardHeap_dtor kernel_example 0x5000 w) 0x101F90 = None \<and>
     gx_vm (GuardHeap_dtor kernel_example 0x6000 w) 0x101F90 = Some HF_PROT_RW"
proof (rule gx_example_block)
  fix w h i assume ok: "gx_ok kernel_example (\<lambda>_. None) (w, [0x5000 \<mapsto> h])" and b: "gx_block 0x5000 w 0x101F90 i"
    and inr: "in_region (rgn w i) 0x101F90" "region_prot kernel_example (rgn w i) 0x101F90 = HF_PROT_RW"
  note D = gx_invD [OF gx_okD(1) [OF ok]]
  have i: "i < kMaxRegions" "rg_state (gx_regions w ! i) = 1" "gx_owner w ! i = 0x5000" using b by (simp_all add: gx_block_def)
  have V: "gx_vm w 0x101F90 = Some HF_PROT_RW" using inr D(8) [OF i(1), of "0x101F90"] i(2) by simp
  have "\<not> in_region (rgn w j) 0x101F90" if "j < kMaxRegions" "gx_owner w ! j = 0x6000" for j
  proof
    assume "in_region (rgn w j) 0x101F90"
    then have "i = j" using gx_region_apart [OF gx_okD(1) [OF ok] i(1) _ that(1) _ inr(1)] D(6) [OF that(1)] that(2) i(2) by simp
    then show False using i(3) that(2) by simp
  qed
  then have "gx_vm (GuardHeap_dtor kernel_example 0x6000 w) 0x101F90 = Some HF_PROT_RW"
    using GuardHeap_dtor_exact [OF ok, of "0x6000" "0x101F90" NULL NULL 0] V by auto
  moreover have "gx_vm (GuardHeap_dtor kernel_example 0x5000 w) 0x101F90 = None"
    using GuardHeap_dtor_exact [OF ok, of "0x5000" "0x101F90" NULL NULL 0] inr i by auto
  ultimately show ?thesis using V by blast
qed


subsection \<open>A full registry\<close>

text \<open>A heap with 4096 live blocks, one page each, side by side.\<close>

definition gx_full_region :: "nat \<Rightarrow> Region" where
  "gx_full_region i = \<lparr>rg_state = 1, rg_base = of_nat (0x1000000 + i * 0x3000), rg_total = 0x3000,
     rg_user = of_nat (0x1001000 + i * 0x3000), rg_user_size = 16, rg_policy = Abort, rg_underflow_mode = True\<rparr>"

definition gx_full :: gx_world where
  "gx_full = gx_world1\<lparr>gx_regions := map gx_full_region [0..<kMaxRegions], gx_owner := replicate kMaxRegions 0x5000,
     gx_vm := (\<lambda>x. if 0x1000000 \<le> unat x \<and> unat x < 0x4000000
       then Some (if 0x1000 \<le> (unat x - 0x1000000) mod 0x3000 \<and> (unat x - 0x1000000) mod 0x3000 < 0x2000 then HF_PROT_RW else HF_PROT_NONE)
       else None)\<rparr>"

definition gx_full_heap :: GuardHeap where
  "gx_full_heap = gx_heap1\<lparr>gx_stats := set_used (live_bytes 0x5000 gx_full) stats_zero\<rparr>"

lemma gx_full_base:
  assumes "i < kMaxRegions"
  shows "unat (of_nat (0x1000000 + i * 0x3000) :: addr) = 0x1000000 + i * 0x3000" "unat (of_nat (0x1001000 + i * 0x3000) :: addr) = 0x1001000 + i * 0x3000"
proof -
  have "0x1001000 + i * 0x3000 < 2 ^ 64" using assms by (simp add: kMaxRegions_def)
  then show "unat (of_nat (0x1000000 + i * 0x3000) :: addr) = 0x1000000 + i * 0x3000" "unat (of_nat (0x1001000 + i * 0x3000) :: addr) = 0x1001000 + i * 0x3000"
    by (intro unat_of_nat_small; simp)+
qed

lemma gx_full_in:
  assumes "i < kMaxRegions"
  shows "in_region (gr_of (gx_full_region i)) x \<longleftrightarrow> 0x1000000 \<le> unat x \<and> (unat x - 0x1000000) div 0x3000 = i"
proof -
  have b: "unat (rg_base (gx_full_region i)) = 0x1000000 + i * 0x3000" using gx_full_base(1) [OF assms] by (simp add: gx_full_region_def)
  have "in_region (gr_of (gx_full_region i)) x \<longleftrightarrow> 0x1000000 + i * 0x3000 \<le> unat x \<and> unat x < 0x1000000 + i * 0x3000 + 0x3000"
    using in_range_nat [of "rg_base (gx_full_region i)" "0x3000" x] b assms by (simp add: gx_full_region_def kMaxRegions_def)
  also have "\<dots> \<longleftrightarrow> 0x1000000 \<le> unat x \<and> (unat x - 0x1000000) div 0x3000 = i" by linarith
  finally show ?thesis .
qed


lemma gx_full_ok: "gx_ok kernel_example (\<lambda>_. None) (gx_full, [0x5000 \<mapsto> gx_full_heap])"
proof -
  have len: "length (gx_regions gx_full) = kMaxRegions" "length (gx_owner gx_full) = kMaxRegions" by (simp_all add: gx_full_def)
  have r: "gx_regions gx_full ! i = gx_full_region i" "gx_owner gx_full ! i = 0x5000" if "i < kMaxRegions" for i
    using that by (simp_all add: gx_full_def)
  have st: "rg_state (gx_full_region i) = 1" for i by (simp add: gx_full_region_def)
  have ok: "region_ok kernel_example (gr_of (gx_full_region i))" if "i < kMaxRegions" for i
  proof -
    have "4096 dvd 0x1000000 + i * 0x3000" by (intro dvd_add dvd_mult) simp_all
    moreover have "(of_nat (0x1000000 + i * 0x3000) :: addr) \<noteq> 0"
    proof
      assume "(of_nat (0x1000000 + i * 0x3000) :: addr) = 0"
      then show False using gx_full_base(1) [OF that] by simp
    qed
    ultimately show ?thesis
      using gx_full_base [OF that] that by (simp add: region_ok_def gx_full_region_def gx_example_overrun kMaxRegions_def)
  qed
  have t: "length (gh_table (gh_of gx_full)) = kMaxRegions" "gh_table (gh_of gx_full) ! i = gr_of (gx_full_region i)" if "i < kMaxRegions" for i
    using len r [OF that] that by simp_all
  have tl: "length (gh_table (gh_of gx_full)) = kMaxRegions" using len by simp
  have "gh_shape kernel_example (gh_of gx_full)"
    unfolding gh_shape_def
  proof (intro conjI ballI allI impI)
    show "region_ok kernel_example q" if "q \<in> set (gh_table (gh_of gx_full))" for q
      using that ok by (auto simp: gx_full_def)
    fix i j x assume ij: "i < GH_MAX_REGIONS" "j < GH_MAX_REGIONS" "i \<noteq> j" and x: "in_region (gh_table (gh_of gx_full) ! i) x"
    then show "\<not> in_region (gh_table (gh_of gx_full) ! j) x"
      using gx_full_in [of i x] gx_full_in [of j x] t(2) [of i] t(2) [of j] ij unfolding kMax [symmetric] by auto
  qed (use tl gh_of_used in \<open>simp_all add: kMax\<close>)
  moreover have "gx_vm gx_full x = Some (region_prot kernel_example (gr_of (gx_full_region i)) x)"
    if "i < kMaxRegions" "in_region (gr_of (gx_full_region i)) x" for i x
  proof -
    have x: "0x1000000 \<le> unat x" "(unat x - 0x1000000) div 0x3000 = i" using that gx_full_in by simp_all
    then have e: "unat x = 0x1000000 + i * 0x3000 + (unat x - 0x1000000) mod 0x3000"
      using div_mult_mod_eq [of "unat x - 0x1000000" "0x3000"] by linarith
    define m where "m = (unat x - 0x1000000) mod 0x3000"
    have "m < 0x3000" by (simp add: m_def)
    then have "unat x < 0x4000000" using e that(1) unfolding m_def [symmetric] kMaxRegions_def by simp
    moreover have "region_prot kernel_example (gr_of (gx_full_region i)) x = (if 0x1000 \<le> m \<and> m < 0x2000 then HF_PROT_RW else HF_PROT_NONE)"
      using e gx_full_base [OF that(1)] unfolding m_def [symmetric] by (auto simp: region_prot_def gx_full_region_def gx_example_overrun)
    ultimately show ?thesis using x by (simp add: gx_full_def m_def)
  qed
  moreover have "gx_vm gx_full x = None" if "\<And>i. i < kMaxRegions \<Longrightarrow> \<not> in_region (gr_of (gx_full_region i)) x" for x
  proof (rule ccontr)
    assume "gx_vm gx_full x \<noteq> None"
    then have x: "0x1000000 \<le> unat x" "unat x < 0x4000000" by (simp_all add: gx_full_def split: if_splits)
    then have "(unat x - 0x1000000) div 0x3000 < kMaxRegions" unfolding kMaxRegions_def by (simp add: div_less_iff_less_mult)
    then show False using that [of "(unat x - 0x1000000) div 0x3000"] gx_full_in x by blast
  qed
  ultimately have "gh_inv kernel_example (\<lambda>_. None) (gx_vm gx_full, gh_of gx_full)"
    using r(1) len(1) st by (intro gh_invI [OF kernel_example_wf]) auto
  then have inv: "gx_inv kernel_example (\<lambda>_. None) gx_full" using len r st by (simp add: gx_inv_def)
  have "{i. i < kMaxRegions \<and> gx_owner gx_full ! i = 0x5000 \<and> rg_state (gx_regions gx_full ! i) = 2} = {}" using r st by auto
  then have "gx_obj 0x5000 gx_full gx_full_heap"
    unfolding gx_obj_def by (simp add: gx_full_heap_def gx_example_fields)
  then show ?thesis using inv r by (simp add: gx_ok_def)
qed




text \<open>
  C16: slots of the C++ guard heap are used again.  While the live blocks and the capacity of the quarantine together
  leave one of the 4096 slots, a request to the only guard heap of a process returns, however many
  blocks were released before; it fails only if the alignment is not supported or the kernel gives no mapping.
\<close>

theorem GuardHeap_slots_reused:
  assumes "gx_ok k U (w, [this \<mapsto> h])" and "gx_fits k n"
    and "card {i. i < kMaxRegions \<and> rg_state (gx_regions w ! i) = 1} + unat (gx_quarantine_cap h) < kMaxRegions"
  shows "\<exists>r w' h'. GuardHeap_allocate k this (w, h) n al = Ret (r, w', h') \<and>
    (r = None \<longleftrightarrow> \<not> gx_align_ok k al \<or> vk_mmap k (gx_vm w) (gx_span k n al) = None)"
proof -
  note O = gx_okD [OF assms(1)] and o = gx_okD(2) [OF assms(1), of this h, simplified] and D = gx_invD [OF gx_okD(1) [OF assms(1)]]
  have Q: "\<not> gx_locked h" "length (gx_quarantine h) \<le> unat (gx_quarantine_cap h)"
    "set (gx_quarantine h) = {i. i < kMaxRegions \<and> gx_owner w ! i = this \<and> rg_state (gx_regions w ! i) = 2}"
    using o by (simp_all add: gx_obj_def)
  let ?live = "{i. i < kMaxRegions \<and> rg_state (gx_regions w ! i) = 1}"
  have "find_free_slot w \<noteq> None"
  proof
    assume n: "find_free_slot w = None"
    have "i \<in> ?live \<union> set (gx_quarantine h)" if i: "i < kMaxRegions" for i
    proof -
      have st: "rg_state (gx_regions w ! i) \<noteq> 0" using find_free_slot_spec [OF O(1), unfolded n option.case] i by simp
      have "rg_state (gx_regions w ! i) \<le> 2" using D(7) [OF i] by (simp add: region_ok_def)
      then have "rg_state (gx_regions w ! i) = 1 \<or> rg_state (gx_regions w ! i) = 2" using st by linarith
      moreover have "gx_owner w ! i \<noteq> NULL" using D(6) [OF i] st by simp
      from O(3) [OF i this] have "gx_owner w ! i = this" by simp
      ultimately show ?thesis using i unfolding Q(3) by blast
    qed
    then have "{..<kMaxRegions} \<subseteq> ?live \<union> set (gx_quarantine h)" unfolding lessThan_def by blast
    then have "card {..<kMaxRegions} \<le> card (?live \<union> set (gx_quarantine h))" by (rule card_mono [rotated]) simp
    also have "\<dots> \<le> card ?live + length (gx_quarantine h)" by (rule order_trans [OF card_Un_le]) (simp add: card_length)
    finally show False using assms(3) Q(2) by simp
  qed
  then obtain i where i: "find_free_slot w = Some i" by blast
  note F = GuardHeap_allocate_failed [OF D(1) assms(2) Q(1), where al = al and this = this and w = w]
  show ?thesis
  proof (cases "gx_align_ok k al")
    case aok: True
    show ?thesis
    proof (cases "vk_mmap k (gx_vm w) (gx_span k n al)")
      case base: (Some base)
      show ?thesis using GuardHeap_allocate_granted [OF D(1) assms(2) aok Q(1) base i] aok base by simp
    qed (use F(2) [OF aok] in simp)
  qed (use F(1) in simp)
qed

theorem GuardHeap_slots_reused_witness:
  "\<exists>r w' h'. GuardHeap_allocate kernel_example 0x5000 (gx_world1, gx_heap1) 100 16 = Ret (r, w', h') \<and>
     (r = None \<longleftrightarrow> \<not> gx_align_ok kernel_example 16 \<or> vk_mmap kernel_example (gx_vm gx_world1) (gx_span kernel_example 100 16) = None)"
proof -
  have "{i. i < kMaxRegions \<and> rg_state (gx_regions gx_world1 ! i) = 1} = {}"
    by (auto simp: gx_world1_def gx_world0_def GuardHeap_ctor_def GuardHeap_install_handler_def Region_zero_def)
  then have "card {i. i < kMaxRegions \<and> rg_state (gx_regions gx_world1 ! i) = 1} + unat (gx_quarantine_cap gx_heap1) < kMaxRegions"
    by (simp only: card.empty) (simp add: gx_example_fields kMaxRegions_def)
  then show ?thesis by (rule GuardHeap_slots_reused [OF gx_example_ok gx_example_fits(1)])
qed


subsection \<open>Sizes that wrap\<close>

text \<open>A size close to \<open>2^64\<close> rounds to 0: there are no data pages, and filling the slack behind the block writes to the front guard page.\<close>

lemma GuardHeap_allocate_wraps:
  "GuardHeap_allocate kernel_example 0x5000 (gx_world1, gx_heap1) 0xFFFFFFFFFFFFFFF8 16 = Faults 0x100FF8"
proof -
  let ?V = "page_set 0x100000 0x2000 (Some HF_PROT_RW) (\<lambda>_. None)"
  let ?W = "snd (VM_protect kernel_example (snd (VM_protect kernel_example ?V 0x100000 0x1000 Prot_None)) 0x101000 0x1000 Prot_None)"
  have n: "gx_size 0xFFFFFFFFFFFFFFF8 = 0xFFFFFFFFFFFFFFF8" "gx_aligned 0xFFFFFFFFFFFFFFF8 16 = 0" "gx_data kernel_example 0xFFFFFFFFFFFFFFF8 16 = 0"
    "gx_span kernel_example 0xFFFFFFFFFFFFFFF8 16 = 0x2000" "vk_page_size kernel_example = 0x1000"
    by (simp_all add: gx_size_def gx_aligned_def gx_align_def gx_data_def gx_span_def kernel_example_def align_up_def)
  have al: "align_up 0x2000 (vk_page_size kernel_example) = 0x2000" "align_up 0x1000 (vk_page_size kernel_example) = 0x1000"
    by (simp_all add: align_up_def n(5))
  have "vk_mmap kernel_example (\<lambda>_. None) 0x2000 = Some 0x100000" by (simp add: kernel_example_def)
  then have mapped: "VM_map kernel_example (gx_vm gx_world1) 0x2000 = (Some 0x100000, ?V)"
    unfolding VM_map_def al(1) Let_def gx_example_fields(1) by simp
  have "vk_mprotect kernel_example ?V 0x100000 0x1000 HF_PROT_NONE"
    unfolding kernel_wfD(6) [OF kernel_example_wf] page_set_eq
    using in_range_nat [of "0x100000" "0x1000"] in_range_nat [of "0x100000" "0x2000"] by (simp add: n(5))
  then have p1: "snd (VM_protect kernel_example ?V 0x100000 0x1000 Prot_None) = page_set 0x100000 0x1000 (Some HF_PROT_NONE) ?V"
    unfolding VM_protect_def al(2) Let_def by simp
  have "snd (VM_protect kernel_example W 0x101000 0x1000 Prot_None) 0x100FF8 = W 0x100FF8" for W
    unfolding VM_protect_def al(2) Let_def by (simp add: page_set_eq in_range_def)
  then have closed: "?W 0x100FF8 = Some HF_PROT_NONE"
    unfolding p1 by (simp add: page_set_eq in_range_def)
  have w: "(0x101000 :: u64) + 0xFFFFFFFFFFFFFFF8 = 0x100FF8" by simp
  have c: "unat ((0x101000 :: u64) + 0 - 0x100FF8) = Suc 7" by simp
  have fill: "fill_slack V 0x101000 0 0x101000 0xFFFFFFFFFFFFFFF8 b = Inl 0x100FF8" if "V 0x100FF8 = Some HF_PROT_NONE" for V b
    unfolding fill_slack_def w c memset_bytes.simps that by simp
  show ?thesis
    unfolding GuardHeap_allocate_unfold n(4) mapped prod.case option.case Let_def n gx_region_user
    using gx_example_fits(2) fill [where V = ?W, OF closed] by (simp add: gx_example_fields)
qed

end
